(* ===== verification/Go_Prelude.thy ===== *)
theory Go_Prelude
  imports Main "HOL-Library.Word" "HOL-Library.Multiset" "HOL-Library.AList"
begin

text \<open>
  Shared ground of the development: the Go types the services pass around (byte slices, record
  headers, Kafka records, topic partitions), the ASCII helper that several services copy, and the
  generic lemmas on maps, lists and folds that the component theories use.

  Conventions. An \<open>int64\<close> that the code only compares, adds one to or takes a minimum of is an
  \<^typ>\<open>int\<close>; where bits or wrap-around matter (the ring's counters, the bitset of \<open>Seen\<close>, the header
  encodings, the shard hash) the value is a word of its width. A Go map is a partial function
  and \<open>make\<close> gives \<^const>\<open>Map.empty\<close>. A Go string is a \<^typ>\<open>string\<close> whose characters are its
  bytes. A nil pointer is \<^const>\<open>None\<close>.
\<close>

unbundle bit_operations_syntax

named_theorems go_simps \<open>unfolding rules of the small operations of the model\<close>
named_theorems go_inv \<open>the preservation lemmas of the component invariants\<close>

type_synonym byte = "8 word"
type_synonym bytes = "byte list"

section \<open>Strings and bytes\<close>

text \<open>The conversions \<open>[]byte(s)\<close> and \<open>string(b)\<close>: both copy the bytes unchanged.\<close>

definition bytes_of :: "string \<Rightarrow> bytes" where
  "bytes_of s = map (\<lambda>c. of_nat (of_char c)) s"

definition string_of :: "bytes \<Rightarrow> string" where
  "string_of b = map (\<lambda>w. char_of (unat w)) b"

lemma length_bytes_of [simp]: "length (bytes_of s) = length s"
  by (simp add: bytes_of_def)

lemma char_byte_roundtrip: "char_of (unat (of_nat (of_char c) :: byte)) = c"
proof -
  have "of_char c < (256::nat)" by simp
  then have "unat (of_nat (of_char c) :: byte) = of_char c"
    by (simp add: unat_of_nat take_bit_eq_mod)
  then show ?thesis by simp
qed

lemma string_bytes_roundtrip [simp]: "string_of (bytes_of s) = s"
  by (induction s) (simp_all add: string_of_def bytes_of_def char_byte_roundtrip)

text \<open>
  \<open>appendLowerASCII\<close> (the same helper in the normalizer's and the order book's worker): upper-case
  ASCII letters are shifted, every other byte is copied.
\<close>

definition lower_ascii :: "char \<Rightarrow> char" where
  "lower_ascii c =
     (if 65 \<le> (of_char c :: nat) \<and> (of_char c :: nat) \<le> 90 then char_of ((of_char c :: nat) + 32) else c)"

definition appendLowerASCII :: "string \<Rightarrow> string \<Rightarrow> string" where
  "appendLowerASCII dst src = dst @ map lower_ascii src"

lemma lower_ascii_idem [simp]: "lower_ascii (lower_ascii c) = lower_ascii c"
  by (auto simp: lower_ascii_def)

section \<open>Kafka records as the services see them\<close>

text \<open>
  The fields of \<open>kgo.Record\<close> and \<open>kgo.RecordHeader\<close> that the code reads or writes.
\<close>

record header =
  HKey :: string
  HValue :: bytes

record kgo_record =
  RTopic :: string
  RPartition :: int
  ROffset :: int
  RKey :: string
  RValue :: bytes
  RHeaders :: "header list"
  RTimestamp :: int

text \<open>A consumed (topic, partition): \<open>TP\<close> in the normalizer, \<open>tp\<close> in the aggregator.\<close>

type_synonym tp = "string \<times> int"

section \<open>Maps as finite iteration domains\<close>

text \<open>
  Go iterates a map in an unspecified order. Where the body of such a loop commutes, the model
  iterates an association list with distinct keys, and the lemmas below show that the result
  does not depend on the order.
\<close>

definition max_upd :: "('k \<rightharpoonup> int) \<Rightarrow> 'k \<Rightarrow> int \<Rightarrow> ('k \<rightharpoonup> int)" where
  "max_upd m k v = m(k \<mapsto> max (case m k of None \<Rightarrow> 0 | Some u \<Rightarrow> u) v)"

text \<open>\<^const>\<open>max_upd\<close> is the statement \<open>m[k] = max(m[k], v)\<close>: a missing key reads as zero.\<close>

definition min_upd :: "('k \<rightharpoonup> int) \<Rightarrow> 'k \<Rightarrow> int \<Rightarrow> ('k \<rightharpoonup> int)" where
  "min_upd m k v = (case m k of None \<Rightarrow> m(k \<mapsto> v) | Some u \<Rightarrow> m(k \<mapsto> min u v))"

lemma max_upd_commute: "max_upd (max_upd m k v) k' v' = max_upd (max_upd m k' v') k v"
  by (auto simp: max_upd_def fun_eq_iff)

lemma min_upd_commute: "min_upd (min_upd m k v) k' v' = min_upd (min_upd m k' v') k v"
  by (auto simp: min_upd_def fun_eq_iff split: option.splits)

lemma max_upd_apply [go_simps]:
  "max_upd m k v k' = (if k' = k then Some (max (case m k of None \<Rightarrow> 0 | Some u \<Rightarrow> u) v) else m k')"
  by (simp add: max_upd_def)

lemma min_upd_apply [go_simps]:
  "min_upd m k v k' = (if k' = k then Some (case m k of None \<Rightarrow> v | Some u \<Rightarrow> min u v) else m k')"
  by (auto simp: min_upd_def split: option.splits)

text \<open>Folding \<^const>\<open>min_upd\<close> over pairs computes the minimum per key.\<close>

lemma fold_min_upd_None:
  "fold (\<lambda>(k, v) m. min_upd m k v) xs m k = None \<longleftrightarrow> m k = None \<and> k \<notin> fst ` set xs"
  by (induction xs arbitrary: m) (auto simp: go_simps split: if_splits)

lemma fold_min_upd_le:
  assumes "fold (\<lambda>(k, v) m. min_upd m k v) xs m k = Some u"
  shows "(\<forall>w. m k = Some w \<longrightarrow> u \<le> w) \<and> (\<forall>v. (k, v) \<in> set xs \<longrightarrow> u \<le> v)"
  using assms
proof (induction xs arbitrary: m)
  case Nil
  then show ?case by simp
next
  case (Cons x xs)
  obtain k' v' where x: "x = (k', v')" by (cases x)
  from Cons.prems have "fold (\<lambda>(k, v) m. min_upd m k v) xs (min_upd m k' v') k = Some u"
    by (simp add: x)
  from Cons.IH [OF this] show ?case
    by (auto simp: x go_simps split: option.splits if_splits)
qed

lemma fold_min_upd_mem:
  assumes "fold (\<lambda>(k, v) m. min_upd m k v) xs m k = Some u"
  shows "m k = Some u \<or> (k, u) \<in> set xs"
  using assms
proof (induction xs arbitrary: m)
  case Nil
  then show ?case by simp
next
  case (Cons x xs)
  obtain k' v' where x: "x = (k', v')" by (cases x)
  from Cons.prems have "fold (\<lambda>(k, v) m. min_upd m k v) xs (min_upd m k' v') k = Some u"
    by (simp add: x)
  from Cons.IH [OF this] show ?case
    by (auto simp: x go_simps min_def split: option.splits if_splits)
qed

lemma fold_max_upd_ge:
  assumes "(k, v) \<in> set xs"
  shows "\<exists>u. fold (\<lambda>(k, v) m. max_upd m k v) xs m k = Some u \<and> v \<le> u"
proof -
  have mono: "m k = Some w \<Longrightarrow> \<exists>u. fold (\<lambda>(k, v) m. max_upd m k v) xs m k = Some u \<and> w \<le> u"
    for w m and xs :: "('a \<times> int) list"
  proof (induction xs arbitrary: m w)
    case Nil
    then show ?case by simp
  next
    case (Cons x xs)
    obtain k' v' where x: "x = (k', v')" by (cases x)
    obtain w' where "max_upd m k' v' k = Some w'" "w \<le> w'"
      using Cons.prems by (cases "k = k'") (auto simp: go_simps)
    with Cons.IH [of "max_upd m k' v'" w'] show ?case by (auto simp: x)
  qed
  show ?thesis
    using assms
  proof (induction xs arbitrary: m)
    case Nil
    then show ?case by simp
  next
    case (Cons x xs)
    show ?case
    proof (cases "x = (k, v)")
      case True
      obtain w where w: "max_upd m k v k = Some w" "v \<le> w"
        by (auto simp: go_simps)
      from mono [of "max_upd m k v" w xs] w True show ?thesis by auto
    next
      case False
      with Cons show ?thesis by auto
    qed
  qed
qed

text \<open>A map from partitions to offsets as a value: \<open>m[p]\<close>, and \<open>m[p] = max(m[p], n)\<close>.\<close>

type_synonym offsets = "(int \<times> int) list"

definition off_get :: "offsets \<Rightarrow> int \<Rightarrow> int" where
  "off_get m p = (case map_of m p of None \<Rightarrow> 0 | Some n \<Rightarrow> n)"

definition off_max :: "int \<Rightarrow> int \<Rightarrow> offsets \<Rightarrow> offsets" where
  "off_max p n m = AList.update p (max (off_get m p) n) m"

lemma map_of_off_max: "map_of (off_max p n m) = max_upd (map_of m) p n"
  by (simp add: off_max_def off_get_def max_upd_def update_conv')

lemma fold_max_upd_nonneg:
  "(\<And>k v. (k, v) \<in> set xs \<Longrightarrow> 0 \<le> v) \<Longrightarrow> fold (\<lambda>(k, v) m. max_upd m k v) xs m k = Some u \<Longrightarrow> m k = Some u \<or> (k, u) \<in> set xs"
proof (induction xs arbitrary: m)
  case (Cons x xs)
  obtain k' v' where x: "x = (k', v')" by (cases x)
  define m1 where "m1 = max_upd m k' v'"
  have "\<And>k v. (k, v) \<in> set xs \<Longrightarrow> 0 \<le> v" using Cons.prems(1) by (meson list.set_intros(2))
  moreover have "fold (\<lambda>(k, v) m. max_upd m k v) xs m1 k = Some u" using Cons.prems(2) by (simp add: x m1_def)
  ultimately have "m1 k = Some u \<or> (k, u) \<in> set xs" by (rule Cons.IH)
  moreover have "0 \<le> v'" using Cons.prems(1) [of k' v'] x by simp
  ultimately show ?case by (auto simp: x m1_def go_simps max_def split: if_splits option.splits)
qed simp

section \<open>Maps as association lists\<close>

lemma set_alist_update:
  "distinct (map fst al) \<Longrightarrow> set (AList.update k v al) = insert (k, v) {e \<in> set al. fst e \<noteq> k}"
  by (induction al) (auto, force)

lemma mset_alist_update:
  "distinct (map fst al) \<Longrightarrow> mset (AList.update k v al) = add_mset (k, v) (filter_mset (\<lambda>e. fst e \<noteq> k) (mset al))"
proof (induction al)
  case (Cons e al)
  obtain k' v' where e: "e = (k', v')" by (cases e)
  show ?case
  proof (cases "k' = k")
    case True
    with Cons.prems e have "filter_mset (\<lambda>e. fst e \<noteq> k) (mset al) = mset al"
      by (force simp: filter_mset_eq_conv)
    with True e show ?thesis by simp
  qed (use Cons e in simp)
qed simp

lemma set_alist_delete: "set (AList.delete k al) = {e \<in> set al. fst e \<noteq> k}"
  by (auto simp: AList.delete_eq)

lemma mset_alist_delete: "mset (AList.delete k al) = filter_mset (\<lambda>e. fst e \<noteq> k) (mset al)"
  by (simp add: AList.delete_eq case_prod_beta' eq_commute)

text \<open>Reading every key of a map without repetition yields every value once.\<close>

lemma map_of_keys_values:
  assumes "distinct (map fst al)" "distinct ks" "set ks = fst ` set al"
  shows "mset (map (\<lambda>k. the (map_of al k)) ks) = mset (map snd al)"
proof -
  have "mset ks = mset (map fst al)"
    using assms by (metis mset_set_set set_map)
  then have "mset (map (\<lambda>k. the (map_of al k)) ks) = mset (map (\<lambda>k. the (map_of al k)) (map fst al))"
    by (metis mset_map)
  also have "map (\<lambda>k. the (map_of al k)) (map fst al) = map snd al"
    using assms(1) by (auto simp: map_of_eq_Some_iff)
  finally show ?thesis .
qed

lemma map_filter_map_of:
  "set ks \<subseteq> fst ` set al \<Longrightarrow> List.map_filter (map_of al) ks = map (\<lambda>k. the (map_of al k)) ks"
proof (induction ks)
  case (Cons k ks)
  then obtain v where "map_of al k = Some v" by (force simp: map_of_eq_None_iff dest: map_of_eq_None_iff [THEN iffD1, rotated])
  with Cons show ?case by (simp add: List.map_filter_simps)
qed (simp add: List.map_filter_simps)

section \<open>Results\<close>

text \<open>A Go call that ends in a value, in an error, or in a run-time panic.\<close>

datatype 'a outcome = Done 'a | Fail | Panic

primrec bind_out :: "'a outcome \<Rightarrow> ('a \<Rightarrow> 'b outcome) \<Rightarrow> 'b outcome" where
  "bind_out (Done x) f = f x"
| "bind_out Fail f = Fail"
| "bind_out Panic f = Panic"

definition of_opt :: "'a option \<Rightarrow> 'a outcome" where
  "of_opt m = (case m of None \<Rightarrow> Fail | Some x \<Rightarrow> Done x)"

text \<open>An index into a slice: out of range panics.\<close>

definition idx :: "'a list \<Rightarrow> nat \<Rightarrow> 'a outcome" where
  "idx xs i = (if i < length xs then Done (xs ! i) else Panic)"

lemma bind_out_split:
  "P (bind_out m f) \<longleftrightarrow> (\<forall>x. m = Done x \<longrightarrow> P (f x)) \<and> (m = Fail \<longrightarrow> P Fail) \<and> (m = Panic \<longrightarrow> P Panic)"
  by (cases m) auto

lemma bind_out_Done: "bind_out m f = Done y \<longleftrightarrow> (\<exists>x. m = Done x \<and> f x = Done y)"
  by (cases m) auto

lemma set_update_le: "set (AList.update k v al) \<subseteq> insert (k, v) (set al)"
  by (induction al) auto

end
