(* ===== verification/Src_Offset.thy ===== *)
theory Src_Offset
  imports Go_Prelude
begin

text \<open>
  The record headers that travel along the pipeline: \<open>shared/srcoffset/srcoffset.go\<close> (where an
  output came from) and \<open>shared/ingestts/ingestts.go\<close> (when the message was read off the
  websocket). Both lay integers out as big-endian bytes; the theory has the byte encodings of
  \<open>encoding/binary\<close>, the encoders and decoders, and their round trips.
\<close>

section \<open>Big-endian integers\<close>

primrec be_bytes :: "nat \<Rightarrow> 'a::len word \<Rightarrow> bytes" where
  "be_bytes 0 w = []"
| "be_bytes (Suc n) w = be_bytes n (drop_bit 8 w) @ [ucast w]"

definition putUint64 :: "64 word \<Rightarrow> bytes" where
  "putUint64 w = be_bytes 8 w"

definition putUint32 :: "32 word \<Rightarrow> bytes" where
  "putUint32 w = be_bytes 4 w"

definition be_word :: "bytes \<Rightarrow> 'a::len word" where
  "be_word bs = foldl (\<lambda>acc b. push_bit 8 acc OR ucast b) 0 bs"

definition uint64 :: "bytes \<Rightarrow> 64 word" where
  "uint64 bs = be_word (take 8 bs)"

definition uint32 :: "bytes \<Rightarrow> 32 word" where
  "uint32 bs = be_word (take 4 bs)"

lemma length_be_bytes [simp]: "length (be_bytes n w) = n"
  by (induction n arbitrary: w) simp_all

lemma length_put [simp]: "length (putUint64 w) = 8" "length (putUint32 v) = 4"
  by (simp_all add: putUint64_def putUint32_def)

lemma be_word_step:
  "push_bit 8 (take_bit (8 * n) (drop_bit 8 w)) OR ucast (ucast w :: byte) = take_bit (8 * n + 8) w"
  for w :: "'a::len word"
  by (rule bit_word_eqI)
    (auto simp: bit_simps)

lemma be_word_be_bytes: "be_word (be_bytes n w) = take_bit (8 * n) w"
proof (induction n arbitrary: w)
  case 0
  show ?case by (simp add: be_word_def)
next
  case (Suc n)
  then have "be_word (be_bytes n (drop_bit 8 w)) = take_bit (8 * n) (drop_bit 8 w)"
    by simp
  then show ?case
    using be_word_step [of n w] by (simp add: be_word_def add.commute)
qed

lemma uint64_putUint64 [simp]: "uint64 (putUint64 w @ rest) = w"
  using be_word_be_bytes [of 8 w] by (simp add: uint64_def putUint64_def take_bit_word_eq_self)

lemma uint32_putUint32 [simp]: "uint32 (putUint32 w @ rest) = w"
  using be_word_be_bytes [of 4 w] by (simp add: uint32_def putUint32_def take_bit_word_eq_self)

section \<open>The source coordinate: srcoffset.Encode and srcoffset.Decode\<close>

definition HeaderKey :: string where
  "HeaderKey = ''src''"

text \<open>
  Eight bytes offset, four bytes partition, then the topic. The conversions \<open>uint64(offset)\<close> and
  \<open>uint32(partition)\<close> reinterpret the two's complement bits: \<open>word_of_int\<close>, read back by \<open>sint\<close>.
\<close>

definition Encode :: "string \<Rightarrow> int \<Rightarrow> int \<Rightarrow> bytes" where
  "Encode topic part offset =
     putUint64 (word_of_int offset) @ putUint32 (word_of_int part) @ bytes_of topic"

definition Decode :: "bytes \<Rightarrow> (string \<times> int \<times> int) option" where
  "Decode v =
     (if length v < 12 then None
      else Some (string_of (drop 12 v), sint (uint32 (drop 8 v)), sint (uint64 v)))"

text \<open>The ranges of \<open>int64\<close> and \<open>int32\<close>.\<close>

definition in_int64 :: "int \<Rightarrow> bool" where
  "in_int64 x \<longleftrightarrow> - (2 ^ 63) \<le> x \<and> x < 2 ^ 63"

definition in_int32 :: "int \<Rightarrow> bool" where
  "in_int32 x \<longleftrightarrow> - (2 ^ 31) \<le> x \<and> x < 2 ^ 31"

lemma sint_word_of_int64: "in_int64 x \<Longrightarrow> sint (word_of_int x :: 64 word) = x"
  by (simp add: in_int64_def sint_sbintrunc' signed_take_bit_int_eq_self)

lemma sint_word_of_int32: "in_int32 x \<Longrightarrow> sint (word_of_int x :: 32 word) = x"
  by (simp add: in_int32_def sint_sbintrunc' signed_take_bit_int_eq_self)

text \<open>
  C34. The coordinate a producer stamps on an output is read back exactly by the consumer, for every
  topic, every \<open>int32\<close> partition and every \<open>int64\<close> offset (negative ones included).
\<close>

theorem Decode_Encode:
  assumes "in_int64 offset" and "in_int32 part"
  shows "Decode (Encode topic part offset) = Some (topic, part, offset)"
  using assms by (simp add: Decode_def Encode_def sint_word_of_int64 sint_word_of_int32)

theorem Decode_Encode_witness:
  "in_int64 (-5) \<and> in_int32 7 \<and>
   Decode (Encode ''raw.ticks'' 7 (-5)) = Some (''raw.ticks'', 7, -5)"
proof -
  have h: "in_int64 (-5)" "in_int32 7" by (simp_all add: in_int64_def in_int32_def)
  show ?thesis using h Decode_Encode [OF h, of "''raw.ticks''"] by simp
qed

section \<open>The ingest timestamp: ingestts\<close>

definition IngestKey :: string where
  "IngestKey = ''ing''"

definition ingest_Encode :: "int \<Rightarrow> bytes" where
  "ingest_Encode ms = putUint64 (word_of_int ms)"

definition Header :: "int \<Rightarrow> header" where
  "Header ms = \<lparr>HKey = IngestKey, HValue = ingest_Encode ms\<rparr>"

fun Find :: "header list \<Rightarrow> int option" where
  "Find [] = None"
| "Find (h # hs) =
     (if HKey h = IngestKey \<and> length (HValue h) = 8 then Some (sint (uint64 (HValue h))) else Find hs)"

lemma uint64_putUint64_exact [simp]: "uint64 (putUint64 w) = w"
  using uint64_putUint64 [of w "[]"] by simp

lemma Find_Header:
  assumes "in_int64 ms" and "\<forall>h \<in> set hs. HKey h \<noteq> IngestKey"
  shows "Find (hs @ Header ms # rest) = Some ms"
  using assms by (induction hs) (simp_all add: Header_def ingest_Encode_def sint_word_of_int64)

end
