(* ===== verification/Seen_Window.thy ===== *)
theory Seen_Window
  imports Src_Offset
begin

text \<open>
  \<open>shared/srcoffset/seen.go\<close>: the sliding bitset that recognises replayed source offsets. The
  circular bitset (256 words of 64 bits, slots reused modulo the span) is refined to the obvious
  specification: the set of offsets applied so far, with everything older than the window reported
  as applied.
\<close>

section \<open>The data\<close>

definition SeenSpan :: int where
  "SeenSpan = 16384"

type_synonym src_key = "string \<times> int"

text \<open>\<open>Bits == nil\<close> is the empty list.\<close>

record seen =
  Hi :: int
  Started :: bool
  Bits :: "64 word list"

definition seen_zero :: seen where
  "seen_zero = \<lparr>Hi = 0, Started = False, Bits = []\<rparr>"

section \<open>The operations\<close>

text \<open>
  The three lines that turn an offset into a position: \<open>off & (SeenSpan - 1)\<close>, then the word
  \<open>i >> 6\<close> and the bit \<open>i & 63\<close>.
\<close>

definition slot :: "int \<Rightarrow> int" where
  "slot off = off AND (SeenSpan - 1)"

definition word_ix :: "int \<Rightarrow> nat" where
  "word_ix i = nat (drop_bit 6 i)"

definition bit_ix :: "int \<Rightarrow> nat" where
  "bit_ix i = nat (i AND 63)"

lemma bit_ix_less: "bit_ix i < 64"
proof -
  have "i AND 63 = i mod 64"
    using take_bit_eq_mask [of 6 i] by (simp add: mask_eq_exp_minus_1 take_bit_eq_mod)
  then show ?thesis by (simp add: bit_ix_def)
qed

definition seen_set :: "64 word list \<Rightarrow> int \<Rightarrow> 64 word list" where
  "seen_set bits off =
     (let i = slot off in bits[word_ix i := bits ! word_ix i OR push_bit (bit_ix i) 1])"

definition seen_get :: "64 word list \<Rightarrow> int \<Rightarrow> bool" where
  "seen_get bits off =
     (let i = slot off in bits ! word_ix i AND push_bit (bit_ix i) 1 \<noteq> 0)"

text \<open>
  \<open>clearRange\<close>: one word per iteration, with the mask built from the first bit and the number of
  bits left in the word or in the range.
\<close>

function clearRange :: "64 word list \<Rightarrow> int \<Rightarrow> int \<Rightarrow> 64 word list" where
  "clearRange bits o' hi =
     (if o' \<le> hi then
        let i = slot o';
            b = bit_ix i;
            n0 = 64 - b;
            rem = hi - o' + 1;
            n = (if int n0 > rem then nat rem else n0);
            m = (if n < 64 then push_bit b (push_bit n 1 - 1) else NOT 0)
        in clearRange (bits[word_ix i := bits ! word_ix i AND NOT m]) (o' + int n) hi
      else bits)"
  by pat_completeness auto

termination
proof (relation "measure (\<lambda>(bits, o', hi). nat (hi + 1 - o'))", goal_cases)
  case 1
  then show ?case by simp
next
  case (2 bits o' hi i b n0 rem n m)
  then have "0 < n" using bit_ix_less [of "slot o'"] by (auto split: if_splits)
  with 2 show ?case by auto
qed

declare clearRange.simps [simp del]

text \<open>\<open>Check\<close>: reports whether the offset was already applied, and records it if not.\<close>

definition Check :: "seen \<Rightarrow> int \<Rightarrow> bool \<times> seen" where
  "Check s0 off =
     (let s = (if Bits s0 = [] then s0\<lparr>Bits := replicate 256 0\<rparr> else s0) in
      if \<not> Started s then
        (False, s\<lparr>Started := True, Hi := off, Bits := seen_set (Bits s) off\<rparr>)
      else if off > Hi s then
        (let bits = (if off - Hi s \<ge> SeenSpan then map (\<lambda>_. 0) (Bits s)
                     else clearRange (Bits s) (Hi s + 1) off)
         in (False, s\<lparr>Hi := off, Bits := seen_set bits off\<rparr>))
      else if off \<le> Hi s - SeenSpan then (True, s)
      else if seen_get (Bits s) off then (True, s)
      else (False, s\<lparr>Bits := seen_set (Bits s) off\<rparr>))"

text \<open>\<open>SeenSet.Check\<close>: one \<^typ>\<open>seen\<close> per source partition, created on first use.\<close>

type_synonym seen_set_map = "src_key \<rightharpoonup> seen"

definition SeenSet_Check :: "seen_set_map \<Rightarrow> src_key \<Rightarrow> int \<Rightarrow> bool \<times> seen_set_map" where
  "SeenSet_Check m k off =
     (let s = (case m k of None \<Rightarrow> seen_zero | Some s \<Rightarrow> s);
          r = Check s off
      in (fst r, m(k \<mapsto> snd r)))"

section \<open>The bits as a function of the slot\<close>

definition bv :: "64 word list \<Rightarrow> nat \<Rightarrow> bool" where
  "bv bits k = bit (bits ! (k div 64)) (k mod 64)"

definition sl :: "int \<Rightarrow> nat" where
  "sl off = nat (off mod 16384)"

lemma sl_less: "sl off < 16384"
  by (simp add: sl_def nat_less_iff)

lemma slot_sl: "slot off = int (sl off)"
  using take_bit_eq_mask [of 14 off]
  by (simp add: slot_def sl_def SeenSpan_def mask_eq_exp_minus_1 take_bit_eq_mod)

lemma word_ix_sl: "word_ix (slot off) = sl off div 64"
  by (simp add: word_ix_def slot_sl drop_bit_eq_div nat_div_distrib)

lemma bit_ix_sl: "bit_ix (slot off) = sl off mod 64"
proof -
  have "(int (sl off)) AND 63 = int (sl off mod 64)"
    using take_bit_eq_mask [of 6 "int (sl off)"]
    by (simp add: mask_eq_exp_minus_1 take_bit_eq_mod zmod_int)
  then show ?thesis by (simp add: bit_ix_def slot_sl)
qed

lemmas position_simps = word_ix_sl bit_ix_sl

lemma word_in_range: "k < 16384 \<Longrightarrow> k div 64 < (256::nat)"
  by (simp add: less_mult_imp_div_less)

lemma length_seen_set [simp]: "length (seen_set bits off) = length bits"
  by (simp add: seen_set_def Let_def)

lemma seen_get_bv: "seen_get bits off = bv bits (sl off)"
  by (simp add: seen_get_def bv_def position_simps Let_def bit_iff_and_push_bit_not_eq_0)

text \<open>Two slots are the same position exactly when they are the same number.\<close>

lemma position_eq: "(j div 64 = k div 64 \<and> j mod 64 = k mod 64) \<longleftrightarrow> j = (k::nat)"
  by (metis div_mult_mod_eq)

lemma bit_one_shift: "n < 64 \<Longrightarrow> bit (2 ^ n :: 64 word) m \<longleftrightarrow> m = n"
  by (auto simp: bit_simps)

lemma bv_seen_set:
  assumes "length bits = 256"
  shows "bv (seen_set bits off) k \<longleftrightarrow> k = sl off \<or> bv bits k"
proof (cases "k div 64 = sl off div 64")
  case True
  have "sl off div 64 < length bits"
    using word_in_range [OF sl_less] assms by simp
  with True have "bv (seen_set bits off) k \<longleftrightarrow> k mod 64 = sl off mod 64 \<or> bv bits k"
    by (auto simp: bv_def seen_set_def position_simps Let_def bit_or_iff bit_one_shift)
  with True position_eq [of k "sl off"] show ?thesis by auto
next
  case False
  then have "k \<noteq> sl off" by auto
  with False show ?thesis
    by (simp add: bv_def seen_set_def position_simps Let_def)
qed

text \<open>The mask of one iteration covers the bits \<open>b\<close> up to \<open>b + n\<close> of its word.\<close>

definition clear_mask :: "nat \<Rightarrow> nat \<Rightarrow> 64 word" where
  "clear_mask b n = (if n < 64 then push_bit b (push_bit n 1 - 1) else NOT 0)"

lemma bit_clear_mask:
  assumes "b + n \<le> 64" and "m < 64"
  shows "bit (clear_mask b n) m \<longleftrightarrow> b \<le> m \<and> m < b + n"
proof -
  have "push_bit n 1 - 1 = (mask n :: 64 word)"
    by (simp add: mask_eq_exp_minus_1)
  with assms show ?thesis
    by (auto simp: clear_mask_def bit_simps)
qed

lemma block_range:
  fixes j k :: nat
  assumes "j mod 64 + n \<le> 64"
  shows "j \<le> k \<and> k < j + n \<longleftrightarrow>
    k div 64 = j div 64 \<and> j mod 64 \<le> k mod 64 \<and> k mod 64 < j mod 64 + n"
proof -
  have arith: "64 * c + d \<le> 64 * a + b \<and> 64 * a + b < 64 * c + d + n \<longleftrightarrow> a = c \<and> d \<le> b \<and> b < d + n"
    if "b < 64" "d + n \<le> 64" for a b c d :: nat
  proof
    assume h: "64 * c + d \<le> 64 * a + b \<and> 64 * a + b < 64 * c + d + n"
    with that have "a = c" by linarith
    with h show "a = c \<and> d \<le> b \<and> b < d + n" by simp
  qed auto
  show ?thesis
    using arith [of "k mod 64" "j mod 64" "j div 64" "k div 64"] assms
    by (simp only: mult_div_mod_eq mod_less_divisor zero_less_numeral)
qed

lemma bv_clear_step:
  assumes len: "length bits = 256" and n: "sl o' mod 64 + n \<le> 64"
  shows "bv (bits[sl o' div 64 := bits ! (sl o' div 64) AND NOT (clear_mask (sl o' mod 64) n)]) k
    \<longleftrightarrow> bv bits k \<and> \<not> (sl o' \<le> k \<and> k < sl o' + n)"
proof (cases "k div 64 = sl o' div 64")
  case True
  have "sl o' div 64 < length bits"
    using word_in_range [OF sl_less] len by simp
  with True show ?thesis
    by (auto simp: bv_def bit_and_iff bit_not_iff bit_clear_mask [OF n] block_range [OF n])
next
  case False
  with block_range [OF n, of k] show ?thesis by (simp add: bv_def)
qed

text \<open>
  The loop clears exactly the slots of the offsets \<open>lo .. hi\<close>, whatever the number of words or
  turns around the ring this takes.
\<close>

lemma sl_add:
  assumes "sl o' mod 64 + n \<le> 64" and "i < n"
  shows "sl (o' + int i) = sl o' + i"
proof -
  have "sl o' + i < 16384"
    using assms word_in_range [OF sl_less, of o'] div_mult_mod_eq [of "sl o'" 64] by linarith
  then have "(o' mod 16384 + int i) mod 16384 = o' mod 16384 + int i"
    by (intro mod_pos_pos_trivial) (simp_all add: sl_def)
  then have "(o' + int i) mod 16384 = o' mod 16384 + int i"
    by (simp only: mod_add_left_eq)
  then show ?thesis by (simp add: sl_def nat_add_distrib)
qed

lemma sl_block:
  assumes n: "sl o' mod 64 + n \<le> 64"
  shows "(sl o' \<le> k \<and> k < sl o' + n) \<longleftrightarrow> (\<exists>x. o' \<le> x \<and> x < o' + int n \<and> sl x = k)"
proof
  assume h: "sl o' \<le> k \<and> k < sl o' + n"
  then have "k - sl o' < n" by linarith
  then have "sl (o' + int (k - sl o')) = k"
    using sl_add [OF n, of "k - sl o'"] h by (simp del: of_nat_diff)
  with h show "\<exists>x. o' \<le> x \<and> x < o' + int n \<and> sl x = k"
    by (intro exI [of _ "o' + int (k - sl o')"]) auto
next
  assume "\<exists>x. o' \<le> x \<and> x < o' + int n \<and> sl x = k"
  then obtain x where x: "o' \<le> x" "x < o' + int n" "sl x = k" by blast
  then have "x = o' + int (nat (x - o'))" "nat (x - o') < n" by auto
  with sl_add [OF n] x(3) show "sl o' \<le> k \<and> k < sl o' + n"
    by (metis add_less_cancel_left le_add1)
qed

lemma range_split:
  fixes lo hi :: int
  assumes "0 < n" and "lo + int n \<le> hi + 1"
  shows "(\<exists>x. lo \<le> x \<and> x \<le> hi \<and> P x) \<longleftrightarrow>
    (\<exists>x. lo \<le> x \<and> x < lo + int n \<and> P x) \<or> (\<exists>x. lo + int n \<le> x \<and> x \<le> hi \<and> P x)"
proof -
  have "lo \<le> x \<and> x \<le> hi \<longleftrightarrow> (lo \<le> x \<and> x < lo + int n) \<or> (lo + int n \<le> x \<and> x \<le> hi)" for x
    using assms by linarith
  then show ?thesis by blast
qed

lemma length_clearRange: "length (clearRange bits lo hi) = length bits"
  by (induction bits lo hi rule: clearRange.induct) (subst clearRange.simps, simp add: Let_def)

lemma clearRange_bv:
  assumes "length bits = 256"
  shows "bv (clearRange bits lo hi) k \<longleftrightarrow> bv bits k \<and> \<not> (\<exists>x. lo \<le> x \<and> x \<le> hi \<and> sl x = k)"
  using assms
proof (induction bits lo hi rule: clearRange.induct)
  case (1 bits o' hi)
  show ?case
  proof (cases "o' \<le> hi")
    case False
    then show ?thesis by (simp add: clearRange.simps)
  next
    case True
    define n where "n = (if int (64 - sl o' mod 64) > hi - o' + 1 then nat (hi - o' + 1) else 64 - sl o' mod 64)"
    have n: "sl o' mod 64 + n \<le> 64" "0 < n" "o' + int n \<le> hi + 1"
      using True by (auto simp: n_def split: if_splits)
    let ?bits = "bits[sl o' div 64 := bits ! (sl o' div 64) AND NOT (clear_mask (sl o' mod 64) n)]"
    have unfold: "clearRange bits o' hi = clearRange ?bits (o' + int n) hi"
      unfolding clearRange.simps [of bits o' hi] Let_def position_simps clear_mask_def n_def
      using True by (simp only: if_True)
    have IH: "bv (clearRange ?bits (o' + int n) hi) k \<longleftrightarrow>
        bv ?bits k \<and> \<not> (\<exists>x. o' + int n \<le> x \<and> x \<le> hi \<and> sl x = k)"
      using "1.IH" [OF True refl refl refl refl refl refl] "1.prems"
      unfolding position_simps clear_mask_def n_def by simp
    have step: "bv ?bits k \<longleftrightarrow> bv bits k \<and> \<not> (sl o' \<le> k \<and> k < sl o' + n)"
      using "1.prems" n(1) by (rule bv_clear_step)
    have block: "(sl o' \<le> k \<and> k < sl o' + n) \<longleftrightarrow> (\<exists>x. o' \<le> x \<and> x < o' + int n \<and> sl x = k)"
      using n(1) by (rule sl_block)
    have split: "(\<exists>x. o' \<le> x \<and> x \<le> hi \<and> sl x = k) \<longleftrightarrow>
        (\<exists>x. o' \<le> x \<and> x < o' + int n \<and> sl x = k) \<or> (\<exists>x. o' + int n \<le> x \<and> x \<le> hi \<and> sl x = k)"
      using n(2,3) by (rule range_split)
    show ?thesis
      unfolding unfold IH step block split by blast
  qed
qed

section \<open>The specification and the refinement\<close>

text \<open>
  What a window of remembered offsets promises its client: the abstract state is the set of offsets
  applied so far; an offset is reported as a duplicate exactly when it was applied or is older than the
  window; an offset that is not reported is recorded.
\<close>

locale dedup_window =
  fixes zero :: "'s"
    and check :: "'s \<Rightarrow> int \<Rightarrow> bool \<times> 's"
    and rel :: "'s \<Rightarrow> int set \<Rightarrow> bool"
    and span :: int
  assumes rel_zero: "rel zero {}"
    and check_dup: "rel s A \<Longrightarrow> fst (check s off) \<longleftrightarrow> off \<in> A \<or> (A \<noteq> {} \<and> off \<le> Max A - span)"
    and check_rel: "rel s A \<Longrightarrow> rel (snd (check s off)) (if fst (check s off) then A else insert off A)"

text \<open>Runs: the verdict of each call, and the offsets the calls let through.\<close>

fun dups :: "('s \<Rightarrow> int \<Rightarrow> bool \<times> 's) \<Rightarrow> 's \<Rightarrow> int list \<Rightarrow> bool list" where
  "dups check s [] = []"
| "dups check s (off # offs) = fst (check s off) # dups check (snd (check s off)) offs"

fun accepted :: "('s \<Rightarrow> int \<Rightarrow> bool \<times> 's) \<Rightarrow> 's \<Rightarrow> int list \<Rightarrow> int list" where
  "accepted check s [] = []"
| "accepted check s (off # offs) =
     (if fst (check s off) then accepted check (snd (check s off)) offs
      else off # accepted check (snd (check s off)) offs)"

fun after :: "('s \<Rightarrow> int \<Rightarrow> bool \<times> 's) \<Rightarrow> 's \<Rightarrow> int list \<Rightarrow> 's" where
  "after check s [] = s"
| "after check s (off # offs) = after check (snd (check s off)) offs"

text \<open>The map model: every offset ever applied, bounded by the window.\<close>

fun map_model :: "int \<Rightarrow> int set \<Rightarrow> int list \<Rightarrow> bool list" where
  "map_model span A [] = []"
| "map_model span A (off # offs) =
     (let d = off \<in> A \<or> (A \<noteq> {} \<and> off \<le> Max A - span)
      in d # map_model span (if d then A else insert off A) offs)"

context dedup_window
begin

lemma dups_model: "rel s A \<Longrightarrow> dups check s offs = map_model span A offs"
proof (induction offs arbitrary: s A)
  case Nil
  show ?case by simp
next
  case (Cons off offs)
  note d = check_dup [OF Cons.prems, of off] and r = check_rel [OF Cons.prems, of off]
  show ?case
    using Cons.IH [OF r] d by (auto simp: Let_def)
qed

lemma after_rel: "rel s A \<Longrightarrow> rel (after check s offs) (A \<union> set (accepted check s offs))"
proof (induction offs arbitrary: s A)
  case Nil
  then show ?case by simp
next
  case (Cons off offs)
  show ?case
    using Cons.IH [OF check_rel [OF Cons.prems, of off]] by (auto split: if_splits)
qed

lemma accepted_once:
  "rel s A \<Longrightarrow> distinct (accepted check s offs) \<and> A \<inter> set (accepted check s offs) = {}"
proof (induction offs arbitrary: s A)
  case Nil
  show ?case by simp
next
  case (Cons off offs)
  show ?case
    using Cons.IH [OF check_rel [OF Cons.prems, of off]] check_dup [OF Cons.prems, of off]
    by (auto split: if_splits)
qed

lemma replay_dropped:
  assumes "off \<in> set (accepted check zero offs)"
  shows "fst (check (after check zero offs) off)"
  using after_rel [OF rel_zero, of offs] assms by (auto simp: check_dup)

lemma late_accepted:
  assumes "off \<notin> set (accepted check zero offs)"
    and "\<forall>x \<in> set (accepted check zero offs). x - span < off"
  shows "\<not> fst (check (after check zero offs) off)"
proof -
  let ?A = "set (accepted check zero offs)"
  have "Max ?A \<in> ?A" if "?A \<noteq> {}" using that by (intro Max_in) auto
  with assms(2) have "?A \<noteq> {} \<Longrightarrow> \<not> off \<le> Max ?A - span" by fastforce
  with after_rel [OF rel_zero, of offs] assms(1) show ?thesis by (auto simp: check_dup)
qed

end

text \<open>The representation relation of the bitset.\<close>

definition seen_rel :: "seen \<Rightarrow> int set \<Rightarrow> bool" where
  "seen_rel s A \<longleftrightarrow>
     (if Started s
      then finite A \<and> A \<noteq> {} \<and> Hi s = Max A \<and> length (Bits s) = 256 \<and>
           (\<forall>x. Hi s - SeenSpan < x \<and> x \<le> Hi s \<longrightarrow> (seen_get (Bits s) x \<longleftrightarrow> x \<in> A))
      else A = {} \<and> Bits s = [])"

lemma sl_inj:
  assumes "sl x = sl y" and "\<bar>x - y\<bar> < 16384"
  shows "x = y"
proof -
  have "x mod 16384 = y mod 16384"
    using assms(1) by (simp add: sl_def eq_nat_nat_iff)
  then have "(x - y) mod 16384 = 0" by (simp add: mod_eq_dvd_iff)
  then obtain q where "x - y = 16384 * q" by (auto simp: mod_eq_0_iff_dvd dvd_def)
  with assms(2) have "q = 0" by (simp add: abs_mult)
  with \<open>x - y = 16384 * q\<close> show ?thesis by simp
qed

lemma bv_zero: "k < 16384 \<Longrightarrow> \<not> bv (replicate 256 0) k"
  using word_in_range [of k] by (simp add: bv_def)

lemma map_zero: "length bits = 256 \<Longrightarrow> map (\<lambda>_. 0 :: 64 word) bits = replicate 256 0"
  by (simp add: map_replicate_const)

lemma seen_rel_start: "seen_rel \<lparr>Hi = off, Started = True, Bits = seen_set (replicate 256 0) off\<rparr> {off}"
proof -
  have "seen_get (seen_set (replicate 256 0) off) x \<longleftrightarrow> x = off" if "off - 16384 < x" "x \<le> off" for x
    using that sl_inj [of x off] bv_zero [OF sl_less, of x]
    by (auto simp: seen_get_bv bv_seen_set)
  then show ?thesis by (simp add: seen_rel_def SeenSpan_def)
qed

lemma Max_insert_hi:
  assumes "finite A" and "A \<noteq> {}" and "Max A < off"
  shows "Max (insert off A) = off"
  using assms by (intro Max_eqI) (auto dest: Max_ge)

lemma seen_rel_forward:
  assumes "seen_rel s A" and "Started s" and "Hi s < off"
  shows "seen_rel (s\<lparr>Hi := off, Bits := seen_set (if off - Hi s \<ge> SeenSpan then map (\<lambda>_. 0) (Bits s)
      else clearRange (Bits s) (Hi s + 1) off) off\<rparr>) (insert off A)" (is "seen_rel ?s _")
proof -
  from assms have A: "finite A" "A \<noteq> {}" "Hi s = Max A" and len: "length (Bits s) = 256"
    and win: "\<And>x. Hi s - 16384 < x \<Longrightarrow> x \<le> Hi s \<Longrightarrow> bv (Bits s) (sl x) \<longleftrightarrow> x \<in> A"
    by (auto simp: seen_rel_def SeenSpan_def seen_get_bv)
  have le: "x \<le> Hi s" if "x \<in> A" for x using A that by simp
  have "seen_get (Bits ?s) x \<longleftrightarrow> x \<in> insert off A" if x: "off - 16384 < x" "x \<le> off" for x
  proof (cases "off - Hi s \<ge> 16384")
    case True
    with x le [of x] have "x \<notin> A" by auto
    with True len x sl_inj [of x off] bv_zero [OF sl_less, of x] show ?thesis
      by (auto simp: SeenSpan_def seen_get_bv map_zero bv_seen_set)
  next
    case False
    have "seen_get (Bits ?s) x \<longleftrightarrow>
        x = off \<or> (bv (Bits s) (sl x) \<and> \<not> (\<exists>y. Hi s + 1 \<le> y \<and> y \<le> off \<and> sl y = sl x))"
      using False len x sl_inj [of x off]
      by (auto simp: SeenSpan_def seen_get_bv bv_seen_set length_clearRange clearRange_bv)
    also have "\<dots> \<longleftrightarrow> x \<in> insert off A"
    proof (cases "x \<le> Hi s")
      case True
      have "y = x" if "Hi s + 1 \<le> y" "y \<le> off" "sl y = sl x" for y
        using that x True by (intro sl_inj) auto
      with True win [of x] x assms(3) show ?thesis by auto
    next
      case False
      with x le [of x] show ?thesis by auto
    qed
    finally show ?thesis .
  qed
  with A len assms(2,3) Max_insert_hi [OF A(1,2), of off] show ?thesis
    by (auto simp: seen_rel_def SeenSpan_def length_clearRange)
qed

lemma seen_rel_inside:
  assumes "seen_rel s A" and "Started s" and off: "off \<le> Hi s" "Hi s - SeenSpan < off"
  shows "seen_rel (s\<lparr>Bits := seen_set (Bits s) off\<rparr>) (insert off A)"
proof -
  from assms have A: "finite A" "A \<noteq> {}" "Hi s = Max A" and len: "length (Bits s) = 256"
    and win: "\<And>x. Hi s - 16384 < x \<Longrightarrow> x \<le> Hi s \<Longrightarrow> bv (Bits s) (sl x) \<longleftrightarrow> x \<in> A"
    by (auto simp: seen_rel_def SeenSpan_def seen_get_bv)
  have "seen_get (seen_set (Bits s) off) x \<longleftrightarrow> x \<in> insert off A"
    if x: "Hi s - 16384 < x" "x \<le> Hi s" for x
    using len win [OF x] x off sl_inj [of x off]
    by (auto simp: SeenSpan_def seen_get_bv bv_seen_set)
  moreover have "Max (insert off A) = Max A" using A off by simp
  ultimately show ?thesis using A len assms(2) by (simp add: seen_rel_def SeenSpan_def)
qed

interpretation sw: dedup_window seen_zero Check seen_rel SeenSpan
proof unfold_locales
  show "seen_rel seen_zero {}" by (simp add: seen_rel_def seen_zero_def)
next
  fix s A off
  assume r: "seen_rel s A"
  show "fst (Check s off) \<longleftrightarrow> off \<in> A \<or> (A \<noteq> {} \<and> off \<le> Max A - SeenSpan)"
  proof (cases "Started s")
    case True
    with r have A: "finite A" "A \<noteq> {}" "Hi s = Max A" "Bits s \<noteq> []" by (auto simp: seen_rel_def)
    have le: "off \<in> A \<Longrightarrow> \<not> Max A < off" using A by (auto simp: not_less)
    with A r True show ?thesis
      by (auto simp: Check_def Let_def seen_rel_def SeenSpan_def simp del: Max_less_iff)
  next
    case False
    with r show ?thesis by (simp add: Check_def Let_def seen_rel_def)
  qed
next
  fix s A off
  assume r: "seen_rel s A"
  show "seen_rel (snd (Check s off)) (if fst (Check s off) then A else insert off A)"
  proof (cases "Started s")
    case True
    with r have "Bits s \<noteq> []" by (auto simp: seen_rel_def)
    then show ?thesis
      using r True seen_rel_forward [OF r True, of off] seen_rel_inside [OF r True, of off]
      by (auto simp: Check_def Let_def)
  next
    case False
    with r seen_rel_start [of off] show ?thesis
      by (cases s) (simp add: Check_def Let_def seen_rel_def)
  qed
qed

lemma Check_run_model: "dups Check seen_zero offs = map_model SeenSpan {} offs"
  by (rule sw.dups_model) (rule sw.rel_zero)

section \<open>Properties\<close>

text \<open>
  C7. The circular bitset answers every sequence of calls, on any offsets, exactly as the map of every
  offset ever applied bounded by the window does: late offsets inside the window are new once,
  repeated ones are duplicates, and offsets that fell out of the window count as applied.
\<close>

theorem Check_matches_map_model: "dups Check seen_zero offs = map_model SeenSpan {} offs"
  by (rule Check_run_model)

text \<open>
  No offset is applied twice: the offsets the window lets through are pairwise different, over any
  sequence of deliveries and replays.
\<close>

theorem Check_applies_once: "distinct (accepted Check seen_zero offs)"
  using sw.accepted_once [OF sw.rel_zero] by blast

text \<open>
  A record that was never applied and is not older than the window is never dropped, however late it
  arrives; and one that was applied is always recognised, even after any number of later records.
\<close>

theorem Check_no_false_drop:
  assumes "\<forall>x \<in> set (accepted Check seen_zero offs). x - SeenSpan < off"
  shows "fst (Check (after Check seen_zero offs) off) \<longleftrightarrow> off \<in> set (accepted Check seen_zero offs)"
  using assms sw.late_accepted sw.replay_dropped by blast

theorem Check_no_false_drop_witness:
  "accepted Check seen_zero [100, 104] = [100, 104] \<and>
   \<not> fst (Check (after Check seen_zero [100, 104]) 103)"
proof -
  have a: "accepted Check seen_zero [100, 104] = [100, 104]" by code_simp
  have "\<forall>x \<in> set (accepted Check seen_zero [100, 104]). x - SeenSpan < 103"
    unfolding a by (simp add: SeenSpan_def)
  from Check_no_false_drop [OF this, unfolded a] have "\<not> fst (Check (after Check seen_zero [100, 104]) 103)"
    by (simp del: after.simps)
  with a show ?thesis by blast
qed

text \<open>A run of \<open>SeenSet.Check\<close>: the verdicts with their keys.\<close>

fun set_dups :: "seen_set_map \<Rightarrow> (src_key \<times> int) list \<Rightarrow> (src_key \<times> bool) list" where
  "set_dups m [] = []"
| "set_dups m ((k, off) # xs) =
     (k, fst (SeenSet_Check m k off)) # set_dups (snd (SeenSet_Check m k off)) xs"

definition for_key :: "'k \<Rightarrow> ('k \<times> 'v) list \<Rightarrow> 'v list" where
  "for_key k xs = map snd (filter (\<lambda>p. fst p = k) xs)"

lemma set_dups_key:
  "for_key k (set_dups m xs) =
   dups Check (case m k of None \<Rightarrow> seen_zero | Some s \<Rightarrow> s) (for_key k xs)"
proof (induction xs arbitrary: m)
  case Nil
  show ?case by (simp add: for_key_def)
next
  case (Cons x xs)
  obtain k' off where x: "x = (k', off)" by (cases x)
  define m' where "m' = snd (SeenSet_Check m k' off)"
  have m': "m' k = (if k = k' then Some (snd (Check (case m k' of None \<Rightarrow> seen_zero | Some s \<Rightarrow> s) off)) else m k)"
    by (simp add: m'_def SeenSet_Check_def Let_def)
  have "for_key k (set_dups m (x # xs)) =
      (if k = k' then [fst (SeenSet_Check m k' off)] else []) @ for_key k (set_dups m' xs)"
    by (simp add: x for_key_def m'_def)
  then show ?case
    using Cons.IH [of m'] m' by (auto simp: x for_key_def SeenSet_Check_def Let_def)
qed

text \<open>
  The windows of different source partitions do not influence each other: the verdicts for one
  partition are those of its own offsets alone, in order.
\<close>

theorem SeenSet_per_partition:
  "for_key k (set_dups Map.empty xs) = map_model SeenSpan {} (for_key k xs)"
  using Check_run_model by (simp add: set_dups_key)

end
