(* ===== verification/Poll_Deadline.thy ===== *)
theory Poll_Deadline
  imports Main
begin

text \<open>
  The reusable deadline of the polling loops (\<open>shared/polldeadline/poll_deadline.go\<close>). A worker calls \<open>Reset\<close> before each
  poll and polls with the result as its context; a second goroutine owns the timer. The operations are cut where the two
  meet: the unbuffered channel \<open>armReq\<close> and the channel \<open>done\<close> of size one.
\<close>

section \<open>The deadline and its two goroutines\<close>

text \<open>
  The worker is outside a poll, inside \<open>Reset\<close> after the drain, polling, or woken by the deadline. \<open>armed\<close> is true while
  the goroutine is in its inner loop, \<open>fired\<close> while \<open>timer.C\<close> holds a value, \<open>signalled\<close> while \<open>done\<close> does.
\<close>

datatype worker_phase = Idle | Arming | Polling | Woken

record PollDeadline =
  armed :: bool
  fired :: bool
  signalled :: bool
  phase :: worker_phase

definition pd_New :: PollDeadline where
  "pd_New = \<lparr>armed = False, fired = False, signalled = False, phase = Idle\<rparr>"

text \<open>The two halves of \<open>Reset\<close>: drain \<open>done\<close>, then hand the timeout over, which the goroutine takes in either of its loops.\<close>

definition Reset_drain :: "PollDeadline \<Rightarrow> PollDeadline" where
  "Reset_drain d = d\<lparr>signalled := False, phase := Arming\<rparr>"

definition Reset_arm :: "PollDeadline \<Rightarrow> PollDeadline" where
  "Reset_arm d = d\<lparr>armed := True, fired := False, phase := Polling\<rparr>"

text \<open>The timer runs out; the goroutine takes the tick, signals unless \<open>done\<close> is full, and waits for the next request.\<close>

definition timer_expires :: "PollDeadline \<Rightarrow> PollDeadline" where
  "timer_expires d = d\<lparr>fired := True\<rparr>"

definition loop_signal :: "PollDeadline \<Rightarrow> PollDeadline" where
  "loop_signal d = d\<lparr>armed := False, fired := False, signalled := True\<rparr>"

text \<open>\<open>Err\<close> takes the signal; true stands for \<open>DeadlineExceeded\<close>.\<close>

definition pd_Err :: "PollDeadline \<Rightarrow> bool \<times> PollDeadline" where
  "pd_Err d = (signalled d, d\<lparr>signalled := False\<rparr>)"

text \<open>The poll: it returns with data, or receives from \<open>Done()\<close>.\<close>

inductive dstep :: "PollDeadline \<Rightarrow> PollDeadline \<Rightarrow> bool" where
  drain: "phase d = Idle \<or> phase d = Woken \<Longrightarrow> dstep d (Reset_drain d)"
| arm: "phase d = Arming \<Longrightarrow> dstep d (Reset_arm d)"
| expire: "armed d \<Longrightarrow> \<not> fired d \<Longrightarrow> dstep d (timer_expires d)"
| signal: "armed d \<Longrightarrow> fired d \<Longrightarrow> dstep d (loop_signal d)"
| fetched: "phase d = Polling \<Longrightarrow> dstep d (d\<lparr>phase := Idle\<rparr>)"
| deadline: "phase d = Polling \<Longrightarrow> signalled d \<Longrightarrow> dstep d (d\<lparr>signalled := False, phase := Woken\<rparr>)"

inductive dreach :: "PollDeadline \<Rightarrow> bool" where
  init: "dreach pd_New"
| step: "dreach d \<Longrightarrow> dstep d d' \<Longrightarrow> dreach d'"

lemmas pd_defs = pd_New_def Reset_drain_def Reset_arm_def timer_expires_def loop_signal_def

section \<open>Properties\<close>

definition guarded :: "PollDeadline \<Rightarrow> bool" where
  "guarded d \<longleftrightarrow> (fired d \<longrightarrow> armed d) \<and> (phase d = Polling \<longrightarrow> armed d \<or> signalled d)"

lemma guarded_step: "dstep d d' \<Longrightarrow> guarded d \<Longrightarrow> guarded d'"
  by (induction rule: dstep.induct) (auto simp: guarded_def pd_defs)

lemma guarded_reach: "dreach d \<Longrightarrow> guarded d"
  by (induction rule: dreach.induct) (auto simp: guarded_def pd_New_def dest: guarded_step [unfolded guarded_def])

text \<open>
  C33. A poll never hangs. In every reachable state in which the worker polls, the timer and its goroutine alone lead to the
  deadline in at most three steps: the timer is running or the signal is there.
\<close>

theorem poll_always_wakes:
  assumes "dreach d" and "phase d = Polling"
  shows "\<exists>d'. (dstep ^^ 1) d d' \<and> phase d' = Woken \<or>
    (dstep ^^ 2) d d' \<and> phase d' = Woken \<or> (dstep ^^ 3) d d' \<and> phase d' = Woken"
proof -
  define wake where "wake = (\<lambda>d. d\<lparr>signalled := False, phase := Woken\<rparr> :: PollDeadline)"
  have w: "dstep e (wake e)" if "phase e = Polling" "signalled e" for e
    unfolding wake_def using that by (rule dstep.deadline)
  have p: "phase (wake e) = Woken" for e by (simp add: wake_def)
  have sg: "phase (loop_signal e) = phase e" "signalled (loop_signal e)" "phase (timer_expires e) = phase e" for e
    by (simp_all add: pd_defs)
  from guarded_reach [OF assms(1)] assms(2) consider "signalled d" | "armed d" "fired d" | "armed d" "\<not> fired d"
    by (auto simp: guarded_def)
  then show ?thesis
  proof cases
    case 1
    then show ?thesis using w [of d] assms(2) p by auto
  next
    case 2
    then have "dstep d (loop_signal d)" by (rule dstep.signal)
    moreover have "dstep (loop_signal d) (wake (loop_signal d))" using assms(2) by (intro w) (simp_all add: sg)
    ultimately have "(dstep ^^ 2) d (wake (loop_signal d))" by (auto simp: numeral_2_eq_2)
    then show ?thesis using p by blast
  next
    case 3
    define e where "e = timer_expires d"
    have "dstep d e" unfolding e_def using 3 by (rule dstep.expire)
    moreover have "armed e" "fired e" "phase e = Polling" using 3 assms(2) by (simp_all add: e_def timer_expires_def)
    then have "dstep e (loop_signal e)" "dstep (loop_signal e) (wake (loop_signal e))"
      by (auto intro: dstep.signal w simp: sg)
    ultimately have "(dstep ^^ 3) d (wake (loop_signal e))" by (auto simp: numeral_3_eq_3)
    then show ?thesis using p by blast
  qed
qed

theorem poll_always_wakes_witness:
  "\<exists>d. dreach d \<and> phase d = Polling \<and> (\<exists>d'. (dstep ^^ 1) d d' \<and> phase d' = Woken \<or>
    (dstep ^^ 2) d d' \<and> phase d' = Woken \<or> (dstep ^^ 3) d d' \<and> phase d' = Woken)"
proof -
  have "dreach (Reset_drain pd_New)" by (rule dreach.step [OF dreach.init dstep.drain]) (simp add: pd_New_def)
  then have r: "dreach (Reset_arm (Reset_drain pd_New))" by (rule dreach.step [OF _ dstep.arm]) (simp add: Reset_drain_def)
  have p: "phase (Reset_arm (Reset_drain pd_New)) = Polling" by (simp add: Reset_arm_def)
  from r p poll_always_wakes [OF r p] show ?thesis by blast
qed

text \<open>
  The drain in \<open>Reset\<close> comes too early. The timer of the previous poll can run out between the drain and the
  hand-over, so a poll can start with a fresh timer and the signal of the previous one, which wakes it at once.
\<close>

theorem stale_deadline:
  "\<exists>d. dreach d \<and> phase d = Polling \<and> armed d \<and> \<not> fired d \<and> signalled d"
proof -
  define a where "a = Reset_arm (Reset_drain pd_New)"
  define b where "b = Reset_drain (a\<lparr>phase := Idle\<rparr>)"
  define c where "c = loop_signal (timer_expires b)"
  have "dreach (Reset_drain pd_New)" by (rule dreach.step [OF dreach.init dstep.drain]) (simp add: pd_New_def)
  then have "dreach a" unfolding a_def by (rule dreach.step [OF _ dstep.arm]) (simp add: Reset_drain_def)
  then have "dreach (a\<lparr>phase := Idle\<rparr>)" by (rule dreach.step [OF _ dstep.fetched]) (simp add: a_def Reset_arm_def)
  then have "dreach b" unfolding b_def by (rule dreach.step [OF _ dstep.drain]) simp
  then have "dreach (timer_expires b)" by (rule dreach.step [OF _ dstep.expire]) (simp_all add: b_def a_def pd_defs)
  then have "dreach c" unfolding c_def by (rule dreach.step [OF _ dstep.signal]) (simp_all add: b_def a_def pd_defs)
  then have "dreach (Reset_arm c)" by (rule dreach.step [OF _ dstep.arm]) (simp add: c_def b_def pd_defs)
  then show ?thesis by (intro exI [of _ "Reset_arm c"]) (simp add: c_def b_def a_def pd_defs)
qed

text \<open>After the deadline has been received from \<open>Done()\<close>, \<open>Err\<close> returns nil: the receive took the only signal.\<close>

lemma Err_nil_after_Done: "dstep d d' \<Longrightarrow> phase d = Polling \<Longrightarrow> phase d' = Woken \<Longrightarrow> \<not> fst (pd_Err d')"
  by (induction rule: dstep.induct) (auto simp: pd_Err_def pd_defs)

end
