(* ===== verification/Adapter_Envelope.thy ===== *)
theory Adapter_Envelope
  imports Go_Prelude
begin

text \<open>
  The envelope the adapter puts around a raw exchange message (\<open>adapter/feeds/utils/utils.go\<close> and the
  normalizers of the three feeds): find the symbol by a byte scan, fall back to a decoder, append the
  exchange and channel fields to the original bytes. A byte slice is a \<open>string\<close>.

  The reference is a document model of compact JSON. On every such document the scan finds the first field
  of that name in document order, at whatever depth, and the envelope is the document with the fields appended.
\<close>

section \<open>Byte searches\<close>

text \<open>\<open>bytes.Index\<close> and \<open>bytes.IndexByte\<close>: the first position, or \<^const>\<open>None\<close> for \<open>-1\<close>.\<close>

definition starts :: "string \<Rightarrow> string \<Rightarrow> bool" where
  "starts pat s \<longleftrightarrow> take (length pat) s = pat"

fun Index :: "string \<Rightarrow> string \<Rightarrow> nat option" where
  "Index s pat = (if starts pat s then Some 0 else case s of [] \<Rightarrow> None | _ # s' \<Rightarrow> map_option Suc (Index s' pat))"

fun IndexByte :: "string \<Rightarrow> char \<Rightarrow> nat option" where
  "IndexByte [] c = None"
| "IndexByte (x # s) c = (if x = c then Some 0 else map_option Suc (IndexByte s c))"

declare Index.simps [simp del]

abbreviation quote :: char where
  "quote \<equiv> CHR 34"

text \<open>\<open>bytes.TrimRight(raw, cutset)\<close>.\<close>

definition TrimRight :: "string \<Rightarrow> string \<Rightarrow> string" where
  "TrimRight s cutset = rev (dropWhile (\<lambda>c. c \<in> set cutset) (rev s))"

definition whitespace :: string where
  "whitespace = [CHR '' '', CHR 9, CHR 13, CHR 10]"

section \<open>The fast path\<close>

definition field_pattern :: "string \<Rightarrow> string" where
  "field_pattern key = quote # key @ [quote, CHR '':'', quote]"

lemma Index_Some:
  "Index s pat = Some i \<Longrightarrow> starts pat (drop i s) \<and> i \<le> length s"
proof (induction s arbitrary: i)
  case Nil
  then show ?case by (simp add: Index.simps [of "[]"] split: if_splits)
next
  case (Cons a s)
  then show ?case by (auto simp: Index.simps [of "a # s"] split: if_splits)
qed

lemma starts_length: "starts pat s \<Longrightarrow> length pat \<le> length s"
  by (metis length_take min.cobounded1 starts_def)

text \<open>The search loop; \<open>searchFrom\<close> never passes the end, since the pattern is not empty.\<close>

function fast_loop :: "string \<Rightarrow> string \<Rightarrow> nat \<Rightarrow> string option" where
  "fast_loop raw key searchFrom =
     (case Index (drop searchFrom raw) (field_pattern key) of
        None \<Rightarrow> None
      | Some i \<Rightarrow>
          let absIdx = searchFrom + i in
          if 0 < absIdx \<and> (raw ! (absIdx - 1) = CHR ''{'' \<or> raw ! (absIdx - 1) = CHR '','')
          then let valStart = absIdx + length (field_pattern key)
               in (case IndexByte (drop valStart raw) quote of
                     None \<Rightarrow> None
                   | Some valEnd \<Rightarrow> Some (take valEnd (drop valStart raw)))
          else fast_loop raw key (absIdx + 1))"
  by pat_completeness auto
termination
proof (relation "measure (\<lambda>(raw, key, n). length raw - n)")
  show "wf (measure (\<lambda>(raw :: string, key :: string, n). length raw - n))" by simp
next
  fix raw key searchFrom i x
  assume "Index (drop searchFrom raw) (field_pattern key) = Some i" and "x = searchFrom + i"
  then have "starts (field_pattern key) (drop x raw)"
    by (auto dest: Index_Some simp: add.commute)
  then have "length (field_pattern key) \<le> length raw - x"
    using starts_length by fastforce
  then show "((raw, key, x + 1), raw, key, searchFrom) \<in> measure (\<lambda>(raw, key, n). length raw - n)"
    using \<open>x = _\<close> by (auto simp: field_pattern_def)
qed

declare fast_loop.simps [simp del]

definition fastExtractTopLevelString :: "string \<Rightarrow> string \<Rightarrow> string option" where
  "fastExtractTopLevelString raw key = fast_loop raw key 0"

section \<open>The slow path\<close>

text \<open>
  What the code takes from \<open>encoding/json\<close>: decoding into a map of raw messages, into a string (the
  variable keeps its zero value \<open>""\<close> when that fails, and the code ignores the error), and into a slice of raw messages.
\<close>

record jsonlib =
  um_object :: "string \<Rightarrow> (string \<rightharpoonup> string) option"
  um_string :: "string \<Rightarrow> string"
  um_array :: "string \<Rightarrow> string list option"

definition nested_symbol :: "jsonlib \<Rightarrow> string \<Rightarrow> string \<Rightarrow> string" where
  "nested_symbol lib symbolKey dataRaw =
     (case um_array lib dataRaw of
        Some (first # _) \<Rightarrow>
          (case um_object lib first of
             Some firstObj \<Rightarrow> (case firstObj symbolKey of Some val \<Rightarrow> um_string lib val | None \<Rightarrow> [])
           | None \<Rightarrow> [])
      | _ \<Rightarrow> [])"

definition extractSymbolSlow :: "jsonlib \<Rightarrow> string \<Rightarrow> string \<Rightarrow> string outcome" where
  "extractSymbolSlow lib raw symbolKey =
     (case um_object lib raw of
        None \<Rightarrow> Fail
      | Some msg \<Rightarrow>
          Done (case msg symbolKey of
                  Some val \<Rightarrow> um_string lib val
                | None \<Rightarrow> (case msg ''data'' of Some dataRaw \<Rightarrow> nested_symbol lib symbolKey dataRaw | None \<Rightarrow> [])))"

section \<open>Normalize\<close>

definition ExchangeField :: string where "ExchangeField = ''exchange''"
definition ChannelField :: string where "ChannelField = ''channel''"

definition appendJSONStringField :: "string \<Rightarrow> string \<Rightarrow> string \<Rightarrow> string" where
  "appendJSONStringField dst k val = dst @ quote # k @ [quote, CHR '':'', quote] @ val @ [quote]"

definition utils_Normalize :: "jsonlib \<Rightarrow> string \<Rightarrow> string \<Rightarrow> string \<Rightarrow> string \<Rightarrow> (string \<times> string) outcome" where
  "utils_Normalize lib raw symbolKey feed channel =
     (let fast = fastExtractTopLevelString raw symbolKey
      in bind_out (case fast of Some s \<Rightarrow> Done s | None \<Rightarrow> extractSymbolSlow lib raw symbolKey) (\<lambda>symbol.
         if symbol = [] then Fail
         else let trimmed = TrimRight raw whitespace
              in if trimmed = [] \<or> last trimmed \<noteq> CHR ''}'' then Fail
                 else let out = butlast trimmed @ '','';
                          out = appendJSONStringField out ExchangeField feed @ '','';
                          out = appendJSONStringField out ChannelField channel;
                          out = (if fast = None then appendJSONStringField (out @ '','') symbolKey symbol else out)
                      in Done (symbol, out @ ''}'')))"

text \<open>The normalizers of the feeds.\<close>

definition Binance_Normalize :: "jsonlib \<Rightarrow> string \<Rightarrow> string \<Rightarrow> (string \<times> string) outcome" where
  "Binance_Normalize lib channel raw = utils_Normalize lib raw ''s'' ''Binance'' channel"

definition normalizeChannel :: "string \<Rightarrow> string" where
  "normalizeChannel channel = (if channel = ''level2_batch'' then ''level2'' else channel)"

definition Coinbase_Normalize :: "jsonlib \<Rightarrow> string \<Rightarrow> string \<Rightarrow> (string \<times> string) outcome" where
  "Coinbase_Normalize lib channel raw = utils_Normalize lib raw ''product_id'' ''Coinbase'' (normalizeChannel channel)"

definition shouldSkipControlMessage :: "jsonlib \<Rightarrow> string \<Rightarrow> bool" where
  "shouldSkipControlMessage lib raw =
     (case um_object lib raw of
        None \<Rightarrow> False
      | Some msg \<Rightarrow>
          let channel = (case msg ''channel'' of Some val \<Rightarrow> um_string lib val | None \<Rightarrow> [])
          in if channel = ''heartbeat'' then True
             else (case msg ''method'' of Some val \<Rightarrow> um_string lib val | None \<Rightarrow> []) = ''subscribe'')"

text \<open>A skipped message is the pair of nil slices.\<close>

definition Kraken_Normalize :: "jsonlib \<Rightarrow> string \<Rightarrow> string \<Rightarrow> (string \<times> string) outcome" where
  "Kraken_Normalize lib channel raw =
     (if shouldSkipControlMessage lib raw then Done ([], []) else utils_Normalize lib raw ''symbol'' ''kraken'' channel)"

section \<open>Compact JSON documents\<close>

text \<open>
  A document without white space. The text of a string is kept as it stands between the quotes; in a well-formed
  document every quote inside is escaped. An atom is a number, a boolean or null.
\<close>

datatype json = JStr string | JAtom string | JArr "json list" | JObj "(string \<times> json) list"

fun escaped :: "string \<Rightarrow> bool" where
  "escaped [] = True"
| "escaped (c # s) =
     (if c = CHR 92 then (case s of [] \<Rightarrow> False | _ # s' \<Rightarrow> escaped s') else c \<noteq> quote \<and> escaped s)"

definition atom_ok :: "string \<Rightarrow> bool" where
  "atom_ok s \<longleftrightarrow> s \<noteq> [] \<and> quote \<notin> set s"

fun json_ok :: "json \<Rightarrow> bool" and elems_ok :: "json list \<Rightarrow> bool" and fields_ok :: "(string \<times> json) list \<Rightarrow> bool" where
  "json_ok (JStr s) = escaped s"
| "json_ok (JAtom s) = atom_ok s"
| "json_ok (JArr js) = elems_ok js"
| "json_ok (JObj fs) = fields_ok fs"
| "elems_ok [] = True"
| "elems_ok (j # js) = (json_ok j \<and> elems_ok js)"
| "fields_ok [] = True"
| "fields_ok ((k, j) # fs) = (escaped k \<and> json_ok j \<and> fields_ok fs)"

definition quoted :: "string \<Rightarrow> string" where
  "quoted s = quote # s @ [quote]"

fun text_of :: "json \<Rightarrow> string" and text_elems :: "json list \<Rightarrow> string" and text_fields :: "(string \<times> json) list \<Rightarrow> string" where
  "text_of (JStr s) = quoted s"
| "text_of (JAtom s) = s"
| "text_of (JArr js) = CHR ''['' # text_elems js @ '']''"
| "text_of (JObj fs) = CHR ''{'' # text_fields fs @ ''}''"
| "text_elems [] = []"
| "text_elems (j # js) = text_of j @ (if js = [] then [] else CHR '','' # text_elems js)"
| "text_fields [] = []"
| "text_fields ((k, j) # fs) = quoted k @ CHR '':'' # text_of j @ (if fs = [] then [] else CHR '','' # text_fields fs)"

text \<open>The first field of that name with a string value, in document order and at any depth.\<close>

fun first_field :: "string \<Rightarrow> json \<Rightarrow> string option" and first_elem :: "string \<Rightarrow> json list \<Rightarrow> string option"
  and first_in :: "string \<Rightarrow> (string \<times> json) list \<Rightarrow> string option" where
  "first_field key (JStr s) = None"
| "first_field key (JAtom s) = None"
| "first_field key (JArr js) = first_elem key js"
| "first_field key (JObj fs) = first_in key fs"
| "first_elem key [] = None"
| "first_elem key (j # js) = (case first_field key j of Some v \<Rightarrow> Some v | None \<Rightarrow> first_elem key js)"
| "first_in key [] = None"
| "first_in key ((k, j) # fs) =
     (if k = key \<and> (\<exists>s. j = JStr s) then (case j of JStr s \<Rightarrow> Some s)
      else case first_field key j of Some v \<Rightarrow> Some v | None \<Rightarrow> first_in key fs)"

text \<open>The scan stops at the first quote, also at an escaped one.\<close>

definition to_quote :: "string \<Rightarrow> string" where
  "to_quote s = takeWhile (\<lambda>c. c \<noteq> quote) s"

text \<open>A field name that needs no escapes and does not start with a delimiter.\<close>

definition closers :: string where
  "closers = '':,}]'' @ whitespace"

definition plain :: "string \<Rightarrow> bool" where
  "plain key \<longleftrightarrow> key \<noteq> [] \<and> hd key \<notin> set closers \<and> list_all (\<lambda>c. c \<noteq> quote \<and> c \<noteq> CHR 92) key"

section \<open>The scan from left to right\<close>

definition opens :: "char option \<Rightarrow> bool" where
  "opens p \<longleftrightarrow> p = Some (CHR ''{'') \<or> p = Some (CHR '','')"

definition value_at :: "string \<Rightarrow> string option" where
  "value_at s = map_option (\<lambda>n. take n s) (IndexByte s quote)"

fun scan :: "string \<Rightarrow> char option \<Rightarrow> string \<Rightarrow> string option" where
  "scan key p [] = None"
| "scan key p (c # s) =
     (if starts (field_pattern key) (c # s) \<and> opens p then value_at (drop (length (field_pattern key)) (c # s))
      else scan key (Some c) s)"

definition char_before :: "string \<Rightarrow> nat \<Rightarrow> char option" where
  "char_before raw n = (if n = 0 then None else Some (raw ! (n - 1)))"

lemma opens_before: "opens (char_before raw n) \<longleftrightarrow> 0 < n \<and> (raw ! (n - 1) = CHR ''{'' \<or> raw ! (n - 1) = CHR '','')"
  by (simp add: opens_def char_before_def)

lemma scan_step: "i < length raw \<Longrightarrow> scan key (char_before raw i) (drop i raw) =
    (if starts (field_pattern key) (drop i raw) \<and> opens (char_before raw i)
     then value_at (drop (i + length (field_pattern key)) raw) else scan key (char_before raw (Suc i)) (drop (Suc i) raw))"
proof -
  assume "i < length raw"
  then have d: "raw ! i # drop (Suc i) raw = drop i raw" by (rule Cons_nth_drop_Suc)
  show ?thesis using scan.simps(2) [of key "char_before raw i" "raw ! i" "drop (Suc i) raw"] unfolding d
    by (simp add: char_before_def add.commute)
qed

lemma Index_None: "Index s (field_pattern key) = None \<Longrightarrow> scan key p s = None"
proof (induction s arbitrary: p)
  case (Cons a s)
  then show ?case by (auto simp: Index.simps [of "a # s"] split: if_splits)
qed simp

lemma Index_skips:
  "Index (drop n raw) (field_pattern key) = Some i \<Longrightarrow>
   scan key (char_before raw n) (drop n raw) = scan key (char_before raw (n + i)) (drop (n + i) raw)"
proof (induction i arbitrary: n)
  case (Suc i)
  have n: "n < length raw" using Suc.prems by (cases "n < length raw") (auto simp: Index.simps [of "[]"] split: if_splits)
  then have d: "drop n raw = raw ! n # drop (Suc n) raw" by (simp add: Cons_nth_drop_Suc)
  have no: "\<not> starts (field_pattern key) (drop n raw)" and ix: "Index (drop (Suc n) raw) (field_pattern key) = Some i"
    using Suc.prems unfolding d by (auto simp: Index.simps [of "raw ! n # drop (Suc n) raw"] split: if_splits)
  show ?case using scan_step [OF n] no Suc.IH [OF ix] by simp
qed simp

lemma fast_loop_scan: "fast_loop raw key n = scan key (char_before raw n) (drop n raw)"
proof (induction raw key n rule: fast_loop.induct)
  case (1 raw key n)
  show ?case
  proof (cases "Index (drop n raw) (field_pattern key)")
    case None
    then show ?thesis by (simp add: fast_loop.simps [of raw] Index_None)
  next
    case (Some i)
    have st: "starts (field_pattern key) (drop (n + i) raw)" using Index_Some [OF Some] by (simp add: add.commute)
    then have lt: "n + i < length raw" using starts_length [OF st] by (simp add: field_pattern_def)
    note sk = Index_skips [OF Some] scan_step [OF lt]
    show ?thesis
    proof (cases "opens (char_before raw (n + i))")
      case True
      then have "0 < n + i \<and> (raw ! (n + i - 1) = CHR ''{'' \<or> raw ! (n + i - 1) = CHR '','')"
        by (simp only: opens_before)
      then have "fast_loop raw key n = value_at (drop (n + i + length (field_pattern key)) raw)"
        by (simp add: fast_loop.simps [of raw key n] Some Let_def value_at_def split: option.split)
      then show ?thesis using True st sk by simp
    next
      case False
      have "\<not> (0 < n + i \<and> (raw ! (n + i - 1) = CHR ''{'' \<or> raw ! (n + i - 1) = CHR '',''))"
        using False unfolding opens_before .
      then have "fast_loop raw key n = fast_loop raw key (n + i + 1)" and
        "fast_loop raw key (n + i + 1) = scan key (char_before raw (n + i + 1)) (drop (n + i + 1) raw)"
        using Some 1 by (auto simp: fast_loop.simps [of raw key n] Let_def)
      then show ?thesis using sk False st by simp
    qed
  qed
qed

section \<open>The scan of a document\<close>

text \<open>What may follow a string or a value in a compact document, or the document itself.\<close>

definition closes :: "string \<Rightarrow> bool" where
  "closes s \<longleftrightarrow> s = [] \<or> hd s \<in> set closers"

lemma starts_quote [simp]: "c \<noteq> quote \<Longrightarrow> \<not> starts (field_pattern key) (c # s)"
  by (simp add: starts_def field_pattern_def)

lemma scan_closes: "closes s \<Longrightarrow> scan key p s = scan key None s"
  by (cases s) (auto simp: closes_def closers_def whitespace_def)

lemma starts_Cons: "starts (a # p) (c # s) \<longleftrightarrow> a = c \<and> starts p s" "starts [] s" "\<not> starts (a # p) []"
  by (auto simp: starts_def)

lemma starts_iff: "starts p s \<longleftrightarrow> (\<exists>t. s = p @ t)"
  unfolding starts_def by (metis append_eq_conv_conj append_take_drop_id)

lemma starts_append: "starts (p @ q) s \<longleftrightarrow> (\<exists>s'. s = p @ s' \<and> starts q s')"
  by (auto simp: starts_iff)

lemma scan_text:
  assumes "plain key" and "escaped s" and "closes rest"
  shows "scan key p (s @ quote # rest) = scan key None rest"
  using assms(2)
proof (induction s arbitrary: p rule: escaped.induct)
  case 1
  have "\<not> starts (field_pattern key) (quote # rest)"
    using assms(1,3) by (cases key; cases rest) (auto simp: plain_def closes_def closers_def field_pattern_def starts_Cons)
  then show ?case using scan_closes [OF assms(3)] by simp
next
  case (2 c s)
  show ?case
  proof (cases "c = CHR 92")
    case True
    then obtain d s' where s: "s = d # s'" "escaped s'" using 2 by (auto split: list.splits)
    then have "scan key (Some d) (s' @ quote # rest) = scan key None rest" using 2 True by simp
    moreover have "\<not> opens (Some (CHR 92))" by (simp add: opens_def)
    ultimately show ?thesis using True s by simp
  next
    case False
    then show ?thesis using 2 by simp
  qed
qed

text \<open>The pattern fits at an opening quote only if the string there is the key and a string value follows.\<close>

lemma key_fits:
  assumes "list_all (\<lambda>c. c \<noteq> quote \<and> c \<noteq> CHR 92) key" and "escaped s"
    and "starts (key @ quote # q) (s @ quote # rest)"
  shows "s = key \<and> starts q rest"
  using assms
proof (induction s arbitrary: key rule: escaped.induct)
  case 1
  then show ?case by (cases key) (auto simp: starts_Cons)
next
  case (2 c s)
  then obtain k where "key = c # k" "c \<noteq> CHR 92" by (cases key) (auto simp: starts_Cons split: if_splits)
  with 2 show ?case by (auto simp: starts_Cons)
qed

lemma pattern_fits:
  assumes "plain key" and "escaped s"
  shows "starts (field_pattern key) (quoted s @ rest) \<longleftrightarrow> s = key \<and> starts [CHR '':'', quote] rest"
  using key_fits [of key s "[CHR '':'', quote]" rest] assms
  by (auto simp: field_pattern_def quoted_def plain_def starts_Cons starts_append)

lemma scan_quoted:
  assumes "plain key" and "escaped s" and "closes rest" and "\<not> (opens p \<and> s = key \<and> starts [CHR '':'', quote] rest)"
  shows "scan key p (quoted s @ rest) = scan key None rest"
proof -
  have "\<not> (starts (field_pattern key) (quoted s @ rest) \<and> opens p)" using assms pattern_fits by blast
  then have "scan key p (quoted s @ rest) = scan key (Some quote) (s @ quote # rest)" by (auto simp: quoted_def)
  then show ?thesis using scan_text [OF assms(1,2,3)] by simp
qed

lemma value_at_text: "value_at (s @ quote # rest) = Some (to_quote s)"
proof (induction s)
  case (Cons a s)
  then obtain n where "IndexByte (s @ quote # rest) quote = Some n" "take n (s @ quote # rest) = to_quote s"
    by (auto simp: value_at_def)
  then show ?case by (simp add: value_at_def to_quote_def)
qed (simp add: value_at_def to_quote_def)

lemma scan_atom:
  assumes "quote \<notin> set s" and "closes rest"
  shows "scan key p (s @ rest) = scan key None rest"
  using assms(1)
proof (induction s arbitrary: p)
  case Nil
  then show ?case using scan_closes [OF assms(2)] by simp
next
  case (Cons a s)
  then have "a \<noteq> quote" by auto
  then show ?case using Cons by simp
qed

lemma scan_field:
  assumes "plain key" and "opens p" and "escaped s"
  shows "scan key p (quoted key @ CHR '':'' # quoted s @ rest) = Some (to_quote s)"
proof -
  have "list_all (\<lambda>c. c \<noteq> quote \<and> c \<noteq> CHR 92) key" using assms(1) by (simp add: plain_def)
  then have "escaped key" by (induction key) auto
  then have "starts (field_pattern key) (quoted key @ CHR '':'' # quoted s @ rest)"
    using pattern_fits [OF assms(1)] by (simp add: starts_Cons quoted_def)
  then show ?thesis using assms(2) by (simp add: quoted_def field_pattern_def value_at_text)
qed

lemma text_of_quote: "json_ok j \<Longrightarrow> starts [quote] (text_of j @ rest) \<longleftrightarrow> (\<exists>s. j = JStr s)"
proof (cases j)
  case (JAtom s)
  moreover assume "json_ok j"
  ultimately show ?thesis by (cases s) (auto simp: atom_ok_def starts_Cons)
qed (auto simp: starts_Cons quoted_def)

lemma scan_name:
  assumes "plain key" and "escaped k" and "json_ok j" and "\<not> (k = key \<and> (\<exists>s. j = JStr s))"
  shows "scan key p (quoted k @ CHR '':'' # text_of j @ rest) = scan key (Some (CHR '':'')) (text_of j @ rest)"
  using scan_quoted [OF assms(1,2), of "CHR '':'' # text_of j @ rest" p] assms(4) text_of_quote [OF assms(3)]
  by (auto simp: closes_def closers_def starts_Cons)

lemma scan_document:
  "plain key \<Longrightarrow> json_ok j \<Longrightarrow> closes rest \<Longrightarrow> starts [CHR '':''] rest = False \<Longrightarrow>
     scan key p (text_of j @ rest) = (case first_field key j of Some v \<Rightarrow> Some (to_quote v) | None \<Rightarrow> scan key None rest)"
  "plain key \<Longrightarrow> elems_ok js \<Longrightarrow>
     scan key p (text_elems js @ CHR '']'' # rest) = (case first_elem key js of Some v \<Rightarrow> Some (to_quote v) | None \<Rightarrow> scan key None (CHR '']'' # rest))"
  "plain key \<Longrightarrow> fields_ok fs \<Longrightarrow> opens p \<Longrightarrow>
     scan key p (text_fields fs @ CHR ''}'' # rest) = (case first_in key fs of Some v \<Rightarrow> Some (to_quote v) | None \<Rightarrow> scan key None (CHR ''}'' # rest))"
proof (induction j and js and fs arbitrary: p rest and p rest and p rest rule: text_of_text_elems_text_fields.induct)
  case (1 s)
  then show ?case using scan_quoted [of key s rest p] by (auto simp: starts_Cons) (cases rest; simp add: starts_Cons)+
next
  case (2 s)
  then show ?case by (simp add: atom_ok_def scan_atom)
next
  case (3 js)
  then show ?case using scan_closes [OF 3(4)] by (simp split: option.splits)
next
  case (4 fs)
  then show ?case using scan_closes [OF 4(4)] by (simp add: opens_def split: option.splits)
next
  case 5
  then show ?case by simp
next
  case (6 j js)
  show ?case
  proof (cases "js = []")
    case True
    then show ?thesis using 6(1) [of "CHR '']'' # rest" p] 6(3,4) by (simp add: closes_def closers_def starts_Cons split: option.splits)
  next
    case False
    have "closes (CHR '','' # text_elems js @ CHR '']'' # rest)" by (simp add: closes_def closers_def)
    then show ?thesis using False 6(1) [of "CHR '','' # text_elems js @ CHR '']'' # rest" p] 6(2) [of "Some (CHR '','')" rest] 6(3,4)
      by (simp add: starts_Cons split: option.splits)
  qed
next
  case 7
  then show ?case by simp
next
  case (8 k j fs)
  define t where "t = (if fs = [] then [] else CHR '','' # text_fields fs) @ CHR ''}'' # rest"
  have t: "closes t" "\<not> starts [CHR '':''] t" by (simp_all add: t_def closes_def closers_def starts_Cons)
  have eq: "text_fields ((k, j) # fs) @ CHR ''}'' # rest = quoted k @ CHR '':'' # text_of j @ t" by (simp add: t_def)
  have ok: "escaped k" "json_ok j" "fields_ok fs" using 8(4) by simp_all
  have tl: "scan key None t = (case first_in key fs of Some v \<Rightarrow> Some (to_quote v) | None \<Rightarrow> scan key None (CHR ''}'' # rest))"
    using 8(2) [of "Some (CHR '','')" rest] 8(3) ok by (cases "fs = []") (simp_all add: t_def opens_def)
  show ?case
  proof (cases "k = key \<and> (\<exists>s. j = JStr s)")
    case True
    then obtain s where "k = key" "j = JStr s" "escaped s" using ok by auto
    then show ?thesis unfolding eq using scan_field [OF 8(3,5), of s t] by simp
  next
    case False
    then show ?thesis unfolding eq scan_name [OF 8(3) ok(1,2) False]
      using 8(1) [OF 8(3) ok(2) t(1)] t(2) tl by (auto split: option.splits)
  qed
qed

lemma scan_blank: "set ws \<subseteq> set whitespace \<Longrightarrow> scan key p ws = None"
proof (induction ws arbitrary: p)
  case (Cons a ws)
  then have "a \<noteq> quote" by (auto simp: whitespace_def)
  then show ?case using Cons by simp
qed simp

lemma fast_path_blank:
  assumes "plain key" and "json_ok j" and "set ws \<subseteq> set whitespace"
  shows "fastExtractTopLevelString (text_of j @ ws) key = map_option to_quote (first_field key j)"
proof -
  have ws: "closes ws" "\<not> starts [CHR '':''] ws"
    using assms(3) by (cases ws; auto simp: closes_def closers_def whitespace_def starts_Cons)+
  show ?thesis using scan_document(1) [OF assms(1,2) ws(1)] ws(2) scan_blank [OF assms(3)]
    by (simp add: fastExtractTopLevelString_def fast_loop_scan split: option.splits)
qed

lemma text_fields_append: "fs \<noteq> [] \<Longrightarrow> gs \<noteq> [] \<Longrightarrow> text_fields (fs @ gs) = text_fields fs @ CHR '','' # text_fields gs"
proof (induction fs)
  case (Cons f fs)
  then show ?case by (cases f; cases "fs = []") simp_all
qed simp

lemma TrimRight_blank:
  assumes "set ws \<subseteq> set whitespace" and "c \<notin> set whitespace"
  shows "TrimRight (s @ c # ws) whitespace = s @ [c]"
proof -
  have "dropWhile (\<lambda>c. c \<in> set whitespace) (rev ws @ c # rev s) = c # rev s"
    using assms by (subst dropWhile_append2) auto
  then show ?thesis by (simp add: TrimRight_def)
qed

section \<open>Properties\<close>

text \<open>
  C28. On every compact document the byte scan agrees with the document model: it returns the first field of that
  name with a string value, in document order and \<^emph>\<open>at any depth\<close>, read up to its first quote; and nothing when there is none.
  The name of the routine and its comment promise a top-level field.
\<close>

theorem fast_path_finds_first_field:
  assumes "plain key" and "json_ok j"
  shows "fastExtractTopLevelString (text_of j) key = map_option to_quote (first_field key j)"
  using fast_path_blank [OF assms, of "[]"] by simp

definition kraken_doc :: "(string \<times> json) list" where
  "kraken_doc = [(''channel'', JStr ''ticker''), (''data'', JArr [JObj [(''symbol'', JStr ''A/B''), (''last'', JAtom ''1'')]])]"

theorem fast_path_finds_first_field_witness:
  "plain ''symbol'' \<and> json_ok (JObj kraken_doc) \<and>
   fastExtractTopLevelString (text_of (JObj kraken_doc)) ''symbol'' = Some ''A/B''"
proof -
  have p: "plain ''symbol''" by code_simp
  have ok: "json_ok (JObj kraken_doc)" by code_simp
  have f: "first_field ''symbol'' (JObj kraken_doc) = Some ''A/B''" by (simp add: kraken_doc_def)
  have c: "to_quote ''A/B'' = ''A/B''" by code_simp
  from fast_path_finds_first_field [OF p ok] p ok show ?thesis unfolding f by (simp add: c)
qed

text \<open>
  C29. For a compact object, possibly followed by white space, that holds the symbol field, \<open>Normalize\<close> returns the symbol
  and the same document with exactly the exchange and channel fields appended, whatever the decoder of the
  slow path does.
\<close>

theorem Normalize_appends_envelope:
  assumes "plain symbolKey" and "fields_ok fs" and "first_in symbolKey fs = Some v" and "to_quote v \<noteq> []"
    and "set ws \<subseteq> set whitespace"
  shows "utils_Normalize lib (text_of (JObj fs) @ ws) symbolKey feed channel =
    Done (to_quote v, text_of (JObj (fs @ [(''exchange'', JStr feed), (''channel'', JStr channel)])))"
proof -
  have ne: "fs \<noteq> []" using assms(3) by auto
  have fast: "fastExtractTopLevelString (text_of (JObj fs) @ ws) symbolKey = Some (to_quote v)"
    using fast_path_blank [OF assms(1) _ assms(5), of "JObj fs"] assms(2,3) by simp
  have trim: "TrimRight (text_of (JObj fs) @ ws) whitespace = CHR ''{'' # text_fields fs @ ''}''"
    using TrimRight_blank [OF assms(5), of "CHR ''}''" "CHR ''{'' # text_fields fs"] by (simp add: whitespace_def)
  show ?thesis using assms(4) unfolding utils_Normalize_def fast trim
    by (simp add: Let_def butlast_append text_fields_append [OF ne]
        appendJSONStringField_def ExchangeField_def ChannelField_def quoted_def)
qed

text \<open>A decoder that rejects every input.\<close>

definition no_json :: jsonlib where
  "no_json = \<lparr>um_object = (\<lambda>_. None), um_string = (\<lambda>_. []), um_array = (\<lambda>_. None)\<rparr>"

theorem Normalize_appends_envelope_witness:
  "plain ''symbol'' \<and> fields_ok kraken_doc \<and> first_in ''symbol'' kraken_doc = Some ''A/B'' \<and>
   utils_Normalize no_json (text_of (JObj kraken_doc) @ '' '') ''symbol'' ''kraken'' ''ticker'' =
     Done (''A/B'', text_of (JObj (kraken_doc @ [(''exchange'', JStr ''kraken''), (''channel'', JStr ''ticker'')])))"
proof -
  have p: "plain ''symbol''" by code_simp
  have ok: "fields_ok kraken_doc" by code_simp
  have f: "first_in ''symbol'' kraken_doc = Some ''A/B''" by (simp add: kraken_doc_def)
  have c: "to_quote ''A/B'' = ''A/B''" by code_simp
  have ws: "set '' '' \<subseteq> set whitespace" by (simp add: whitespace_def)
  from Normalize_appends_envelope [OF p ok f _ ws, of no_json "''kraken''" "''ticker''"] p ok f c show ?thesis by simp
qed

end
