(* ===== verification/Spsc_Ring.thy ===== *)
theory Spsc_Ring
  imports Go_Prelude
begin

text \<open>
  \<open>adapter/ring/spsc_lock_free_queue.go\<close>: the drop-oldest ring between the websocket reader and the
  Kafka publisher of a feed. First the operations as the code has them, on 64-bit counters that wrap;
  then the contract (an unbounded log, a read position, and the number of entries skipped at each
  read) and its refinement; last the same code cut at its shared-memory accesses, where the
  producer and the consumer interleave.
\<close>

section \<open>The ring\<close>

record 'a ring =
  Buf :: "'a list"
  Mask :: "64 word"
  Capacity :: "64 word"
  Head :: "64 word"
  Tail :: "64 word"

text \<open>The constructor panics (\<^const>\<open>None\<close>) unless the capacity is a power of two.\<close>

definition NewSpscDropOldestRing :: "'a \<Rightarrow> 64 word \<Rightarrow> 'a ring option" where
  "NewSpscDropOldestRing zero capacity =
     (if capacity = 0 \<or> capacity AND (capacity - 1) \<noteq> 0 then None
      else Some \<lparr>Buf = replicate (unat capacity) zero, Mask = capacity - 1, Capacity = capacity,
                 Head = 0, Tail = 0\<rparr>)"

definition Push :: "'a ring \<Rightarrow> 'a \<Rightarrow> 'a ring" where
  "Push r v =
     (let t = Tail r in
      r\<lparr>Buf := (Buf r)[unat (t AND Mask r) := v], Tail := t + 1\<rparr>)"

text \<open>The result is the value and the number of dropped entries, or \<^const>\<open>None\<close> when empty.\<close>

definition Pop :: "'a ring \<Rightarrow> ('a \<times> 64 word) option \<times> 'a ring" where
  "Pop r =
     (let h = Head r; t = Tail r in
      if h = t then (None, r)
      else
        let dropped = (if t - h > Capacity r then (t - h) - Capacity r else 0);
            h' = (if t - h > Capacity r then t - Capacity r else h);
            v = Buf r ! unat (h' AND Mask r)
        in (Some (v, dropped), r\<lparr>Head := h' + 1\<rparr>))"

section \<open>The contract\<close>

text \<open>
  The log \<open>xs\<close> of everything pushed, the position \<open>h\<close> of the next entry to read, and the capacity. A
  push appends. A pop on a non-empty backlog skips to the oldest entry still held, returns it and
  says how many it skipped.
\<close>

locale drop_oldest =
  fixes push :: "'q \<Rightarrow> 'a \<Rightarrow> 'q"
    and pop :: "'q \<Rightarrow> ('a \<times> 64 word) option \<times> 'q"
    and rel :: "'q \<Rightarrow> 'a list \<Rightarrow> nat \<Rightarrow> bool"
    and capa :: "'q \<Rightarrow> nat"
  assumes rel_le: "rel q xs h \<Longrightarrow> h \<le> length xs"
    and rel_push: "rel q xs h \<Longrightarrow> rel (push q v) (xs @ [v]) h"
    and pop_empty: "rel q xs (length xs) \<Longrightarrow> pop q = (None, q)"
    and pop_next: "rel q xs h \<Longrightarrow> h < length xs \<Longrightarrow> length xs - h < 2 ^ 64 \<Longrightarrow>
      \<exists>q' h'. h' = max h (length xs - capa q) \<and> h' < length xs \<and>
        pop q = (Some (xs ! h', of_nat (h' - h)), q') \<and> rel q' xs (Suc h')"
    and capa_pos: "rel q xs h \<Longrightarrow> 0 < capa q"
    and capa_push: "capa (push q v) = capa q"
    and capa_pop: "capa (snd (pop q)) = capa q"

text \<open>A run: \<open>Some v\<close> pushes, \<open>None\<close> pops. The outputs are the values popped with their drop counts.\<close>

fun ring_run :: "('q \<Rightarrow> 'a \<Rightarrow> 'q) \<Rightarrow> ('q \<Rightarrow> ('a \<times> 64 word) option \<times> 'q) \<Rightarrow> 'q \<Rightarrow> 'a option list
    \<Rightarrow> ('a \<times> 64 word) list" where
  "ring_run push pop q [] = []"
| "ring_run push pop q (Some v # ops) = ring_run push pop (push q v) ops"
| "ring_run push pop q (None # ops) =
     (case pop q of
        (None, q') \<Rightarrow> ring_run push pop q' ops
      | (Some out, q') \<Rightarrow> out # ring_run push pop q' ops)"

definition pushed :: "'a option list \<Rightarrow> 'a list" where
  "pushed ops = map the (filter (\<lambda>x. x \<noteq> None) ops)"

text \<open>
  \<open>explains xs outs\<close>: reading the log from its start, each output is the entry found after skipping
  exactly the number of entries it reports as dropped.
\<close>

fun explains :: "'a list \<Rightarrow> ('a \<times> 64 word) list \<Rightarrow> bool" where
  "explains xs [] = True"
| "explains xs ((v, d) # outs) =
     (unat d < length xs \<and> xs ! unat d = v \<and> explains (drop (Suc (unat d)) xs) outs)"

text \<open>
  The bounded queue that drops the oldest entry when it is full: the entries it holds, and how many were dropped since the last
  pop.
\<close>

fun bounded_run :: "nat \<Rightarrow> 'a list \<Rightarrow> nat \<Rightarrow> 'a option list \<Rightarrow> ('a \<times> nat) list" where
  "bounded_run c q d [] = []"
| "bounded_run c q d (Some v # ops) =
     (if length q < c then bounded_run c (q @ [v]) d ops else bounded_run c (tl q @ [v]) (Suc d) ops)"
| "bounded_run c q d (None # ops) =
     (case q of [] \<Rightarrow> bounded_run c [] d ops | v # q' \<Rightarrow> (v, d) # bounded_run c q' 0 ops)"

context drop_oldest
begin

text \<open>The provider is that queue: what it holds is the end of the log, from the read position or the last \<open>capa\<close> entries.\<close>

lemma run_bounded:
  assumes "rel q xs h" and "length (xs @ pushed ops) < 2 ^ 64"
  defines "g \<equiv> max h (length xs - capa q)"
  shows "map (\<lambda>(v, d). (v, unat d)) (ring_run push pop q ops) = bounded_run (capa q) (drop g xs) (g - h) ops"
  using assms(1,2) unfolding g_def
proof (induction ops arbitrary: q xs h)
  case (Cons x ops)
  let ?c = "capa q" and ?g = "max h (length xs - capa q)"
  note le = rel_le [OF Cons.prems(1)] and pos = capa_pos [OF Cons.prems(1)]
  show ?case
  proof (cases x)
    case (Some v)
    let ?g' = "max h (length (xs @ [v]) - ?c)"
    have e: "(xs @ [v]) @ pushed ops = xs @ pushed (x # ops)" using Some by (simp add: pushed_def)
    from Cons.IH [OF rel_push [OF Cons.prems(1)], of v] Cons.prems(2)
    have r: "map (\<lambda>(v, d). (v, unat d)) (ring_run push pop (push q v) ops) = bounded_run ?c (drop ?g' (xs @ [v])) (?g' - h) ops"
      unfolding e by (simp add: capa_push)
    define g g' where "g = ?g" and "g' = ?g'"
    have "map (\<lambda>(v, d). (v, unat d)) (ring_run push pop q (x # ops)) = bounded_run ?c (drop g' (xs @ [v])) (g' - h) ops"
      using r Some by (simp only: g'_def ring_run.simps)
    also have "\<dots> = bounded_run ?c (drop g xs) (g - h) (x # ops)"
    proof (cases "length xs - g < ?c")
      case True
      then have "g' = g" "g \<le> length xs" using le pos by (auto simp: g_def g'_def)
      with True Some show ?thesis by simp
    next
      case False
      then have "g' = Suc g" "g < length xs" "h \<le> g" using le pos by (auto simp: g_def g'_def)
      with False Some show ?thesis by (simp add: drop_Suc tl_drop Suc_diff_le)
    qed
    finally show ?thesis by (simp only: g_def)
  next
    case None
    have e: "pushed (x # ops) = pushed ops" using None by (simp add: pushed_def)
    show ?thesis
    proof (cases "h = length xs")
      case True
      with Cons.prems(1) have "pop q = (None, q)" by (auto intro: pop_empty)
      with Cons.IH [OF Cons.prems(1)] Cons.prems(2) True None e show ?thesis by simp
    next
      case False
      with le have lt: "h < length xs" by simp
      moreover have "length xs - h < 2 ^ 64" using Cons.prems(2) by simp
      ultimately obtain q' where p: "?g < length xs" "pop q = (Some (xs ! ?g, of_nat (?g - h)), q')" "rel q' xs (Suc ?g)"
        using pop_next [OF Cons.prems(1)] by metis
      have "?g - h < 2 ^ 64" using p(1) Cons.prems(2) by simp
      moreover have "unat (of_nat n :: 64 word) = n" if "n < 2 ^ 64" for n using that by (simp add: unat_of_nat take_bit_eq_mod)
      ultimately have u: "unat (of_nat (?g - h) :: 64 word) = ?g - h" by blast
      have "capa q' = ?c" using capa_pop [of q] p(2) by simp
      moreover have "max (Suc ?g) (length xs - ?c) = Suc ?g" by simp
      ultimately have "map (\<lambda>(v, d). (v, unat d)) (ring_run push pop q' ops) = bounded_run ?c (drop (Suc ?g) xs) 0 ops"
        using Cons.IH [OF p(3)] Cons.prems(2) e by simp
      moreover have "drop ?g xs = xs ! ?g # drop (Suc ?g) xs" using p(1) by (simp add: Cons_nth_drop_Suc)
      ultimately show ?thesis using p(2) u None by simp
    qed
  qed
qed simp

lemma run_explains:
  assumes "rel q xs h" and "length (xs @ pushed ops) < 2 ^ 64"
  shows "explains (drop h (xs @ pushed ops)) (ring_run push pop q ops)"
  using assms
proof (induction ops arbitrary: q xs h)
  case Nil
  then show ?case by simp
next
  case (Cons x ops)
  show ?case
  proof (cases x)
    case (Some v)
    then have e: "(xs @ [v]) @ pushed ops = xs @ pushed (x # ops)" by (simp add: pushed_def)
    from Cons.IH [OF rel_push [OF Cons.prems(1)], of v] Cons.prems(2) show ?thesis
      unfolding e by (simp add: Some)
  next
    case None
    then have e: "pushed (x # ops) = pushed ops" by (simp add: pushed_def)
    show ?thesis
    proof (cases "h = length xs")
      case True
      with Cons.prems(1) have "pop q = (None, q)" by (auto intro: pop_empty)
      with Cons None e show ?thesis by simp
    next
      case False
      with rel_le [OF Cons.prems(1)] have lt: "h < length xs" by simp
      moreover have "length xs - h < 2 ^ 64" using Cons.prems(2) by simp
      ultimately obtain q' h' where p: "h \<le> h'" "h' < length xs"
          "pop q = (Some (xs ! h', of_nat (h' - h)), q')" "rel q' xs (Suc h')"
        using pop_next [OF Cons.prems(1)] by (metis max.cobounded1)
      have "h' - h < 2 ^ 64" using p Cons.prems(2) by simp
      then have u: "unat (of_nat (h' - h) :: 64 word) = h' - h"
        by (simp add: unat_of_nat take_bit_eq_mod)
      from Cons.IH [OF p(4)] Cons.prems(2) e
      have "explains (drop (Suc h') (xs @ pushed ops)) (ring_run push pop q' ops)" by simp
      moreover have "h' - h < length xs - h" using p lt by linarith
      ultimately show ?thesis using p u None e by (simp add: nth_append)
    qed
  qed
qed

end

section \<open>The refinement\<close>

text \<open>
  The counters are the log positions modulo \<open>2 ^ 64\<close>; the slots hold the last \<open>capacity\<close> entries. Nothing
  bounds the counters themselves: they may wrap any number of times.
\<close>

definition ring_rel :: "'a ring \<Rightarrow> 'a list \<Rightarrow> nat \<Rightarrow> bool" where
  "ring_rel r xs h \<longleftrightarrow>
     (\<exists>k < 64. Capacity r = 2 ^ k \<and> Mask r = 2 ^ k - 1 \<and> length (Buf r) = 2 ^ k \<and>
        Tail r = of_nat (length xs) \<and> Head r = of_nat h \<and> h \<le> length xs \<and>
        (\<forall>i < length xs. length xs \<le> i + 2 ^ k \<longrightarrow> Buf r ! (i mod 2 ^ k) = xs ! i))"

definition ring_capa :: "'a ring \<Rightarrow> nat" where
  "ring_capa r = unat (Capacity r)"

lemma unat_mask_position:
  assumes "k < 64"
  shows "unat (of_nat i AND (2 ^ k - 1) :: 64 word) = i mod 2 ^ k"
proof -
  have "(of_nat i AND (2 ^ k - 1) :: 64 word) = take_bit k (of_nat i)"
    by (simp add: take_bit_eq_mask mask_eq_exp_minus_1)
  then have "unat (of_nat i AND (2 ^ k - 1) :: 64 word) = take_bit k (take_bit 64 i)"
    by (simp add: unsigned_take_bit_eq unsigned_of_nat)
  then show ?thesis using assms by (simp add: take_bit_eq_mod [of k, symmetric] del: take_bit_eq_mod)
qed

lemma unat_of_nat_small: "n < 2 ^ 64 \<Longrightarrow> unat (of_nat n :: 64 word) = n"
  by (simp add: unat_of_nat take_bit_eq_mod)

lemma unat_pow2: "k < 64 \<Longrightarrow> unat (2 ^ k :: 64 word) = 2 ^ k"
  using unat_of_nat_small [of "2 ^ k"] power_strict_increasing [of k 64 "2::nat"] by simp

lemma mod_neq_within:
  fixes i n :: nat
  assumes "i < n" and "n < i + m"
  shows "i mod m \<noteq> n mod m"
proof
  assume "i mod m = n mod m"
  then have "m dvd n - i" using assms(1) by (metis mod_eq_dvd_iff_nat less_imp_le)
  then show False using assms by (auto dest: dvd_imp_le)
qed

lemma ring_rel_Push:
  assumes "ring_rel r xs h"
  shows "ring_rel (Push r v) (xs @ [v]) h"
proof -
  from assms obtain k where k: "k < 64" "Capacity r = 2 ^ k" "Mask r = 2 ^ k - 1" "length (Buf r) = 2 ^ k"
      "Tail r = of_nat (length xs)" "Head r = of_nat h" "h \<le> length xs"
    and slots: "\<And>i. i < length xs \<Longrightarrow> length xs \<le> i + 2 ^ k \<Longrightarrow> Buf r ! (i mod 2 ^ k) = xs ! i"
    by (auto simp: ring_rel_def)
  have buf: "Buf (Push r v) = (Buf r)[length xs mod 2 ^ k := v]"
    using k unat_mask_position [OF k(1), of "length xs"] by (simp add: Push_def Let_def)
  have "Buf (Push r v) ! (i mod 2 ^ k) = (xs @ [v]) ! i"
    if "i < Suc (length xs)" "Suc (length xs) \<le> i + 2 ^ k" for i
  proof (cases "i = length xs")
    case True
    then show ?thesis using k(4) by (simp add: buf)
  next
    case False
    with that have i: "i < length xs" "length xs < i + 2 ^ k" by simp_all
    from mod_neq_within [OF i] slots [OF i(1)] i show ?thesis
      by (simp add: buf nth_append)
  qed
  with k buf show ?thesis
    by (auto simp: ring_rel_def Push_def Let_def intro!: exI [of _ k])
qed

lemma ring_rel_Pop:
  assumes "ring_rel r xs h" and "h < length xs" and "length xs - h < 2 ^ 64"
  shows "\<exists>r' h'. h' = max h (length xs - ring_capa r) \<and> h' < length xs \<and>
    Pop r = (Some (xs ! h', of_nat (h' - h)), r') \<and> ring_rel r' xs (Suc h')"
proof -
  from assms(1) obtain k where k: "k < 64" "Capacity r = 2 ^ k" "Mask r = 2 ^ k - 1" "length (Buf r) = 2 ^ k"
      "Tail r = of_nat (length xs)" "Head r = of_nat h" "h \<le> length xs"
    and slots: "\<And>i. i < length xs \<Longrightarrow> length xs \<le> i + 2 ^ k \<Longrightarrow> Buf r ! (i mod 2 ^ k) = xs ! i"
    by (auto simp: ring_rel_def)
  let ?n = "length xs" and ?d = "length xs - h"
  define h' where "h' = max h (?n - 2 ^ k)"
  have diff: "Tail r - Head r = of_nat ?d" using k by (simp add: of_nat_diff)
  have ne: "Head r \<noteq> Tail r"
    using diff unat_of_nat_small [OF assms(3)] assms(2) by auto
  have gt: "Tail r - Head r > Capacity r \<longleftrightarrow> 2 ^ k < ?d"
    using k unat_of_nat_small [OF assms(3)] by (simp add: diff word_less_nat_alt unat_pow2)
  have "?n - 2 ^ k < ?n" using assms(2) by (intro diff_less) auto
  then have h': "h' < ?n" "h \<le> h'" "?n \<le> h' + 2 ^ k" using assms(2) by (auto simp: h'_def)
  have pow: "of_nat (2 ^ k) = (2 ^ k :: 64 word)" by simp
  have skip: "of_nat (m - 2 ^ k) = (of_nat m - 2 ^ k :: 64 word)" if "2 ^ k < m" for m
    using that pow by (simp add: of_nat_diff del: of_nat_power)
  have head: "(if Tail r - Head r > Capacity r then Tail r - Capacity r else Head r) = of_nat h'"
  proof (cases "2 ^ k < ?d")
    case True
    then have "h' = ?n - 2 ^ k" "2 ^ k < ?n" by (auto simp: h'_def)
    with True gt skip [of ?n] k(2,5) show ?thesis by simp
  next
    case False
    then have "h' = h" by (auto simp: h'_def)
    with False gt k(6) show ?thesis by simp
  qed
  have dropped: "(if Tail r - Head r > Capacity r then (Tail r - Head r) - Capacity r else 0) = of_nat (h' - h)"
  proof (cases "2 ^ k < ?d")
    case True
    then have "h' - h = ?d - 2 ^ k" by (auto simp: h'_def)
    with True gt skip [of ?d] k(2) diff show ?thesis by simp
  next
    case False
    then have "h' = h" by (auto simp: h'_def)
    with False gt show ?thesis by simp
  qed
  have slot: "Buf r ! unat (of_nat h' AND Mask r) = xs ! h'"
    using slots [OF h'(1,3)] k(3) unat_mask_position [OF k(1)] by simp
  have "Pop r = (Some (xs ! h', of_nat (h' - h)), r\<lparr>Head := of_nat h' + 1\<rparr>)"
    using ne by (simp only: Pop_def Let_def head dropped slot if_False)
  moreover have "ring_rel (r\<lparr>Head := of_nat h' + 1\<rparr>) xs (Suc h')"
    using k h' slots by (auto simp: ring_rel_def intro!: exI [of _ k])
  moreover have "ring_capa r = 2 ^ k" using k by (simp add: ring_capa_def unat_pow2)
  ultimately show ?thesis using h'(1) by (auto simp: h'_def)
qed

interpretation rq: drop_oldest Push Pop ring_rel ring_capa
proof unfold_locales
  show "h \<le> length xs" if "ring_rel q xs h" for q :: "'a ring" and xs h
    using that by (auto simp: ring_rel_def)
  show "ring_rel (Push q v) (xs @ [v]) h" if "ring_rel q xs h" for q :: "'a ring" and xs h v
    using that by (rule ring_rel_Push)
  show "Pop q = (None, q)" if "ring_rel q xs (length xs)" for q :: "'a ring" and xs
    using that by (auto simp: ring_rel_def Pop_def)
  show "\<exists>q' h'. h' = max h (length xs - ring_capa q) \<and> h' < length xs \<and>
      Pop q = (Some (xs ! h', of_nat (h' - h)), q') \<and> ring_rel q' xs (Suc h')"
    if "ring_rel q xs h" "h < length xs" "length xs - h < 2 ^ 64" for q :: "'a ring" and xs h
    using that by (rule ring_rel_Pop)
  show "0 < ring_capa q" if "ring_rel q xs h" for q :: "'a ring" and xs h
    using that by (auto simp: ring_rel_def ring_capa_def unat_pow2)
  show "ring_capa (Push q v) = ring_capa q" "ring_capa (snd (Pop q)) = ring_capa q" for q :: "'a ring" and v
    by (simp_all add: ring_capa_def Push_def Pop_def Let_def)
qed

text \<open>A word with a single bit: exactly what the constructor accepts.\<close>

lemma pow2_nat:
  assumes "0 < m" and "m AND (m - 1) = (0::nat)"
  shows "\<exists>k. m = 2 ^ k"
  using assms
proof (induction m rule: less_induct)
  case (less m)
  show ?case
  proof (cases "even m")
    case True
    then obtain p where p: "m = 2 * p" by blast
    with less.prems have "0 < p" by simp
    then have "(m - 1) div 2 = p - 1" "odd (m - 1)" using p by auto
    with p have "m AND (m - 1) = 2 * (p AND (p - 1))"
      by (subst and_rec) simp
    with less.prems(2) less.IH [of p] p \<open>0 < p\<close> obtain k where "p = 2 ^ k" by auto
    with p have "m = 2 ^ Suc k" by simp
    then show ?thesis by blast
  next
    case False
    then obtain p where p: "m = 2 * p + 1" by (auto elim: oddE)
    then have "m AND (m - 1) = 2 * p" by (subst and_rec) simp
    with less.prems p have "m = 2 ^ 0" by simp
    then show ?thesis by blast
  qed
qed

lemma pow2_word:
  fixes capacity :: "64 word"
  assumes "capacity \<noteq> 0" and "capacity AND (capacity - 1) = 0"
  shows "\<exists>k < 64. capacity = 2 ^ k"
proof -
  have pos: "0 < unat capacity" using assms(1) by (simp add: unat_gt_0)
  have "unat (capacity - 1) = unat capacity - 1" using assms(1) by (simp add: unat_minus_one)
  moreover have "unat (capacity AND (capacity - 1)) = 0" using assms(2) by simp
  ultimately have "unat capacity AND (unat capacity - 1) = 0" by (simp add: unsigned_and_eq)
  with pow2_nat [OF pos] obtain k where k: "unat capacity = 2 ^ k" by blast
  have "unat capacity < 2 ^ 64" using unsigned_less [of capacity] by simp
  then have "(2::nat) ^ k < 2 ^ 64" using k by simp
  then have "k < 64" by (rule power_less_imp_less_exp [rotated]) simp
  moreover have "capacity = of_nat (unat capacity)" by simp
  then have "capacity = 2 ^ k" by (simp only: k of_nat_power of_nat_numeral)
  ultimately show ?thesis by blast
qed

lemma ring_rel_new: "NewSpscDropOldestRing zero capacity = Some r \<Longrightarrow> ring_rel r [] 0"
  using pow2_word [of capacity]
  by (auto simp: NewSpscDropOldestRing_def ring_rel_def unat_pow2 split: if_splits)

text \<open>
  C20. On any ring the constructor accepts and any sequence of pushes and pops (fewer than \<open>2 ^ 64\<close>
  pushes), each popped value is the entry of the push log found by skipping exactly the number of
  entries reported as dropped: nothing is delivered twice, out of order, or lost unreported.
\<close>

theorem ring_accounts_for_drops:
  assumes "NewSpscDropOldestRing zero capacity = Some r" and "length (pushed ops) < 2 ^ 64"
  shows "explains (pushed ops) (ring_run Push Pop r ops)"
  using rq.run_explains [OF ring_rel_new [OF assms(1)], of ops] assms(2) by simp

theorem ring_accounts_for_drops_witness:
  "\<exists>r. NewSpscDropOldestRing (0::nat) 2 = Some r \<and>
     length (pushed [Some (1::nat), Some 2, Some 3, None, None]) < 2 ^ 64 \<and>
     ring_run Push Pop r [Some 1, Some 2, Some 3, None, None] = [(2, 1), (3, 0)] \<and>
     explains (pushed [Some (1::nat), Some 2, Some 3, None, None])
       (ring_run Push Pop r [Some 1, Some 2, Some 3, None, None])"
proof -
  define r where "r = \<lparr>Buf = [0, 0::nat], Mask = 1, Capacity = 2, Head = 0, Tail = 0\<rparr>"
  have r: "NewSpscDropOldestRing (0::nat) 2 = Some r"
    unfolding r_def by code_simp
  have l: "length (pushed [Some (1::nat), Some 2, Some (3::nat), None, None]) < 2 ^ 64"
    by (simp add: pushed_def)
  have o: "ring_run Push Pop r [Some 1, Some 2, Some 3, None, None] = [(2, 1), (3, 0)]"
    unfolding r_def by code_simp
  show ?thesis
    by (intro exI [of _ r] conjI r l o ring_accounts_for_drops [OF r l])
qed

section \<open>Interleavings\<close>

text \<open>
  \<open>Push\<close> and \<open>Pop\<close> run on different goroutines. Cut at their shared accesses: a push writes its slot
  and then publishes the tail; a pop loads both counters, reads the slot and then stores the head.
\<close>

datatype ppc = PIdle | PWritten "64 word"

datatype 'a cpc = CIdle | CLoaded "64 word" "64 word" | CGot 'a "64 word" "64 word"

record 'a shared =
  rg :: "'a ring"
  ppc :: ppc
  cpc :: "'a cpc"
  outs :: "('a \<times> 64 word) list"

datatype 'a ring_act = PWrite 'a | PPublish | CLoad | CRead | CStore

fun act :: "'a ring_act \<Rightarrow> 'a shared \<Rightarrow> 'a shared option" where
  "act (PWrite v) s =
     (case ppc s of
        PIdle \<Rightarrow> (let r = rg s; t = Tail r in
          Some (s\<lparr>rg := r\<lparr>Buf := (Buf r)[unat (t AND Mask r) := v]\<rparr>, ppc := PWritten t\<rparr>))
      | PWritten t \<Rightarrow> None)"
| "act PPublish s =
     (case ppc s of
        PIdle \<Rightarrow> None
      | PWritten t \<Rightarrow> Some (s\<lparr>rg := (rg s)\<lparr>Tail := t + 1\<rparr>, ppc := PIdle\<rparr>))"
| "act CLoad s =
     (case cpc s of
        CIdle \<Rightarrow>
          (let r = rg s; h = Head r; t = Tail r in
           if h = t then Some s
           else Some (s\<lparr>cpc :=
             (if t - h > Capacity r then CLoaded (t - Capacity r) ((t - h) - Capacity r)
              else CLoaded h 0)\<rparr>))
      | _ \<Rightarrow> None)"
| "act CRead s =
     (case cpc s of
        CLoaded h d \<Rightarrow> Some (s\<lparr>cpc := CGot (Buf (rg s) ! unat (h AND Mask (rg s))) d h\<rparr>)
      | _ \<Rightarrow> None)"
| "act CStore s =
     (case cpc s of
        CGot v d h \<Rightarrow> Some (s\<lparr>rg := (rg s)\<lparr>Head := h + 1\<rparr>, cpc := CIdle, outs := outs s @ [(v, d)]\<rparr>)
      | _ \<Rightarrow> None)"

fun acts :: "'a ring_act list \<Rightarrow> 'a shared \<Rightarrow> 'a shared option" where
  "acts [] s = Some s"
| "acts (a # as) s = (case act a s of None \<Rightarrow> None | Some s' \<Rightarrow> acts as s')"

definition shared_init :: "'a ring \<Rightarrow> 'a shared" where
  "shared_init r = \<lparr>rg = r, ppc = PIdle, cpc = CIdle, outs = []\<rparr>"

definition written :: "'a ring_act list \<Rightarrow> 'a list" where
  "written as = concat (map (\<lambda>a. case a of PWrite v \<Rightarrow> [v] | _ \<Rightarrow> []) as)"

text \<open>Run without interruption, the pieces are the operations.\<close>

lemma acts_Push:
  "ppc s = PIdle \<Longrightarrow> acts [PWrite v, PPublish] s = Some (s\<lparr>rg := Push (rg s) v\<rparr>)"
  by (simp add: Push_def Let_def)

lemma acts_Pop:
  "cpc s = CIdle \<Longrightarrow> Head (rg s) \<noteq> Tail (rg s) \<Longrightarrow>
   acts [CLoad, CRead, CStore] s =
     Some (s\<lparr>rg := snd (Pop (rg s)), outs := outs s @ [the (fst (Pop (rg s)))]\<rparr>)"
  by (simp add: Pop_def Let_def)

text \<open>
  As long as no push finds the ring full, the two sides cannot disturb each other. The invariant ties
  the counters, the slots and both program counters to the log of values written.
\<close>

fun fits :: "'a ring_act list \<Rightarrow> 'a shared \<Rightarrow> bool" where
  "fits [] s = True"
| "fits (a # as) s =
     ((case a of PWrite v \<Rightarrow> Tail (rg s) - Head (rg s) < Capacity (rg s) | _ \<Rightarrow> True) \<and>
      (case act a s of None \<Rightarrow> True | Some s' \<Rightarrow> fits as s'))"

definition published :: "'a shared \<Rightarrow> 'a list \<Rightarrow> nat" where
  "published s xs = (case ppc s of PIdle \<Rightarrow> length xs | PWritten t \<Rightarrow> length xs - 1)"

lemma published_simps [simp]:
  "published (s\<lparr>cpc := c\<rparr>) xs = published s xs"
  "published (s\<lparr>cpc := c, outs := ys\<rparr>) xs = published s xs"
  "published (s\<lparr>rg := r\<rparr>) xs = published s xs"
  by (simp_all add: published_def)

definition shared_inv :: "'a shared \<Rightarrow> 'a list \<Rightarrow> bool" where
  "shared_inv s xs \<longleftrightarrow>
     (\<exists>k < 64. Capacity (rg s) = 2 ^ k \<and> Mask (rg s) = 2 ^ k - 1 \<and> length (Buf (rg s)) = 2 ^ k \<and>
        length xs \<le> length (outs s) + 2 ^ k \<and>
        (\<forall>i < length xs. length (outs s) \<le> i \<longrightarrow> Buf (rg s) ! (i mod 2 ^ k) = xs ! i)) \<and>
     Head (rg s) = of_nat (length (outs s)) \<and>
     Tail (rg s) = of_nat (published s xs) \<and>
     length (outs s) \<le> published s xs \<and>
     outs s = map (\<lambda>v. (v, 0)) (take (length (outs s)) xs) \<and>
     (case ppc s of PIdle \<Rightarrow> True | PWritten t \<Rightarrow> xs \<noteq> [] \<and> t = of_nat (published s xs)) \<and>
     (case cpc s of
        CIdle \<Rightarrow> True
      | CLoaded h d \<Rightarrow> h = Head (rg s) \<and> d = 0 \<and> length (outs s) < published s xs
      | CGot v d h \<Rightarrow> h = Head (rg s) \<and> d = 0 \<and> length (outs s) < published s xs \<and> v = xs ! length (outs s))"

lemma shared_inv_backlog:
  assumes "shared_inv s xs"
  shows "\<exists>k < 64. Capacity (rg s) = 2 ^ k \<and> published s xs - length (outs s) \<le> 2 ^ k \<and>
    Tail (rg s) - Head (rg s) = of_nat (published s xs - length (outs s)) \<and>
    unat (Tail (rg s) - Head (rg s)) = published s xs - length (outs s)"
proof -
  from assms obtain k where k: "k < 64" "Capacity (rg s) = 2 ^ k" "length xs \<le> length (outs s) + 2 ^ k"
    by (auto simp: shared_inv_def)
  have "published s xs \<le> length xs" by (auto simp: published_def split: ppc.splits)
  with k have le: "published s xs - length (outs s) \<le> 2 ^ k" by simp
  also have "(2::nat) ^ k < 2 ^ 64" using k(1) by (intro power_strict_increasing) auto
  finally have lt: "published s xs - length (outs s) < 2 ^ 64" .
  have diff: "Tail (rg s) - Head (rg s) = of_nat (published s xs - length (outs s))"
    using assms by (simp add: shared_inv_def of_nat_diff)
  show ?thesis using k le diff unat_of_nat_small [OF lt] by (intro exI [of _ k]) simp
qed

lemma shared_inv_PWrite:
  assumes inv: "shared_inv s xs" and a: "act (PWrite v) s = Some s'"
    and room: "Tail (rg s) - Head (rg s) < Capacity (rg s)"
  shows "shared_inv s' (xs @ [v])"
proof -
  from a have p: "ppc s = PIdle" by (auto split: ppc.splits)
  then have pub: "published s xs = length xs" by (simp add: published_def)
  from inv obtain k where k: "k < 64" "Capacity (rg s) = 2 ^ k" "Mask (rg s) = 2 ^ k - 1"
      "length (Buf (rg s)) = 2 ^ k"
    and slots: "\<And>i. i < length xs \<Longrightarrow> length (outs s) \<le> i \<Longrightarrow> Buf (rg s) ! (i mod 2 ^ k) = xs ! i"
    by (auto simp: shared_inv_def)
  have le: "length (outs s) \<le> length xs" using inv pub by (simp add: shared_inv_def)
  have lt: "length xs - length (outs s) < 2 ^ k"
    using shared_inv_backlog [OF inv] room k pub by (auto simp: word_less_nat_alt unat_pow2)
  have s': "s' = s\<lparr>rg := (rg s)\<lparr>Buf := (Buf (rg s))[length xs mod 2 ^ k := v]\<rparr>, ppc := PWritten (Tail (rg s))\<rparr>"
    using a p k inv pub unat_mask_position [OF k(1), of "length xs"]
    by (simp add: Let_def shared_inv_def)
  have slots': "(Buf (rg s))[length xs mod 2 ^ k := v] ! (i mod 2 ^ k) = (xs @ [v]) ! i"
    if "i < Suc (length xs)" "length (outs s) \<le> i" for i
  proof (cases "i = length xs")
    case True
    then show ?thesis using k(4) by simp
  next
    case False
    with that have i: "i < length xs" "length xs < i + 2 ^ k" using lt by simp_all
    from mod_neq_within [OF i] slots [OF i(1) that(2)] i show ?thesis by (simp add: nth_append)
  qed
  have "outs s = map (\<lambda>v. (v, 0)) (take (length (outs s)) (xs @ [v]))"
    using inv le by (simp add: shared_inv_def)
  moreover have "case cpc s of CGot v' d h \<Rightarrow> v' = (xs @ [v]) ! length (outs s) | _ \<Rightarrow> True"
    using inv pub by (auto simp: shared_inv_def nth_append split: cpc.splits)
  ultimately show ?thesis
    using inv k slots' lt le pub unfolding s' shared_inv_def
    by (auto simp: published_def split: cpc.splits intro!: exI [of _ k])
qed

lemma shared_inv_PPublish:
  assumes "shared_inv s xs" and "act PPublish s = Some s'"
  shows "shared_inv s' xs"
proof -
  from assms(2) obtain t where p: "ppc s = PWritten t" by (auto split: ppc.splits)
  with assms have s': "s' = s\<lparr>rg := (rg s)\<lparr>Tail := t + 1\<rparr>, ppc := PIdle\<rparr>" by simp
  have t: "xs \<noteq> []" "t = of_nat (length xs - 1)" "length (outs s) \<le> length xs - 1"
    using assms(1) p by (auto simp: shared_inv_def published_def)
  then have "t + 1 = of_nat (length xs)"
    by (cases xs) simp_all
  moreover have "length (outs s) < published s xs \<Longrightarrow> length (outs s) < length xs"
    by (auto simp: published_def p)
  ultimately show ?thesis
    using assms(1) t unfolding s' shared_inv_def
    by (auto simp: published_def p split: cpc.splits)
qed

lemma shared_inv_CLoad:
  assumes "shared_inv s xs" and "act CLoad s = Some s'"
  shows "shared_inv s' xs"
proof -
  from assms(2) have c: "cpc s = CIdle" by (auto split: cpc.splits)
  from shared_inv_backlog [OF assms(1)] obtain k where k: "k < 64" "Capacity (rg s) = 2 ^ k"
      "unat (Tail (rg s) - Head (rg s)) \<le> 2 ^ k"
      "unat (Tail (rg s) - Head (rg s)) = published s xs - length (outs s)"
    by auto
  then have nodrop: "\<not> Capacity (rg s) < Tail (rg s) - Head (rg s)"
    by (simp add: word_less_nat_alt unat_pow2)
  show ?thesis
  proof (cases "Head (rg s) = Tail (rg s)")
    case True
    with assms c show ?thesis by simp
  next
    case False
    then have "unat (Tail (rg s) - Head (rg s)) \<noteq> 0" by (auto simp: unat_eq_0)
    with k(4) have "length (outs s) < published s xs" by linarith
    moreover have "s' = s\<lparr>cpc := CLoaded (Head (rg s)) 0\<rparr>"
      using assms(2) c False nodrop by (simp add: Let_def)
    ultimately show ?thesis
      using assms(1) by (simp add: shared_inv_def split: ppc.splits)
  qed
qed

lemma shared_inv_CRead:
  assumes "shared_inv s xs" and "act CRead s = Some s'"
  shows "shared_inv s' xs"
proof -
  from assms(2) obtain h d where c: "cpc s = CLoaded h d" by (auto split: cpc.splits)
  from assms(1) obtain k where k: "k < 64" "Mask (rg s) = 2 ^ k - 1"
    and slots: "\<And>i. i < length xs \<Longrightarrow> length (outs s) \<le> i \<Longrightarrow> Buf (rg s) ! (i mod 2 ^ k) = xs ! i"
    by (auto simp: shared_inv_def)
  have h: "h = of_nat (length (outs s))" "length (outs s) < published s xs"
    using assms(1) c by (auto simp: shared_inv_def)
  have "published s xs \<le> length xs" by (auto simp: published_def split: ppc.splits)
  with h slots [of "length (outs s)"] unat_mask_position [OF k(1), of "length (outs s)"] k(2)
  have "Buf (rg s) ! unat (h AND Mask (rg s)) = xs ! length (outs s)" by simp
  with assms c show ?thesis by (auto simp: shared_inv_def split: ppc.splits)
qed

lemma shared_inv_CStore:
  assumes "shared_inv s xs" and "act CStore s = Some s'"
  shows "shared_inv s' xs"
proof -
  from assms(2) obtain v d h where c: "cpc s = CGot v d h" by (auto split: cpc.splits)
  with assms have s': "s' = s\<lparr>rg := (rg s)\<lparr>Head := h + 1\<rparr>, cpc := CIdle, outs := outs s @ [(v, d)]\<rparr>" by simp
  have h: "h = of_nat (length (outs s))" "d = 0" "length (outs s) < published s xs" "v = xs ! length (outs s)"
    using assms(1) c by (auto simp: shared_inv_def)
  have "published s xs \<le> length xs" by (auto simp: published_def split: ppc.splits)
  with h have lt: "length (outs s) < length xs" by simp
  have o1: "outs s = map (\<lambda>v. (v, 0)) (take (length (outs s)) xs)"
    using assms(1) by (simp add: shared_inv_def)
  have out: "outs s' = map (\<lambda>v. (v, 0)) (take (Suc (length (outs s))) xs)"
    using o1 h lt by (simp add: s' take_Suc_conv_app_nth)
  have pub: "published s' xs = published s xs" by (simp add: published_def s')
  show ?thesis
    using assms(1) h out lt unfolding shared_inv_def pub
    by (auto simp: s')
qed

lemma shared_inv_acts:
  assumes "shared_inv s xs" and "acts as s = Some s'" and "fits as s"
  shows "shared_inv s' (xs @ written as)"
  using assms
proof (induction as arbitrary: s xs)
  case Nil
  then show ?case by (simp add: written_def)
next
  case (Cons a as)
  from Cons.prems(2) obtain s1 where s1: "act a s = Some s1" "acts as s1 = Some s'"
    by (auto split: option.splits)
  have f: "fits as s1" using Cons.prems(3) s1(1) by simp
  show ?case
  proof (cases "\<exists>v. a = PWrite v")
    case True
    then obtain v where v: "a = PWrite v" by blast
    with Cons.prems s1 have "shared_inv s1 (xs @ [v])" by (intro shared_inv_PWrite) auto
    from Cons.IH [OF this s1(2) f] v show ?thesis by (simp add: written_def)
  next
    case False
    then have "shared_inv s1 xs"
      using s1(1) Cons.prems(1)
      by (cases a) (blast intro: shared_inv_PPublish shared_inv_CLoad shared_inv_CRead shared_inv_CStore)+
    moreover have "written (a # as) = written as"
      using False by (cases a) (simp_all add: written_def)
    ultimately show ?thesis using Cons.IH [OF _ s1(2) f] by simp
  qed
qed

lemma shared_inv_init: "NewSpscDropOldestRing zero capacity = Some r \<Longrightarrow> shared_inv (shared_init r) []"
  using ring_rel_new [of zero capacity r]
  by (auto simp: shared_inv_def shared_init_def ring_rel_def published_def)

text \<open>
  C21. Under every interleaving of the two goroutines in which no push meets a full ring, the consumer
  receives exactly the first values written, in order, each with a drop count of zero.
\<close>

theorem ring_lock_free_fifo:
  assumes "NewSpscDropOldestRing zero capacity = Some r"
    and "acts as (shared_init r) = Some s" and "fits as (shared_init r)"
  shows "outs s = map (\<lambda>v. (v, 0)) (take (length (outs s)) (written as))"
  using shared_inv_acts [OF shared_inv_init [OF assms(1)] assms(2,3)]
  by (simp add: shared_inv_def)

definition demo_ring :: "nat ring" where
  "demo_ring = \<lparr>Buf = [0, 0], Mask = 1, Capacity = 2, Head = 0, Tail = 0\<rparr>"

definition demo_acts :: "nat ring_act list" where
  "demo_acts = [PWrite 7, PPublish, CLoad, PWrite 8, CRead, PPublish, CStore]"

theorem ring_lock_free_fifo_witness:
  "NewSpscDropOldestRing 0 2 = Some demo_ring \<and> fits demo_acts (shared_init demo_ring) \<and>
   outs (the (acts demo_acts (shared_init demo_ring))) = [(7, 0)]"
proof -
  have r: "NewSpscDropOldestRing 0 2 = Some demo_ring" unfolding demo_ring_def by code_simp
  have f: "fits demo_acts (shared_init demo_ring)" by code_simp
  have "acts demo_acts (shared_init demo_ring) \<noteq> None" by code_simp
  then obtain s where s: "acts demo_acts (shared_init demo_ring) = Some s" by blast
  have "length (outs (the (acts demo_acts (shared_init demo_ring)))) = 1" by code_simp
  with s have l: "length (outs s) = 1" by simp
  have w: "written demo_acts = [7, 8]" by code_simp
  have "outs s = [(7, 0)]" using ring_lock_free_fifo [OF r s f] l w by simp
  with r f s show ?thesis by simp
qed

definition race_acts :: "nat ring_act list" where
  "race_acts = [PWrite 1, PPublish, PWrite 2, PPublish, PWrite 3, CLoad, CRead, CStore, PPublish,
     CLoad, CRead, CStore, CLoad, CRead, CStore]"

text \<open>
  When the ring is full the accounting breaks: there is an interleaving of three pushes and three
  pops on a ring of capacity two in which the consumer reads the slot of the oldest entry after the
  producer has overwritten it and before the tail is published. The oldest value is lost, the newest
  is delivered twice and first, and every reported drop count is zero.
\<close>

theorem ring_full_race_loses_silently:
  "NewSpscDropOldestRing 0 2 = Some demo_ring \<and> written race_acts = [1, 2, 3] \<and>
   (\<exists>s. acts race_acts (shared_init demo_ring) = Some s \<and>
      outs s = [(3, 0), (2, 0), (3, 0)] \<and> \<not> explains [1, 2, 3] (outs s))"
proof -
  have r: "NewSpscDropOldestRing 0 2 = Some demo_ring" unfolding demo_ring_def by code_simp
  have w: "written race_acts = [1, 2, 3]" by code_simp
  have "acts race_acts (shared_init demo_ring) \<noteq> None" by code_simp
  then obtain s where s: "acts race_acts (shared_init demo_ring) = Some s" by blast
  have "outs (the (acts race_acts (shared_init demo_ring))) = [(3, 0), (2, 0), (3, 0)]" by code_simp
  with s have o: "outs s = [(3, 0), (2, 0), (3, 0)]" by simp
  have "\<not> explains [1, 2, 3::nat] [(3, 0), (2, 0), (3, 0)]" by code_simp
  with r w s o show ?thesis by auto
qed

end
