(* ===== verification/Float64.thy ===== *)
theory Float64
  imports Complex_Main Go_Prelude
begin

text \<open>
  Go's \<open>float64\<close>: IEEE 754 binary64. A finite value is the exact rational it denotes; every arithmetic
  operation rounds the exact result to nearest, ties to even, with gradual underflow and overflow to
  infinity. The two zeros are one value: the code compares, adds, multiplies and divides by checked
  divisors only, and none of these sees the sign of a zero. The functions \<open>math.Log\<close> and \<open>math.Exp\<close>
  are not specified to the last bit by Go; they are arguments of the definitions that call them.
\<close>

datatype f64 = NaN | NInf | Fin rat | PInf

section \<open>Rounding\<close>

definition pow2 :: "int \<Rightarrow> rat" where
  "pow2 e = 2 powi e"

function bitlen :: "int \<Rightarrow> int" where
  "bitlen n = (if n \<le> 0 then 0 else 1 + bitlen (n div 2))"
  by pat_completeness auto
termination
  by (relation "measure nat") auto

declare bitlen.simps [simp del]

text \<open>The exponent of the leading bit of a positive rational.\<close>

definition ilog2 :: "rat \<Rightarrow> int" where
  "ilog2 x =
     (let (p, q) = quotient_of x; g = bitlen p - bitlen q
      in if pow2 g \<le> x then g else g - 1)"

definition round_even :: "rat \<Rightarrow> int" where
  "round_even x =
     (let n = \<lfloor>x\<rfloor>; d = x - of_int n
      in if d < 1 / 2 then n else if d > 1 / 2 then n + 1 else if even n then n else n + 1)"

definition f64_round :: "rat \<Rightarrow> f64" where
  "f64_round x =
     (if x = 0 then Fin 0
      else
        let e = max (ilog2 \<bar>x\<bar> - 52) (- 1074);
            y = of_int (round_even (x / pow2 e)) * pow2 e
        in if y \<ge> pow2 1024 then PInf else if y \<le> - pow2 1024 then NInf else Fin y)"

section \<open>Comparison\<close>

fun f_lt :: "f64 \<Rightarrow> f64 \<Rightarrow> bool" where
  "f_lt NaN b = False"
| "f_lt a NaN = False"
| "f_lt NInf b = (b \<noteq> NInf)"
| "f_lt (Fin x) NInf = False"
| "f_lt (Fin x) (Fin y) = (x < y)"
| "f_lt (Fin x) PInf = True"
| "f_lt PInf b = False"

definition f_eq :: "f64 \<Rightarrow> f64 \<Rightarrow> bool" where
  "f_eq a b \<longleftrightarrow> a \<noteq> NaN \<and> b \<noteq> NaN \<and> a = b"

definition f_le :: "f64 \<Rightarrow> f64 \<Rightarrow> bool" where
  "f_le a b \<longleftrightarrow> f_lt a b \<or> f_eq a b"

definition is_nan :: "f64 \<Rightarrow> bool" where
  "is_nan a \<longleftrightarrow> a = NaN"

text \<open>\<open>math.IsInf(f, 0)\<close>: either infinity.\<close>

definition is_inf :: "f64 \<Rightarrow> bool" where
  "is_inf a \<longleftrightarrow> a = PInf \<or> a = NInf"

section \<open>Arithmetic\<close>

fun f_neg :: "f64 \<Rightarrow> f64" where
  "f_neg NaN = NaN"
| "f_neg NInf = PInf"
| "f_neg (Fin x) = Fin (- x)"
| "f_neg PInf = NInf"

fun f_add :: "f64 \<Rightarrow> f64 \<Rightarrow> f64" where
  "f_add NaN b = NaN"
| "f_add a NaN = NaN"
| "f_add PInf NInf = NaN"
| "f_add NInf PInf = NaN"
| "f_add PInf b = PInf"
| "f_add NInf b = NInf"
| "f_add (Fin x) PInf = PInf"
| "f_add (Fin x) NInf = NInf"
| "f_add (Fin x) (Fin y) = f64_round (x + y)"

definition f_sub :: "f64 \<Rightarrow> f64 \<Rightarrow> f64" where
  "f_sub a b = f_add a (f_neg b)"

definition inf_of_sign :: "rat \<Rightarrow> f64" where
  "inf_of_sign x = (if x > 0 then PInf else if x < 0 then NInf else NaN)"

fun f_mul :: "f64 \<Rightarrow> f64 \<Rightarrow> f64" where
  "f_mul NaN b = NaN"
| "f_mul a NaN = NaN"
| "f_mul (Fin x) (Fin y) = f64_round (x * y)"
| "f_mul (Fin x) PInf = inf_of_sign x"
| "f_mul (Fin x) NInf = inf_of_sign (- x)"
| "f_mul PInf (Fin y) = inf_of_sign y"
| "f_mul NInf (Fin y) = inf_of_sign (- y)"
| "f_mul PInf PInf = PInf"
| "f_mul NInf NInf = PInf"
| "f_mul PInf NInf = NInf"
| "f_mul NInf PInf = NInf"

text \<open>A zero divisor is positive zero: see the header.\<close>

fun f_div :: "f64 \<Rightarrow> f64 \<Rightarrow> f64" where
  "f_div NaN b = NaN"
| "f_div a NaN = NaN"
| "f_div (Fin x) (Fin y) = (if y = 0 then inf_of_sign x else f64_round (x / y))"
| "f_div (Fin x) PInf = Fin 0"
| "f_div (Fin x) NInf = Fin 0"
| "f_div PInf (Fin y) = (if y < 0 then NInf else PInf)"
| "f_div NInf (Fin y) = (if y < 0 then PInf else NInf)"
| "f_div PInf b = NaN"
| "f_div NInf b = NaN"

fun f_abs :: "f64 \<Rightarrow> f64" where
  "f_abs NaN = NaN"
| "f_abs NInf = PInf"
| "f_abs PInf = PInf"
| "f_abs (Fin x) = Fin \<bar>x\<bar>"

text \<open>The built-in \<open>min\<close> and \<open>max\<close> propagate NaN.\<close>

definition f_min :: "f64 \<Rightarrow> f64 \<Rightarrow> f64" where
  "f_min a b = (if a = NaN \<or> b = NaN then NaN else if f_lt b a then b else a)"

definition f_max :: "f64 \<Rightarrow> f64 \<Rightarrow> f64" where
  "f_max a b = (if a = NaN \<or> b = NaN then NaN else if f_lt a b then b else a)"

text \<open>\<open>math.Max\<close>: an infinity wins over NaN.\<close>

definition math_max :: "f64 \<Rightarrow> f64 \<Rightarrow> f64" where
  "math_max a b = (if a = PInf \<or> b = PInf then PInf else f_max a b)"

text \<open>\<open>float64(n)\<close> of an integer, and \<open>int64(x)\<close>, which truncates towards zero.\<close>

definition f_of_int :: "int \<Rightarrow> f64" where
  "f_of_int n = f64_round (of_int n)"

fun f_trunc :: "f64 \<Rightarrow> int" where
  "f_trunc (Fin x) = (if x \<ge> 0 then \<lfloor>x\<rfloor> else \<lceil>x\<rceil>)"
| "f_trunc _ = - (2 ^ 63)"

section \<open>The order\<close>

text \<open>
  A linear order for the library's sorted lists: NaN least, then the order of the numbers. On values
  that are not NaN it is Go's \<open><\<close>.
\<close>

fun f_rank :: "f64 \<Rightarrow> int" where
  "f_rank NaN = 0"
| "f_rank NInf = 1"
| "f_rank (Fin x) = 2"
| "f_rank PInf = 3"

fun f_val :: "f64 \<Rightarrow> rat" where
  "f_val (Fin x) = x"
| "f_val _ = 0"

instantiation f64 :: linorder
begin

definition less_eq_f64 :: "f64 \<Rightarrow> f64 \<Rightarrow> bool" where
  "less_eq_f64 a b \<longleftrightarrow> f_rank a < f_rank b \<or> (f_rank a = f_rank b \<and> f_val a \<le> f_val b)"

definition less_f64 :: "f64 \<Rightarrow> f64 \<Rightarrow> bool" where
  "less_f64 a b \<longleftrightarrow> f_rank a < f_rank b \<or> (f_rank a = f_rank b \<and> f_val a < f_val b)"

instance
proof
  fix a b c :: f64
  show "a < b \<longleftrightarrow> a \<le> b \<and> \<not> b \<le> a" by (auto simp: less_eq_f64_def less_f64_def)
  show "a \<le> a" by (simp add: less_eq_f64_def)
  show "a \<le> b \<Longrightarrow> b \<le> c \<Longrightarrow> a \<le> c" by (auto simp: less_eq_f64_def)
  show "a \<le> b \<Longrightarrow> b \<le> a \<Longrightarrow> a = b" by (cases a; cases b) (auto simp: less_eq_f64_def)
  show "a \<le> b \<or> b \<le> a" by (auto simp: less_eq_f64_def)
qed

end

lemma f_lt_less: "a \<noteq> NaN \<Longrightarrow> b \<noteq> NaN \<Longrightarrow> f_lt a b \<longleftrightarrow> a < b"
  by (cases a; cases b) (simp_all add: less_f64_def)

lemma f_lt_nan: "f_lt a b \<Longrightarrow> a \<noteq> NaN \<and> b \<noteq> NaN"
  by (cases a; cases b) simp_all

lemma f_eq_eq: "a \<noteq> NaN \<Longrightarrow> b \<noteq> NaN \<Longrightarrow> f_eq a b \<longleftrightarrow> a = b"
  by (simp add: f_eq_def)

lemma f_le_less_eq: "a \<noteq> NaN \<Longrightarrow> b \<noteq> NaN \<Longrightarrow> f_le a b \<longleftrightarrow> a \<le> b"
  by (auto simp: f_le_def f_lt_less f_eq_eq)

section \<open>What rounding guarantees\<close>

lemma pow2_pos [simp]: "0 < pow2 e"
  by (simp add: pow2_def)

lemma abs_pow2 [simp]: "\<bar>pow2 e\<bar> = pow2 e"
  using pow2_pos [of e] by linarith

lemma pow2_add: "pow2 (a + b) = pow2 a * pow2 b"
  by (simp add: pow2_def power_int_add)

lemma pow2_of_nat: "pow2 (int n) = 2 ^ n"
  by (simp add: pow2_def)

lemma pow2_1: "pow2 1 = 2"
  by (simp add: pow2_def)

lemma pow2_mono: "a \<le> b \<Longrightarrow> pow2 a \<le> pow2 b"
  by (simp add: pow2_def power_int_increasing)

lemma pow2_less: "a < b \<Longrightarrow> pow2 a < pow2 b"
  by (simp add: pow2_def power_int_strict_increasing)

lemma pow2_int: "0 \<le> a \<Longrightarrow> pow2 a = of_int (2 ^ nat a)"
  using pow2_of_nat [of "nat a"] by simp

lemma bitlen_bounds:
  assumes "0 < n"
  shows "1 \<le> bitlen n \<and> pow2 (bitlen n - 1) \<le> of_int n \<and> of_int n < pow2 (bitlen n)"
  using assms
proof (induction n rule: bitlen.induct)
  case (1 n)
  show ?case
  proof (cases "n = 1")
    case True
    have "bitlen 1 = 1" by (simp add: bitlen.simps)
    with True show ?thesis by (simp add: pow2_def)
  next
    case False
    let ?m = "n div 2"
    have "0 < ?m" using "1.prems" False by linarith
    then have IH: "1 \<le> bitlen ?m" "pow2 (bitlen ?m - 1) \<le> of_int ?m" "of_int ?m < pow2 (bitlen ?m)"
      using "1.IH" "1.prems" by auto
    have b: "bitlen n = 1 + bitlen ?m" using "1.prems" by (simp add: bitlen.simps)
    have le: "2 * ?m \<le> n" and lt: "n < 2 * (?m + 1)" by presburger+
    have "pow2 (bitlen n - 1) = 2 * pow2 (bitlen ?m - 1)"
      using pow2_add [of 1 "bitlen ?m - 1"] by (simp add: b pow2_def)
    also have "\<dots> \<le> of_int (2 * ?m)" using IH by simp
    also have "\<dots> \<le> of_int n" using le by (simp only: of_int_le_iff)
    finally have low: "pow2 (bitlen n - 1) \<le> of_int n" .
    have "of_int ?m < (of_int (2 ^ nat (bitlen ?m)) :: rat)" using IH pow2_int [of "bitlen ?m"] by simp
    then have "?m + 1 \<le> 2 ^ nat (bitlen ?m)" by (simp only: of_int_less_iff)
    with lt have "n < 2 * 2 ^ nat (bitlen ?m)" by linarith
    then have "of_int n < (of_int (2 * 2 ^ nat (bitlen ?m)) :: rat)" by (simp only: of_int_less_iff)
    also have "\<dots> = pow2 (bitlen n)"
      using IH pow2_add [of 1 "bitlen ?m"] pow2_int [of "bitlen ?m"] by (simp add: b pow2_def)
    finally show ?thesis using low IH b by simp
  qed
qed

lemma ilog2_bounds:
  assumes "0 < x"
  shows "pow2 (ilog2 x) \<le> x \<and> x < pow2 (ilog2 x + 1)"
proof -
  obtain p q where pq: "quotient_of x = (p, q)" by (cases "quotient_of x")
  have q: "0 < q" using pq by (rule quotient_of_denom_pos)
  have x: "x = of_int p / of_int q" using pq by (rule quotient_of_div)
  have p: "0 < p" using assms x q by (simp add: zero_less_divide_iff)
  define g where "g = bitlen p - bitlen q"
  note bp = bitlen_bounds [OF p] and bq = bitlen_bounds [OF q]
  have qpos: "(0::rat) < of_int q" using q by simp
  have "pow2 (g - 1) * of_int q \<le> pow2 (g - 1) * pow2 (bitlen q)" using bq by simp
  also have "\<dots> = pow2 (bitlen p - 1)" by (simp add: g_def flip: pow2_add)
  also have "\<dots> \<le> of_int p" using bp by simp
  finally have low: "pow2 (g - 1) \<le> x" using qpos by (simp add: x field_simps)
  have "of_int p < pow2 (bitlen p)" using bp by simp
  also have "\<dots> = pow2 (g + 1) * pow2 (bitlen q - 1)" by (simp add: g_def flip: pow2_add)
  also have "\<dots> \<le> pow2 (g + 1) * of_int q" using bq by simp
  finally have high: "x < pow2 (g + 1)" using qpos by (simp add: x field_simps)
  have "ilog2 x = (if pow2 g \<le> x then g else g - 1)" by (simp add: ilog2_def pq g_def)
  then show ?thesis using low high by (auto simp: not_le)
qed

lemma round_even_ge: "of_int n \<le> x \<Longrightarrow> n \<le> round_even x"
  using le_floor_iff [of n x] by (auto simp: round_even_def Let_def)

lemma round_even_le:
  assumes "x \<le> of_int n"
  shows "round_even x \<le> n"
proof (cases "x = of_int n")
  case True
  then show ?thesis by (simp add: round_even_def Let_def)
next
  case False
  with assms have "\<lfloor>x\<rfloor> < n" by (simp add: floor_less_iff)
  then show ?thesis by (simp add: round_even_def Let_def)
qed

lemma round_even_int [simp]: "round_even (of_int n) = n"
  by (intro antisym round_even_le round_even_ge) simp_all

text \<open>The values a \<open>float64\<close> can hold.\<close>

definition representable :: "rat \<Rightarrow> bool" where
  "representable z \<longleftrightarrow>
     \<bar>z\<bar> < pow2 1024 \<and> (\<exists>m e. z = of_int m * pow2 e \<and> \<bar>m\<bar> < 2 ^ 53 \<and> - 1074 \<le> e)"

definition f_valid :: "f64 \<Rightarrow> bool" where
  "f_valid a \<longleftrightarrow> (\<forall>x. a = Fin x \<longrightarrow> representable x)"

text \<open>The exponent \<^const>\<open>f64_round\<close> works at.\<close>

definition round_exp :: "rat \<Rightarrow> int" where
  "round_exp x = max (ilog2 \<bar>x\<bar> - 52) (- 1074)"

lemma f64_round_eq:
  "x \<noteq> 0 \<Longrightarrow> f64_round x =
     (let y = of_int (round_even (x / pow2 (round_exp x))) * pow2 (round_exp x)
      in if y \<ge> pow2 1024 then PInf else if y \<le> - pow2 1024 then NInf else Fin y)"
  by (simp add: f64_round_def round_exp_def Let_def)

text \<open>
  A representable value on one side of \<open>x\<close> is either a multiple of the rounding unit, or separated from
  \<open>x\<close> by the power of two that starts the binade of \<open>x\<close>, which is itself such a multiple.
\<close>

lemma representable_unit:
  assumes "representable z" and "x \<noteq> 0"
  shows "(\<exists>n. z = of_int n * pow2 (round_exp x)) \<or>
    (\<bar>z\<bar> \<le> of_int (2 ^ 52) * pow2 (round_exp x) \<and> of_int (2 ^ 52) * pow2 (round_exp x) \<le> \<bar>x\<bar>)"
proof -
  from assms(1) obtain m e where z: "z = of_int m * pow2 e" and m: "\<bar>m\<bar> < 2 ^ 53" and e: "- 1074 \<le> e"
    by (auto simp: representable_def)
  let ?r = "round_exp x"
  show ?thesis
  proof (cases "?r \<le> e")
    case True
    then have "z = of_int (m * 2 ^ nat (e - ?r)) * pow2 ?r"
      using pow2_int [of "e - ?r"] pow2_add [of "e - ?r" ?r] by (simp add: z)
    then show ?thesis by blast
  next
    case False
    with e have r: "?r = ilog2 \<bar>x\<bar> - 52" by (auto simp: round_exp_def max_def split: if_splits)
    have "\<bar>z\<bar> = of_int \<bar>m\<bar> * pow2 e" by (simp add: z abs_mult)
    also have "\<dots> \<le> of_int (2 ^ 53) * pow2 e" using m by (intro mult_right_mono of_int_le_iff [THEN iffD2]) (simp_all add: less_imp_le)
    also have "\<dots> = pow2 (53 + e)" by (simp add: pow2_add pow2_int)
    also have "\<dots> \<le> pow2 (52 + ?r)" using False by (intro pow2_mono) simp
    also have "\<dots> = of_int (2 ^ 52) * pow2 ?r" by (simp add: pow2_add pow2_int)
    finally have "\<bar>z\<bar> \<le> of_int (2 ^ 52) * pow2 ?r" .
    moreover have "of_int (2 ^ 52) * pow2 ?r = pow2 (ilog2 \<bar>x\<bar>)"
      using pow2_add [of 52 ?r] by (simp add: r pow2_int)
    then have "of_int (2 ^ 52) * pow2 ?r \<le> \<bar>x\<bar>" using ilog2_bounds [of "\<bar>x\<bar>"] assms(2) by simp
    ultimately show ?thesis by blast
  qed
qed

lemma f64_round_ge:
  assumes "representable z" and "z \<le> x"
  shows "Fin z \<le> f64_round x"
proof (cases "x = 0")
  case True
  with assms show ?thesis by (simp add: f64_round_def less_eq_f64_def)
next
  case False
  let ?u = "pow2 (round_exp x)"
  obtain n where n: "z \<le> of_int n * ?u" "of_int n * ?u \<le> x"
  proof (cases "\<exists>n. z = of_int n * ?u")
    case True
    with assms(2) that show ?thesis by auto
  next
    case F: False
    with representable_unit [OF assms(1) False]
    have b: "\<bar>z\<bar> \<le> of_int (2 ^ 52) * ?u" "of_int (2 ^ 52) * ?u \<le> \<bar>x\<bar>" by blast+
    show ?thesis
    proof (cases "0 < x")
      case True
      with b that [of "2 ^ 52"] show ?thesis by linarith
    next
      case neg: False
      with b assms(2) have "z = - (of_int (2 ^ 52) * ?u)" by linarith
      then have "z = of_int (- (2 ^ 52)) * ?u" by simp
      with F show ?thesis by blast
    qed
  qed
  from n(2) have "of_int n \<le> x / ?u" by (simp add: le_divide_eq)
  then have "n \<le> round_even (x / ?u)" by (rule round_even_ge)
  then have y: "z \<le> of_int (round_even (x / ?u)) * ?u"
    using n(1) by (meson dual_order.trans mult_right_mono of_int_le_iff less_imp_le pow2_pos)
  moreover have "- pow2 1024 < z" using assms(1) by (simp add: representable_def abs_less_iff)
  ultimately show ?thesis
    using False by (auto simp: f64_round_eq Let_def less_eq_f64_def)
qed

lemma f64_round_le:
  assumes "representable z" and "x \<le> z"
  shows "f64_round x \<le> Fin z"
proof (cases "x = 0")
  case True
  with assms show ?thesis by (simp add: f64_round_def less_eq_f64_def)
next
  case False
  let ?u = "pow2 (round_exp x)"
  obtain n where n: "of_int n * ?u \<le> z" "x \<le> of_int n * ?u"
  proof (cases "\<exists>n. z = of_int n * ?u")
    case True
    with assms(2) that show ?thesis by auto
  next
    case F: False
    with representable_unit [OF assms(1) False]
    have b: "\<bar>z\<bar> \<le> of_int (2 ^ 52) * ?u" "of_int (2 ^ 52) * ?u \<le> \<bar>x\<bar>" by blast+
    show ?thesis
    proof (cases "x < 0")
      case True
      have "of_int (- (2 ^ 52)) * ?u = - (of_int (2 ^ 52) * ?u)" by simp
      with True b that [of "- (2 ^ 52)"] show ?thesis by linarith
    next
      case pos: False
      with b assms(2) have "z = of_int (2 ^ 52) * ?u" by linarith
      with F show ?thesis by blast
    qed
  qed
  from n(2) have "x / ?u \<le> of_int n" by (simp add: divide_le_eq)
  then have "round_even (x / ?u) \<le> n" by (rule round_even_le)
  then have y: "of_int (round_even (x / ?u)) * ?u \<le> z"
    using n(1) by (meson dual_order.trans mult_right_mono of_int_le_iff less_imp_le pow2_pos)
  moreover have "z < pow2 1024" using assms(1) by (simp add: representable_def abs_less_iff)
  ultimately show ?thesis
    using False by (auto simp: f64_round_eq Let_def less_eq_f64_def)
qed

lemma f64_exact: "representable z \<Longrightarrow> f64_round z = Fin z"
  using f64_round_ge [of z z] f64_round_le [of z z] by simp

lemma representable_int: "\<bar>n\<bar> < 2 ^ 53 \<Longrightarrow> representable (of_int n)"
proof -
  assume n: "\<bar>n\<bar> < 2 ^ 53"
  have "\<bar>of_int n :: rat\<bar> = of_int \<bar>n\<bar>" by simp
  also have "\<dots> < of_int (2 ^ 53)" using n by (simp only: of_int_less_iff)
  also have "\<dots> = pow2 53" by (simp add: pow2_int)
  also have "\<dots> < pow2 1024" by (rule pow2_less) simp
  finally have b: "\<bar>of_int n :: rat\<bar> < pow2 1024" .
  have "of_int n = of_int n * pow2 0" by (simp add: pow2_def)
  with b n show ?thesis unfolding representable_def by (intro conjI exI [of _ n] exI [of _ 0]) simp_all
qed

lemma f64_round_int: "\<bar>n\<bar> < 2 ^ 53 \<Longrightarrow> f64_round (of_int n) = Fin (of_int n)"
  by (intro f64_exact representable_int)

lemma f64_round_num [simp]:
  "numeral k < (2 :: int) ^ 53 \<Longrightarrow> f64_round (numeral k) = Fin (numeral k)"
  "numeral k < (2 :: int) ^ 53 \<Longrightarrow> f64_round (- numeral k) = Fin (- numeral k)"
  "f64_round 1 = Fin 1" "f64_round 0 = Fin 0"
  using f64_round_int [of "numeral k"] f64_round_int [of "- numeral k"] f64_round_int [of 1] f64_round_int [of 0]
  by simp_all

text \<open>The result of an operation is again a \<open>float64\<close>.\<close>

lemma f64_round_valid: "f_valid (f64_round x)"
proof (cases "x = 0")
  case True
  then show ?thesis using representable_int [of 0] by (simp add: f_valid_def f64_round_def)
next
  case False
  let ?r = "round_exp x" and ?u = "pow2 (round_exp x)"
  define n where "n = round_even (x / ?u)"
  have "\<bar>x\<bar> < pow2 (ilog2 \<bar>x\<bar> + 1)" using ilog2_bounds [of "\<bar>x\<bar>"] False by simp
  also have "\<dots> \<le> pow2 (53 + ?r)" by (intro pow2_mono) (simp add: round_exp_def)
  also have "\<dots> = of_int (2 ^ 53) * ?u" by (simp add: pow2_add pow2_int)
  finally have "\<bar>x\<bar> < of_int (2 ^ 53) * ?u" .
  then have "x / ?u \<le> of_int (2 ^ 53)" "of_int (- (2 ^ 53)) \<le> x / ?u"
    by (auto simp: divide_le_eq le_divide_eq abs_less_iff)
  then have "n \<le> 2 ^ 53" "- (2 ^ 53) \<le> n"
    unfolding n_def by (blast intro: round_even_le round_even_ge)+
  then consider "\<bar>n\<bar> < 2 ^ 53" | "n = 2 ^ 53" | "n = - (2 ^ 53)" by linarith
  then have "\<exists>m e. of_int n * ?u = of_int m * pow2 e \<and> \<bar>m\<bar> < 2 ^ 53 \<and> - 1074 \<le> e"
  proof cases
    case 1
    then show ?thesis by (intro exI [of _ n] exI [of _ ?r]) (simp add: round_exp_def)
  next
    case 2
    have "of_int n * ?u = of_int (2 ^ 52) * pow2 (1 + ?r)"
      unfolding 2 pow2_add pow2_1 by simp
    then show ?thesis
      by (intro exI [of _ "2 ^ 52"] exI [of _ "1 + ?r"] conjI) (simp_all add: round_exp_def)
  next
    case 3
    have "of_int n * ?u = of_int (- (2 ^ 52)) * pow2 (1 + ?r)"
      unfolding 3 pow2_add pow2_1 by simp
    then show ?thesis
      by (intro exI [of _ "- (2 ^ 52)"] exI [of _ "1 + ?r"] conjI) (simp_all add: round_exp_def)
  qed
  then have r: "\<bar>of_int n * ?u\<bar> < pow2 1024 \<Longrightarrow> representable (of_int n * ?u)"
    unfolding representable_def by blast
  show ?thesis
    unfolding f64_round_eq [OF False] Let_def f_valid_def n_def [symmetric]
    using r by (simp add: abs_less_iff)
qed

end
