(* ===== verification/Norm_Types.thy ===== *)
theory Norm_Types
  imports Float64 Src_Offset Decimal "HOL-Library.AList"
begin

text \<open>
  The normalizer's data (\<open>normalizer/constants\<close>): the six raw feed messages, the pipeline message that
  wraps one of them, the per-symbol state, and the strategies a symbol is wired to. Go maps that the
  code iterates or counts are association lists, written with \<^const>\<open>AList.update\<close> and
  \<^const>\<open>AList.delete\<close> and read with \<^const>\<open>map_of\<close>.

  What the code takes from \<open>encoding/json\<close>, \<open>strconv.ParseFloat\<close>, \<open>time.Parse\<close> and the protobuf
  runtime is the record \<open>codec\<close>, an argument of the definitions: the theorems hold for every decoder.
\<close>

section \<open>Feed messages\<close>

record BinanceAggTradeMsg =
  at_EventTime :: int
  at_Symbol :: string
  at_AggTradeID :: int
  at_Price :: string
  at_Quantity :: string

record BinanceDepthUpdateMsg =
  du_EventType :: string
  du_EventTime :: int
  du_Symbol :: string
  du_FirstUpdateID :: int
  du_FinalUpdateID :: int
  du_Bids :: "string list list"
  du_Asks :: "string list list"

record CoinbaseTickerMsg =
  ct_Sequence :: int
  ct_ProductID :: string
  ct_Price :: string
  ct_Open24h :: string
  ct_Volume24h :: string
  ct_Low24h :: string
  ct_High24h :: string
  ct_Time :: string

record CoinbaseLevel2Msg =
  l2_Type :: string
  l2_ProductId :: string
  l2_Bids :: "string list list"
  l2_Asks :: "string list list"
  l2_Time :: string
  l2_Changes :: "string list list"

record KrakenTickerData =
  kt_Symbol :: string
  kt_Last :: f64
  kt_Volume :: f64
  kt_Low :: f64
  kt_High :: f64

record KrakenTickerMsg =
  kt_Type :: string
  kt_Data :: "KrakenTickerData list"

record KrakenBookLevel =
  kl_Price :: f64
  kl_Qty :: f64

record KrakenBookData =
  kb_Symbol :: string
  kb_Bids :: "KrakenBookLevel list"
  kb_Asks :: "KrakenBookLevel list"
  kb_Timestamp :: string

record KrakenBookMsg =
  kb_Type :: string
  kb_Data :: "KrakenBookData list"

text \<open>The REST answer of the depth endpoint.\<close>

record BinanceDepthSnapshot =
  LastUpdateID :: int
  sn_Bids :: "string list list"
  sn_Asks :: "string list list"

text \<open>The dynamic type of \<open>PipelineMessage.RawMessage\<close>.\<close>

datatype RawMessage =
    RawAggTrade BinanceAggTradeMsg | RawDepth BinanceDepthUpdateMsg
  | RawCoinbaseTicker CoinbaseTickerMsg | RawLevel2 CoinbaseLevel2Msg
  | RawKrakenTicker KrakenTickerMsg | RawKrakenBook KrakenBookMsg

record PipelineMessage =
  Exchange :: string
  Channel :: string
  Symbol :: string
  SeqId :: int
  Ts :: int
  Raw :: RawMessage
  Record :: "kgo_record option"
  EventType :: string

section \<open>Outputs\<close>

record NormalizedTicker =
  nt_Exchange :: string
  nt_Channel :: string
  nt_Symbol :: string
  nt_Price :: f64
  nt_Volume :: f64
  nt_SeqId :: int
  nt_Open :: f64
  nt_Close :: f64
  nt_Low :: f64
  nt_High :: f64
  nt_EventTsMillis :: int

record BookLevel =
  bl_Price :: f64
  bl_Volume :: f64

record NormalizedBook =
  nb_Exchange :: string
  nb_Channel :: string
  nb_Symbol :: string
  nb_Bids :: "BookLevel list"
  nb_Asks :: "BookLevel list"
  nb_EventType :: string
  nb_EventTimeMillis :: int

section \<open>Decoders\<close>

record codec =
  json_Header :: "bytes \<Rightarrow> (string \<times> string) option"
  json_AggTrade :: "bytes \<Rightarrow> BinanceAggTradeMsg option"
  json_Depth :: "bytes \<Rightarrow> BinanceDepthUpdateMsg option"
  json_CoinbaseTicker :: "bytes \<Rightarrow> CoinbaseTickerMsg option"
  json_Level2 :: "bytes \<Rightarrow> CoinbaseLevel2Msg option"
  json_KrakenTicker :: "bytes \<Rightarrow> KrakenTickerMsg option"
  json_KrakenBook :: "bytes \<Rightarrow> KrakenBookMsg option"
  ParseFloat :: "string \<Rightarrow> f64"
  ParseTime :: "string \<Rightarrow> int option"
  marshal_Ticker :: "NormalizedTicker \<Rightarrow> bytes option"
  marshal_Book :: "NormalizedBook \<Rightarrow> bytes option"

text \<open>
  \<open>ParseFloat\<close> is the value \<open>strconv.ParseFloat\<close> returns, which the code uses whatever the error;
  \<open>ParseTime\<close> is \<open>time.Parse(time.RFC3339, s)\<close> followed by \<open>UnixMilli\<close>. The zero time of a failed
  parse is year 1.
\<close>

definition zero_time_millis :: int where
  "zero_time_millis = - 62135596800000"

section \<open>Constants\<close>

definition Binance :: string where "Binance = ''binance''"
definition Coinbase :: string where "Coinbase = ''coinbase''"
definition Kraken :: string where "Kraken = ''kraken''"
definition AggTrade :: string where "AggTrade = ''aggTrade''"
definition Ticker :: string where "Ticker = ''ticker''"
definition Book :: string where "Book = ''book''"
definition DepthChannel :: string where "DepthChannel = ''depth''"
definition Level2 :: string where "Level2 = ''level2''"
definition Snapshot :: string where "Snapshot = ''snapshot''"
definition L2Update :: string where "L2Update = ''l2update''"
definition Update :: string where "Update = ''update''"
definition Buy :: string where "Buy = ''buy''"
definition NormalizedTickerTopic :: string where "NormalizedTickerTopic = ''normalized.ticks''"
definition NormalizedBookTopic :: string where "NormalizedBookTopic = ''normalized.book''"
definition DroppedCountHeader :: string where "DroppedCountHeader = ''dropped-count''"

lemmas const_defs = Binance_def Coinbase_def Kraken_def AggTrade_def Ticker_def Book_def DepthChannel_def
  Level2_def Snapshot_def L2Update_def Update_def Buy_def NormalizedTickerTopic_def NormalizedBookTopic_def
  DroppedCountHeader_def

section \<open>Symbol state\<close>

text \<open>The streams that have a converter, an orderer and a normalizer, and the two publishers.\<close>

datatype stream =
  BinanceAggTrade | BinanceDepth | CoinbaseTicker | CoinbaseLevel2 | KrakenTicker | KrakenBook

datatype publisher = TickerPublisher | BookPublisher

text \<open>
  \<open>ordererBound\<close> is the orderer's \<open>SymbolState\<close> pointer: false while it is nil. \<open>Gap\<close> is true while a
  timer is set.
\<close>

record SymbolState =
  Orderer :: stream
  ordererBound :: bool
  Converter :: stream
  Normalizer :: stream
  Publisher :: publisher
  BufferSeqMap :: "(int \<times> PipelineMessage) list"
  BufferSeqId :: "int list"
  BufferTimeMap :: "(int \<times> PipelineMessage list) list"
  BufferTime :: "int list"
  Gap :: bool
  GapActive :: bool
  BufferKey :: string
  st_Exchange :: string
  st_Channel :: string
  st_Symbol :: string
  NeedsSnapshot :: bool
  SnapshotPending :: bool
  AwaitingSnapshot :: bool
  LastSeqId :: int
  LastSeenTs :: int

datatype EventKind = NewMessage | FlushBuffer | SnapshotReady

record DispatchRecord =
  Event :: EventKind
  dr_BufferKey :: string
  dr_Exchange :: string
  dr_Channel :: string
  dr_Symbol :: string
  SnapshotResult :: "BinanceDepthSnapshot option"

end
