(* ===== verification/Norm_Codec.thy ===== *)
theory Norm_Codec
  imports Norm_Types "HOL-Library.Monad_Syntax"
begin

text \<open>
  The stateless stages of the normalizer: the converters (\<open>factory/converter\<close>), the normalizers
  (\<open>factory/normalizer\<close>) and the registries that pick a strategy for a stream
  (\<open>factory/registry\<close>). A stage ends in a value, an error, or a panic.
\<close>

section \<open>Converters\<close>

definition conv_BinanceAggTrade :: "codec \<Rightarrow> bytes \<Rightarrow> PipelineMessage outcome" where
  "conv_BinanceAggTrade cd raw =
     bind_out (of_opt (json_AggTrade cd raw)) (\<lambda>m.
       Done \<lparr>Exchange = Binance, Channel = AggTrade, Symbol = at_Symbol m, SeqId = at_AggTradeID m, Ts = 0,
             Raw = RawAggTrade m, Record = None, EventType = []\<rparr>)"

definition conv_BinanceDepth :: "codec \<Rightarrow> bytes \<Rightarrow> PipelineMessage outcome" where
  "conv_BinanceDepth cd raw =
     bind_out (of_opt (json_Depth cd raw)) (\<lambda>m.
       Done \<lparr>Exchange = Binance, Channel = DepthChannel, Symbol = du_Symbol m, SeqId = du_FinalUpdateID m, Ts = 0,
             Raw = RawDepth m, Record = None, EventType = []\<rparr>)"

definition conv_CoinbaseTicker :: "codec \<Rightarrow> bytes \<Rightarrow> PipelineMessage outcome" where
  "conv_CoinbaseTicker cd raw =
     bind_out (of_opt (json_CoinbaseTicker cd raw)) (\<lambda>m.
       Done \<lparr>Exchange = Coinbase, Channel = Ticker, Symbol = ct_ProductID m, SeqId = ct_Sequence m, Ts = 0,
             Raw = RawCoinbaseTicker m, Record = None, EventType = []\<rparr>)"

definition conv_CoinbaseLevel2 :: "codec \<Rightarrow> bytes \<Rightarrow> PipelineMessage outcome" where
  "conv_CoinbaseLevel2 cd raw =
     bind_out (of_opt (json_Level2 cd raw)) (\<lambda>m.
       let msg = \<lparr>Exchange = Coinbase, Channel = Level2, Symbol = l2_ProductId m, SeqId = 0, Ts = 0,
                  Raw = RawLevel2 m, Record = None, EventType = []\<rparr>
       in if l2_Type m = L2Update then
            bind_out (of_opt (ParseTime cd (l2_Time m))) (\<lambda>t. Done (msg\<lparr>Ts := t\<rparr>))
          else Done (msg\<lparr>EventType := Snapshot\<rparr>))"

definition conv_KrakenTicker :: "codec \<Rightarrow> bytes \<Rightarrow> PipelineMessage outcome" where
  "conv_KrakenTicker cd raw =
     bind_out (of_opt (json_KrakenTicker cd raw)) (\<lambda>m.
       bind_out (idx (kt_Data m) 0) (\<lambda>d.
         Done \<lparr>Exchange = Kraken, Channel = Ticker, Symbol = kt_Symbol d, SeqId = 0, Ts = 0,
               Raw = RawKrakenTicker m, Record = None, EventType = kt_Type m\<rparr>))"

definition conv_KrakenBook :: "codec \<Rightarrow> bytes \<Rightarrow> PipelineMessage outcome" where
  "conv_KrakenBook cd raw =
     bind_out (of_opt (json_KrakenBook cd raw)) (\<lambda>m.
       bind_out (idx (kb_Data m) 0) (\<lambda>d.
         let msg = \<lparr>Exchange = Kraken, Channel = Book, Symbol = kb_Symbol d, SeqId = 0, Ts = 0,
                    Raw = RawKrakenBook m, Record = None, EventType = kb_Type m\<rparr>
         in if kb_Type m = Update then
              bind_out (of_opt (ParseTime cd (kb_Timestamp d))) (\<lambda>t. Done (msg\<lparr>Ts := t\<rparr>))
            else Done msg))"

fun Convert :: "stream \<Rightarrow> codec \<Rightarrow> bytes \<Rightarrow> PipelineMessage outcome" where
  "Convert BinanceAggTrade = conv_BinanceAggTrade"
| "Convert BinanceDepth = conv_BinanceDepth"
| "Convert CoinbaseTicker = conv_CoinbaseTicker"
| "Convert CoinbaseLevel2 = conv_CoinbaseLevel2"
| "Convert KrakenTicker = conv_KrakenTicker"
| "Convert KrakenBook = conv_KrakenBook"

section \<open>Normalizers\<close>

text \<open>One \<open>[price, volume]\<close> entry, at positions \<open>i\<close> and \<open>i + 1\<close> of the string list.\<close>

definition level_at :: "codec \<Rightarrow> nat \<Rightarrow> string list \<Rightarrow> BookLevel outcome" where
  "level_at cd i xs =
     bind_out (idx xs i) (\<lambda>p. bind_out (idx xs (Suc i)) (\<lambda>v.
       Done \<lparr>bl_Price = ParseFloat cd p, bl_Volume = ParseFloat cd v\<rparr>))"

fun levels :: "codec \<Rightarrow> string list list \<Rightarrow> BookLevel list outcome" where
  "levels cd [] = Done []"
| "levels cd (x # xs) = bind_out (level_at cd 0 x) (\<lambda>l. bind_out (levels cd xs) (\<lambda>ls. Done (l # ls)))"

definition norm_BinanceAggTrade :: "codec \<Rightarrow> PipelineMessage \<Rightarrow> bytes outcome" where
  "norm_BinanceAggTrade cd msg =
     (case Raw msg of
        RawAggTrade m \<Rightarrow>
          let p = ParseFloat cd (at_Price m); v = ParseFloat cd (at_Quantity m)
          in of_opt (marshal_Ticker cd
               \<lparr>nt_Exchange = Exchange msg, nt_Channel = Channel msg, nt_Symbol = Symbol msg,
                nt_Price = p, nt_Volume = v, nt_SeqId = SeqId msg,
                nt_Open = p, nt_Close = p, nt_Low = p, nt_High = p, nt_EventTsMillis = at_EventTime m\<rparr>)
      | _ \<Rightarrow> Fail)"

definition norm_BinanceDepth :: "codec \<Rightarrow> PipelineMessage \<Rightarrow> bytes outcome" where
  "norm_BinanceDepth cd msg =
     (case Raw msg of
        RawDepth m \<Rightarrow>
          bind_out (levels cd (du_Bids m)) (\<lambda>bids. bind_out (levels cd (du_Asks m)) (\<lambda>asks.
            of_opt (marshal_Book cd
              \<lparr>nb_Exchange = Exchange msg, nb_Channel = Channel msg, nb_Symbol = Symbol msg,
               nb_Bids = bids, nb_Asks = asks, nb_EventType = du_EventType m, nb_EventTimeMillis = du_EventTime m\<rparr>)))
      | _ \<Rightarrow> Fail)"

definition norm_CoinbaseTicker :: "codec \<Rightarrow> PipelineMessage \<Rightarrow> bytes outcome" where
  "norm_CoinbaseTicker cd msg =
     (case Raw msg of
        RawCoinbaseTicker m \<Rightarrow>
          let p = ParseFloat cd (ct_Price m);
              t = (case ParseTime cd (ct_Time m) of None \<Rightarrow> zero_time_millis | Some t \<Rightarrow> t)
          in of_opt (marshal_Ticker cd
               \<lparr>nt_Exchange = Exchange msg, nt_Channel = Channel msg, nt_Symbol = Symbol msg,
                nt_Price = p, nt_Volume = ParseFloat cd (ct_Volume24h m), nt_SeqId = SeqId msg,
                nt_Open = ParseFloat cd (ct_Open24h m), nt_Close = p,
                nt_Low = ParseFloat cd (ct_Low24h m), nt_High = ParseFloat cd (ct_High24h m), nt_EventTsMillis = t\<rparr>)
      | _ \<Rightarrow> Fail)"

text \<open>The loop over \<open>Changes\<close>: entry 0 is the side, entries 1 and 2 price and volume.\<close>

fun apply_changes :: "codec \<Rightarrow> string list list \<Rightarrow> BookLevel list \<Rightarrow> BookLevel list \<Rightarrow> (BookLevel list \<times> BookLevel list) outcome" where
  "apply_changes cd [] bids asks = Done (bids, asks)"
| "apply_changes cd (c # cs) bids asks =
     bind_out (level_at cd 1 c) (\<lambda>l.
       if c ! 0 = Buy then apply_changes cd cs (bids @ [l]) asks else apply_changes cd cs bids (asks @ [l]))"

definition norm_CoinbaseLevel2 :: "codec \<Rightarrow> PipelineMessage \<Rightarrow> bytes outcome" where
  "norm_CoinbaseLevel2 cd msg =
     (case Raw msg of
        RawLevel2 m \<Rightarrow>
          bind_out (of_opt (ParseTime cd (l2_Time m))) (\<lambda>t.
          bind_out (if l2_Type m = Snapshot
                    then bind_out (levels cd (l2_Bids m)) (\<lambda>bids. bind_out (levels cd (l2_Asks m)) (\<lambda>asks. Done (bids, asks)))
                    else apply_changes cd (l2_Changes m) [] []) (\<lambda>(bids, asks).
            of_opt (marshal_Book cd
              \<lparr>nb_Exchange = Exchange msg, nb_Channel = Channel msg, nb_Symbol = Symbol msg,
               nb_Bids = bids, nb_Asks = asks, nb_EventType = l2_Type m, nb_EventTimeMillis = t\<rparr>)))
      | _ \<Rightarrow> Fail)"

definition norm_KrakenTicker :: "codec \<Rightarrow> PipelineMessage \<Rightarrow> bytes outcome" where
  "norm_KrakenTicker cd msg =
     (case Raw msg of
        RawKrakenTicker m \<Rightarrow>
          bind_out (idx (kt_Data m) 0) (\<lambda>d.
            let t = (case Record msg of Some r \<Rightarrow> if Ts msg = 0 then RTimestamp r else Ts msg | None \<Rightarrow> Ts msg)
            in of_opt (marshal_Ticker cd
                 \<lparr>nt_Exchange = Exchange msg, nt_Channel = Channel msg, nt_Symbol = Symbol msg,
                  nt_Price = kt_Last d, nt_Volume = kt_Volume d, nt_SeqId = 0,
                  nt_Open = kt_Last d, nt_Close = kt_Last d, nt_Low = kt_Low d, nt_High = kt_High d,
                  nt_EventTsMillis = t\<rparr>))
      | _ \<Rightarrow> Fail)"

definition kraken_level :: "KrakenBookLevel \<Rightarrow> BookLevel" where
  "kraken_level l = \<lparr>bl_Price = kl_Price l, bl_Volume = kl_Qty l\<rparr>"

definition norm_KrakenBook :: "codec \<Rightarrow> PipelineMessage \<Rightarrow> bytes outcome" where
  "norm_KrakenBook cd msg =
     (case Raw msg of
        RawKrakenBook m \<Rightarrow>
          bind_out (idx (kb_Data m) 0) (\<lambda>d.
          bind_out (if kb_Type m = Update then of_opt (ParseTime cd (kb_Timestamp d)) else Done 0) (\<lambda>t.
            of_opt (marshal_Book cd
              \<lparr>nb_Exchange = Exchange msg, nb_Channel = Channel msg, nb_Symbol = Symbol msg,
               nb_Bids = map kraken_level (kb_Bids d), nb_Asks = map kraken_level (kb_Asks d),
               nb_EventType = EventType msg, nb_EventTimeMillis = t\<rparr>)))
      | _ \<Rightarrow> Fail)"

fun Normalize :: "stream \<Rightarrow> codec \<Rightarrow> PipelineMessage \<Rightarrow> bytes outcome" where
  "Normalize BinanceAggTrade = norm_BinanceAggTrade"
| "Normalize BinanceDepth = norm_BinanceDepth"
| "Normalize CoinbaseTicker = norm_CoinbaseTicker"
| "Normalize CoinbaseLevel2 = norm_CoinbaseLevel2"
| "Normalize KrakenTicker = norm_KrakenTicker"
| "Normalize KrakenBook = norm_KrakenBook"

section \<open>Registries\<close>

text \<open>\<open>strings.ToLower(exchange) + ":" + strings.ToLower(channel)\<close>, on ASCII names.\<close>

definition reg_key :: "string \<Rightarrow> string \<Rightarrow> string" where
  "reg_key ex ch = map lower_ascii ex @ '':'' @ map lower_ascii ch"

text \<open>The switch shared by \<open>GetConverter\<close> and \<open>GetNormalizer\<close>.\<close>

definition GetConverter :: "string \<Rightarrow> stream option" where
  "GetConverter k =
     (if k = ''binance:aggtrade'' then Some BinanceAggTrade
      else if k = ''binance:depth'' then Some BinanceDepth
      else if k = ''coinbase:ticker'' then Some CoinbaseTicker
      else if k = ''coinbase:level2'' then Some CoinbaseLevel2
      else if k = ''kraken:ticker'' then Some KrakenTicker
      else if k = ''kraken:book'' then Some KrakenBook
      else None)"

definition GetNormalizer :: "string \<Rightarrow> stream option" where
  "GetNormalizer k =
     (if k = ''binance:aggtrade'' then Some BinanceAggTrade
      else if k = ''binance:depth'' then Some BinanceDepth
      else if k = ''coinbase:ticker'' then Some CoinbaseTicker
      else if k = ''coinbase:level2'' then Some CoinbaseLevel2
      else if k = ''kraken:ticker'' then Some KrakenTicker
      else if k = ''kraken:book'' then Some KrakenBook
      else None)"

definition reg_pairs :: "(string \<times> string) list" where
  "reg_pairs = [(Binance, AggTrade), (Binance, DepthChannel), (Coinbase, Ticker), (Coinbase, Level2), (Kraken, Ticker), (Kraken, Book)]"

text \<open>\<open>Register\<close> fails for an unknown key, and the initialisation then panics (\<^const>\<open>None\<close>).\<close>

fun register_all :: "(string \<Rightarrow> 'a option) \<Rightarrow> (string \<times> string) list \<Rightarrow> (string \<rightharpoonup> 'a) option" where
  "register_all get [] = Some Map.empty"
| "register_all get ((ex, ch) # ps) =
     do { m \<leftarrow> register_all get ps; v \<leftarrow> get (reg_key ex ch); Some (m(reg_key ex ch \<mapsto> v)) }"

definition InitConverterRegistry :: "(string \<rightharpoonup> stream) option" where
  "InitConverterRegistry = register_all GetConverter reg_pairs"

definition InitNormalizerRegistry :: "(string \<rightharpoonup> stream) option" where
  "InitNormalizerRegistry = register_all GetNormalizer reg_pairs"

definition orderer_ctors :: "((string \<times> string) \<times> stream) list" where
  "orderer_ctors = [((Binance, AggTrade), BinanceAggTrade), ((Binance, DepthChannel), BinanceDepth),
     ((Coinbase, Ticker), CoinbaseTicker), ((Coinbase, Level2), CoinbaseLevel2),
     ((Kraken, Ticker), KrakenTicker), ((Kraken, Book), KrakenBook)]"

definition InitOrdererRegistry :: "string \<rightharpoonup> stream" where
  "InitOrdererRegistry = map_of (map (\<lambda>((ex, ch), s). (reg_key ex ch, s)) orderer_ctors)"

definition GetPublisher :: "string \<Rightarrow> publisher option" where
  "GetPublisher k =
     (if k = ''aggtrade'' \<or> k = ''ticker'' then Some TickerPublisher
      else if k = ''depth'' \<or> k = ''level2'' \<or> k = ''book'' then Some BookPublisher
      else None)"

definition InitPublisherRegistry :: "(string \<rightharpoonup> publisher) option" where
  "InitPublisherRegistry =
     foldr (\<lambda>ch acc. do { m \<leftarrow> acc; v \<leftarrow> GetPublisher (map lower_ascii ch); Some (m(map lower_ascii ch \<mapsto> v)) })
       [AggTrade, DepthChannel, Level2, Ticker, Book] (Some Map.empty)"

text \<open>The lookups the worker makes.\<close>

definition GetRegisteredConverter :: "string \<Rightarrow> string \<Rightarrow> stream option" where
  "GetRegisteredConverter ex ch = Option.bind InitConverterRegistry (\<lambda>m. m (reg_key ex ch))"

definition GetRegisteredNormalizer :: "string \<Rightarrow> string \<Rightarrow> stream option" where
  "GetRegisteredNormalizer ex ch = Option.bind InitNormalizerRegistry (\<lambda>m. m (reg_key ex ch))"

definition GetRegisteredOrderer :: "string \<Rightarrow> string \<Rightarrow> stream option" where
  "GetRegisteredOrderer ex ch = InitOrdererRegistry (reg_key ex ch)"

definition GetRegisteredPublisher :: "string \<Rightarrow> publisher option" where
  "GetRegisteredPublisher ch = Option.bind InitPublisherRegistry (\<lambda>m. m (map lower_ascii ch))"

fun PublishTopic :: "publisher \<Rightarrow> string" where
  "PublishTopic TickerPublisher = NormalizedTickerTopic"
| "PublishTopic BookPublisher = NormalizedBookTopic"

section \<open>What the registries hold\<close>

lemma reg_keys:
  "reg_key Binance AggTrade = ''binance:aggtrade''" "reg_key Binance DepthChannel = ''binance:depth''"
  "reg_key Coinbase Ticker = ''coinbase:ticker''" "reg_key Coinbase Level2 = ''coinbase:level2''"
  "reg_key Kraken Ticker = ''kraken:ticker''" "reg_key Kraken Book = ''kraken:book''"
  by (code_simp)+

lemma registered_alt:
  "GetRegisteredConverter ex ch = GetConverter (reg_key ex ch)"
  "GetRegisteredNormalizer ex ch = GetConverter (reg_key ex ch)"
  "GetRegisteredOrderer ex ch = GetConverter (reg_key ex ch)"
  by (simp_all add: GetRegisteredConverter_def GetRegisteredNormalizer_def GetRegisteredOrderer_def InitConverterRegistry_def
    InitNormalizerRegistry_def InitOrdererRegistry_def reg_pairs_def orderer_ctors_def reg_keys GetConverter_def GetNormalizer_def)

lemma lower_channels:
  "map lower_ascii AggTrade = ''aggtrade''" "map lower_ascii DepthChannel = ''depth''" "map lower_ascii Level2 = ''level2''"
  "map lower_ascii Ticker = ''ticker''" "map lower_ascii Book = ''book''"
  by code_simp+

lemma publisher_alt: "GetRegisteredPublisher ch = GetPublisher (map lower_ascii ch)"
  by (simp add: GetRegisteredPublisher_def InitPublisherRegistry_def lower_channels GetPublisher_def)

end
