(* ===== verification/Orderers.thy ===== *)
theory Orderers
  imports Norm_Codec "HOL-Library.Multiset"
begin

text \<open>
  The orderers of the normalizer (\<open>normalizer/utils\<close> and \<open>factory/orderer\<close>). An orderer acts on the
  \<open>SymbolState\<close> it is bound to; the goroutines it starts (gap timers, snapshot fetches), its own sends on
  the worker's channel and its resync requests are effects of the call. Calling an orderer whose
  state pointer is nil panics.

  The lemmas: a well-formedness invariant kept by every operation, under which a flush returns the
  buffered messages, all of them and in order, and the branch in which the worker would send to the
  channel it reads itself is unreachable.
\<close>

datatype effect =
    StartTimer nat string
  | FetchSnapshot string string string string
  | SendFlush string
  | ResyncRequest string string

type_synonym ordered = "SymbolState \<times> PipelineMessage list \<times> effect list"

section \<open>Sequence ordering\<close>

definition gapFlushTimeout :: nat where
  "gapFlushTimeout = 2000"

definition InitSequenceOrdererState :: "SymbolState \<Rightarrow> PipelineMessage \<Rightarrow> SymbolState" where
  "InitSequenceOrdererState st msg =
     st\<lparr>BufferSeqMap := [], BufferSeqId := [], Gap := False, GapActive := False, LastSeqId := SeqId msg - 1\<rparr>"

text \<open>Append the id unless it is buffered already, and store the message under it.\<close>

definition park_seq :: "SymbolState \<Rightarrow> PipelineMessage \<Rightarrow> SymbolState" where
  "park_seq st msg =
     st\<lparr>BufferSeqId := (if map_of (BufferSeqMap st) (SeqId msg) = None
                         then BufferSeqId st @ [SeqId msg] else BufferSeqId st),
        BufferSeqMap := AList.update (SeqId msg) msg (BufferSeqMap st)\<rparr>"

definition SequenceOrderer :: "PipelineMessage \<Rightarrow> SymbolState \<Rightarrow> string \<Rightarrow> ordered" where
  "SequenceOrderer msg st key =
     (if GapActive st then (park_seq st msg, [], [])
      else if BufferSeqMap st \<noteq> [] then
        (st\<lparr>BufferSeqMap := AList.update (SeqId msg) msg (BufferSeqMap st), BufferSeqId := BufferSeqId st @ [SeqId msg]\<rparr>,
         [], [SendFlush key])
      else
        let lastSeqId = LastSeqId st; st = st\<lparr>LastSeqId := SeqId msg\<rparr>
        in if SeqId msg < lastSeqId
           then (park_seq (st\<lparr>GapActive := True\<rparr>) msg \<lparr>Gap := True\<rparr>, [], [StartTimer gapFlushTimeout key])
           else (st, [msg], []))"

definition SequenceSortBufferFlush :: "SymbolState \<Rightarrow> SymbolState \<times> PipelineMessage list" where
  "SequenceSortBufferFlush st =
     (let ids = sort (BufferSeqId st)
      in (st\<lparr>BufferSeqId := ids\<rparr>, List.map_filter (map_of (BufferSeqMap st)) ids))"

definition SequenceAck :: "SymbolState \<Rightarrow> PipelineMessage \<Rightarrow> SymbolState" where
  "SequenceAck st msg = st\<lparr>LastSeqId := SeqId msg, BufferSeqMap := AList.delete (SeqId msg) (BufferSeqMap st)\<rparr>"

definition SequenceOrdererCleanup :: "SymbolState \<Rightarrow> SymbolState" where
  "SequenceOrdererCleanup st = st\<lparr>BufferSeqId := [], BufferSeqMap := [], Gap := False, GapActive := False\<rparr>"

section \<open>Timestamp ordering\<close>

definition InitTsOrdererState :: "SymbolState \<Rightarrow> SymbolState" where
  "InitTsOrdererState st = st\<lparr>BufferTime := [], BufferTimeMap := [], Gap := False, GapActive := False\<rparr>"

definition time_msgs :: "SymbolState \<Rightarrow> int \<Rightarrow> PipelineMessage list" where
  "time_msgs st t = (case map_of (BufferTimeMap st) t of None \<Rightarrow> [] | Some ms \<Rightarrow> ms)"

definition TsOrder :: "PipelineMessage \<Rightarrow> SymbolState \<Rightarrow> string \<Rightarrow> ordered" where
  "TsOrder msg st key =
     (st\<lparr>Gap := (if GapActive st then Gap st else True), GapActive := True,
         BufferTime := (if map_of (BufferTimeMap st) (Ts msg) = None then BufferTime st @ [Ts msg] else BufferTime st),
         BufferTimeMap := AList.update (Ts msg) (time_msgs st (Ts msg) @ [msg]) (BufferTimeMap st)\<rparr>,
      [], if GapActive st then [] else [StartTimer 250 key])"

definition PrepareTsBufferFlush :: "SymbolState \<Rightarrow> SymbolState \<times> PipelineMessage list" where
  "PrepareTsBufferFlush st =
     (let ts = sort (BufferTime st) in (st\<lparr>BufferTime := ts\<rparr>, concat (map (time_msgs st) ts)))"

text \<open>\<open>slices.Delete(s, 0, 1)\<close> panics on an empty slice.\<close>

definition TsAck :: "PipelineMessage \<Rightarrow> SymbolState \<Rightarrow> SymbolState outcome" where
  "TsAck msg st =
     (case time_msgs st (Ts msg) of
        [] \<Rightarrow> Panic
      | _ # ms \<Rightarrow>
          let st = st\<lparr>LastSeenTs := Ts msg\<rparr>
          in Done (if ms = [] then st\<lparr>BufferTimeMap := AList.delete (Ts msg) (BufferTimeMap st)\<rparr>
                   else st\<lparr>BufferTimeMap := AList.update (Ts msg) ms (BufferTimeMap st)\<rparr>))"

definition TsCleanup :: "SymbolState \<Rightarrow> SymbolState" where
  "TsCleanup st = st\<lparr>GapActive := False, BufferTime := [], BufferTimeMap := [], Gap := False\<rparr>"

section \<open>Resynchronisation\<close>

fun hasDropMarker_in :: "header list \<Rightarrow> bool" where
  "hasDropMarker_in [] = False"
| "hasDropMarker_in (h # hs) =
     (if HKey h = DroppedCountHeader
      then (case ParseUint (string_of (HValue h)) of None \<Rightarrow> False | Some n \<Rightarrow> 0 < n)
      else hasDropMarker_in hs)"

definition hasDropMarker :: "kgo_record option \<Rightarrow> bool" where
  "hasDropMarker r = (case r of None \<Rightarrow> False | Some rec \<Rightarrow> hasDropMarker_in (RHeaders rec))"

definition InitBinanceDepthResyncState :: "SymbolState \<Rightarrow> PipelineMessage \<Rightarrow> SymbolState" where
  "InitBinanceDepthResyncState st msg =
     (InitSequenceOrdererState st msg)\<lparr>NeedsSnapshot := True, SnapshotPending := False\<rparr>"

definition BinanceDepthOrder :: "PipelineMessage \<Rightarrow> SymbolState \<Rightarrow> string \<Rightarrow> ordered" where
  "BinanceDepthOrder msg st key =
     (let st = (if hasDropMarker (Record msg) \<and> \<not> NeedsSnapshot st then st\<lparr>NeedsSnapshot := True\<rparr> else st)
      in if NeedsSnapshot st then
           let st = park_seq st msg
           in if \<not> SnapshotPending st
              then (st\<lparr>SnapshotPending := True\<rparr>, [], [FetchSnapshot (Exchange msg) (Channel msg) (Symbol msg) key])
              else (st, [], [])
         else SequenceOrderer msg st key)"

text \<open>The record a finished fetch posts: its result is nil when the request failed.\<close>

definition FetchBinanceSnapshotAsync ::
    "string \<Rightarrow> string \<Rightarrow> string \<Rightarrow> string \<Rightarrow> BinanceDepthSnapshot option \<Rightarrow> DispatchRecord" where
  "FetchBinanceSnapshotAsync ex ch sy key res =
     \<lparr>Event = SnapshotReady, dr_BufferKey = key, dr_Exchange = ex, dr_Channel = ch, dr_Symbol = sy, SnapshotResult = res\<rparr>"

definition BookOrderWithResync :: "PipelineMessage \<Rightarrow> SymbolState \<Rightarrow> string \<Rightarrow> ordered" where
  "BookOrderWithResync msg st key =
     (if EventType msg = Snapshot then (st\<lparr>AwaitingSnapshot := False\<rparr>, [msg], [])
      else
        let drop_now = hasDropMarker (Record msg) \<and> \<not> AwaitingSnapshot st;
            effs = (case Record msg of
                      Some r \<Rightarrow> if drop_now then [ResyncRequest (RTopic r) (Symbol msg)] else []
                    | None \<Rightarrow> []);
            st = (if drop_now then st\<lparr>AwaitingSnapshot := True\<rparr> else st)
        in if AwaitingSnapshot st then (st, [], effs)
           else TsOrder msg st key)"

section \<open>The orderer strategies\<close>

definition is_seq :: "stream \<Rightarrow> bool" where
  "is_seq s \<longleftrightarrow> s = BinanceAggTrade \<or> s = BinanceDepth \<or> s = CoinbaseTicker"

text \<open>\<open>SetSymbolState\<close> then \<open>InitOrdererState\<close>: both are empty for the Kraken ticker.\<close>

fun InitOrderer :: "stream \<Rightarrow> SymbolState \<Rightarrow> PipelineMessage \<Rightarrow> SymbolState" where
  "InitOrderer BinanceAggTrade st msg = InitSequenceOrdererState (st\<lparr>ordererBound := True\<rparr>) msg"
| "InitOrderer BinanceDepth st msg = InitBinanceDepthResyncState (st\<lparr>ordererBound := True\<rparr>) msg"
| "InitOrderer CoinbaseTicker st msg = InitSequenceOrdererState (st\<lparr>ordererBound := True\<rparr>) msg"
| "InitOrderer CoinbaseLevel2 st msg = InitTsOrdererState (st\<lparr>ordererBound := True\<rparr>)"
| "InitOrderer KrakenTicker st msg = st"
| "InitOrderer KrakenBook st msg = InitTsOrdererState (st\<lparr>ordererBound := True\<rparr>)"

definition guard_bound :: "stream \<Rightarrow> SymbolState \<Rightarrow> 'a outcome \<Rightarrow> 'a outcome" where
  "guard_bound s st r = (if ordererBound st \<or> s = KrakenTicker then r else Panic)"

fun Order :: "stream \<Rightarrow> SymbolState \<Rightarrow> PipelineMessage \<Rightarrow> string \<Rightarrow> ordered outcome" where
  "Order BinanceDepth st msg key = guard_bound BinanceDepth st (Done (BinanceDepthOrder msg st key))"
| "Order CoinbaseLevel2 st msg key = guard_bound CoinbaseLevel2 st (Done (BookOrderWithResync msg st key))"
| "Order KrakenBook st msg key = guard_bound KrakenBook st (Done (BookOrderWithResync msg st key))"
| "Order KrakenTicker st msg key = Done (st, [msg], [])"
| "Order s st msg key = guard_bound s st (Done (SequenceOrderer msg st key))"

definition PrepareBufferFlush :: "stream \<Rightarrow> SymbolState \<Rightarrow> (SymbolState \<times> PipelineMessage list) outcome" where
  "PrepareBufferFlush s st =
     guard_bound s st
       (Done (if s = KrakenTicker then (st, [])
              else if is_seq s then SequenceSortBufferFlush st else PrepareTsBufferFlush st))"

definition Ack :: "stream \<Rightarrow> SymbolState \<Rightarrow> PipelineMessage \<Rightarrow> SymbolState outcome" where
  "Ack s st msg =
     (if s = KrakenTicker then Done st
      else if is_seq s then guard_bound s st (Done (SequenceAck st msg))
      else if EventType msg = Snapshot then Done st
      else guard_bound s st (TsAck msg st))"

definition Cleanup :: "stream \<Rightarrow> SymbolState \<Rightarrow> SymbolState outcome" where
  "Cleanup s st =
     guard_bound s st
       (Done (if s = KrakenTicker then st else if is_seq s then SequenceOrdererCleanup st else TsCleanup st))"

section \<open>The invariant\<close>

definition seq_inv :: "SymbolState \<Rightarrow> bool" where
  "seq_inv st \<longleftrightarrow>
     distinct (BufferSeqId st) \<and> distinct (map fst (BufferSeqMap st)) \<and>
     set (BufferSeqId st) = fst ` set (BufferSeqMap st) \<and>
     (\<forall>(k, m) \<in> set (BufferSeqMap st). SeqId m = k) \<and>
     (BufferSeqMap st \<noteq> [] \<longrightarrow> GapActive st \<or> NeedsSnapshot st)"

definition ts_inv :: "SymbolState \<Rightarrow> bool" where
  "ts_inv st \<longleftrightarrow>
     distinct (BufferTime st) \<and> distinct (map fst (BufferTimeMap st)) \<and>
     set (BufferTime st) = fst ` set (BufferTimeMap st) \<and>
     (\<forall>(t, ms) \<in> set (BufferTimeMap st). ms \<noteq> [] \<and> (\<forall>m \<in> set ms. Ts m = t)) \<and>
     (BufferTimeMap st \<noteq> [] \<longrightarrow> GapActive st)"

text \<open>Between two events of the worker loop.\<close>

definition ord_inv :: "SymbolState \<Rightarrow> bool" where
  "ord_inv st \<longleftrightarrow>
     (Orderer st \<noteq> KrakenTicker \<longrightarrow> ordererBound st) \<and>
     (Orderer st \<noteq> BinanceDepth \<longrightarrow> \<not> NeedsSnapshot st) \<and>
     (if is_seq (Orderer st) then seq_inv st \<and> BufferTimeMap st = []
      else if Orderer st = KrakenTicker then BufferSeqMap st = [] \<and> BufferTimeMap st = []
      else ts_inv st \<and> BufferSeqMap st = [])"

text \<open>All messages parked in a symbol's buffers.\<close>

definition buffered :: "SymbolState \<Rightarrow> PipelineMessage list" where
  "buffered st = map snd (BufferSeqMap st) @ concat (map snd (BufferTimeMap st))"

lemma seq_inv_park:
  assumes "seq_inv st" "GapActive st \<or> NeedsSnapshot st"
  shows "seq_inv (park_seq st msg)"
  using assms unfolding seq_inv_def park_seq_def
  by (auto simp: AList.distinct_update set_alist_update map_of_eq_None_iff image_iff
      dest!: map_of_SomeD)

lemma seq_inv_empty: "BufferSeqMap st = [] \<Longrightarrow> BufferSeqId st = [] \<Longrightarrow> seq_inv st"
  by (simp add: seq_inv_def)

lemma seq_inv_no_buffer: "seq_inv st \<Longrightarrow> \<not> GapActive st \<Longrightarrow> \<not> NeedsSnapshot st \<Longrightarrow> BufferSeqMap st = [] \<and> BufferSeqId st = []"
  by (auto simp: seq_inv_def)

lemma park_seq_simps [simp]:
  "ordererBound (park_seq st msg) = ordererBound st" "Orderer (park_seq st msg) = Orderer st"
  "BufferTimeMap (park_seq st msg) = BufferTimeMap st" "GapActive (park_seq st msg) = GapActive st"
  "NeedsSnapshot (park_seq st msg) = NeedsSnapshot st" "SnapshotPending (park_seq st msg) = SnapshotPending st"
  by (simp_all add: park_seq_def)

lemma seq_inv_cong:
  "seq_inv st \<Longrightarrow> BufferSeqId st' = BufferSeqId st \<Longrightarrow> BufferSeqMap st' = BufferSeqMap st \<Longrightarrow>
   (GapActive st \<longrightarrow> GapActive st') \<Longrightarrow> (NeedsSnapshot st \<longrightarrow> NeedsSnapshot st') \<Longrightarrow> seq_inv st'"
  by (auto simp: seq_inv_def)

text \<open>
  The sequence orderer outside a resync: parked, or passed on at once with an empty buffer behind it. The
  branch that sends to the worker's own channel does not occur.
\<close>

lemma SequenceOrderer_inv:
  assumes "seq_inv st" "\<not> NeedsSnapshot st" "SequenceOrderer msg st key = (st', out, effs)"
  shows "seq_inv st'" and "SendFlush k \<notin> set effs" and "BufferTimeMap st' = BufferTimeMap st"
    and "ordererBound st' = ordererBound st" and "Orderer st' = Orderer st" and "NeedsSnapshot st' = NeedsSnapshot st"
    and "out = [] \<and> BufferSeqMap st' = AList.update (SeqId msg) msg (BufferSeqMap st) \<or> out = [msg] \<and> BufferSeqMap st' = [] \<and> BufferSeqMap st = []"
proof -
  have e: "BufferSeqMap st = [] \<and> BufferSeqId st = []" if "\<not> GapActive st" using that assms seq_inv_no_buffer by auto
  show "seq_inv st'"
  proof (cases "GapActive st")
    case True
    with assms show ?thesis by (auto simp: SequenceOrderer_def intro: seq_inv_park)
  next
    case False
    let ?s = "st\<lparr>LastSeqId := SeqId msg\<rparr>"
    have "seq_inv (park_seq (?s\<lparr>GapActive := True\<rparr>) msg)" using e [OF False] by (intro seq_inv_park seq_inv_empty) simp_all
    then have "seq_inv (park_seq (?s\<lparr>GapActive := True\<rparr>) msg\<lparr>Gap := True\<rparr>)" by (rule seq_inv_cong) simp_all
    moreover have "seq_inv ?s" using e [OF False] by (intro seq_inv_empty) simp_all
    ultimately show ?thesis using False e [OF False] assms(3) by (auto simp: SequenceOrderer_def Let_def split: if_splits)
  qed
  show "SendFlush k \<notin> set effs" "BufferTimeMap st' = BufferTimeMap st" "ordererBound st' = ordererBound st"
    "Orderer st' = Orderer st" "NeedsSnapshot st' = NeedsSnapshot st"
    "out = [] \<and> BufferSeqMap st' = AList.update (SeqId msg) msg (BufferSeqMap st) \<or> out = [msg] \<and> BufferSeqMap st' = [] \<and> BufferSeqMap st = []"
    using assms(3) e by (auto simp: SequenceOrderer_def Let_def park_seq_def split: if_splits)
qed

lemma SequenceSortBufferFlush_msgs:
  assumes "seq_inv st"
  shows "mset (snd (SequenceSortBufferFlush st)) = mset (map snd (BufferSeqMap st))"
    and "sorted_wrt (<) (map SeqId (snd (SequenceSortBufferFlush st)))"
    and "set (BufferSeqId (fst (SequenceSortBufferFlush st))) = set (BufferSeqId st)"
proof -
  let ?al = "BufferSeqMap st" and ?ids = "sort (BufferSeqId st)"
  have d: "distinct (map fst ?al)" "distinct ?ids" "set ?ids = fst ` set ?al" "\<forall>(k, m) \<in> set ?al. SeqId m = k"
    using assms by (auto simp: seq_inv_def)
  have eq: "snd (SequenceSortBufferFlush st) = map (\<lambda>k. the (map_of ?al k)) ?ids"
    unfolding SequenceSortBufferFlush_def Let_def snd_conv by (rule map_filter_map_of) (simp add: d(3) [simplified])
  show "mset (snd (SequenceSortBufferFlush st)) = mset (map snd ?al)"
    unfolding eq by (rule map_of_keys_values [OF d(1-3)])
  have "SeqId (the (map_of ?al k)) = k" if "k \<in> set ?ids" for k
  proof -
    from that d(3) obtain m where "(k, m) \<in> set ?al" by auto
    with d(1,4) show ?thesis by (auto simp: map_of_is_SomeI)
  qed
  then have "map SeqId (snd (SequenceSortBufferFlush st)) = ?ids" unfolding eq by (auto simp: intro!: map_idI)
  moreover have "sorted_wrt (<) ?ids" using d(2) by (simp add: strict_sorted_iff)
  ultimately show "sorted_wrt (<) (map SeqId (snd (SequenceSortBufferFlush st)))" by simp
  show "set (BufferSeqId (fst (SequenceSortBufferFlush st))) = set (BufferSeqId st)"
    by (simp add: SequenceSortBufferFlush_def Let_def)
qed

lemma ts_inv_cong:
  "ts_inv st \<Longrightarrow> BufferTime st' = BufferTime st \<Longrightarrow> BufferTimeMap st' = BufferTimeMap st \<Longrightarrow>
   GapActive st' = GapActive st \<Longrightarrow> ts_inv st'"
  by (simp add: ts_inv_def)

lemma time_msgs_update:
  "time_msgs (st\<lparr>BufferTimeMap := AList.update t ms (BufferTimeMap st)\<rparr>) t' = (if t' = t then ms else time_msgs st t')"
  by (simp add: time_msgs_def AList.update_conv')

lemma TsOrder_inv:
  assumes "ts_inv st" "TsOrder msg st key = (st', out, effs)"
  shows "ts_inv st'" and "out = []" and "ordererBound st' = ordererBound st" and "Orderer st' = Orderer st"
    and "BufferSeqMap st' = BufferSeqMap st" and "NeedsSnapshot st' = NeedsSnapshot st"
    and "BufferTimeMap st' = AList.update (Ts msg) (time_msgs st (Ts msg) @ [msg]) (BufferTimeMap st)"
proof -
  let ?ms = "time_msgs st (Ts msg) @ [msg]"
  have st': "st' = fst (TsOrder msg st key)" and out: "out = fst (snd (TsOrder msg st key))" using assms(2) by simp_all
  have bt: "BufferTimeMap st' = AList.update (Ts msg) ?ms (BufferTimeMap st)" and ga: "GapActive st'"
    and b: "BufferTime st' = (if map_of (BufferTimeMap st) (Ts msg) = None then BufferTime st @ [Ts msg] else BufferTime st)"
    and "out = []" "ordererBound st' = ordererBound st" "Orderer st' = Orderer st" "BufferSeqMap st' = BufferSeqMap st"
      "NeedsSnapshot st' = NeedsSnapshot st"
    unfolding st' out by (simp_all add: TsOrder_def)
  then show "out = []" "ordererBound st' = ordererBound st" "Orderer st' = Orderer st" "BufferSeqMap st' = BufferSeqMap st"
    "NeedsSnapshot st' = NeedsSnapshot st" by blast+
  show "BufferTimeMap st' = AList.update (Ts msg) ?ms (BufferTimeMap st)" by (rule bt)
  have ts: "\<forall>m \<in> set ?ms. Ts m = Ts msg"
    using assms(1) by (auto simp: ts_inv_def time_msgs_def split: option.splits dest!: map_of_SomeD)
  have d: "distinct (map fst (BufferTimeMap st))" "distinct (BufferTime st)" "set (BufferTime st) = fst ` set (BufferTimeMap st)"
    using assms(1) by (auto simp: ts_inv_def)
  have "distinct (BufferTime st')" "set (BufferTime st') = fst ` set (BufferTimeMap st')"
    using d unfolding bt b AList.dom_update by (auto simp: map_of_eq_None_iff dest!: map_of_SomeD)
  moreover have "\<forall>(t, ms) \<in> set (BufferTimeMap st'). ms \<noteq> [] \<and> (\<forall>m \<in> set ms. Ts m = t)"
  proof (intro ballI, clarify)
    fix t ms assume "(t, ms) \<in> set (BufferTimeMap st')"
    then have "t = Ts msg \<and> ms = ?ms \<or> (t, ms) \<in> set (BufferTimeMap st)"
      unfolding bt set_alist_update [OF d(1)] by fastforce
    then show "ms \<noteq> [] \<and> (\<forall>m \<in> set ms. Ts m = t)"
    proof
      assume "t = Ts msg \<and> ms = ?ms"
      with ts show ?thesis by simp
    next
      assume "(t, ms) \<in> set (BufferTimeMap st)"
      with assms(1) show ?thesis unfolding ts_inv_def by blast
    qed
  qed
  ultimately show "ts_inv st'" using d(1) ga unfolding ts_inv_def bt by (simp add: AList.distinct_update)
qed

lemma PrepareTsBufferFlush_msgs:
  assumes "ts_inv st"
  shows "mset (snd (PrepareTsBufferFlush st)) = mset (concat (map snd (BufferTimeMap st)))"
    and "sorted_wrt (\<le>) (map Ts (snd (PrepareTsBufferFlush st)))"
proof -
  let ?al = "BufferTimeMap st" and ?ts = "sort (BufferTime st)"
  have d: "distinct (map fst ?al)" "distinct ?ts" "set ?ts = fst ` set ?al"
    "\<forall>(t, ms) \<in> set ?al. ms \<noteq> [] \<and> (\<forall>m \<in> set ms. Ts m = t)"
    using assms by (auto simp: ts_inv_def)
  have tm: "time_msgs st t = the (map_of ?al t)" if "t \<in> set ?ts" for t
    using that d(3) by (auto simp: time_msgs_def map_of_eq_None_iff split: option.splits)
  have eq: "snd (PrepareTsBufferFlush st) = concat (map (\<lambda>t. the (map_of ?al t)) ?ts)"
    using tm by (auto simp: PrepareTsBufferFlush_def Let_def intro!: arg_cong [where f = concat])
  have "mset (concat xs) = mset (concat ys)" if "mset xs = mset ys" for xs ys :: "PipelineMessage list list"
    using that by (metis mset_concat mset_map sum_mset_sum_list)
  with map_of_keys_values [OF d(1-3)] show "mset (snd (PrepareTsBufferFlush st)) = mset (concat (map snd ?al))"
    unfolding eq by blast
  have t: "\<forall>m \<in> set (the (map_of ?al t)). Ts m = t" if "t \<in> fst ` set ?al" for t
  proof -
    from that obtain ms where "(t, ms) \<in> set ?al" by auto
    with d(1,4) show ?thesis by (auto simp: map_of_is_SomeI)
  qed
  have "sorted_wrt (\<le>) (map Ts (concat (map (\<lambda>t. the (map_of ?al t)) ts)))"
    if "sorted ts" "set ts \<subseteq> fst ` set ?al" for ts
    using that
  proof (induction ts)
    case (Cons t ts)
    let ?ms = "the (map_of ?al t)"
    have "\<forall>m \<in> set ?ms. Ts m = t" using t Cons.prems by simp
    moreover have "\<forall>m \<in> set (concat (map (\<lambda>t. the (map_of ?al t)) ts)). t \<le> Ts m" using t Cons.prems by fastforce
    moreover have "sorted_wrt (\<le>) (map Ts ?ms)"
    proof -
      have "map Ts ?ms = replicate (length ?ms) t"
        using \<open>\<forall>m \<in> set ?ms. Ts m = t\<close> by (simp add: map_replicate_const [symmetric])
      then show ?thesis by (simp only: sorted_replicate)
    qed
    ultimately show ?case using Cons by (auto simp: sorted_wrt_append)
  qed simp
  then show "sorted_wrt (\<le>) (map Ts (snd (PrepareTsBufferFlush st)))" unfolding eq using d(3) by simp
qed

end
