(* ===== verification/Adapter_Publish.thy ===== *)
theory Adapter_Publish
  imports Adapter_Envelope Spsc_Ring Orderers
begin

text \<open>
  The publishing loop of the adapter (\<open>adapter/internal/kafka_publish.go\<close>, \<open>adapter/kafka/producer.go\<close>): pop a raw
  message from the ring, normalize it, produce a record that carries the number of dropped messages and the time
  of the websocket read. The lemmas follow both from the ring to the headers the normalizer reads.
\<close>

section \<open>The producer\<close>

record raw_message =
  Data :: string
  ReadAtMs :: int

text \<open>\<open>kafka.ProduceAsync\<close>: the record handed to the client, which sets partition, offset and time.\<close>

definition adapter_ProduceAsync :: "string \<Rightarrow> string \<Rightarrow> string \<Rightarrow> 64 word \<Rightarrow> int \<Rightarrow> kgo_record" where
  "adapter_ProduceAsync topic rkey val droppedBefore ingestMs =
     \<lparr>RTopic = topic, RPartition = 0, ROffset = 0, RKey = rkey, RValue = bytes_of val,
      RHeaders =
        (if droppedBefore > 0
         then [\<lparr>HKey = DroppedCountHeader, HValue = bytes_of (FormatUint (unat droppedBefore))\<rparr>] else []) @
        (if ingestMs > 0 then [Header ingestMs] else []),
      RTimestamp = 0\<rparr>"

section \<open>The loop\<close>

text \<open>One turn of \<open>PublishToKafkaLoop\<close>; \<open>normalize\<close> is the feed's normalizer.\<close>

definition publish_turn :: "(string \<Rightarrow> (string \<times> string) outcome) \<Rightarrow> string \<Rightarrow> raw_message ring
    \<Rightarrow> (kgo_record option \<times> raw_message ring) outcome" where
  "publish_turn nrm topic r =
     (case Pop r of
        (None, r) \<Rightarrow> Done (None, r)
      | (Some (msg, dropped), r) \<Rightarrow>
          (case nrm (Data msg) of
             Panic \<Rightarrow> Panic
           | Fail \<Rightarrow> Done (None, r)
           | Done (symbol, normalized) \<Rightarrow>
               Done (if symbol = [] \<or> normalized = [] then None
                     else Some (adapter_ProduceAsync topic symbol normalized dropped (ReadAtMs msg)), r)))"

text \<open>The reader (\<open>ReadMessages\<close>) pushes, the loop takes turns: the records in the order they are produced.\<close>

fun publish_run :: "(string \<Rightarrow> (string \<times> string) outcome) \<Rightarrow> string \<Rightarrow> raw_message ring \<Rightarrow> raw_message option list
    \<Rightarrow> kgo_record list outcome" where
  "publish_run nrm topic r [] = Done []"
| "publish_run nrm topic r (Some m # ops) = publish_run nrm topic (Push r m) ops"
| "publish_run nrm topic r (None # ops) =
     bind_out (publish_turn nrm topic r) (\<lambda>(out, r).
     bind_out (publish_run nrm topic r ops) (\<lambda>outs.
       Done (case out of None \<Rightarrow> outs | Some rec \<Rightarrow> rec # outs)))"

section \<open>The contract of a feed's normalizer\<close>

text \<open>
  The interface \<open>constants.Normalizer\<close>: a call ends in a value or an error, and either both results are
  empty (a message to skip) or neither is.
\<close>

locale feed_normalizer =
  fixes nrm :: "string \<Rightarrow> (string \<times> string) outcome"
  assumes no_panic: "nrm raw \<noteq> Panic"
    and both_or_none: "nrm raw = Done (symbol, out) \<Longrightarrow> symbol = [] \<longleftrightarrow> out = []"

text \<open>What a popped message becomes.\<close>

definition published_as :: "(string \<Rightarrow> (string \<times> string) outcome) \<Rightarrow> string \<Rightarrow> raw_message \<times> 64 word \<Rightarrow> kgo_record option" where
  "published_as nrm topic = (\<lambda>(msg, d).
     case nrm (Data msg) of
       Done (symbol, out) \<Rightarrow> if symbol = [] then None else Some (adapter_ProduceAsync topic symbol out d (ReadAtMs msg))
     | _ \<Rightarrow> None)"

context feed_normalizer
begin

lemma turn_published:
  "publish_turn nrm topic r =
     (case Pop r of (None, r') \<Rightarrow> Done (None, r') | (Some out, r') \<Rightarrow> Done (published_as nrm topic out, r'))"
proof (cases "Pop r")
  case (Pair out r')
  show ?thesis
  proof (cases out)
    case (Some md)
    obtain m d where md: "md = (m, d)" by fastforce
    show ?thesis
    proof (cases "nrm (Data m)")
      case (Done x)
      obtain s t where "x = (s, t)" by fastforce
      then show ?thesis using Pair Some md Done both_or_none [of "Data m" s t]
        by (auto simp: publish_turn_def published_as_def)
    qed (use Pair Some md no_panic in \<open>auto simp: publish_turn_def published_as_def\<close>)
  qed (use Pair in \<open>simp add: publish_turn_def\<close>)
qed

lemma run_published:
  "publish_run nrm topic r ops = Done (List.map_filter (published_as nrm topic) (ring_run Push Pop r ops))"
proof (induction ops arbitrary: r)
  case (Cons x ops)
  show ?case
  proof (cases x)
    case None
    obtain out r' where "Pop r = (out, r')" by fastforce
    then show ?thesis using None Cons.IH [of r']
      by (cases out) (auto simp: turn_published List.map_filter_simps split: option.splits)
  qed (simp add: Cons.IH)
qed (simp add: List.map_filter_simps)

end

section \<open>The three feeds\<close>

lemma utils_Normalize_panic: "utils_Normalize lib raw k feed ch \<noteq> Panic"
  by (auto simp: utils_Normalize_def extractSymbolSlow_def Let_def bind_out_split split: option.splits)

lemma utils_Normalize_both: "utils_Normalize lib raw k feed ch = Done (symbol, out) \<Longrightarrow> symbol \<noteq> [] \<and> out \<noteq> []"
  unfolding utils_Normalize_def Let_def bind_out_Done by (auto split: if_splits)

text \<open>The registry of \<open>main.go\<close> and \<open>GetFeedFactory\<close>, \<open>CreateNormalizer\<close> (\<open>feeds/factory.go\<close>).\<close>

datatype feed = BinanceFeed | CoinbaseFeed | KrakenFeed

definition GetFeedFactory :: "string \<Rightarrow> feed outcome" where
  "GetFeedFactory nm =
     of_opt (map_of [(''binance'', BinanceFeed), (''coinbase'', CoinbaseFeed), (''kraken'', KrakenFeed)] nm)"

definition feed_Normalize :: "jsonlib \<Rightarrow> feed \<Rightarrow> string \<Rightarrow> string \<Rightarrow> (string \<times> string) outcome" where
  "feed_Normalize lib f channel =
     (case f of
        BinanceFeed \<Rightarrow> Binance_Normalize lib channel
      | CoinbaseFeed \<Rightarrow> Coinbase_Normalize lib channel
      | KrakenFeed \<Rightarrow> Kraken_Normalize lib channel)"

lemmas feed_defs = Binance_Normalize_def Coinbase_Normalize_def Kraken_Normalize_def

interpretation fz: feed_normalizer "feed_Normalize lib f channel"
  by (cases f; unfold_locales)
    (auto dest: utils_Normalize_both simp: utils_Normalize_panic feed_Normalize_def feed_defs split: if_splits)

section \<open>Properties\<close>

text \<open>A ring of two slots that overflows by one.\<close>

lemma ring_demo:
  "\<exists>r. NewSpscDropOldestRing zero 2 = Some r \<and> ring_run Push Pop r [Some a, Some b, Some c, None, None] = [(b, 1), (c, 0)]"
proof -
  define r where "r = \<lparr>Buf = [zero, zero], Mask = 1, Capacity = 2, Head = 0, Tail = 0\<rparr>"
  have two: "replicate 2 zero = [zero, zero]" by (simp add: numeral_2_eq_2)
  have "NewSpscDropOldestRing zero 2 = Some r" by (simp add: NewSpscDropOldestRing_def r_def two)
  moreover have "ring_run Push Pop r [Some a, Some b, Some c, None, None] = [(b, 1), (c, 0)]"
    by (simp add: r_def Push_def Pop_def)
  ultimately show ?thesis by blast
qed

lemma ProduceAsync_marker: "hasDropMarker (Some (adapter_ProduceAsync topic k v d ms)) \<longleftrightarrow> d \<noteq> 0"
proof -
  have "unat d < 2 ^ LENGTH(64)" by (rule unsigned_less)
  moreover have "unat d > 0 \<longleftrightarrow> d \<noteq> 0" by (simp add: unat_gt_0)
  ultimately show ?thesis
    by (auto simp: hasDropMarker_def adapter_ProduceAsync_def ParseUint_FormatUint Header_def IngestKey_def DroppedCountHeader_def
        word_gt_0)
qed







definition raw_demo :: "(string \<times> json) list \<Rightarrow> raw_message" where
  "raw_demo fs = \<lparr>Data = text_of (JObj fs), ReadAtMs = 7\<rparr>"



text \<open>
  The count the ring reports is dropped with the message it came with when that message is skipped. With a full ring of
  two slots, update \<open>a\<close> is overwritten, the heartbeat \<open>hb\<close> is popped with the count 1 and skipped, and update \<open>b\<close> is published
  without a marker: nothing tells the normalizer that \<open>a\<close> is missing.
\<close>

theorem drop_marker_lost:
  assumes "shouldSkipControlMessage lib (Data hb)" and "\<not> shouldSkipControlMessage lib (Data b)"
    and "utils_Normalize lib (Data b) ''symbol'' ''kraken'' channel = Done (symbol, out)"
  shows "\<exists>r rec. NewSpscDropOldestRing zero 2 = Some r \<and>
    ring_run Push Pop r [Some a, Some hb, Some b, None, None] = [(hb, 1), (b, 0)] \<and>
    publish_run (feed_Normalize lib KrakenFeed channel) topic r [Some a, Some hb, Some b, None, None] = Done [rec] \<and>
    RKey rec = symbol \<and> \<not> hasDropMarker (Some rec)"
proof -
  obtain r where r: "NewSpscDropOldestRing zero 2 = Some r" "ring_run Push Pop r [Some a, Some hb, Some b, None, None] = [(hb, 1), (b, 0)]"
    using ring_demo [of zero a hb b] by blast
  have "symbol \<noteq> []" using utils_Normalize_both [OF assms(3)] by simp
  then have "publish_run (feed_Normalize lib KrakenFeed channel) topic r [Some a, Some hb, Some b, None, None] =
      Done [adapter_ProduceAsync topic symbol out 0 (ReadAtMs b)]"
    unfolding fz.run_published r(2) using assms
    by (simp add: published_as_def feed_Normalize_def Kraken_Normalize_def List.map_filter_simps)
  with r show ?thesis using ProduceAsync_marker [of topic symbol out 0 "ReadAtMs b"]
    by (intro exI [of _ r] exI [of _ "adapter_ProduceAsync topic symbol out 0 (ReadAtMs b)"]) (simp add: adapter_ProduceAsync_def)
qed

text \<open>A decoder that knows the heartbeat message.\<close>

definition heartbeat_doc :: "(string \<times> json) list" where
  "heartbeat_doc = [(''channel'', JStr ''heartbeat'')]"

definition heartbeat_json :: jsonlib where
  "heartbeat_json = \<lparr>um_object = (\<lambda>raw. if raw = text_of (JObj heartbeat_doc) then Some [''channel'' \<mapsto> quoted ''heartbeat''] else None),
     um_string = (\<lambda>raw. butlast (tl raw)), um_array = (\<lambda>_. None)\<rparr>"

theorem drop_marker_lost_witness:
  "shouldSkipControlMessage heartbeat_json (Data (raw_demo heartbeat_doc)) \<and>
   \<not> shouldSkipControlMessage heartbeat_json (Data (raw_demo kraken_doc)) \<and>
   (\<exists>r rec. NewSpscDropOldestRing (raw_demo []) 2 = Some r \<and>
    ring_run Push Pop r [Some (raw_demo kraken_doc), Some (raw_demo heartbeat_doc), Some (raw_demo kraken_doc), None, None] =
      [(raw_demo heartbeat_doc, 1), (raw_demo kraken_doc, 0)] \<and>
    publish_run (feed_Normalize heartbeat_json KrakenFeed ''ticker'') ''raw'' r
      [Some (raw_demo kraken_doc), Some (raw_demo heartbeat_doc), Some (raw_demo kraken_doc), None, None] = Done [rec] \<and>
    RKey rec = ''A/B'' \<and> \<not> hasDropMarker (Some rec))"
proof -
  have h: "shouldSkipControlMessage heartbeat_json (Data (raw_demo heartbeat_doc))" by code_simp
  have n: "\<not> shouldSkipControlMessage heartbeat_json (Data (raw_demo kraken_doc))" by code_simp
  have "case utils_Normalize heartbeat_json (Data (raw_demo kraken_doc)) ''symbol'' ''kraken'' ''ticker'' of
      Done (sy, out) \<Rightarrow> sy = ''A/B'' | _ \<Rightarrow> False" by code_simp
  then obtain out where u: "utils_Normalize heartbeat_json (Data (raw_demo kraken_doc)) ''symbol'' ''kraken'' ''ticker'' = Done (''A/B'', out)"
    by (auto split: outcome.splits)
  from drop_marker_lost [OF h n u, of "raw_demo []" "raw_demo kraken_doc" "''raw''"] h n show ?thesis by blast
qed

end
