(* ===== verification/Adapter_Supervisor.thy ===== *)
theory Adapter_Supervisor
  imports Float64 Spsc_Ring
begin

text \<open>
  The life of a stream's connection in the adapter (\<open>adapter/internal\<close>: \<open>SupervisorLoop\<close>, \<open>Connect\<close>, \<open>Retry\<close>) and the
  validation of its configuration (\<open>adapter/config/config.go\<close>). The loop both reads its status channel and fills it:
  \<open>Connect\<close> and \<open>Retry\<close> run inside it. The channel is a list; a send to a full one never returns, since
  nobody else reads.
\<close>

section \<open>Configuration\<close>

record Stream =
  sc_Channel :: string
  ProductIds :: "string list"
  KafkaTopic :: string
  RingBufferSize :: "64 word"
  MaxRetries :: int
  BaseDelay :: int
  HearbeatInterval :: int
  PongTimeout :: int
  MaxJitterMillis :: int

record Feed =
  fd_Name :: string
  Url :: string
  Streams :: "Stream list"

text \<open>\<open>math.Round\<close>: half away from zero; then \<open>int(math.Round(c * float64(h)))\<close>.\<close>

fun math_Round :: "f64 \<Rightarrow> f64" where
  "math_Round (Fin x) = Fin (of_int (if 0 \<le> x then \<lfloor>x + 1 / 2\<rfloor> else \<lceil>x - 1 / 2\<rceil>))"
| "math_Round x = x"

definition interval_times :: "rat \<Rightarrow> int \<Rightarrow> int" where
  "interval_times c h = f_trunc (math_Round (f_mul (Fin c) (f_of_int h)))"

text \<open>\<open>Validate\<close> fills in defaults and rejects values out of range.\<close>

definition Validate :: "Stream \<Rightarrow> Stream outcome" where
  "Validate s =
     (if ProductIds s = [] then Fail
      else let s = (if MaxRetries s \<le> 0 then s\<lparr>MaxRetries := 5\<rparr> else s) in
      if MaxRetries s > 15 then Fail
      else let s = (if MaxJitterMillis s \<le> 0 then s\<lparr>MaxJitterMillis := 1000\<rparr> else s) in
      if MaxJitterMillis s > 10000 then Fail
      else let s = (if BaseDelay s \<le> 0 then s\<lparr>BaseDelay := 5\<rparr> else s) in
      if BaseDelay s > 20 then Fail
      else let s = (if HearbeatInterval s \<le> 0 then s\<lparr>HearbeatInterval := 10\<rparr> else s);
               s = (if PongTimeout s \<le> 0 then s\<lparr>PongTimeout := interval_times (3 / 2) (HearbeatInterval s)\<rparr> else s) in
      if PongTimeout s < interval_times (3 / 2) (HearbeatInterval s) \<or> PongTimeout s > interval_times (5 / 2) (HearbeatInterval s)
      then Fail else Done s)"

text \<open>
  \<open>ValidateAll\<close>; \<open>blank\<close> and \<open>uri_ok\<close> stand for \<open>strings.TrimSpace(s) == ""\<close> and \<open>url.ParseRequestURI\<close>. The three
  maps of names seen are sets.
\<close>

fun validate_streams :: "Stream list \<Rightarrow> string set \<Rightarrow> (Stream list \<times> string set) outcome" where
  "validate_streams [] topics = Done ([], topics)"
| "validate_streams (s # ss) topics =
     (if KafkaTopic s \<in> topics then Fail
      else bind_out (Validate s) (\<lambda>s'.
           bind_out (validate_streams ss (insert (KafkaTopic s) topics)) (\<lambda>(ss', topics). Done (s' # ss', topics))))"

fun validate_feeds :: "(string \<Rightarrow> bool) \<Rightarrow> (string \<Rightarrow> bool) \<Rightarrow> Feed list \<Rightarrow> string set \<Rightarrow> string set \<Rightarrow> string set \<Rightarrow> Feed list outcome" where
  "validate_feeds blank uri_ok [] names urls topics = Done []"
| "validate_feeds blank uri_ok (f # fs) names urls topics =
     (if blank (fd_Name f) then Fail
      else if Url f = [] then Fail
      else if \<not> uri_ok (Url f) then Fail
      else if fd_Name f \<in> names then Fail
      else if Url f \<in> urls then Fail
      else bind_out (validate_streams (Streams f) topics) (\<lambda>(ss, topics).
           bind_out (validate_feeds blank uri_ok fs (insert (fd_Name f) names) (insert (Url f) urls) topics) (\<lambda>fs.
             Done (f\<lparr>Streams := ss\<rparr> # fs))))"

definition ValidateAll :: "(string \<Rightarrow> bool) \<Rightarrow> (string \<Rightarrow> bool) \<Rightarrow> string list \<Rightarrow> Feed list \<Rightarrow> Feed list outcome" where
  "ValidateAll blank uri_ok bootstrapServers feeds =
     (if bootstrapServers = [] then Fail else validate_feeds blank uri_ok feeds {} {} {})"

lemma Validate_keeps: "Validate s = Done s' \<Longrightarrow> KafkaTopic s' = KafkaTopic s \<and> RingBufferSize s' = RingBufferSize s"
  unfolding Validate_def Let_def by (auto split: if_splits)

lemma Validate_range:
  "Validate s = Done s' \<Longrightarrow> 0 < MaxRetries s' \<and> MaxRetries s' \<le> 15 \<and> 0 < MaxJitterMillis s' \<and> MaxJitterMillis s' \<le> 10000 \<and>
     0 < BaseDelay s' \<and> BaseDelay s' \<le> 20 \<and> 0 < HearbeatInterval s' \<and> ProductIds s' \<noteq> []"
  unfolding Validate_def Let_def by (auto split: if_splits)

definition stream_ok :: "Stream \<Rightarrow> bool" where
  "stream_ok s \<longleftrightarrow> ProductIds s \<noteq> [] \<and> 0 < MaxRetries s \<and> MaxRetries s \<le> 15 \<and> 0 < MaxJitterMillis s \<and> MaxJitterMillis s \<le> 10000 \<and>
     0 < BaseDelay s \<and> BaseDelay s \<le> 20 \<and> 0 < HearbeatInterval s"

lemma validate_streams_ok:
  "validate_streams ss topics = Done (ss', topics') \<Longrightarrow>
     distinct (map KafkaTopic ss') \<and> set (map KafkaTopic ss') \<inter> topics = {} \<and> topics' = topics \<union> set (map KafkaTopic ss') \<and>
     list_all stream_ok ss'"
proof (induction ss arbitrary: topics ss')
  case (Cons s ss)
  then obtain s' ss1 where s: "KafkaTopic s \<notin> topics" "Validate s = Done s'" "ss' = s' # ss1"
    "validate_streams ss (insert (KafkaTopic s) topics) = Done (ss1, topics')"
    by (auto simp: bind_out_Done split: if_splits)
  from Cons.IH [OF s(4)] s Validate_keeps [OF s(2)] Validate_range [OF s(2)] show ?case by (auto simp: stream_ok_def)
qed simp

lemma validate_feeds_ok:
  "validate_feeds blank uri_ok fs names urls topics = Done fs' \<Longrightarrow>
     distinct (map fd_Name fs') \<and> set (map fd_Name fs') \<inter> names = {} \<and> distinct (map Url fs') \<and> set (map Url fs') \<inter> urls = {} \<and>
     distinct (concat (map (map KafkaTopic \<circ> Streams) fs')) \<and> set (concat (map (map KafkaTopic \<circ> Streams) fs')) \<inter> topics = {} \<and>
     list_all (\<lambda>f. \<not> blank (fd_Name f) \<and> uri_ok (Url f) \<and> list_all stream_ok (Streams f)) fs'"
proof (induction fs arbitrary: names urls topics fs')
  case (Cons f fs)
  then obtain ss topics1 fs1 where f: "\<not> blank (fd_Name f)" "uri_ok (Url f)" "fd_Name f \<notin> names" "Url f \<notin> urls"
    "validate_streams (Streams f) topics = Done (ss, topics1)" "fs' = f\<lparr>Streams := ss\<rparr> # fs1"
    "validate_feeds blank uri_ok fs (insert (fd_Name f) names) (insert (Url f) urls) topics1 = Done fs1"
    by (auto simp: bind_out_Done split: if_splits)
  note ih = Cons.IH [OF f(7)] and ss = validate_streams_ok [OF f(5)]
  define tps where "tps = concat (map (map KafkaTopic \<circ> Streams) fs1)"
  have tps: "distinct tps" "set tps \<inter> topics1 = {}" using ih by (simp_all only: tps_def)
  have eq: "concat (map (map KafkaTopic \<circ> Streams) fs') = map KafkaTopic ss @ tps" by (simp add: f(6) tps_def)
  have "distinct (map KafkaTopic ss @ tps)" "set (map KafkaTopic ss @ tps) \<inter> topics = {}"
    using tps ss by auto
  then show ?case unfolding eq using ih ss f by auto
qed simp

section \<open>The supervisor\<close>

datatype Status = StatusNew | StatusBackoff | StatusConnected | StatusTerminated

text \<open>
  How an attempt to connect ends. \<open>Unending\<close> is a connection that stays up, or one of whose goroutines never returns: \<open>Connect\<close>
  waits for all of them. The loop ends by returning after \<open>StatusTerminated\<close> or at shutdown; otherwise it is in a connection, waits
  for a status that nobody sends, or blocks on its own channel.
\<close>

datatype attempt = DialError | SubscribeError | ConnectionEnded | Unending

datatype sv_end = Finished | Stopped | InConnection | Waiting | Blocked

datatype 'a sv_call = Returned 'a | SendBlocks | NeverReturns

text \<open>
  The environment: the outcome of the \<open>n\<close>-th attempt, the number of attempts after which the context is cancelled (if it is),
  and at each turn of the loop which of the two ready cases \<open>select\<close> takes.
\<close>

record sv_env =
  outcome_of :: "nat \<Rightarrow> attempt"
  life :: "nat option"
  pick_done :: "nat \<Rightarrow> bool"

definition cancelled :: "sv_env \<Rightarrow> nat \<Rightarrow> bool" where
  "cancelled env n \<longleftrightarrow> (case life env of None \<Rightarrow> False | Some c \<Rightarrow> c \<le> n)"

text \<open>A send from the goroutine that reads the channel.\<close>

definition post :: "nat \<Rightarrow> Status list \<Rightarrow> Status list \<Rightarrow> Status list sv_call" where
  "post cap q sts = (if length q + length sts \<le> cap then Returned (q @ sts) else SendBlocks)"

definition Connect :: "nat \<Rightarrow> bool \<Rightarrow> attempt \<Rightarrow> Status list \<Rightarrow> Status list sv_call" where
  "Connect cap isRetry a q =
     (case a of
        DialError \<Rightarrow> if isRetry then Returned q else post cap q [StatusBackoff]
      | SubscribeError \<Rightarrow> post cap q [StatusConnected, StatusBackoff]
      | ConnectionEnded \<Rightarrow> post cap q [StatusConnected, StatusBackoff]
      | Unending \<Rightarrow> (case post cap q [StatusConnected] of Returned _ \<Rightarrow> NeverReturns | r \<Rightarrow> r))"

text \<open>
  \<open>Retry\<close> with \<open>k\<close> retries left after \<open>n\<close> attempts in all; the delay between attempts is not modelled. The first result counts the
  attempts, the current one included.
\<close>

fun Retry :: "sv_env \<Rightarrow> nat \<Rightarrow> nat \<Rightarrow> nat \<Rightarrow> Status list \<Rightarrow> nat \<times> Status list sv_call" where
  "Retry env cap 0 n q = (n, post cap q [StatusTerminated])"
| "Retry env cap (Suc k) n q =
     (if cancelled env n then (n, Returned q)
      else case Connect cap True (outcome_of env n) q of
             Returned q' \<Rightarrow> Retry env cap k (Suc n) q'
           | r \<Rightarrow> (Suc n, r))"

text \<open>The turns of the loop. With an empty channel a cancelled context is the only ready case.\<close>

partial_function (option) SupervisorLoop :: "sv_env \<Rightarrow> nat \<Rightarrow> nat \<Rightarrow> nat \<Rightarrow> nat \<Rightarrow> Status list \<Rightarrow> (sv_end \<times> nat) option" where
  "SupervisorLoop env cap maxRetries turn n q =
     (if cancelled env n \<and> (pick_done env turn \<or> q = []) then Some (Stopped, n)
      else case q of
        [] \<Rightarrow> Some (Waiting, n)
      | StatusNew # q \<Rightarrow>
          (case Connect cap False (outcome_of env n) q of
             Returned q \<Rightarrow> SupervisorLoop env cap maxRetries (Suc turn) (Suc n) q
           | SendBlocks \<Rightarrow> Some (Blocked, Suc n)
           | NeverReturns \<Rightarrow> Some (InConnection, Suc n))
      | StatusBackoff # q \<Rightarrow>
          (case Retry env cap maxRetries n q of
             (n, Returned q) \<Rightarrow> SupervisorLoop env cap maxRetries (Suc turn) n q
           | (n, SendBlocks) \<Rightarrow> Some (Blocked, n)
           | (n, NeverReturns) \<Rightarrow> Some (InConnection, n))
      | StatusConnected # q \<Rightarrow> SupervisorLoop env cap maxRetries (Suc turn) n q
      | StatusTerminated # q \<Rightarrow> Some (Finished, n))"

definition StatusChanSize :: nat where
  "StatusChanSize = 1000"

definition StartSupervisor :: "sv_env \<Rightarrow> Stream \<Rightarrow> (sv_end \<times> nat) option" where
  "StartSupervisor env s = SupervisorLoop env StatusChanSize (nat (MaxRetries s)) 0 0 [StatusNew]"

section \<open>The retries\<close>

definition backoffs :: "Status list \<Rightarrow> nat" where
  "backoffs q = length (filter (\<lambda>st. st = StatusBackoff) q)"

lemma backoffs_simps [simp]: "backoffs [] = 0" "backoffs (st # q) = (if st = StatusBackoff then Suc (backoffs q) else backoffs q)"
  "backoffs (p @ q) = backoffs p + backoffs q"
  by (simp_all add: backoffs_def)

text \<open>What an attempt during a retry posts.\<close>

lemma Connect_retry:
  assumes "length q + 2 \<le> cap"
  obtains (returned) new where "Connect cap True a q = Returned (q @ new)" "set new \<subseteq> {StatusConnected, StatusBackoff}" "backoffs new \<le> 1" "length new \<le> 2"
  | (hangs) "Connect cap True a q = NeverReturns" "a = Unending"
proof (cases a)
  case DialError
  then show ?thesis using returned [of "[]"] by (simp add: Connect_def)
next
  case SubscribeError
  then show ?thesis using returned [of "[StatusConnected, StatusBackoff]"] assms by (simp add: Connect_def post_def)
next
  case ConnectionEnded
  then show ?thesis using returned [of "[StatusConnected, StatusBackoff]"] assms by (simp add: Connect_def post_def)
next
  case Unending
  then show ?thesis using hangs assms by (simp add: Connect_def post_def)
qed

text \<open>The ends of the loop that are no fault of its own, after \<open>n\<close> attempts.\<close>

definition sound_end :: "sv_env \<Rightarrow> sv_end \<Rightarrow> nat \<Rightarrow> bool" where
  "sound_end env e n \<longleftrightarrow> e = Finished \<or> e = Stopped \<and> cancelled env n \<or> e = InConnection \<and> 0 < n \<and> outcome_of env (n - 1) = Unending"

definition retry_posts :: "sv_env \<Rightarrow> nat \<Rightarrow> nat \<Rightarrow> nat \<Rightarrow> Status list \<Rightarrow> bool" where
  "retry_posts env k n n' new \<longleftrightarrow> n \<le> n' \<and> n' \<le> n + k \<and> length new \<le> 2 * k + 1 \<and>
     ((\<exists>pre. new = pre @ [StatusTerminated] \<and> set pre \<subseteq> {StatusConnected, StatusBackoff} \<and> backoffs pre \<le> k) \<or>
      (set new \<subseteq> {StatusConnected, StatusBackoff} \<and> cancelled env n'))"

lemma retry_posts_more:
  assumes "retry_posts env k (Suc n) n' new" "set c \<subseteq> {StatusConnected, StatusBackoff}" "backoffs c \<le> 1" "length c \<le> 2"
  shows "retry_posts env (Suc k) n n' (c @ new)"
proof -
  from assms(1) consider pre where "new = pre @ [StatusTerminated]" "set pre \<subseteq> {StatusConnected, StatusBackoff}" "backoffs pre \<le> k"
    | "set new \<subseteq> {StatusConnected, StatusBackoff}" "cancelled env n'" unfolding retry_posts_def by blast
  then have "(\<exists>pre. c @ new = pre @ [StatusTerminated] \<and> set pre \<subseteq> {StatusConnected, StatusBackoff} \<and> backoffs pre \<le> Suc k) \<or>
      (set (c @ new) \<subseteq> {StatusConnected, StatusBackoff} \<and> cancelled env n')"
  proof cases
    case (1 pre)
    then show ?thesis using assms by (intro disjI1 exI [of _ "c @ pre"]) auto
  qed (use assms in auto)
  then show ?thesis using assms unfolding retry_posts_def by simp
qed

lemma Retry_posts:
  assumes "length q + 2 * k + 1 \<le> cap"
  obtains (returned) n' new where "Retry env cap k n q = (n', Returned (q @ new))" "retry_posts env k n n' new"
  | (hangs) n' where "Retry env cap k n q = (n', NeverReturns)" "n < n'" "n' \<le> n + k" "outcome_of env (n' - 1) = Unending"
proof -
  have "(\<exists>n' new. Retry env cap k n q = (n', Returned (q @ new)) \<and> retry_posts env k n n' new) \<or>
    (\<exists>n'. Retry env cap k n q = (n', NeverReturns) \<and> n < n' \<and> n' \<le> n + k \<and> outcome_of env (n' - 1) = Unending)"
    using assms
  proof (induction k arbitrary: n q)
    case 0
    then show ?case by (simp add: post_def retry_posts_def)
  next
    case (Suc k)
    show ?case
    proof (cases "cancelled env n")
      case True
      then show ?thesis by (auto simp: retry_posts_def intro!: exI [of _ "[]"])
    next
      case go: False
      have "length q + 2 \<le> cap" using Suc.prems by simp
      then show ?thesis
      proof (cases rule: Connect_retry [of q cap "outcome_of env n", case_names returned hangs])
        case (returned c)
        have "length (q @ c) + 2 * k + 1 \<le> cap" using Suc.prems returned(4) by simp
        from Suc.IH [OF this, of "Suc n"] go returned(1) show ?thesis
          using retry_posts_more [OF _ returned(2-4)] by fastforce
      next
        case hangs
        with go show ?thesis by simp
      qed
    qed
  qed
  with that show ?thesis by blast
qed

section \<open>The loop ends\<close>

lemma cancelled_mono: "cancelled env n \<Longrightarrow> n \<le> n' \<Longrightarrow> cancelled env n'"
  by (auto simp: cancelled_def split: option.splits)

text \<open>After cancellation the loop works off what is queued and makes no further attempt.\<close>

lemma loop_cancelled:
  assumes "cancelled env n" and "0 < m" and "StatusNew \<notin> set q"
  shows "\<exists>e. SupervisorLoop env cap m turn n q = Some (e, n) \<and> sound_end env e n"
  using assms(3)
proof (induction q arbitrary: turn)
  case Nil
  then show ?case using assms(1) by (subst SupervisorLoop.simps) (simp add: sound_end_def)
next
  case (Cons st q)
  obtain k where m: "m = Suc k" using assms(2) by (cases m) auto
  from Cons.IH [of "Suc turn"] Cons.prems have ih: "\<exists>e. SupervisorLoop env cap m (Suc turn) n q = Some (e, n) \<and> sound_end env e n" by simp
  show ?case using ih Cons.prems assms(1) m by (subst SupervisorLoop.simps) (cases st; auto simp: sound_end_def)
qed

text \<open>A turn that serves a backoff: the loop goes on with what the retries posted, or stays in a connection.\<close>

lemma loop_retries:
  assumes "length q + 2 * m + 1 \<le> cap"
  obtains (stopped) "SupervisorLoop env cap m turn n (StatusBackoff # q) = Some (Stopped, n)" "cancelled env n"
  | (goes_on) n' new where "SupervisorLoop env cap m turn n (StatusBackoff # q) = SupervisorLoop env cap m (Suc turn) n' (q @ new)"
      "retry_posts env m n n' new"
  | (hangs) n' where "SupervisorLoop env cap m turn n (StatusBackoff # q) = Some (InConnection, n')" "n' \<le> n + m" "sound_end env InConnection n'"
proof (cases "cancelled env n \<and> pick_done env turn")
  case True
  then have "SupervisorLoop env cap m turn n (StatusBackoff # q) = Some (Stopped, n)" by (subst SupervisorLoop.simps) simp
  with True stopped show ?thesis by blast
next
  case go: False
  show ?thesis
  proof (cases rule: Retry_posts [OF assms, of env n, case_names returned hangs])
    case (returned n' new)
    then have "SupervisorLoop env cap m turn n (StatusBackoff # q) = SupervisorLoop env cap m (Suc turn) n' (q @ new)"
      using go by (subst SupervisorLoop.simps) auto
    with returned(2) goes_on show ?thesis by blast
  next
    case h: (hangs n')
    then have "SupervisorLoop env cap m turn n (StatusBackoff # q) = Some (InConnection, n')" using go by (subst SupervisorLoop.simps) auto
    moreover have "sound_end env InConnection n'" using h by (simp add: sound_end_def)
    ultimately show ?thesis using hangs h(3) by blast
  qed
qed

text \<open>Before a queued \<open>StatusTerminated\<close> there are boundedly many backoffs, each of which makes boundedly many attempts.\<close>

lemma loop_until_terminated:
  assumes "set pre \<subseteq> {StatusConnected, StatusBackoff}"
    and "length pre + 1 + length rest + backoffs pre * (2 * m + 1) \<le> cap"
  shows "\<exists>e n'. SupervisorLoop env cap m turn n (pre @ StatusTerminated # rest) = Some (e, n') \<and> sound_end env e n' \<and> n' \<le> n + backoffs pre * m"
  using assms
proof (induction pre arbitrary: turn n rest)
  case Nil
  then show ?case by (subst SupervisorLoop.simps) (auto simp: sound_end_def)
next
  case (Cons st pre)
  consider (C) "st = StatusConnected" | (B) "st = StatusBackoff" using Cons.prems by auto
  then show ?case
  proof cases
    case C
    from Cons.IH [of rest "Suc turn" n] Cons.prems C show ?thesis by (subst SupervisorLoop.simps) (auto simp: sound_end_def)
  next
    case B
    have "length (pre @ StatusTerminated # rest) + 2 * m + 1 \<le> cap" using Cons.prems B by simp
    then show ?thesis
    proof (cases rule: loop_retries [of "pre @ StatusTerminated # rest" m cap env turn n, case_names stopped goes_on hangs])
      case stopped
      then show ?thesis using B by (auto simp: sound_end_def)
    next
      case (goes_on n' new)
      have "length pre + 1 + length (rest @ new) + backoffs pre * (2 * m + 1) \<le> cap" "n' \<le> n + m"
        using Cons.prems B goes_on(2) by (auto simp: retry_posts_def)
      with Cons.IH [of "rest @ new" "Suc turn" n'] Cons.prems goes_on(1) B show ?thesis by fastforce
    next
      case (hangs n')
      then show ?thesis using B by auto
    qed
  qed
qed

lemma loop_backoff:
  assumes "0 < m" and "(m + 1) * (2 * m + 1) \<le> cap"
  shows "\<exists>e n'. SupervisorLoop env cap m turn n [StatusBackoff] = Some (e, n') \<and> sound_end env e n' \<and> n' \<le> n + m + m * m"
proof -
  have cap: "2 * m + 1 + m * (2 * m + 1) \<le> cap" using assms(2) by (simp add: algebra_simps)
  then have "length [] + 2 * m + 1 \<le> cap" by simp
  then show ?thesis
  proof (cases rule: loop_retries [of "[]" m cap env turn n, case_names stopped goes_on hangs])
    case stopped
    then show ?thesis by (auto simp: sound_end_def)
  next
    case (goes_on n' new)
    then have r: "n' \<le> n + m" "length new \<le> 2 * m + 1" by (simp_all add: retry_posts_def)
    from goes_on(2) consider pre where "new = pre @ [StatusTerminated]" "set pre \<subseteq> {StatusConnected, StatusBackoff}" "backoffs pre \<le> m"
      | "set new \<subseteq> {StatusConnected, StatusBackoff}" "cancelled env n'" unfolding retry_posts_def by blast
    then show ?thesis
    proof cases
      case (1 pre)
      have b: "backoffs pre * (2 * m + 1) \<le> m * (2 * m + 1)" "backoffs pre * m \<le> m * m" using 1(3) by (rule mult_le_mono1)+
      have "length pre + 1 + length [] + backoffs pre * (2 * m + 1) \<le> cap" using r(2) b(1) cap 1(1) by simp
      from loop_until_terminated [OF 1(2) this, of env "Suc turn" n'] obtain e k where
        "SupervisorLoop env cap m (Suc turn) n' new = Some (e, k)" "sound_end env e k" "k \<le> n' + backoffs pre * m"
        using 1(1) by auto
      moreover from this(3) r(1) b(2) have "k \<le> n + m + m * m" by linarith
      ultimately show ?thesis using goes_on(1) by auto
    next
      case 2
      from loop_cancelled [OF 2(2) assms(1), of new cap "Suc turn"] 2(1) goes_on(1) r(1) show ?thesis by fastforce
    qed
  next
    case (hangs n')
    then show ?thesis by auto
  qed
qed

lemma loop_connected:
  "SupervisorLoop env cap m turn n (StatusConnected # q) =
     (if cancelled env n \<and> pick_done env turn then Some (Stopped, n) else SupervisorLoop env cap m (Suc turn) n q)"
  by (subst SupervisorLoop.simps) simp

lemma loop_new:
  assumes "2 \<le> cap"
  shows "SupervisorLoop env cap m turn n [StatusNew] =
     (if cancelled env n \<and> pick_done env turn then Some (Stopped, n)
      else if outcome_of env n = Unending then Some (InConnection, Suc n)
      else SupervisorLoop env cap m (Suc turn) (Suc n)
        (if outcome_of env n = DialError then [StatusBackoff] else [StatusConnected, StatusBackoff]))"
  using assms by (subst SupervisorLoop.simps) (auto simp: Connect_def post_def split: attempt.splits)

lemma validated_fits:
  assumes "Validate s = Done s'"
  shows "0 < nat (MaxRetries s')" and "(nat (MaxRetries s') + 1) * (2 * nat (MaxRetries s') + 1) \<le> StatusChanSize"
proof -
  have m: "0 < nat (MaxRetries s')" "nat (MaxRetries s') \<le> 15" using Validate_range [OF assms] by auto
  then show "0 < nat (MaxRetries s')" by simp
  have "(nat (MaxRetries s') + 1) * (2 * nat (MaxRetries s') + 1) \<le> 16 * 31" by (rule mult_le_mono) (use m in auto)
  then show "(nat (MaxRetries s') + 1) * (2 * nat (MaxRetries s') + 1) \<le> StatusChanSize" by (simp add: StatusChanSize_def)
qed

text \<open>
  C30. With a validated configuration the supervisor never blocks on its own channel and never waits for a status that nobody
  sends. Whatever the exchange does, after at most \<open>1 + m + m\<^sup>2\<close> attempts to connect for \<open>m\<close> retries its loop has returned,
  or has stopped after the context was cancelled, or is in its last attempt, and that attempt never ends. So
  the loop ends if every attempt does.
\<close>

theorem supervisor_ends:
  assumes "Validate s = Done s'"
  shows "\<exists>e n. StartSupervisor env s' = Some (e, n) \<and> n \<le> 1 + nat (MaxRetries s') + nat (MaxRetries s') * nat (MaxRetries s') \<and>
    (e = Finished \<or> e = Stopped \<and> cancelled env n \<or> e = InConnection \<and> 0 < n \<and> outcome_of env (n - 1) = Unending)"
proof -
  define m where "m = nat (MaxRetries s')"
  note v = validated_fits [OF assms, folded m_def]
  have "\<exists>e n'. SupervisorLoop env StatusChanSize m t (Suc 0) q = Some (e, n') \<and> sound_end env e n' \<and> n' \<le> 1 + m + m * m"
    if "q = [StatusBackoff] \<or> q = [StatusConnected, StatusBackoff]" for t q
    using that loop_backoff [OF v, of env _ "Suc 0"] by (auto simp: loop_connected sound_end_def)
  then have "\<exists>e n. StartSupervisor env s' = Some (e, n) \<and> sound_end env e n \<and> n \<le> 1 + m + m * m"
    unfolding StartSupervisor_def m_def [symmetric]
    by (subst loop_new) (auto simp: StatusChanSize_def sound_end_def)
  then show ?thesis unfolding sound_end_def m_def by blast
qed

definition demo_stream :: Stream where
  "demo_stream = \<lparr>sc_Channel = ''ticker'', ProductIds = [''A''], KafkaTopic = ''t'', RingBufferSize = 3, MaxRetries = 2, BaseDelay = 1,
     HearbeatInterval = 10, PongTimeout = 0, MaxJitterMillis = 1\<rparr>"

definition healthy_env :: sv_env where
  "healthy_env = \<lparr>outcome_of = (\<lambda>_. ConnectionEnded), life = None, pick_done = (\<lambda>_. False)\<rparr>"

lemma Validate_demo: "Validate demo_stream = Done (demo_stream\<lparr>PongTimeout := 15\<rparr>)"
proof -
  have "interval_times (3 / 2) 10 = 15" "interval_times (5 / 2) 10 = 25"
    by (simp_all add: interval_times_def f_of_int_def floor_eq_iff)
  then show ?thesis by (simp add: Validate_def demo_stream_def)
qed

theorem supervisor_ends_witness:
  "\<exists>s' n. Validate demo_stream = Done s' \<and> StartSupervisor healthy_env s' = Some (Finished, n) \<and> n \<le> 7"
proof -
  have "\<not> cancelled healthy_env n" "outcome_of healthy_env n \<noteq> Unending" for n by (simp_all add: healthy_env_def cancelled_def)
  with supervisor_ends [OF Validate_demo, of healthy_env] Validate_demo show ?thesis by (auto simp: demo_stream_def)
qed

section \<open>A stream that reconnects every time\<close>

lemma Retry_healthy:
  assumes "life env = None" and "\<forall>n. outcome_of env n = ConnectionEnded" and "length q + 2 * k + 1 \<le> cap"
  shows "Retry env cap k n q = (n + k, Returned (q @ concat (replicate k [StatusConnected, StatusBackoff]) @ [StatusTerminated]))"
  using assms(3)
proof (induction k arbitrary: n q)
  case (Suc k)
  from Suc.IH [of "q @ [StatusConnected, StatusBackoff]" "Suc n"] Suc.prems assms(1,2) show ?case
    by (simp add: cancelled_def Connect_def post_def)
qed (simp add: post_def)

lemma loop_healthy:
  assumes "life env = None" and "\<forall>n. outcome_of env n = ConnectionEnded" and "2 * k + 1 + length rest + k * (2 * m + 1) \<le> cap"
  shows "SupervisorLoop env cap m turn n (concat (replicate k [StatusConnected, StatusBackoff]) @ StatusTerminated # rest) =
    Some (Finished, n + k * m)"
  using assms(3)
proof (induction k arbitrary: turn n rest)
  case 0
  then show ?case using assms(1) by (subst SupervisorLoop.simps) (simp add: cancelled_def)
next
  case (Suc k)
  define q where "q = concat (replicate k [StatusConnected, StatusBackoff]) @ StatusTerminated # rest"
  define new where "new = concat (replicate m [StatusConnected, StatusBackoff]) @ [StatusTerminated]"
  have len: "length (concat (replicate j [StatusConnected, StatusBackoff])) = 2 * j" for j by (induction j) auto
  have "Retry env cap m n q = (n + m, Returned (q @ new))"
    unfolding new_def by (rule Retry_healthy [OF assms(1,2)]) (use Suc.prems in \<open>simp add: q_def len\<close>)
  moreover have "SupervisorLoop env cap m (Suc (Suc turn)) (n + m) (q @ new) = Some (Finished, n + m + k * m)"
    using Suc.IH [of "rest @ new" "Suc (Suc turn)" "n + m"] Suc.prems by (simp add: q_def new_def len)
  moreover have "\<not> cancelled env n" for n using assms(1) by (simp add: cancelled_def)
  ultimately have "SupervisorLoop env cap m turn n (StatusConnected # StatusBackoff # q) = Some (Finished, n + Suc k * m)"
    by (subst loop_connected, subst SupervisorLoop.simps) simp
  then show ?case by (simp add: q_def)
qed

text \<open>
  C38. The retries are not counted per outage. A stream whose every connection succeeds and later ends is given up for good
  after exactly \<open>1 + m + m\<^sup>2\<close> connections: each retry loop goes on counting after a successful connection and
  posts \<open>StatusTerminated\<close> behind the backoffs of those connections.
\<close>

theorem healthy_stream_abandoned:
  assumes "Validate s = Done s'" and "life env = None" and "\<forall>n. outcome_of env n = ConnectionEnded"
  shows "StartSupervisor env s' = Some (Finished, 1 + nat (MaxRetries s') + nat (MaxRetries s') * nat (MaxRetries s'))"
proof -
  define m where "m = nat (MaxRetries s')"
  note v = validated_fits [OF assms(1), folded m_def]
  have cap: "2 * m + 1 + m * (2 * m + 1) \<le> StatusChanSize" using v(2) by (simp add: algebra_simps)
  have nc: "\<not> cancelled env n" for n using assms(2) by (simp add: cancelled_def)
  have r: "Retry env StatusChanSize m 1 [] = (1 + m, Returned (concat (replicate m [StatusConnected, StatusBackoff]) @ [StatusTerminated]))"
    using Retry_healthy [OF assms(2,3), of "[]" m StatusChanSize 1] cap by simp
  have "SupervisorLoop env StatusChanSize m t 1 [StatusBackoff] = Some (Finished, 1 + m + m * m)" for t
    using nc r loop_healthy [OF assms(2,3), of m "[]" m StatusChanSize "Suc t" "1 + m"] cap by (subst SupervisorLoop.simps) simp
  then show ?thesis unfolding StartSupervisor_def m_def [symmetric]
    using nc assms(3) by (subst loop_new) (simp_all add: StatusChanSize_def loop_connected)
qed

theorem healthy_stream_abandoned_witness:
  "StartSupervisor healthy_env (demo_stream\<lparr>PongTimeout := 15\<rparr>) = Some (Finished, 7)"
proof -
  have "life healthy_env = None" "\<forall>n. outcome_of healthy_env n = ConnectionEnded" by (simp_all add: healthy_env_def)
  from healthy_stream_abandoned [OF Validate_demo this] show ?thesis by (simp add: demo_stream_def)
qed

section \<open>Accepted configurations\<close>

text \<open>
  A configuration that passes validation has pairwise different feed names and URLs, pairwise different Kafka topics over all
  streams of all feeds, and every stream with its numbers in range.
\<close>

theorem accepted_config:
  assumes "ValidateAll blank uri_ok servers feeds = Done feeds'"
  shows "servers \<noteq> [] \<and> distinct (map fd_Name feeds') \<and> distinct (map Url feeds') \<and>
    distinct (concat (map (map KafkaTopic \<circ> Streams) feeds')) \<and>
    (\<forall>f \<in> set feeds'. \<not> blank (fd_Name f) \<and> uri_ok (Url f) \<and> (\<forall>s \<in> set (Streams f). stream_ok s))"
  using assms validate_feeds_ok [of blank uri_ok feeds "{}" "{}" "{}" feeds']
  by (auto simp: ValidateAll_def list_all_iff split: if_splits)

definition demo_feeds :: "Feed list" where
  "demo_feeds = [\<lparr>fd_Name = ''kraken'', Url = ''wss://x'', Streams = [demo_stream]\<rparr>]"

theorem accepted_config_witness:
  "\<exists>feeds'. ValidateAll (\<lambda>s. s = []) (\<lambda>s. True) [''b:9092''] demo_feeds = Done feeds' \<and> length feeds' = 1 \<and>
     (\<forall>f \<in> set feeds'. \<forall>s \<in> set (Streams f). stream_ok s)"
proof -
  have v: "ValidateAll (\<lambda>s. s = []) (\<lambda>s. True) [''b:9092''] demo_feeds =
      Done [\<lparr>fd_Name = ''kraken'', Url = ''wss://x'', Streams = [demo_stream\<lparr>PongTimeout := 15\<rparr>]\<rparr>]"
    using Validate_demo by (simp add: ValidateAll_def demo_feeds_def)
  from v accepted_config [OF v] show ?thesis by (intro exI conjI) auto
qed

text \<open>
  The size of the ring is not validated: a configuration with a size that is not a power of two is accepted, and the
  constructor of the ring panics on it.
\<close>

theorem ring_size_not_validated:
  "ValidateAll (\<lambda>s. s = []) (\<lambda>s. True) [''b:9092''] demo_feeds \<noteq> Fail \<and>
   NewSpscDropOldestRing zero (RingBufferSize demo_stream) = None"
  using Validate_demo by (simp add: ValidateAll_def demo_feeds_def NewSpscDropOldestRing_def demo_stream_def)

end
