(* ===== verification/Source_Tracker.thy ===== *)
theory Source_Tracker
  imports Src_Offset "HOL-Library.Monad_Syntax"
begin

text \<open>
  The bookkeeping of the at-least-once mode of the normalizer (\<open>normalizer/kafka/source_tracker.go\<close>):
  which consumed records have an output produce still waiting for its acknowledgement, the lowest of
  them per partition, and the frontier of offsets that may be committed. The lemmas read the tracker as
  the set of its \<open>(partition, offset)\<close> pairs.
\<close>

section \<open>The model\<close>

record SourceTracker =
  inflight :: "(tp \<times> int list) list"
  failed :: bool

definition NewSourceTracker :: SourceTracker where
  "NewSourceTracker = \<lparr>inflight = [], failed = False\<rparr>"

definition offs_of :: "SourceTracker \<Rightarrow> tp \<Rightarrow> int list" where
  "offs_of t k = (case map_of (inflight t) k of None \<Rightarrow> [] | Some offs \<Rightarrow> offs)"

definition add :: "SourceTracker \<Rightarrow> tp \<Rightarrow> int \<Rightarrow> SourceTracker" where
  "add t k off = t\<lparr>inflight := AList.update k (List.insert off (offs_of t k)) (inflight t)\<rparr>"

text \<open>Deleting from a missing entry is a no-op.\<close>

definition done_ack :: "SourceTracker \<Rightarrow> tp \<Rightarrow> int \<Rightarrow> SourceTracker" where
  "done_ack t k off =
     (case map_of (inflight t) k of
        None \<Rightarrow> t
      | Some offs \<Rightarrow> t\<lparr>inflight := AList.update k (removeAll off offs) (inflight t)\<rparr>)"

definition fail_ack :: "SourceTracker \<Rightarrow> tp \<Rightarrow> int \<Rightarrow> SourceTracker" where
  "fail_ack t k off = t\<lparr>failed := True\<rparr>"

text \<open>The inner loop of \<open>MinInflight\<close>: \<open>None\<close> while \<open>first\<close> is true.\<close>

definition min_loop :: "int list \<Rightarrow> int option" where
  "min_loop offs = fold (\<lambda>off acc. case acc of None \<Rightarrow> Some off | Some m \<Rightarrow> if off < m then Some off else Some m) offs None"

definition MinInflight :: "SourceTracker \<Rightarrow> (tp \<times> int) list" where
  "MinInflight t = List.map_filter (\<lambda>(k, offs). map_option (Pair k) (min_loop offs)) (inflight t)"

text \<open>\<open>kgo.EpochOffset\<close>.\<close>

record EpochOffset =
  Epoch :: int
  Offset :: int

definition held_back :: "int \<Rightarrow> int option \<Rightarrow> int" where
  "held_back off v = (case v of None \<Rightarrow> off | Some u \<Rightarrow> if u < off then u else off)"

definition Frontier :: "(tp \<times> EpochOffset) list \<Rightarrow> (tp \<rightharpoonup> int) \<Rightarrow> (tp \<rightharpoonup> int) \<Rightarrow> (tp \<rightharpoonup> int) \<Rightarrow> (tp \<times> EpochOffset) list" where
  "Frontier uncommitted infl buffered prv =
     List.map_filter (\<lambda>(k, eo).
       let off = held_back (held_back (Offset eo) (infl k)) (buffered k)
       in case prv k of
            Some p \<Rightarrow> if off \<le> p then None else Some (k, \<lparr>Epoch = Epoch eo, Offset = off\<rparr>)
          | None \<Rightarrow> Some (k, \<lparr>Epoch = Epoch eo, Offset = off\<rparr>)) uncommitted"

text \<open>\<open>TrackedProducer.source\<close>: the first source header, if it decodes.\<close>

fun source :: "header list \<Rightarrow> (tp \<times> int) option" where
  "source [] = None"
| "source (h # hs) =
     (if HKey h \<noteq> HeaderKey then source hs
      else (case Decode (HValue h) of
              None \<Rightarrow> None
            | Some (topic, part, off) \<Rightarrow> Some ((topic, part), off)))"

text \<open>
  \<open>TrackedProducer.Produce\<close>: the tracker entry is made before the record is handed to the client; the promise
  of the client removes it, or leaves it and notes the failure.
\<close>

definition Produce :: "SourceTracker \<Rightarrow> kgo_record \<Rightarrow> SourceTracker" where
  "Produce t r = (case source (RHeaders r) of None \<Rightarrow> t | Some (k, off) \<Rightarrow> add t k off)"

definition promise :: "SourceTracker \<Rightarrow> kgo_record \<Rightarrow> bool \<Rightarrow> SourceTracker" where
  "promise t r ok =
     (case source (RHeaders r) of
        None \<Rightarrow> t
      | Some (k, off) \<Rightarrow> if ok then done_ack t k off else fail_ack t k off)"

section \<open>The tracker as a set\<close>

definition tracker_inv :: "SourceTracker \<Rightarrow> bool" where
  "tracker_inv t \<longleftrightarrow> distinct (map fst (inflight t))"

definition pending :: "SourceTracker \<Rightarrow> (tp \<times> int) set" where
  "pending t = {(k, off). off \<in> set (offs_of t k)}"

lemma NewSourceTracker_pending [simp]: "tracker_inv NewSourceTracker" "pending NewSourceTracker = {}"
  by (simp_all add: tracker_inv_def pending_def NewSourceTracker_def offs_of_def)

lemma add_pending [simp]:
  "tracker_inv t \<Longrightarrow> tracker_inv (add t k off)" "pending (add t k off) = insert (k, off) (pending t)"
  by (auto simp: tracker_inv_def pending_def add_def offs_of_def AList.distinct_update AList.update_conv' split: if_splits)

lemma done_pending [simp]:
  "tracker_inv t \<Longrightarrow> tracker_inv (done_ack t k off)" "pending (done_ack t k off) = pending t - {(k, off)}"
  by (auto simp: tracker_inv_def pending_def done_ack_def offs_of_def AList.distinct_update AList.update_conv' split: if_splits option.splits)

lemma fail_pending [simp]:
  "tracker_inv (fail_ack t k off) = tracker_inv t" "pending (fail_ack t k off) = pending t"
  by (simp_all add: tracker_inv_def pending_def fail_ack_def offs_of_def)

lemma min_loop_aux:
  "fold (\<lambda>off acc. case acc of None \<Rightarrow> Some off | Some m \<Rightarrow> if off < m then Some off else Some m) offs (Some (m :: int)) =
   Some (Min (insert m (set offs)))"
proof (induction offs arbitrary: m)
  case (Cons a offs)
  have "insert m (insert a (set offs)) = insert m (insert a (set offs))" ..
  with Cons show ?case by (cases "offs = []") (auto simp: min_def insert_commute)
qed simp

lemma min_loop_Min: "min_loop offs = (if offs = [] then None else Some (Min (set offs)))"
  by (cases offs) (simp_all add: min_loop_def min_loop_aux)

lemma map_of_map_filter_key:
  "distinct (map fst al) \<Longrightarrow> map_of (List.map_filter (\<lambda>(k, v). map_option (Pair k) (f v)) al) k = Option.bind (map_of al k) f"
proof (induction al)
  case (Cons e al)
  obtain k' v' where e: "e = (k', v')" by (cases e)
  have "map_of (List.map_filter (\<lambda>(k, v). map_option (Pair k) (f v)) al) k' = None" if "k' \<notin> fst ` set al"
    using that by (force simp: map_of_eq_None_iff List.map_filter_def)
  with Cons e show ?case by (cases "f v'") (auto simp: List.map_filter_simps)
qed (simp add: List.map_filter_simps)

lemma MinInflight_map:
  "tracker_inv t \<Longrightarrow> map_of (MinInflight t) k = (if \<exists>off. (k, off) \<in> pending t then Some (Min {off. (k, off) \<in> pending t}) else None)"
proof -
  assume "tracker_inv t"
  then have "map_of (MinInflight t) k = Option.bind (map_of (inflight t) k) min_loop"
    unfolding MinInflight_def tracker_inv_def by (rule map_of_map_filter_key)
  then show ?thesis
    by (cases "map_of (inflight t) k") (auto simp: pending_def offs_of_def min_loop_Min)
qed

lemma finite_pending: "finite {off. (k, off) \<in> pending t}"
  by (simp add: pending_def)

lemma MinInflight_le:
  assumes "tracker_inv t" "(k, off) \<in> pending t"
  shows "\<exists>m. map_of (MinInflight t) k = Some m \<and> m \<le> off"
  using assms finite_pending [of k t] by (auto simp: MinInflight_map)

lemma held_back_le: "held_back off v \<le> off" "v = Some u \<Longrightarrow> held_back off v \<le> u"
  by (auto simp: held_back_def split: option.splits)

text \<open>A committed offset exceeds neither the polled position nor any unacknowledged or buffered record.\<close>

lemma Frontier_bounds:
  assumes "(k, eo) \<in> set (Frontier unc infl buf prv)"
  shows "\<exists>u. (k, u) \<in> set unc \<and> Offset eo \<le> Offset u \<and> Epoch eo = Epoch u"
    and "\<And>v. infl k = Some v \<Longrightarrow> Offset eo \<le> v" and "\<And>v. buf k = Some v \<Longrightarrow> Offset eo \<le> v"
    and "\<And>p. prv k = Some p \<Longrightarrow> p < Offset eo"
proof -
  from assms obtain u where u: "(k, u) \<in> set unc" "Epoch eo = Epoch u"
    "Offset eo = held_back (held_back (Offset u) (infl k)) (buf k)" "\<And>p. prv k = Some p \<Longrightarrow> p < Offset eo"
    by (fastforce simp: Frontier_def List.map_filter_def Let_def split: option.splits if_splits)
  have 1: "held_back (held_back (Offset u) (infl k)) (buf k) \<le> held_back (Offset u) (infl k)" by (rule held_back_le)
  show "\<exists>u. (k, u) \<in> set unc \<and> Offset eo \<le> Offset u \<and> Epoch eo = Epoch u"
    using u 1 held_back_le(1) [of "Offset u" "infl k"] by (metis order_trans)
  show "Offset eo \<le> v" if "infl k = Some v" for v
    using u(3) 1 held_back_le(2) [OF that, of "Offset u"] by simp
  show "Offset eo \<le> v" if "buf k = Some v" for v
    using u(3) held_back_le(2) [OF that] by simp
  show "\<And>p. prv k = Some p \<Longrightarrow> p < Offset eo" by (rule u(4))
qed

end
