(* ===== verification/Norm_Worker.thy ===== *)
theory Norm_Worker
  imports Orderers Source_Tracker
begin

text \<open>
  The normalizer's worker (\<open>normalizer/worker/worker.go\<close>) and its publishing
  (\<open>kafka/normalized_producer.go\<close>). A handler takes the worker's state and returns the new state, the
  records it hands to the producer in order, the goroutines and requests it starts, and whether it
  returned an error; \<^const>\<open>Panic\<close> is a run-time panic. The loop \<open>RunAtLeastOnce\<close> is a step relation:
  polls, channel events, acknowledgements of the producer and commits, in any order the select statement
  and the client allow.
\<close>

section \<open>Publishing\<close>

text \<open>A call of the producer: a normalized message, or a synthetic snapshot that has no source record.\<close>

datatype publication =
    Pub (topic_of: string) (key_of: string) (msg_of: PipelineMessage) (value_of: bytes)
  | SnapPub (topic_of: string) (key_of: string) (value_of: bytes)

definition ProduceAsync :: "string \<Rightarrow> string \<Rightarrow> PipelineMessage \<Rightarrow> bytes \<Rightarrow> kgo_record" where
  "ProduceAsync topic key msg value =
     \<lparr>RTopic = topic, RPartition = 0, ROffset = 0, RKey = key, RValue = value,
      RHeaders = (case Record msg of
          None \<Rightarrow> []
        | Some r \<Rightarrow>
            \<lparr>HKey = HeaderKey, HValue = Encode (RTopic r) (RPartition r) (ROffset r)\<rparr> #
            (case Find (RHeaders r) of None \<Rightarrow> [] | Some ingestMs \<Rightarrow> [Header ingestMs])),
      RTimestamp = 0\<rparr>"

definition ProduceSnapshotAsync :: "string \<Rightarrow> string \<Rightarrow> bytes \<Rightarrow> kgo_record" where
  "ProduceSnapshotAsync topic key value =
     \<lparr>RTopic = topic, RPartition = 0, ROffset = 0, RKey = key, RValue = value, RHeaders = [], RTimestamp = 0\<rparr>"

fun record_of :: "publication \<Rightarrow> kgo_record" where
  "record_of (Pub topic key msg value) = ProduceAsync topic key msg value"
| "record_of (SnapPub topic key value) = ProduceSnapshotAsync topic key value"

section \<open>Handlers\<close>

record NWorker =
  WorkerMap :: "(string \<times> SymbolState) list"
  txnFailed :: bool

definition NewNWorker :: NWorker where
  "NewNWorker = \<lparr>WorkerMap = [], txnFailed = False\<rparr>"

text \<open>The loop of \<open>ProcessBuffer\<close>: a message that fails to normalize is skipped without an \<open>Ack\<close>.\<close>

fun process_msgs :: "codec \<Rightarrow> string \<Rightarrow> SymbolState \<Rightarrow> PipelineMessage list \<Rightarrow> (SymbolState \<times> publication list) outcome" where
  "process_msgs cd key st [] = Done (st, [])"
| "process_msgs cd key st (m # ms) =
     (case Normalize (Normalizer st) cd m of
        Fail \<Rightarrow> process_msgs cd key st ms
      | Panic \<Rightarrow> Panic
      | Done value \<Rightarrow>
          bind_out (Ack (Orderer st) st m) (\<lambda>st'.
          bind_out (process_msgs cd key st' ms) (\<lambda>(st'', pubs).
            Done (st'', Pub (PublishTopic (Publisher st)) key m value # pubs))))"

definition ProcessBuffer :: "codec \<Rightarrow> string \<Rightarrow> SymbolState \<Rightarrow> PipelineMessage list \<Rightarrow> (SymbolState \<times> publication list) outcome" where
  "ProcessBuffer cd key st msgs =
     bind_out (process_msgs cd key st msgs) (\<lambda>(st', pubs).
     bind_out (Cleanup (Orderer st') st') (\<lambda>st''. Done (st'', pubs)))"

definition put_state :: "NWorker \<Rightarrow> string \<Rightarrow> SymbolState \<Rightarrow> NWorker" where
  "put_state w key st = w\<lparr>WorkerMap := AList.update key st (WorkerMap w)\<rparr>"

definition fresh_state :: "string \<Rightarrow> string \<Rightarrow> string \<Rightarrow> string \<Rightarrow> stream \<Rightarrow> stream \<Rightarrow> stream \<Rightarrow> publisher \<Rightarrow> SymbolState" where
  "fresh_state key ex ch sy conv ord nrm pub =
     \<lparr>Orderer = ord, ordererBound = False, Converter = conv, Normalizer = nrm, Publisher = pub,
      BufferSeqMap = [], BufferSeqId = [], BufferTimeMap = [], BufferTime = [], Gap = False, GapActive = False,
      BufferKey = key, st_Exchange = ex, st_Channel = ch, st_Symbol = sy,
      NeedsSnapshot = False, SnapshotPending = False, AwaitingSnapshot = False, LastSeqId = 0, LastSeenTs = 0\<rparr>"

definition buffer_key :: "string \<Rightarrow> string \<Rightarrow> string \<Rightarrow> string" where
  "buffer_key ex ch k =
     appendLowerASCII (appendLowerASCII (appendLowerASCII [] ex @ '':'') ch @ '':'') k"

type_synonym handled = "NWorker \<times> publication list \<times> effect list \<times> bool"

text \<open>From the conversion on; \<open>fresh\<close> is \<open>!exists\<close>.\<close>

definition process_with :: "codec \<Rightarrow> NWorker \<Rightarrow> SymbolState \<Rightarrow> bool \<Rightarrow> kgo_record \<Rightarrow> handled outcome" where
  "process_with cd w st fresh rec =
     (case Convert (Converter st) cd (RValue rec) of
        Fail \<Rightarrow> Done (w, [], [], True)
      | Panic \<Rightarrow> Panic
      | Done msg0 \<Rightarrow>
          let st = (if fresh then InitOrderer (Orderer st) st msg0 else st);
              msg = msg0\<lparr>Record := Some rec\<rparr>
          in bind_out (Order (Orderer st) st msg (BufferKey st)) (\<lambda>(st', out, effs).
               if out = [] then Done (put_state w (BufferKey st) st', [], effs, False)
               else bind_out (ProcessBuffer cd (BufferKey st) st' out) (\<lambda>(st'', pubs).
                 Done (put_state w (BufferKey st) st'', pubs, effs, False))))"

definition ProcessRecord :: "codec \<Rightarrow> NWorker \<Rightarrow> kgo_record \<Rightarrow> handled outcome" where
  "ProcessRecord cd w rec =
     (case json_Header cd (RValue rec) of
        None \<Rightarrow> Done (w, [], [], True)
      | Some (ex, ch) \<Rightarrow>
          let key = buffer_key ex ch (RKey rec)
          in case map_of (WorkerMap w) key of
               Some st \<Rightarrow> process_with cd w st False rec
             | None \<Rightarrow>
                 (case (GetRegisteredConverter ex ch, GetRegisteredOrderer ex ch,
                        GetRegisteredNormalizer ex ch, GetRegisteredPublisher ch) of
                    (Some conv, Some ord, Some nrm, Some pub) \<Rightarrow>
                      let st = fresh_state key ex ch (RKey rec) conv ord nrm pub
                      in process_with cd (put_state w key st) st True rec
                  | _ \<Rightarrow> Done (w, [], [], True)))"

text \<open>The event method \<open>FlushBuffer\<close>: an unknown key dereferences nil.\<close>

definition do_FlushBuffer :: "codec \<Rightarrow> NWorker \<Rightarrow> string \<Rightarrow> handled outcome" where
  "do_FlushBuffer cd w key =
     (case map_of (WorkerMap w) key of
        None \<Rightarrow> Panic
      | Some st \<Rightarrow>
          bind_out (PrepareBufferFlush (Orderer st) st) (\<lambda>(st', buf).
          bind_out (ProcessBuffer cd key st' buf) (\<lambda>(st'', pubs).
            Done (put_state w key st'', pubs, [], False))))"

definition buildBinanceSnapshotProto ::
    "codec \<Rightarrow> int \<Rightarrow> string \<Rightarrow> string \<Rightarrow> string \<Rightarrow> BinanceDepthSnapshot \<Rightarrow> bytes outcome" where
  "buildBinanceSnapshotProto cd now ex ch sy sn =
     bind_out (levels cd (sn_Bids sn)) (\<lambda>bids. bind_out (levels cd (sn_Asks sn)) (\<lambda>asks.
       of_opt (marshal_Book cd
         \<lparr>nb_Exchange = ex, nb_Channel = ch, nb_Symbol = sy, nb_Bids = bids, nb_Asks = asks,
          nb_EventType = Snapshot, nb_EventTimeMillis = now\<rparr>)))"

text \<open>The buffered updates a snapshot does not cover yet.\<close>

definition survives :: "BinanceDepthSnapshot \<Rightarrow> PipelineMessage \<Rightarrow> bool" where
  "survives sn m = (case Raw m of RawDepth d \<Rightarrow> \<not> du_FinalUpdateID d \<le> LastUpdateID sn | _ \<Rightarrow> False)"

definition stale :: "BinanceDepthSnapshot \<Rightarrow> PipelineMessage list \<Rightarrow> bool" where
  "stale sn ms =
     (case ms of
        [] \<Rightarrow> False
      | m # _ \<Rightarrow> (case Raw m of RawDepth d \<Rightarrow> du_FirstUpdateID d > LastUpdateID sn + 1 | _ \<Rightarrow> False))"

definition ProcessSnapshotReady :: "codec \<Rightarrow> int \<Rightarrow> NWorker \<Rightarrow> DispatchRecord \<Rightarrow> handled outcome" where
  "ProcessSnapshotReady cd now w dr =
     (case map_of (WorkerMap w) (dr_BufferKey dr) of
        None \<Rightarrow> Done (w, [], [], False)
      | Some st0 \<Rightarrow>
          let key = dr_BufferKey dr; st = st0\<lparr>SnapshotPending := False\<rparr>
          in case SnapshotResult dr of
               None \<Rightarrow> Done (put_state w key st, [], [], False)
             | Some sn \<Rightarrow>
                 bind_out (PrepareBufferFlush (Orderer st) st) (\<lambda>(st1, buf).
                   let survivors = filter (survives sn) buf
                   in if stale sn survivors then
                        Done (put_state w key (st1\<lparr>SnapshotPending := True\<rparr>), [],
                              [FetchSnapshot (dr_Exchange dr) (dr_Channel dr) (dr_Symbol dr) key], False)
                      else
                        (case buildBinanceSnapshotProto cd now (dr_Exchange dr) (dr_Channel dr) (dr_Symbol dr) sn of
                           Panic \<Rightarrow> Panic
                         | r \<Rightarrow>
                             let snap = (case r of Done b \<Rightarrow> [SnapPub (PublishTopic (Publisher st1)) key b] | _ \<Rightarrow> []);
                                 st2 = st1\<lparr>NeedsSnapshot := False, LastSeqId := LastUpdateID sn\<rparr>
                             in bind_out (if survivors \<noteq> [] then ProcessBuffer cd key st2 survivors else Done (st2, [])) (\<lambda>(st3, pubs).
                                bind_out (Cleanup (Orderer st3) st3) (\<lambda>st4.
                                  Done (put_state w key st4, snap @ pubs, [], False))))))"

section \<open>Commits\<close>

definition source_of :: "PipelineMessage \<Rightarrow> (tp \<times> int) option" where
  "source_of m = map_option (\<lambda>r. ((RTopic r, RPartition r), ROffset r)) (Record m)"

definition all_buffered :: "NWorker \<Rightarrow> PipelineMessage list" where
  "all_buffered w = concat (map (buffered \<circ> snd) (WorkerMap w))"

definition bufferedSources :: "NWorker \<Rightarrow> tp \<rightharpoonup> int" where
  "bufferedSources w = fold (\<lambda>(k, v) m. min_upd m k v) (List.map_filter source_of (all_buffered w)) Map.empty"

text \<open>\<open>unc\<close> is what the client reports as uncommitted; the result is the new \<open>last\<close> map and the commit request.\<close>

definition commitFrontier ::
    "NWorker \<Rightarrow> SourceTracker \<Rightarrow> (tp \<times> EpochOffset) list \<Rightarrow> (tp \<rightharpoonup> int) \<Rightarrow> (tp \<rightharpoonup> int) \<times> (tp \<times> EpochOffset) list" where
  "commitFrontier w t unc prv =
     (let f = Frontier unc (map_of (MinInflight t)) (bufferedSources w) prv
      in (fold (\<lambda>(k, eo) m. m(k \<mapsto> Offset eo)) f prv, f))"

datatype txn_end = TryCommit | TryAbort

definition onFailure :: "NWorker \<Rightarrow> NWorker" where
  "onFailure w = w\<lparr>txnFailed := True\<rparr>"

definition TxnFailed :: "NWorker \<Rightarrow> bool" where
  "TxnFailed w = txnFailed w"

definition endTransaction :: "NWorker \<Rightarrow> NWorker \<times> txn_end" where
  "endTransaction w = (w\<lparr>txnFailed := False\<rparr>, if txnFailed w then TryAbort else TryCommit)"

section \<open>What the handlers keep\<close>

text \<open>The wiring of a symbol and its resync flags; \<open>Ack\<close> and \<open>Cleanup\<close> leave them alone.\<close>

definition same_conf :: "SymbolState \<Rightarrow> SymbolState \<Rightarrow> bool" where
  "same_conf st st' \<longleftrightarrow>
     Orderer st' = Orderer st \<and> ordererBound st' = ordererBound st \<and> Normalizer st' = Normalizer st \<and>
     Publisher st' = Publisher st \<and> BufferKey st' = BufferKey st \<and>
     (Orderer st \<noteq> BinanceDepth \<longrightarrow> NeedsSnapshot st' = NeedsSnapshot st)"

lemma same_conf_refl [simp]: "same_conf st st"
  by (simp add: same_conf_def)

lemma same_conf_trans: "same_conf st st' \<Longrightarrow> same_conf st' st'' \<Longrightarrow> same_conf st st''"
  by (simp add: same_conf_def)

lemma Ack_conf:
  assumes "Ack (Orderer st) st m = Done st'"
  shows "same_conf st st'"
    and "\<not> is_seq (Orderer st) \<Longrightarrow> BufferSeqMap st' = BufferSeqMap st"
    and "is_seq (Orderer st) \<Longrightarrow> BufferTimeMap st' = BufferTimeMap st"
    and "Orderer st = KrakenTicker \<Longrightarrow> st' = st"
  using assms
  by (auto simp: Ack_def guard_bound_def SequenceAck_def TsAck_def Let_def same_conf_def is_seq_def split: if_splits list.splits)

lemma Cleanup_conf:
  assumes "Cleanup (Orderer st) st = Done st'"
  shows "same_conf st st'" and "ordererBound st \<or> Orderer st = KrakenTicker"
    and "Orderer st = KrakenTicker \<Longrightarrow> st' = st"
    and "is_seq (Orderer st) \<Longrightarrow> BufferSeqMap st' = [] \<and> BufferSeqId st' = [] \<and> BufferTimeMap st' = BufferTimeMap st"
    and "\<not> is_seq (Orderer st) \<Longrightarrow> Orderer st \<noteq> KrakenTicker \<Longrightarrow>
      BufferTimeMap st' = [] \<and> BufferTime st' = [] \<and> BufferSeqMap st' = BufferSeqMap st"
  using assms
  by (auto simp: Cleanup_def guard_bound_def SequenceOrdererCleanup_def TsCleanup_def same_conf_def is_seq_def split: if_splits)

text \<open>What a run over messages publishes: one record for each message that normalizes, in order.\<close>

definition pubs_of :: "codec \<Rightarrow> string \<Rightarrow> SymbolState \<Rightarrow> PipelineMessage list \<Rightarrow> publication list" where
  "pubs_of cd key st ms =
     List.map_filter (\<lambda>m. case Normalize (Normalizer st) cd m of
        Done b \<Rightarrow> Some (Pub (PublishTopic (Publisher st)) key m b) | _ \<Rightarrow> None) ms"

lemma pubs_of_simps [simp]:
  "pubs_of cd key st [] = []"
  "pubs_of cd key st (m # ms) =
     (case Normalize (Normalizer st) cd m of
        Done b \<Rightarrow> Pub (PublishTopic (Publisher st)) key m b # pubs_of cd key st ms | _ \<Rightarrow> pubs_of cd key st ms)"
  by (simp_all add: pubs_of_def List.map_filter_simps split: outcome.splits)

lemma pubs_of_conf: "same_conf st st' \<Longrightarrow> pubs_of cd key st' ms = pubs_of cd key st ms"
  by (simp add: pubs_of_def same_conf_def cong: outcome.case_cong)

lemma process_msgs_Done:
  assumes "process_msgs cd key st ms = Done (st', pubs)"
  shows "same_conf st st' \<and> pubs = pubs_of cd key st ms \<and>
    (\<not> is_seq (Orderer st) \<longrightarrow> BufferSeqMap st' = BufferSeqMap st) \<and>
    (is_seq (Orderer st) \<longrightarrow> BufferTimeMap st' = BufferTimeMap st) \<and> (Orderer st = KrakenTicker \<longrightarrow> st' = st)"
  using assms
proof (induction ms arbitrary: st pubs)
  case (Cons m ms)
  show ?case
  proof (cases "Normalize (Normalizer st) cd m")
    case (Done b)
    with Cons.prems obtain st1 pubs1 where a: "Ack (Orderer st) st m = Done st1"
      and p: "process_msgs cd key st1 ms = Done (st', pubs1)" "pubs = Pub (PublishTopic (Publisher st)) key m b # pubs1"
      by (auto simp: bind_out_Done)
    note c = Ack_conf [OF a]
    from Cons.IH [OF p(1)] c pubs_of_conf [OF c(1), of cd key ms] Done p(2) show ?thesis
      by (auto simp: same_conf_def intro: same_conf_trans)
  qed (use Cons in auto)
qed simp

lemma ProcessBuffer_Done:
  assumes "ProcessBuffer cd key st ms = Done (st', pubs)"
  shows "same_conf st st'" and "pubs = pubs_of cd key st ms" and "ordererBound st \<or> Orderer st = KrakenTicker"
    and "Orderer st = KrakenTicker \<Longrightarrow> st' = st"
    and "is_seq (Orderer st) \<Longrightarrow> BufferSeqMap st' = [] \<and> BufferSeqId st' = [] \<and> BufferTimeMap st' = BufferTimeMap st"
    and "\<not> is_seq (Orderer st) \<Longrightarrow> Orderer st \<noteq> KrakenTicker \<Longrightarrow>
      BufferTimeMap st' = [] \<and> BufferTime st' = [] \<and> BufferSeqMap st' = BufferSeqMap st"
proof -
  from assms obtain st1 where p: "process_msgs cd key st ms = Done (st1, pubs)" and c: "Cleanup (Orderer st1) st1 = Done st'"
    by (auto simp: ProcessBuffer_def bind_out_Done)
  note p' = process_msgs_Done [OF p] and c' = Cleanup_conf [OF c]
  have o: "Orderer st1 = Orderer st" "ordererBound st1 = ordererBound st" using p' by (simp_all add: same_conf_def)
  show "same_conf st st'" using p' c'(1) by (blast intro: same_conf_trans)
  show "pubs = pubs_of cd key st ms" using p' by blast
  show "ordererBound st \<or> Orderer st = KrakenTicker" using c'(2) o by simp
  show "Orderer st = KrakenTicker \<Longrightarrow> st' = st" using p' c'(3) o by simp
  show "is_seq (Orderer st) \<Longrightarrow> BufferSeqMap st' = [] \<and> BufferSeqId st' = [] \<and> BufferTimeMap st' = BufferTimeMap st"
    using p' c'(4) o by simp
  show "\<not> is_seq (Orderer st) \<Longrightarrow> Orderer st \<noteq> KrakenTicker \<Longrightarrow>
      BufferTimeMap st' = [] \<and> BufferTime st' = [] \<and> BufferSeqMap st' = BufferSeqMap st"
    using p' c'(5) o by simp
qed

lemma ord_inv_emptied:
  assumes "ProcessBuffer cd key st ms = Done (st', pubs)" and "ordererBound st \<or> Orderer st = KrakenTicker"
    and "is_seq (Orderer st) \<Longrightarrow> BufferTimeMap st = []" and "\<not> is_seq (Orderer st) \<Longrightarrow> BufferSeqMap st = []"
    and "Orderer st = KrakenTicker \<Longrightarrow> BufferTimeMap st = []" and "Orderer st \<noteq> BinanceDepth \<Longrightarrow> \<not> NeedsSnapshot st"
  shows "ord_inv st' \<and> buffered st' = []"
proof -
  note b = ProcessBuffer_Done [OF assms(1)]
  have o: "Orderer st' = Orderer st" "ordererBound st' = ordererBound st"
    "Orderer st \<noteq> BinanceDepth \<Longrightarrow> \<not> NeedsSnapshot st'" using b(1) assms(6) by (simp_all add: same_conf_def)
  consider "is_seq (Orderer st)" | "Orderer st = KrakenTicker" | "\<not> is_seq (Orderer st)" "Orderer st \<noteq> KrakenTicker" by blast
  then show ?thesis
  proof cases
    case 1
    then have "Orderer st \<noteq> KrakenTicker" by (auto simp: is_seq_def)
    with 1 b(5) o assms(2,3) show ?thesis by (auto simp: ord_inv_def buffered_def intro: seq_inv_empty)
  next
    case 2
    then have "\<not> is_seq (Orderer st)" by (simp add: is_seq_def)
    with 2 b(4) assms(4-6) show ?thesis by (simp add: ord_inv_def buffered_def)
  next
    case 3
    with b(6) o assms(2,4) show ?thesis by (auto simp: ord_inv_def buffered_def ts_inv_def)
  qed
qed

lemma msgs_pubs_of: "mset (map msg_of (pubs_of cd key st ms)) \<subseteq># mset ms"
proof (induction ms)
  case (Cons m ms)
  then show ?case
    by (auto split: outcome.splits intro: subset_mset.order_trans)
qed simp

section \<open>Conservation of messages\<close>

lemma park_conserves:
  "distinct (map fst al) \<Longrightarrow> mset (map snd (AList.update k m al)) \<subseteq># add_mset m (mset (map snd al))"
  by (simp add: mset_alist_update image_mset_subseteq_mono)

lemma mset_concat_update:
  assumes "distinct (map fst al)"
  shows "mset (concat (map (\<lambda>e. g (snd e)) (AList.update k v al))) + mset (case map_of al k of None \<Rightarrow> [] | Some x \<Rightarrow> g x) =
    mset (g v) + mset (concat (map (\<lambda>e. g (snd e)) al))"
  using assms by (induction al) (auto simp: map_of_eq_None_iff split: option.splits dest!: map_of_SomeD)

lemma Order_keeps:
  assumes i: "ord_inv st" and o: "Order (Orderer st) st msg key = Done (st', out, effs)"
  shows "ord_inv st' \<and> same_conf st st' \<and> mset out + mset (buffered st') \<subseteq># add_mset msg (mset (buffered st)) \<and>
    (out = [] \<or> out = [msg])"
proof -
  have seq: ?thesis if s: "is_seq (Orderer st)" "\<not> NeedsSnapshot st0" "seq_inv st0" "BufferTimeMap st0 = []"
      "SequenceOrderer msg st0 key = (st', out, effs)" "same_conf st st0" "ordererBound st" "BufferSeqMap st0 = BufferSeqMap st"
      "BufferTimeMap st = []" "Orderer st \<noteq> BinanceDepth \<longrightarrow> \<not> NeedsSnapshot st" for st0
  proof -
    note q = SequenceOrderer_inv [OF s(3,2,5)]
    have c: "same_conf st st'" using s(5,6) by (auto simp: SequenceOrderer_def Let_def park_seq_def same_conf_def split: if_splits)
    have "distinct (map fst (BufferSeqMap st))" using s(3,8) by (simp add: seq_inv_def)
    then have "mset out + mset (buffered st') \<subseteq># add_mset msg (mset (buffered st))"
      using q(3,7) s(4,8,9) park_conserves [of "BufferSeqMap st" "SeqId msg" msg] by (auto simp: buffered_def)
    moreover have "ord_inv st'" using q(1,3) s(1,4,7,10) c by (simp add: ord_inv_def same_conf_def)
    ultimately show ?thesis using c q(7) by blast
  qed
  have book: ?thesis if b: "\<not> is_seq (Orderer st)" "Orderer st \<noteq> KrakenTicker" "BookOrderWithResync msg st key = (st', out, effs)"
  proof -
    from i b have t: "ts_inv st" "BufferSeqMap st = []" "ordererBound st" by (simp_all add: ord_inv_def)
    have "ts_inv (st\<lparr>AwaitingSnapshot := x\<rparr>)" for x by (rule ts_inv_cong [OF t(1)]) simp_all
    then have keep: "ord_inv st' \<and> same_conf st st' \<and> buffered st' = buffered st"
      if "st' = st\<lparr>AwaitingSnapshot := x\<rparr> \<or> st' = st" for x
      using that i b(1,2) t by (auto simp: ord_inv_def same_conf_def buffered_def)
    show ?thesis
    proof (cases "EventType msg = Snapshot \<or> AwaitingSnapshot st \<or> hasDropMarker (Record msg)")
      case True
      with b(3) have "(st' = st\<lparr>AwaitingSnapshot := False\<rparr> \<and> out = [msg]) \<or> ((st' = st\<lparr>AwaitingSnapshot := True\<rparr> \<or> st' = st) \<and> out = [])"
        by (auto simp: BookOrderWithResync_def Let_def split: if_splits)
      with keep show ?thesis by fastforce
    next
      case False
      with b(3) have ts: "TsOrder msg st key = (st', out, effs)" by (auto simp: BookOrderWithResync_def Let_def split: if_splits)
      note q = TsOrder_inv [OF t(1) ts]
      have c: "same_conf st st'" using ts by (auto simp: TsOrder_def same_conf_def)
      have "distinct (map fst (BufferTimeMap st))" using t(1) by (simp add: ts_inv_def)
      from mset_concat_update [OF this, of "\<lambda>x. x" "Ts msg" "time_msgs st (Ts msg) @ [msg]"]
      have "mset (buffered st') = add_mset msg (mset (buffered st))"
        using t(2) q(5,7) by (simp add: buffered_def time_msgs_def)
      moreover have "ord_inv st'" using q(1,3-6) t(2,3) b(1,2) i by (simp add: ord_inv_def)
      ultimately show ?thesis using c q(2) by simp
    qed
  qed
  have depth: ?thesis if b: "Orderer st = BinanceDepth" "BinanceDepthOrder msg st key = (st', out, effs)"
  proof -
    from i b have t: "seq_inv st" "BufferTimeMap st = []" "ordererBound st" "is_seq (Orderer st)" by (simp_all add: ord_inv_def is_seq_def)
    show ?thesis
    proof (cases "NeedsSnapshot st \<or> hasDropMarker (Record msg)")
      case True
      define s where "s = (if hasDropMarker (Record msg) \<and> \<not> NeedsSnapshot st then st\<lparr>NeedsSnapshot := True\<rparr> else st)"
      have s: "NeedsSnapshot s" "same_conf st s" "BufferSeqMap s = BufferSeqMap st" "BufferTimeMap s = BufferTimeMap st"
        using True b(1) by (auto simp: s_def same_conf_def)
      have "seq_inv s" using t(1) by (auto simp: s_def intro: seq_inv_cong)
      with s(1) have pk: "seq_inv (park_seq s msg)" by (auto intro: seq_inv_park)
      have st': "st' = park_seq s msg \<or> st' = park_seq s msg\<lparr>SnapshotPending := True\<rparr>" and out: "out = []"
        using s(1) b(2) unfolding BinanceDepthOrder_def s_def [symmetric] Let_def by (auto split: if_splits)
      from st' have "seq_inv st'" using pk by (auto intro: seq_inv_cong)
      moreover have "same_conf st st'" "BufferTimeMap st' = []" "BufferSeqMap st' = AList.update (SeqId msg) msg (BufferSeqMap st)"
        using st' s t(2) by (auto simp: park_seq_def same_conf_def)
      moreover have "distinct (map fst (BufferSeqMap st))" using t(1) by (simp add: seq_inv_def)
      ultimately show ?thesis using t out park_conserves [of "BufferSeqMap st" "SeqId msg" msg]
        b(1) by (auto simp: ord_inv_def same_conf_def buffered_def)
    next
      case False
      with b(2) have "SequenceOrderer msg st key = (st', out, effs)" by (simp add: BinanceDepthOrder_def)
      with seq [of st] t False show ?thesis by simp
    qed
  qed
  show ?thesis
  proof (cases "Orderer st")
    case BinanceDepth
    with o depth show ?thesis by (simp add: guard_bound_def split: if_splits)
  next
    case KrakenTicker
    with o i show ?thesis by auto
  next
    case CoinbaseLevel2
    with o book show ?thesis by (simp add: guard_bound_def is_seq_def split: if_splits)
  next
    case KrakenBook
    with o book show ?thesis by (simp add: guard_bound_def is_seq_def split: if_splits)
  next
    case BinanceAggTrade
    with o i have "SequenceOrderer msg st key = (st', out, effs)" "seq_inv st" "BufferTimeMap st = []" "ordererBound st" "\<not> NeedsSnapshot st"
      by (simp_all add: guard_bound_def ord_inv_def is_seq_def split: if_splits)
    with seq [of st] BinanceAggTrade show ?thesis by (simp add: is_seq_def)
  next
    case CoinbaseTicker
    with o i have "SequenceOrderer msg st key = (st', out, effs)" "seq_inv st" "BufferTimeMap st = []" "ordererBound st" "\<not> NeedsSnapshot st"
      by (simp_all add: guard_bound_def ord_inv_def is_seq_def split: if_splits)
    with seq [of st] CoinbaseTicker show ?thesis by (simp add: is_seq_def)
  qed
qed

text \<open>A symbol between two events: bound and consistent, or still unbound with nothing buffered.\<close>

definition st_inv :: "string \<Rightarrow> SymbolState \<Rightarrow> bool" where
  "st_inv key st \<longleftrightarrow>
     BufferKey st = key \<and>
     (if ordererBound st \<or> Orderer st = KrakenTicker then ord_inv st
      else BufferSeqMap st = [] \<and> BufferTimeMap st = [] \<and> BufferSeqId st = [] \<and> BufferTime st = [] \<and> \<not> NeedsSnapshot st)"

definition nw_inv :: "NWorker \<Rightarrow> bool" where
  "nw_inv w \<longleftrightarrow> distinct (map fst (WorkerMap w)) \<and> (\<forall>(k, st) \<in> set (WorkerMap w). st_inv k st)"

lemma nw_invD: "nw_inv w \<Longrightarrow> map_of (WorkerMap w) k = Some st \<Longrightarrow> st_inv k st"
  by (auto simp: nw_inv_def dest: map_of_SomeD)

lemma nw_inv_put: "nw_inv w \<Longrightarrow> st_inv k st \<Longrightarrow> nw_inv (put_state w k st)"
  by (auto simp: nw_inv_def put_state_def AList.distinct_update set_alist_update)

lemma all_buffered_put:
  assumes "nw_inv w"
  shows "mset (all_buffered (put_state w k st)) + mset (case map_of (WorkerMap w) k of None \<Rightarrow> [] | Some x \<Rightarrow> buffered x) =
    mset (buffered st) + mset (all_buffered w)"
  using mset_concat_update [of "WorkerMap w" buffered k st] assms
  by (simp add: nw_inv_def all_buffered_def put_state_def comp_def)

lemma all_buffered_put_le:
  assumes "nw_inv w" "map_of (WorkerMap w) k = Some st" "A + mset (buffered st') \<subseteq># B + mset (buffered st)"
  shows "A + mset (all_buffered (put_state w k st')) \<subseteq># B + mset (all_buffered w)"
proof -
  have "A + mset (all_buffered (put_state w k st')) + mset (buffered st) = A + mset (buffered st') + mset (all_buffered w)"
    using all_buffered_put [OF assms(1), of k st'] assms(2) by (simp add: ac_simps)
  also have "\<dots> \<subseteq># B + mset (buffered st) + mset (all_buffered w)" using assms(3) by (rule subset_mset.add_right_mono)
  finally have "A + mset (all_buffered (put_state w k st')) + mset (buffered st) \<subseteq># B + mset (all_buffered w) + mset (buffered st)"
    by (simp add: ac_simps)
  then show ?thesis by simp
qed

definition pub_msgs :: "publication list \<Rightarrow> PipelineMessage list" where
  "pub_msgs ps = List.map_filter (\<lambda>p. case p of Pub _ _ m _ \<Rightarrow> Some m | SnapPub _ _ _ \<Rightarrow> None) ps"

lemma pub_msgs_simps [simp]:
  "pub_msgs [] = []" "pub_msgs (Pub t k m b # ps) = m # pub_msgs ps" "pub_msgs (SnapPub t k b # ps) = pub_msgs ps"
  "pub_msgs (ps @ qs) = pub_msgs ps @ pub_msgs qs"
  by (simp_all add: pub_msgs_def List.map_filter_def)

lemma pub_msgs_of: "mset (pub_msgs (pubs_of cd key st ms)) \<subseteq># mset ms"
proof (induction ms)
  case (Cons m ms)
  then show ?case by (auto split: outcome.splits intro: subset_mset.order_trans)
qed simp

lemma InitOrderer_inv:
  assumes "BufferSeqMap st = []" "BufferTimeMap st = []" "BufferSeqId st = []" "BufferTime st = []" "\<not> NeedsSnapshot st"
  shows "ord_inv (InitOrderer (Orderer st) st msg)" "buffered (InitOrderer (Orderer st) st msg) = []"
    "Orderer (InitOrderer (Orderer st) st msg) = Orderer st" "BufferKey (InitOrderer (Orderer st) st msg) = BufferKey st"
  using assms by (cases "Orderer st"; simp add: ord_inv_def is_seq_def seq_inv_def ts_inv_def buffered_def
      InitSequenceOrdererState_def InitBinanceDepthResyncState_def InitTsOrdererState_def)+

lemma ProcessBuffer_keeps:
  assumes "ord_inv st" "ProcessBuffer cd key st ms = Done (st', pubs)"
  shows "ord_inv st' \<and> buffered st' = [] \<and> same_conf st st' \<and> mset (pub_msgs pubs) \<subseteq># mset ms"
  using ord_inv_emptied [OF assms(2)] ProcessBuffer_Done(1,2) [OF assms(2)] assms(1) pub_msgs_of [of cd key st ms]
  by (auto simp: ord_inv_def split: if_splits)

lemma ord_inv_st_inv: "ord_inv st \<Longrightarrow> BufferKey st = key \<Longrightarrow> st_inv key st"
  by (auto simp: st_inv_def ord_inv_def)

lemma process_with_keeps:
  assumes w: "nw_inv w" "map_of (WorkerMap w) key = Some st" "st_inv key st"
    and f: "fresh \<Longrightarrow> BufferSeqMap st = [] \<and> BufferTimeMap st = [] \<and> BufferSeqId st = [] \<and> BufferTime st = [] \<and> \<not> NeedsSnapshot st"
    and p: "process_with cd w st fresh rec = Done (w', pubs, effs, err)"
  shows "nw_inv w' \<and> (\<exists>msg. Record msg = Some rec \<and> mset (pub_msgs pubs) + mset (all_buffered w') \<subseteq># {#msg#} + mset (all_buffered w))"
proof (cases "Convert (Converter st) cd (RValue rec)")
  case (Done msg0)
  define st1 where "st1 = (if fresh then InitOrderer (Orderer st) st msg0 else st)"
  define msg where "msg = msg0\<lparr>Record := Some rec\<rparr>"
  from p Done obtain st2 out where o: "Order (Orderer st1) st1 msg (BufferKey st1) = Done (st2, out, effs)"
    and r: "if out = [] then w' = put_state w (BufferKey st1) st2 \<and> pubs = []
            else \<exists>st3. ProcessBuffer cd (BufferKey st1) st2 out = Done (st3, pubs) \<and> w' = put_state w (BufferKey st1) st3"
    unfolding process_with_def st1_def [symmetric] msg_def [symmetric]
    by (auto simp: Let_def bind_out_Done st1_def [symmetric] msg_def [symmetric] split: if_splits)
  have key: "BufferKey st1 = key" using w(3) f InitOrderer_inv(4) by (auto simp: st1_def st_inv_def)
  have i1: "ord_inv st1 \<and> mset (buffered st1) = mset (buffered st)"
  proof (cases fresh)
    case True
    with f InitOrderer_inv(1,2) [of st msg0] show ?thesis by (simp add: st1_def buffered_def)
  next
    case False
    with o have "ordererBound st \<or> Orderer st = KrakenTicker"
      by (cases "Orderer st") (auto simp: st1_def guard_bound_def split: if_splits)
    with False w(3) show ?thesis by (simp add: st1_def st_inv_def)
  qed
  note k = Order_keeps [OF i1 [THEN conjunct1] o]
  have k2: "BufferKey st2 = key" using k key by (simp add: same_conf_def)
  have le: "mset out + mset (buffered st2) \<subseteq># {#msg#} + mset (buffered st)" using k i1 by simp
  have rec: "Record msg = Some rec" by (simp add: msg_def)
  show ?thesis
  proof (cases "out = []")
    case True
    with r key have w': "w' = put_state w key st2" "pubs = []" by simp_all
    from le True have "{#} + mset (buffered st2) \<subseteq># {#msg#} + mset (buffered st)" by simp
    from all_buffered_put_le [OF w(1,2) this] w' rec nw_inv_put [OF w(1) ord_inv_st_inv [OF _ k2]] k
    show ?thesis by auto
  next
    case False
    with r key obtain st3 where b: "ProcessBuffer cd key st2 out = Done (st3, pubs)" and w': "w' = put_state w key st3" by auto
    note q = ProcessBuffer_keeps [OF _ b] 
    from q k have q: "ord_inv st3" "buffered st3 = []" "same_conf st2 st3" "mset (pub_msgs pubs) \<subseteq># mset out" by auto
    have "mset (pub_msgs pubs) + mset (buffered st3) \<subseteq># mset out + mset (buffered st2)"
      using q(2,4) by (simp add: subset_mset.add_increasing2)
    with le have "mset (pub_msgs pubs) + mset (buffered st3) \<subseteq># {#msg#} + mset (buffered st)" by (rule subset_mset.order_trans [rotated])
    from all_buffered_put_le [OF w(1,2) this] w' rec nw_inv_put [OF w(1) ord_inv_st_inv [OF q(1)]] q(3) k2
    show ?thesis by (auto simp: same_conf_def)
  qed
qed (use p w(1) in \<open>auto simp: process_with_def intro!: exI [of _ "undefined\<lparr>Record := Some rec\<rparr>"]\<close>)

lemma ProcessRecord_keeps:
  assumes w: "nw_inv w" and p: "ProcessRecord cd w rec = Done (w', pubs, effs, err)"
  shows "nw_inv w' \<and> (\<exists>msg. Record msg = Some rec \<and> mset (pub_msgs pubs) + mset (all_buffered w') \<subseteq># {#msg#} + mset (all_buffered w))"
proof -
  have same: ?thesis if "w' = w" "pubs = []"
    using that w by (auto intro!: exI [of _ "undefined\<lparr>Record := Some rec\<rparr>"])
  show ?thesis
  proof (cases "json_Header cd (RValue rec)")
    case None
    with p same show ?thesis by (simp add: ProcessRecord_def)
  next
    case (Some h)
    obtain ex ch where h: "h = (ex, ch)" by (cases h)
    let ?key = "buffer_key ex ch (RKey rec)"
    show ?thesis
    proof (cases "map_of (WorkerMap w) ?key")
      case None: None
      show ?thesis
      proof (cases "\<exists>c o' n q. GetRegisteredConverter ex ch = Some c \<and> GetRegisteredOrderer ex ch = Some o' \<and>
          GetRegisteredNormalizer ex ch = Some n \<and> GetRegisteredPublisher ch = Some q")
        case True
        then obtain c o' n q where g: "GetRegisteredConverter ex ch = Some c" "GetRegisteredOrderer ex ch = Some o'"
          "GetRegisteredNormalizer ex ch = Some n" "GetRegisteredPublisher ch = Some q" by blast
        let ?st = "fresh_state ?key ex ch (RKey rec) c o' n q"
        have i: "st_inv ?key ?st" by (simp add: st_inv_def fresh_state_def ord_inv_def is_seq_def)
        have "mset (all_buffered (put_state w ?key ?st)) = mset (all_buffered w)"
          using all_buffered_put [OF w, of ?key ?st] None by (simp add: fresh_state_def buffered_def)
        moreover have "process_with cd (put_state w ?key ?st) ?st True rec = Done (w', pubs, effs, err)"
          using p Some h None g by (simp add: ProcessRecord_def Let_def)
        from process_with_keeps [OF nw_inv_put [OF w i] _ i _ this]
        have "nw_inv w' \<and> (\<exists>msg. Record msg = Some rec \<and>
          mset (pub_msgs pubs) + mset (all_buffered w') \<subseteq># {#msg#} + mset (all_buffered (put_state w ?key ?st)))"
          by (simp add: put_state_def AList.update_conv' fresh_state_def)
        ultimately show ?thesis by simp
      next
        case False
        with p Some h None have "w' = w \<and> pubs = []"
          by (auto simp: ProcessRecord_def Let_def split: option.splits)
        with same show ?thesis by simp
      qed
    next
      case (Some st)
      with p \<open>json_Header cd (RValue rec) = Some h\<close> h have "process_with cd w st False rec = Done (w', pubs, effs, err)"
        by (simp add: ProcessRecord_def Let_def)
      from process_with_keeps [OF w Some nw_invD [OF w Some] _ this] show ?thesis by simp
    qed
  qed
qed

lemma PrepareBufferFlush_keeps:
  assumes "ord_inv st" "PrepareBufferFlush (Orderer st) st = Done (st', buf)"
  shows "ord_inv st' \<and> same_conf st st' \<and> mset (buffered st') = mset (buffered st) \<and> mset buf = mset (buffered st)"
proof -
  consider "is_seq (Orderer st)" | "Orderer st = KrakenTicker" | "\<not> is_seq (Orderer st)" "Orderer st \<noteq> KrakenTicker" by blast
  then show ?thesis
  proof cases
    case 1
    then have "Orderer st \<noteq> KrakenTicker" by (auto simp: is_seq_def)
    with 1 assms(2) have e: "st' = fst (SequenceSortBufferFlush st)" "buf = snd (SequenceSortBufferFlush st)"
      by (auto simp: PrepareBufferFlush_def guard_bound_def split: if_splits)
    have q: "seq_inv st" "BufferTimeMap st = []" using assms(1) 1 by (simp_all add: ord_inv_def)
    have "seq_inv st'" using q(1) by (simp add: e seq_inv_def SequenceSortBufferFlush_def Let_def)
    then show ?thesis using 1 assms(1) q SequenceSortBufferFlush_msgs(1) [OF q(1)]
      by (simp add: e ord_inv_def same_conf_def buffered_def SequenceSortBufferFlush_def Let_def)
  next
    case 2
    then have "\<not> is_seq (Orderer st)" by (simp add: is_seq_def)
    with 2 assms show ?thesis by (auto simp: PrepareBufferFlush_def guard_bound_def ord_inv_def buffered_def)
  next
    case 3
    with assms(2) have e: "st' = fst (PrepareTsBufferFlush st)" "buf = snd (PrepareTsBufferFlush st)"
      by (auto simp: PrepareBufferFlush_def guard_bound_def split: if_splits)
    have q: "ts_inv st" "BufferSeqMap st = []" using assms(1) 3 by (simp_all add: ord_inv_def)
    have "ts_inv st'" using q(1) by (simp add: e ts_inv_def PrepareTsBufferFlush_def Let_def)
    then show ?thesis using 3 assms(1) q PrepareTsBufferFlush_msgs(1) [OF q(1)]
      by (simp add: e ord_inv_def same_conf_def buffered_def PrepareTsBufferFlush_def Let_def)
  qed
qed

lemma flush_bound: "PrepareBufferFlush s st = Done r \<Longrightarrow> ordererBound st \<or> s = KrakenTicker"
  by (auto simp: PrepareBufferFlush_def guard_bound_def split: if_splits)

lemma do_FlushBuffer_keeps:
  assumes w: "nw_inv w" and p: "do_FlushBuffer cd w key = Done (w', pubs, effs, err)"
  shows "nw_inv w' \<and> mset (pub_msgs pubs) + mset (all_buffered w') \<subseteq># mset (all_buffered w)"
proof -
  from p obtain st st1 buf st2 where s: "map_of (WorkerMap w) key = Some st"
    and f: "PrepareBufferFlush (Orderer st) st = Done (st1, buf)"
    and b: "ProcessBuffer cd key st1 buf = Done (st2, pubs)" and w': "w' = put_state w key st2"
    by (auto simp: do_FlushBuffer_def bind_out_Done split: option.splits)
  have i: "ord_inv st" "BufferKey st = key" using nw_invD [OF w s] flush_bound [OF f] by (simp_all add: st_inv_def)
  note k = PrepareBufferFlush_keeps [OF i(1) f] and q = ProcessBuffer_keeps [OF _ b]
  have "mset (pub_msgs pubs) + mset (buffered st2) \<subseteq># {#} + mset (buffered st)" using k q by simp
  from all_buffered_put_le [OF w s this] w' nw_inv_put [OF w ord_inv_st_inv [of st2 key]] k q i(2)
  show ?thesis by (simp add: same_conf_def)
qed

lemma Cleanup_keeps:
  assumes "ord_inv st" "Cleanup (Orderer st) st = Done st'"
  shows "ord_inv st' \<and> buffered st' = [] \<and> same_conf st st'"
proof -
  have "ProcessBuffer cd key st [] = Done (st', [])" for cd key using assms(2) by (simp add: ProcessBuffer_def)
  then show ?thesis using ProcessBuffer_keeps [OF assms(1)] by blast
qed

lemma ord_inv_flags:
  assumes "ord_inv st" "Orderer st = BinanceDepth \<or> \<not> b"
  shows "ord_inv (st\<lparr>SnapshotPending := x\<rparr>)"
    and "buffered st = [] \<Longrightarrow> ord_inv (st\<lparr>NeedsSnapshot := b, LastSeqId := n\<rparr>)"
proof -
  show "ord_inv (st\<lparr>SnapshotPending := x\<rparr>)"
    using assms(1) by (auto simp: ord_inv_def intro: seq_inv_cong ts_inv_cong split: if_splits)
  show "ord_inv (st\<lparr>NeedsSnapshot := b, LastSeqId := n\<rparr>)" if e: "buffered st = []"
  proof -
    from e have "BufferSeqMap st = []" by (simp add: buffered_def)
    moreover have "seq_inv st \<Longrightarrow> BufferSeqMap st = [] \<Longrightarrow> BufferSeqId st = []" by (simp add: seq_inv_def)
    ultimately show ?thesis using assms
      by (auto simp: ord_inv_def intro: seq_inv_empty ts_inv_cong split: if_splits)
  qed
qed

text \<open>
  Ending a resync: the flag is cleared while the buffer still holds the survivors, and the clean-up that
  follows in the same handler empties it.
\<close>

lemma resync_end:
  assumes "ord_inv st1" "ms = [] \<or> ms \<noteq> []"
    and b: "(if ms \<noteq> [] then ProcessBuffer cd key (st1\<lparr>NeedsSnapshot := False, LastSeqId := n\<rparr>) ms
             else Done (st1\<lparr>NeedsSnapshot := False, LastSeqId := n\<rparr>, [])) = Done (st3, pubs)"
    and c: "Cleanup (Orderer st3) st3 = Done st4"
  shows "ord_inv st4 \<and> buffered st4 = [] \<and> BufferKey st4 = BufferKey st1 \<and> mset (pub_msgs pubs) \<subseteq># mset ms"
proof -
  let ?s = "st1\<lparr>NeedsSnapshot := False, LastSeqId := n\<rparr>"
  have pre: "ordererBound ?s \<or> Orderer ?s = KrakenTicker" "is_seq (Orderer ?s) \<Longrightarrow> BufferTimeMap ?s = []"
    "\<not> is_seq (Orderer ?s) \<Longrightarrow> BufferSeqMap ?s = []" "Orderer ?s = KrakenTicker \<Longrightarrow> BufferTimeMap ?s = []"
    "Orderer ?s \<noteq> BinanceDepth \<Longrightarrow> \<not> NeedsSnapshot ?s"
    using assms(1) by (auto simp: ord_inv_def is_seq_def split: if_splits)
  show ?thesis
  proof (cases "ms = []")
    case True
    with b have e: "st3 = ?s" "pubs = []" by simp_all
    then have "ProcessBuffer cd key ?s [] = Done (st4, [])" using c by (simp add: ProcessBuffer_def)
    from ord_inv_emptied [OF this pre] ProcessBuffer_Done(1) [OF this] e True show ?thesis by (simp add: same_conf_def)
  next
    case False
    with b have e: "ProcessBuffer cd key ?s ms = Done (st3, pubs)" by simp
    from ord_inv_emptied [OF e pre] have i: "ord_inv st3" by simp
    from Cleanup_keeps [OF i c] ProcessBuffer_Done(1,2) [OF e] pub_msgs_of [of cd key ?s ms] show ?thesis
      by (auto simp: same_conf_def)
  qed
qed

lemma ProcessSnapshotReady_keeps:
  assumes w: "nw_inv w" and p: "ProcessSnapshotReady cd now w dr = Done (w', pubs, effs, err)"
  shows "nw_inv w' \<and> mset (pub_msgs pubs) + mset (all_buffered w') \<subseteq># mset (all_buffered w)"
proof (cases "map_of (WorkerMap w) (dr_BufferKey dr)")
  case None
  with p w show ?thesis by (simp add: ProcessSnapshotReady_def)
next
  case s: (Some st0)
  let ?key = "dr_BufferKey dr" and ?st = "st0\<lparr>SnapshotPending := False\<rparr>"
  have i0: "st_inv ?key st0" by (rule nw_invD [OF w s])
  have i1: "st_inv ?key ?st" using i0 ord_inv_flags(1) [of st0 False False] by (auto simp: st_inv_def)
  show ?thesis
  proof (cases "SnapshotResult dr")
    case None
    with p s have "w' = put_state w ?key ?st" "pubs = []" by (simp_all add: ProcessSnapshotReady_def Let_def)
    moreover have "{#} + mset (buffered ?st) \<subseteq># {#} + mset (buffered st0)" by (simp add: buffered_def)
    from all_buffered_put_le [OF w s this] calculation nw_inv_put [OF w i1] show ?thesis by simp
  next
    case (Some sn)
    from p s Some obtain st1 buf where f: "PrepareBufferFlush (Orderer ?st) ?st = Done (st1, buf)"
      by (auto simp: ProcessSnapshotReady_def Let_def bind_out_Done)
    have i: "ord_inv ?st" "BufferKey ?st = ?key" using i1 flush_bound [OF f] by (auto simp: st_inv_def)
    note k = PrepareBufferFlush_keeps [OF i(1) f]
    have bst: "buffered ?st = buffered st0" by (simp add: buffered_def)
    let ?ms = "filter (survives sn) buf"
    show ?thesis
    proof (cases "stale sn ?ms")
      case True
      with p s Some f have "w' = put_state w ?key (st1\<lparr>SnapshotPending := True\<rparr>)" "pubs = []"
        by (simp_all add: ProcessSnapshotReady_def Let_def)
      moreover have "{#} + mset (buffered (st1\<lparr>SnapshotPending := True\<rparr>)) \<subseteq># {#} + mset (buffered st0)"
        using k bst by (simp add: buffered_def)
      moreover have "st_inv ?key (st1\<lparr>SnapshotPending := True\<rparr>)"
        using k i(2) ord_inv_flags(1) [of st1 False True] by (intro ord_inv_st_inv) (auto simp: same_conf_def)
      ultimately show ?thesis
        using all_buffered_put_le [OF w s, of "{#}" "st1\<lparr>SnapshotPending := True\<rparr>" "{#}"] nw_inv_put [OF w] by simp
    next
      case False
      with p s Some f obtain st3 pubs1 st4 snap where
        b: "(if ?ms \<noteq> [] then ProcessBuffer cd ?key (st1\<lparr>NeedsSnapshot := False, LastSeqId := LastUpdateID sn\<rparr>) ?ms
             else Done (st1\<lparr>NeedsSnapshot := False, LastSeqId := LastUpdateID sn\<rparr>, [])) = Done (st3, pubs1)"
        and c: "Cleanup (Orderer st3) st3 = Done st4" and w': "w' = put_state w ?key st4"
        and ps: "pubs = snap @ pubs1" "pub_msgs snap = []"
        by (auto simp: ProcessSnapshotReady_def Let_def bind_out_Done split: outcome.splits if_splits)
      note r = resync_end [OF _ _ b c]
      have le: "mset ?ms \<subseteq># mset (buffered st0)" using k bst by (metis mset_filter multiset_filter_subset)
      have "mset (pub_msgs pubs) + mset (buffered st4) \<subseteq># {#} + mset (buffered st0)"
        using r k ps le by (auto intro: subset_mset.order_trans)
      from all_buffered_put_le [OF w s this] w' nw_inv_put [OF w ord_inv_st_inv [of st4 ?key]] r k i(2)
      show ?thesis by (auto simp: same_conf_def)
    qed
  qed
qed

section \<open>The at-least-once loop\<close>

text \<open>
  The state of \<open>RunAtLeastOnce\<close>: the worker, the tracker, the produces not yet answered by the client, the
  position after the last record polled per partition, the \<open>committed\<close> map, the commit requests sent, the
  offsets the broker holds, and two histories: the source coordinates acknowledged and failed so far.
\<close>

record NRun =
  wk :: NWorker
  trk :: SourceTracker
  flight :: "kgo_record list"
  pos :: "tp \<Rightarrow> int"
  committed :: "tp \<rightharpoonup> int"
  reqs :: "(tp \<times> int) list"
  broker :: "tp \<rightharpoonup> int"
  acked :: "(tp \<times> int) list"
  lost :: "(tp \<times> int) list"

definition NRun_init :: NRun where
  "NRun_init = \<lparr>wk = NewNWorker, trk = NewSourceTracker, flight = [], pos = (\<lambda>_. 0), committed = Map.empty,
     reqs = [], broker = Map.empty, acked = [], lost = []\<rparr>"

definition rec_tp :: "kgo_record \<Rightarrow> tp" where
  "rec_tp r = (RTopic r, RPartition r)"

text \<open>After a handler: its publications go to the tracked producer in order.\<close>

definition emit :: "NRun \<Rightarrow> NWorker \<Rightarrow> publication list \<Rightarrow> NRun" where
  "emit s w pubs =
     s\<lparr>wk := w, trk := fold (\<lambda>p t. Produce t (record_of p)) pubs (trk s), flight := flight s @ map record_of pubs\<rparr>"

text \<open>
  The client answers a produce. A failed message calls \<open>onFailure\<close> besides the tracker; a failed snapshot, which
  has no source, is only logged.
\<close>

definition settle :: "NRun \<Rightarrow> nat \<Rightarrow> bool \<Rightarrow> NRun" where
  "settle s i ok =
     (let r = flight s ! i; src = (case source (RHeaders r) of None \<Rightarrow> [] | Some x \<Rightarrow> [x])
      in s\<lparr>wk := (if \<not> ok \<and> src \<noteq> [] then onFailure (wk s) else wk s), trk := promise (trk s) r ok, flight := take i (flight s) @ drop (Suc i) (flight s),
           acked := (if ok then src @ acked s else acked s), lost := (if ok then lost s else src @ lost s)\<rparr>)"

text \<open>
  The client delivers the records of a partition with increasing offsets in the range of their types, and
  reports as uncommitted no offset beyond the position polled. A request may reach the broker later, or never.
\<close>

inductive nstep :: "codec \<Rightarrow> NRun \<Rightarrow> NRun \<Rightarrow> bool" for cd where
  poll: "\<lbrakk>pos s (rec_tp rec) \<le> ROffset rec; in_int64 (ROffset rec); in_int32 (RPartition rec);
     ProcessRecord cd (wk s) rec = Done (w, pubs, effs, err)\<rbrakk> \<Longrightarrow>
     nstep cd s (emit s w pubs\<lparr>pos := (pos s)(rec_tp rec := ROffset rec + 1)\<rparr>)"
| flush: "do_FlushBuffer cd (wk s) key = Done (w, pubs, effs, err) \<Longrightarrow> nstep cd s (emit s w pubs)"
| snap: "ProcessSnapshotReady cd now (wk s) dr = Done (w, pubs, effs, err) \<Longrightarrow> nstep cd s (emit s w pubs)"
| answer: "i < length (flight s) \<Longrightarrow> nstep cd s (settle s i ok)"
| commit: "\<lbrakk>\<forall>(k, eo) \<in> set unc. Offset eo \<le> pos s k; commitFrontier (wk s) (trk s) unc (committed s) = (c, f)\<rbrakk> \<Longrightarrow>
     nstep cd s (s\<lparr>committed := c, reqs := map (\<lambda>(k, eo). (k, Offset eo)) f @ reqs s\<rparr>)"
| apply_req: "(k, c) \<in> set (reqs s) \<Longrightarrow> nstep cd s (s\<lparr>broker := (broker s)(k \<mapsto> c)\<rparr>)"

inductive nreach :: "codec \<Rightarrow> NRun \<Rightarrow> bool" for cd where
  start: "nreach cd NRun_init"
| step: "nreach cd s \<Longrightarrow> nstep cd s s' \<Longrightarrow> nreach cd s'"

definition flight_srcs :: "kgo_record list \<Rightarrow> (tp \<times> int) list" where
  "flight_srcs rs = List.map_filter (\<lambda>r. source (RHeaders r)) rs"

definition buffer_srcs :: "NWorker \<Rightarrow> (tp \<times> int) list" where
  "buffer_srcs w = List.map_filter source_of (all_buffered w)"

text \<open>Every message the worker holds has a source record whose coordinates are in range.\<close>

definition has_source :: "PipelineMessage \<Rightarrow> bool" where
  "has_source m \<longleftrightarrow> (\<exists>r. Record m = Some r \<and> in_int64 (ROffset r) \<and> in_int32 (RPartition r))"

definition live :: "NRun \<Rightarrow> (tp \<times> int) multiset" where
  "live s = mset (flight_srcs (flight s)) + mset (buffer_srcs (wk s)) + mset (acked s) + mset (lost s)"

text \<open>Offset \<open>c\<close> of partition \<open>k\<close> is behind everything unacknowledged, failed or buffered.\<close>

definition behind :: "NRun \<Rightarrow> tp \<Rightarrow> int \<Rightarrow> bool" where
  "behind s k c \<longleftrightarrow>
     c \<le> pos s k \<and> (\<forall>off. (k, off) \<in> set (flight_srcs (flight s)) \<union> set (lost s) \<union> set (buffer_srcs (wk s)) \<longrightarrow> c \<le> off)"

definition run_inv :: "NRun \<Rightarrow> bool" where
  "run_inv s \<longleftrightarrow>
     nw_inv (wk s) \<and> tracker_inv (trk s) \<and> (\<forall>m \<in> set (all_buffered (wk s)). has_source m) \<and>
     pending (trk s) = set (flight_srcs (flight s)) \<union> set (lost s) \<and>
     (\<forall>x. count (live s) x \<le> 1) \<and> (\<forall>(k, off) \<in># live s. off < pos s k) \<and>
     (\<forall>k c. (k, c) \<in> set (reqs s) \<or> broker s k = Some c \<longrightarrow> behind s k c)"

lemma run_invD:
  assumes "run_inv s"
  shows "nw_inv (wk s)" "tracker_inv (trk s)" "\<forall>m \<in> set (all_buffered (wk s)). has_source m"
    "pending (trk s) = set (flight_srcs (flight s)) \<union> set (lost s)" "\<forall>x. count (live s) x \<le> 1"
    "\<And>k off. (k, off) \<in># live s \<Longrightarrow> off < pos s k" "\<And>k c. (k, c) \<in> set (reqs s) \<or> broker s k = Some c \<Longrightarrow> behind s k c"
  using assms unfolding run_inv_def by blast+

lemma source_Pub:
  assumes "has_source m"
  shows "source (RHeaders (record_of (Pub t k m b))) = source_of m"
  using assms
  by (auto simp: has_source_def ProduceAsync_def source_of_def Decode_def Encode_def sint_word_of_int64 sint_word_of_int32)

lemma source_SnapPub: "source (RHeaders (record_of (SnapPub t k b))) = None"
  by (simp add: ProduceSnapshotAsync_def)

lemma flight_srcs_append [simp]: "flight_srcs (xs @ ys) = flight_srcs xs @ flight_srcs ys"
  by (simp add: flight_srcs_def List.map_filter_def)

lemma map_filter_Cons_opt: "List.map_filter f (x # xs) = (case f x of None \<Rightarrow> List.map_filter f xs | Some y \<Rightarrow> y # List.map_filter f xs)"
  by (simp add: List.map_filter_simps)

lemma flight_srcs_pubs:
  "\<forall>m \<in> set (pub_msgs pubs). has_source m \<Longrightarrow> flight_srcs (map record_of pubs) = List.map_filter source_of (pub_msgs pubs)"
proof (induction pubs)
  case (Cons p pubs)
  show ?case
  proof (cases p)
    case (Pub t k m b)
    then have "source (RHeaders (record_of p)) = source_of m" using Cons.prems source_Pub by simp
    with Cons Pub show ?thesis
      by (simp add: flight_srcs_def map_filter_Cons_opt del: record_of.simps cong: option.case_cong)
  next
    case (SnapPub t k b)
    then have "source (RHeaders (record_of p)) = None" using source_SnapPub by simp
    with Cons SnapPub show ?thesis by (simp add: flight_srcs_def map_filter_Cons_opt del: record_of.simps)
  qed
qed (simp add: flight_srcs_def List.map_filter_simps)

lemma fold_Produce:
  "tracker_inv t \<Longrightarrow> tracker_inv (fold (\<lambda>p t. Produce t (record_of p)) pubs t) \<and>
   pending (fold (\<lambda>p t. Produce t (record_of p)) pubs t) = pending t \<union> set (flight_srcs (map record_of pubs))"
proof (induction pubs arbitrary: t)
  case (Cons p pubs)
  show ?case
  proof (cases "source (RHeaders (record_of p))")
    case None
    with Cons show ?thesis by (simp add: Produce_def flight_srcs_def map_filter_Cons_opt)
  next
    case (Some x)
    obtain k off where x: "x = (k, off)" by (cases x)
    with Cons.IH [of "add t k off"] Cons.prems Some show ?thesis
      by (auto simp: Produce_def flight_srcs_def map_filter_Cons_opt)
  qed
qed (simp add: flight_srcs_def List.map_filter_simps)

definition src :: "PipelineMessage \<Rightarrow> tp \<times> int" where
  "src m = the (source_of m)"

lemma srcs_image: "\<forall>m \<in> set ms. has_source m \<Longrightarrow> List.map_filter source_of ms = map src ms"
  by (induction ms) (auto simp: map_filter_Cons_opt List.map_filter_simps has_source_def source_of_def src_def)

lemma count_le_union:
  assumes "A \<subseteq># B + C" "\<forall>x. count C x \<le> 1" "size B \<le> 1" "\<And>x. x \<in># B \<Longrightarrow> x \<notin># C"
  shows "count A x \<le> 1"
proof -
  have "count A x \<le> count B x + count C x" using assms(1) by (metis count_union mset_subset_eq_count)
  moreover have "count B x \<le> 1" using assms(3) count_le_size [of B x] by simp
  moreover have "count B x = 0 \<or> count C x = 0" using assms(4) by (metis count_eq_zero_iff)
  ultimately show ?thesis using assms(2) [rule_format, of x] by auto
qed

lemma run_inv_emit:
  assumes i: "run_inv s" and w: "nw_inv w"
    and le: "mset (pub_msgs pubs) + mset (all_buffered w) \<subseteq># mset ms + mset (all_buffered (wk s))"
    and ms: "length ms \<le> 1" "\<forall>m \<in> set ms. has_source m"
    and q: "\<And>k. pos s k \<le> q k" "\<And>m k off. m \<in> set ms \<Longrightarrow> src m = (k, off) \<Longrightarrow> pos s k \<le> off \<and> off < q k"
  shows "run_inv (emit s w pubs\<lparr>pos := q\<rparr>)"
proof -
  let ?s = "emit s w pubs\<lparr>pos := q\<rparr>"
  from i have i1: "\<forall>m \<in> set (all_buffered (wk s)). has_source m" by (simp add: run_inv_def)
  have hs: "\<forall>m \<in> set (pub_msgs pubs) \<union> set (all_buffered w). has_source m"
  proof -
    have "set_mset (mset (pub_msgs pubs) + mset (all_buffered w)) \<subseteq> set_mset (mset ms + mset (all_buffered (wk s)))"
      using le by (rule set_mset_mono)
    then show ?thesis using i1 ms(2) by auto
  qed
  have fp: "flight_srcs (map record_of pubs) = map src (pub_msgs pubs)"
    using flight_srcs_pubs srcs_image hs by simp
  have bw: "buffer_srcs w = map src (all_buffered w)" "buffer_srcs (wk s) = map src (all_buffered (wk s))"
    using srcs_image hs i1 by (simp_all add: buffer_srcs_def)
  have sle: "mset (map src (pub_msgs pubs)) + mset (map src (all_buffered w)) \<subseteq>#
      mset (map src ms) + mset (map src (all_buffered (wk s)))"
    using image_mset_subseteq_mono [OF le, of src] by simp
  have lv: "live ?s \<subseteq># mset (map src ms) + live s"
    using sle by (simp add: live_def emit_def fp bw ac_simps)
  have fresh: "x \<notin># live s" if "x \<in># mset (map src ms)" for x
  proof
    assume x: "x \<in># live s"
    obtain k off where "x = (k, off)" by (cases x)
    with x have "off < pos s k" using run_invD(6) [OF i] by blast
    moreover from that obtain m where "m \<in> set ms" "src m = x" by auto
    then have "pos s k \<le> off" using q(2) \<open>x = (k, off)\<close> by blast
    ultimately show False by simp
  qed
  have c1: "\<forall>x. count (live ?s) x \<le> 1"
    using count_le_union [OF lv run_invD(5) [OF i] _ fresh] ms(1) by simp
  have c2: "\<forall>(k, off) \<in># live ?s. off < q k"
  proof clarify
    fix k off assume "(k, off) \<in># live ?s"
    with lv have "(k, off) \<in># mset (map src ms) \<or> (k, off) \<in># live s" by (metis mset_subset_eqD union_iff)
    then show "off < q k"
    proof
      assume "(k, off) \<in># mset (map src ms)"
      then obtain m where "m \<in> set ms" "src m = (k, off)" by auto
      then show ?thesis using q(2) by blast
    next
      assume "(k, off) \<in># live s"
      then have "off < pos s k" by (rule run_invD(6) [OF i])
      then show ?thesis using q(1) [of k] by simp
    qed
  qed
  have sub: "set (map src (pub_msgs pubs)) \<union> set (map src (all_buffered w)) \<subseteq> set (map src ms) \<union> set (buffer_srcs (wk s))"
    using set_mset_mono [OF sle] bw by simp
  have c3: "behind ?s k c" if "(k, c) \<in> set (reqs ?s) \<or> broker ?s k = Some c" for k c
  proof -
    from that have "(k, c) \<in> set (reqs s) \<or> broker s k = Some c" by (simp add: emit_def)
    from run_invD(7) [OF i this] have c: "c \<le> pos s k"
      "\<And>off. (k, off) \<in> set (flight_srcs (flight s)) \<union> set (lost s) \<union> set (buffer_srcs (wk s)) \<Longrightarrow> c \<le> off"
      unfolding behind_def by blast+
    have "c \<le> off" if "(k, off) \<in> set (flight_srcs (flight ?s)) \<union> set (lost ?s) \<union> set (buffer_srcs (wk ?s))" for off
    proof -
      from that sub have "(k, off) \<in> set (map src ms) \<or>
          (k, off) \<in> set (flight_srcs (flight s)) \<union> set (lost s) \<union> set (buffer_srcs (wk s))"
        by (auto simp: emit_def fp bw)
      then show ?thesis
      proof
        assume "(k, off) \<in> set (map src ms)"
        then obtain m where "m \<in> set ms" "src m = (k, off)" by auto
        then show ?thesis using q(2) c(1) order_trans by blast
      qed (rule c(2))
    qed
    moreover have "c \<le> q k" using c(1) q(1) order_trans by blast
    ultimately show ?thesis unfolding behind_def by (simp add: emit_def)
  qed
  have pn: "tracker_inv (trk ?s)" "pending (trk ?s) = set (flight_srcs (flight ?s)) \<union> set (lost ?s)"
    using fold_Produce [OF run_invD(2) [OF i], of pubs] run_invD(4) [OF i] by (auto simp: emit_def)
  have e: "wk ?s = w" "pos ?s = q" by (simp_all add: emit_def)
  have h: "\<forall>m \<in> set (all_buffered w). has_source m" using hs by blast
  show ?thesis unfolding run_inv_def e
    by (intro conjI w h pn c1 [rule_format] c2 allI impI c3) assumption
qed

lemma take_drop_remove:
  "i < length xs \<Longrightarrow> xs = take i xs @ xs ! i # drop (Suc i) xs"
  by (simp add: id_take_nth_drop)

lemma flight_srcs_remove:
  assumes "i < length xs"
  shows "mset (flight_srcs xs) = mset (case source (RHeaders (xs ! i)) of None \<Rightarrow> [] | Some x \<Rightarrow> [x]) +
    mset (flight_srcs (take i xs @ drop (Suc i) xs))"
proof -
  have "flight_srcs xs = flight_srcs (take i xs) @ flight_srcs (xs ! i # drop (Suc i) xs)"
    using take_drop_remove [OF assms] flight_srcs_append by metis
  moreover have "flight_srcs (r # rs) = (case source (RHeaders r) of None \<Rightarrow> [] | Some x \<Rightarrow> [x]) @ flight_srcs rs" for r rs
    by (simp add: flight_srcs_def map_filter_Cons_opt split: option.splits)
  ultimately show ?thesis by simp
qed

lemma run_inv_settle:
  assumes i: "run_inv s" and n: "n < length (flight s)"
  shows "run_inv (settle s n ok)"
proof -
  let ?s = "settle s n ok" and ?r = "flight s ! n"
  let ?x = "case source (RHeaders ?r) of None \<Rightarrow> [] | Some x \<Rightarrow> [x]" and ?fl = "take n (flight s) @ drop (Suc n) (flight s)"
  have f: "flight ?s = ?fl" "pos ?s = pos s" "reqs ?s = reqs s" "broker ?s = broker s"
    "acked ?s = (if ok then ?x @ acked s else acked s)" "lost ?s = (if ok then lost s else ?x @ lost s)"
    "trk ?s = promise (trk s) ?r ok"
    by (simp_all add: settle_def Let_def)
  have w: "WorkerMap (wk ?s) = WorkerMap (wk s)" by (simp add: settle_def Let_def onFailure_def)
  then have g: "nw_inv (wk ?s) = nw_inv (wk s)" "all_buffered (wk ?s) = all_buffered (wk s)" "buffer_srcs (wk ?s) = buffer_srcs (wk s)"
    by (simp_all add: nw_inv_def all_buffered_def buffer_srcs_def)
  have m: "mset (flight_srcs (flight s)) = mset ?x + mset (flight_srcs ?fl)" by (rule flight_srcs_remove [OF n])
  then have st: "set (flight_srcs (flight s)) = set ?x \<union> set (flight_srcs ?fl)" by (metis set_mset_mset set_mset_union)
  have lv: "live ?s = live s" unfolding live_def f g m by (simp add: ac_simps)
  have pn: "tracker_inv (trk ?s)" "pending (trk ?s) = set (flight_srcs ?fl) \<union> set (lost ?s)"
  proof -
    show "tracker_inv (trk ?s)" using run_invD(2) [OF i] unfolding f promise_def by (auto split: option.splits)
    show "pending (trk ?s) = set (flight_srcs ?fl) \<union> set (lost ?s)"
    proof (cases "source (RHeaders ?r)")
      case None
      then show ?thesis using run_invD(4) [OF i] st unfolding f promise_def by simp
    next
      case (Some x)
      obtain k off where x: "x = (k, off)" by (cases x)
      have "count (live s) x \<le> 1" using run_invD(5) [OF i] by blast
      moreover have "count (live s) x = 1 + count (mset (flight_srcs ?fl)) x + count (mset (buffer_srcs (wk s))) x +
          count (mset (acked s)) x + count (mset (lost s)) x"
        unfolding live_def m using Some by simp
      ultimately have "x \<notin> set (flight_srcs ?fl)" "x \<notin> set (lost s)" by (simp_all add: count_eq_zero_iff [symmetric])
      then show ?thesis using run_invD(4) [OF i] st Some x unfolding f promise_def by auto
    qed
  qed
  have b: "behind ?s k c" if "(k, c) \<in> set (reqs ?s) \<or> broker ?s k = Some c" for k c
  proof -
    from that f have "(k, c) \<in> set (reqs s) \<or> broker s k = Some c" by simp
    from run_invD(7) [OF i this] show ?thesis unfolding behind_def f g st by auto
  qed
  show ?thesis unfolding run_inv_def lv
    using run_invD(1,3,5,6) [OF i] pn b unfolding f g by (intro conjI allI impI) blast+
qed

lemma bufferedSources_le:
  assumes "(k, off) \<in> set (buffer_srcs w)"
  shows "\<exists>v. bufferedSources w k = Some v \<and> v \<le> off"
proof -
  have e: "bufferedSources w = fold (\<lambda>(k, v) m. min_upd m k v) (buffer_srcs w) Map.empty"
    by (simp only: bufferedSources_def buffer_srcs_def)
  have "k \<in> fst ` set (buffer_srcs w)" using assms by (rule rev_image_eqI) simp
  then have "bufferedSources w k \<noteq> None" by (simp only: e fold_min_upd_None) simp
  then obtain v where v: "bufferedSources w k = Some v" by blast
  have "v \<le> off" by (rule fold_min_upd_le [OF v [unfolded e], THEN conjunct2, rule_format, OF assms])
  with v show ?thesis by blast
qed

lemma run_inv_commit:
  assumes i: "run_inv s" and u: "\<forall>(k, eo) \<in> set unc. Offset eo \<le> pos s k"
    and c: "commitFrontier (wk s) (trk s) unc (committed s) = (cm, f)"
  shows "run_inv (s\<lparr>committed := cm, reqs := map (\<lambda>(k, eo). (k, Offset eo)) f @ reqs s\<rparr>)"
proof -
  let ?s = "s\<lparr>committed := cm, reqs := map (\<lambda>(k, eo). (k, Offset eo)) f @ reqs s\<rparr>"
  have f: "f = Frontier unc (map_of (MinInflight (trk s))) (bufferedSources (wk s)) (committed s)"
    using c by (simp add: commitFrontier_def Let_def)
  have new: "behind s k (Offset eo)" if "(k, eo) \<in> set f" for k eo
  proof -
    note fb = Frontier_bounds [OF that [unfolded f]]
    have "Offset eo \<le> pos s k" using fb(1) u by fastforce
    moreover have "Offset eo \<le> off" if "(k, off) \<in> pending (trk s)" for off
      using MinInflight_le [OF run_invD(2) [OF i] that] fb(2) order_trans by blast
    moreover have "Offset eo \<le> off" if "(k, off) \<in> set (buffer_srcs (wk s))" for off
      using bufferedSources_le [OF that] fb(3) order_trans by blast
    ultimately show ?thesis unfolding behind_def using run_invD(4) [OF i] by blast
  qed
  have b: "behind ?s k c" if "(k, c) \<in> set (reqs ?s) \<or> broker ?s k = Some c" for k c
  proof -
    from that consider eo where "(k, eo) \<in> set f" "c = Offset eo" | "(k, c) \<in> set (reqs s) \<or> broker s k = Some c" by auto
    then have "behind s k c" using new run_invD(7) [OF i] by cases auto
    then show ?thesis by (simp add: behind_def)
  qed
  have e: "live ?s = live s" "wk ?s = wk s" "trk ?s = trk s" "flight ?s = flight s" "lost ?s = lost s" "pos ?s = pos s"
    by (simp_all add: live_def)
  show ?thesis unfolding run_inv_def e
    using run_invD(1-6) [OF i] b by (intro conjI allI impI) blast+
qed

lemma run_inv_step:
  assumes "nstep cd s s'" "run_inv s"
  shows "run_inv s'"
  using assms
proof (cases rule: nstep.cases)
  case (poll rec w pubs effs err)
  from ProcessRecord_keeps [OF run_invD(1) [OF assms(2)] poll(5)] obtain msg where
    m: "nw_inv w" "Record msg = Some rec" "mset (pub_msgs pubs) + mset (all_buffered w) \<subseteq># mset [msg] + mset (all_buffered (wk s))"
    by auto
  have "src msg = (rec_tp rec, ROffset rec)" using m(2) by (simp add: src_def source_of_def rec_tp_def)
  then show ?thesis unfolding poll(1) using m poll(2-4)
    by (intro run_inv_emit [OF assms(2) m(1,3)]) (auto simp: has_source_def)
next
  case (flush key w pubs effs err)
  from do_FlushBuffer_keeps [OF run_invD(1) [OF assms(2)] flush(2)] have
    "nw_inv w" "mset (pub_msgs pubs) + mset (all_buffered w) \<subseteq># mset [] + mset (all_buffered (wk s))" by auto
  from run_inv_emit [OF assms(2) this, of "pos s"] show ?thesis unfolding flush(1) by (simp add: emit_def)
next
  case (snap now dr w pubs effs err)
  from ProcessSnapshotReady_keeps [OF run_invD(1) [OF assms(2)] snap(2)] have
    "nw_inv w" "mset (pub_msgs pubs) + mset (all_buffered w) \<subseteq># mset [] + mset (all_buffered (wk s))" by auto
  from run_inv_emit [OF assms(2) this, of "pos s"] show ?thesis unfolding snap(1) by (simp add: emit_def)
next
  case (answer n ok)
  then show ?thesis using run_inv_settle [OF assms(2)] by simp
next
  case (commit unc c f)
  then show ?thesis using run_inv_commit [OF assms(2)] by simp
next
  case (apply_req k c)
  have "behind s' k' c'" if "(k', c') \<in> set (reqs s') \<or> broker s' k' = Some c'" for k' c'
  proof -
    from that apply_req have "(k', c') \<in> set (reqs s) \<or> broker s k' = Some c'" by (auto split: if_splits)
    from run_invD(7) [OF assms(2) this] show ?thesis by (simp add: apply_req(1) behind_def)
  qed
  moreover have "live s' = live s" "wk s' = wk s" "trk s' = trk s" "flight s' = flight s" "lost s' = lost s" "pos s' = pos s"
    by (simp_all add: apply_req(1) live_def)
  ultimately show ?thesis unfolding run_inv_def
    using run_invD(1-6) [OF assms(2)] by (intro conjI allI impI) (simp only: | blast)+
qed

lemma run_inv_init: "run_inv NRun_init"
  by (simp add: run_inv_def NRun_init_def NewNWorker_def nw_inv_def all_buffered_def live_def flight_srcs_def buffer_srcs_def
      List.map_filter_simps)

lemma nreach_inv: "nreach cd s \<Longrightarrow> run_inv s"
  by (induction rule: nreach.induct) (auto intro: run_inv_init run_inv_step)

end
