(* ===== verification/Norm_Props.thy ===== *)
theory Norm_Props
  imports Norm_Worker
begin

text \<open>
  The properties of the normalizer: the at-least-once loop never commits past a record it still owes,
  publishes no record twice, flushes its buffers completely and in order, splices a Binance snapshot
  correctly, never sends into the channel it reads, and three defects of the code.
\<close>

section \<open>Flushing is total\<close>

definition acks_ok :: "SymbolState \<Rightarrow> PipelineMessage list \<Rightarrow> bool" where
  "acks_ok st ms \<longleftrightarrow>
     (ordererBound st \<or> Orderer st = KrakenTicker) \<and>
     (\<not> is_seq (Orderer st) \<longrightarrow> Orderer st \<noteq> KrakenTicker \<longrightarrow>
        (\<forall>t. length (filter (\<lambda>m. Ts m = t) ms) \<le> length (time_msgs st t)))"

lemma TsAck_msgs:
  assumes "TsAck m st = Done st'"
  shows "time_msgs st' t = (if t = Ts m then tl (time_msgs st t) else time_msgs st t)"
proof -
  from assms obtain x ms where x: "time_msgs st (Ts m) = x # ms"
    and s: "st' = (let st = st\<lparr>LastSeenTs := Ts m\<rparr> in if ms = [] then st\<lparr>BufferTimeMap := AList.delete (Ts m) (BufferTimeMap st)\<rparr>
                   else st\<lparr>BufferTimeMap := AList.update (Ts m) ms (BufferTimeMap st)\<rparr>)"
    by (auto simp: TsAck_def Let_def split: list.splits)
  show ?thesis using x unfolding s
    by (auto simp: Let_def time_msgs_def AList.delete_conv' AList.update_conv' split: option.splits)
qed

lemma Ack_total:
  assumes "acks_ok st (m # ms)"
  obtains st' where "Ack (Orderer st) st m = Done st'" "acks_ok st' ms"
proof -
  consider "Orderer st = KrakenTicker" | "is_seq (Orderer st)" | "\<not> is_seq (Orderer st)" "Orderer st \<noteq> KrakenTicker" by blast
  then show ?thesis
  proof cases
    case 1
    then show ?thesis using that [of st] assms by (simp add: Ack_def acks_ok_def)
  next
    case 2
    then have "Orderer st \<noteq> KrakenTicker" by (auto simp: is_seq_def)
    with 2 assms that [of "SequenceAck st m"] show ?thesis
      by (simp add: Ack_def acks_ok_def guard_bound_def SequenceAck_def)
  next
    case 3
    with assms have b: "ordererBound st" and
      c: "\<And>t. length (filter (\<lambda>m. Ts m = t) (m # ms)) \<le> length (time_msgs st t)" by (auto simp: acks_ok_def)
    show ?thesis
    proof (cases "EventType m = Snapshot")
      case True
      have "length (filter (\<lambda>m. Ts m = t) ms) \<le> length (time_msgs st t)" for t using c [of t] by (auto split: if_splits)
      with True 3 b that [of st] show ?thesis by (simp add: Ack_def acks_ok_def)
    next
      case False
      from c [of "Ts m"] obtain x xs where x: "time_msgs st (Ts m) = x # xs" by (cases "time_msgs st (Ts m)") auto
      then obtain st' where st': "TsAck m st = Done st'" by (simp add: TsAck_def Let_def)
      have "length (filter (\<lambda>m. Ts m = t) ms) \<le> length (time_msgs st' t)" for t
        using c [of t] x by (auto simp: TsAck_msgs [OF st'])
      moreover have "Ack (Orderer st) st m = Done st'" using 3 b False st' by (simp add: Ack_def guard_bound_def)
      moreover from Ack_conf(1) [OF this] have "Orderer st' = Orderer st" "ordererBound st' = ordererBound st"
        by (simp_all add: same_conf_def)
      ultimately show ?thesis using that [of st'] b by (simp add: acks_ok_def)
    qed
  qed
qed

lemma process_msgs_total:
  assumes "acks_ok st ms" "\<forall>m \<in> set ms. Normalize (Normalizer st) cd m \<noteq> Panic"
  shows "\<exists>st'. process_msgs cd key st ms = Done (st', pubs_of cd key st ms)"
  using assms
proof (induction ms arbitrary: st)
  case (Cons m ms)
  show ?case
  proof (cases "Normalize (Normalizer st) cd m")
    case (Done b)
    obtain st1 where a: "Ack (Orderer st) st m = Done st1" "acks_ok st1 ms" by (rule Ack_total [OF Cons.prems(1)])
    note c = Ack_conf(1) [OF a(1)]
    from c Cons.prems(2) have "\<forall>m \<in> set ms. Normalize (Normalizer st1) cd m \<noteq> Panic" by (simp add: same_conf_def)
    from Cons.IH [OF a(2) this] obtain st' where "process_msgs cd key st1 ms = Done (st', pubs_of cd key st1 ms)" by blast
    with Done a(1) pubs_of_conf [OF c] show ?thesis by simp
  next
    case Fail
    have "acks_ok st ms" using Cons.prems(1) by (auto simp: acks_ok_def split: if_splits dest: Suc_leD)
    with Fail Cons show ?thesis by simp
  qed (use Cons in simp)
qed simp

lemma flush_acks_ok:
  assumes "ord_inv st" "PrepareBufferFlush (Orderer st) st = Done (st', buf)"
  shows "acks_ok st' buf"
proof -
  have b: "ordererBound st \<or> Orderer st = KrakenTicker" by (rule flush_bound [OF assms(2)])
  have c: "same_conf st st'" using PrepareBufferFlush_keeps [OF assms] by blast
  have "length (filter (\<lambda>m. Ts m = t) buf) \<le> length (time_msgs st' t)"
    if n: "\<not> is_seq (Orderer st)" "Orderer st \<noteq> KrakenTicker" for t
  proof -
    from n assms(2) have e: "st' = fst (PrepareTsBufferFlush st)" "buf = snd (PrepareTsBufferFlush st)"
      by (auto simp: PrepareBufferFlush_def guard_bound_def split: if_splits)
    have i: "ts_inv st" using assms(1) n by (simp add: ord_inv_def)
    have tm: "time_msgs st' = time_msgs st" by (simp add: e PrepareTsBufferFlush_def Let_def time_msgs_def fun_eq_iff)
    have own: "Ts m = u" if "m \<in> set (time_msgs st u)" for m u
      using i that by (auto simp: ts_inv_def time_msgs_def split: option.splits dest!: map_of_SomeD)
    have "filter (\<lambda>m. Ts m = t) (concat (map (time_msgs st) us)) = (if t \<in> set us then time_msgs st t else [])"
      if "distinct us" for us
      using that
    proof (induction us)
      case (Cons u us)
      have "filter (\<lambda>m. Ts m = t) (time_msgs st u) = (if u = t then time_msgs st t else [])"
        using own by (auto simp: filter_id_conv filter_empty_conv)
      with Cons show ?case by auto
    qed simp
    moreover have "distinct (sort (BufferTime st))" using i by (simp add: ts_inv_def)
    ultimately have "filter (\<lambda>m. Ts m = t) buf = (if t \<in> set (sort (BufferTime st)) then time_msgs st t else [])"
      by (simp add: e PrepareTsBufferFlush_def Let_def)
    then show ?thesis by (simp add: tm)
  qed
  with b c show ?thesis by (auto simp: acks_ok_def same_conf_def)
qed

lemma Cleanup_total: "ordererBound st \<or> Orderer st = KrakenTicker \<Longrightarrow> \<exists>st'. Cleanup (Orderer st) st = Done st'"
  by (auto simp: Cleanup_def guard_bound_def)

lemma do_FlushBuffer_total:
  assumes w: "nw_inv w" and s: "map_of (WorkerMap w) key = Some st" and b: "ordererBound st"
    and n: "\<forall>m \<in> set (buffered st). Normalize (Normalizer st) cd m \<noteq> Panic"
  obtains st1 buf st2 where "PrepareBufferFlush (Orderer st) st = Done (st1, buf)" "same_conf st st1"
    "do_FlushBuffer cd w key = Done (put_state w key st2, pubs_of cd key st buf, [], False)" "buffered st2 = []"
    "mset buf = mset (buffered st)"
proof -
  have i: "ord_inv st" using nw_invD [OF w s] b by (simp add: st_inv_def)
  obtain st1 buf where f: "PrepareBufferFlush (Orderer st) st = Done (st1, buf)"
    using b by (simp add: PrepareBufferFlush_def guard_bound_def) (metis prod.collapse)
  note k = PrepareBufferFlush_keeps [OF i f]
  have "set buf = set (buffered st)" using k by (metis set_mset_mset)
  then have "\<forall>m \<in> set buf. Normalize (Normalizer st1) cd m \<noteq> Panic" using n k by (simp add: same_conf_def)
  from process_msgs_total [OF flush_acks_ok [OF i f] this] obtain st' where
    p: "process_msgs cd key st1 buf = Done (st', pubs_of cd key st1 buf)" by blast
  have "ordererBound st'" using process_msgs_Done [OF p] k b by (simp add: same_conf_def)
  with Cleanup_total obtain st2 where c: "Cleanup (Orderer st') st' = Done st2" by blast
  have pb: "ProcessBuffer cd key st1 buf = Done (st2, pubs_of cd key st buf)"
    using p c pubs_of_conf [of st st1] k by (simp add: ProcessBuffer_def)
  have "buffered st2 = []" using ProcessBuffer_keeps [OF _ pb] k by blast
  then show ?thesis using that f k s pb by (simp add: do_FlushBuffer_def)
qed

lemma pub_msgs_all:
  "\<forall>m \<in> set ms. \<exists>b. Normalize (Normalizer st) cd m = Done b \<Longrightarrow> pub_msgs (pubs_of cd key st ms) = ms"
  by (induction ms) auto

section \<open>A concrete run\<close>

text \<open>
  A Coinbase ticker stream whose decoder reads the sequence number off the length of the payload: the first record
  is published and acknowledged, the second is older and is parked, then the worker commits.
\<close>

definition demo_codec :: codec where
  "demo_codec =
     \<lparr>json_Header = (\<lambda>b. Some (Coinbase, Ticker)), json_AggTrade = (\<lambda>b. None), json_Depth = (\<lambda>b. None),
      json_CoinbaseTicker = (\<lambda>b. Some \<lparr>ct_Sequence = int (length b), ct_ProductID = ''BTC-USD'', ct_Price = ''1'',
         ct_Open24h = ''1'', ct_Volume24h = ''1'', ct_Low24h = ''1'', ct_High24h = ''1'', ct_Time = ''t''\<rparr>),
      json_Level2 = (\<lambda>b. None), json_KrakenTicker = (\<lambda>b. None), json_KrakenBook = (\<lambda>b. None),
      ParseFloat = (\<lambda>s. PInf), ParseTime = (\<lambda>s. Some 0), marshal_Ticker = (\<lambda>t. Some []), marshal_Book = (\<lambda>b. Some [])\<rparr>"

definition demo_rec :: "int \<Rightarrow> nat \<Rightarrow> kgo_record" where
  "demo_rec off n = \<lparr>RTopic = ''raw.ticks'', RPartition = 0, ROffset = off, RKey = ''BTC-USD'', RValue = replicate n 0,
     RHeaders = [], RTimestamp = 0\<rparr>"

definition run_poll :: "codec \<Rightarrow> NRun \<Rightarrow> kgo_record \<Rightarrow> NRun" where
  "run_poll cd s rec =
     (case ProcessRecord cd (wk s) rec of
        Done (w, pubs, effs, err) \<Rightarrow> emit s w pubs\<lparr>pos := (pos s)(rec_tp rec := ROffset rec + 1)\<rparr>
      | _ \<Rightarrow> s)"

definition run_commit :: "NRun \<Rightarrow> (tp \<times> EpochOffset) list \<Rightarrow> NRun" where
  "run_commit s unc =
     (case commitFrontier (wk s) (trk s) unc (committed s) of
        (c, f) \<Rightarrow> s\<lparr>committed := c, reqs := map (\<lambda>(k, eo). (k, Offset eo)) f @ reqs s\<rparr>)"

lemma nreach_poll:
  assumes "nreach cd s" "pos s (rec_tp rec) \<le> ROffset rec" "in_int64 (ROffset rec)" "in_int32 (RPartition rec)"
  shows "nreach cd (run_poll cd s rec)"
proof (cases "ProcessRecord cd (wk s) rec")
  case (Done r)
  obtain w pubs effs err where "r = (w, pubs, effs, err)" by (cases r)
  with Done nstep.poll [OF assms(2-4), of cd w pubs effs err] assms(1) show ?thesis
    by (simp add: run_poll_def nreach.step)
qed (use assms in \<open>simp_all add: run_poll_def\<close>)

lemma nreach_commit:
  assumes "nreach cd s" "\<forall>(k, eo) \<in> set unc. Offset eo \<le> pos s k"
  shows "nreach cd (run_commit s unc)"
proof -
  obtain c f where "commitFrontier (wk s) (trk s) unc (committed s) = (c, f)" by (cases "commitFrontier (wk s) (trk s) unc (committed s)")
  from nstep.commit [OF assms(2) this, of cd] this assms(1) show ?thesis by (simp add: run_commit_def nreach.step)
qed

definition demo_tp :: tp where
  "demo_tp = (''raw.ticks'', 0)"

definition demo_key :: string where
  "demo_key = ''coinbase:ticker:btc-usd''"

text \<open>The message of \<open>demo_rec off n\<close>, and the symbol's state with some messages parked.\<close>

definition demo_msg :: "int \<Rightarrow> nat \<Rightarrow> PipelineMessage" where
  "demo_msg off n = \<lparr>Exchange = Coinbase, Channel = Ticker, Symbol = ''BTC-USD'', SeqId = int n, Ts = 0,
     Raw = RawCoinbaseTicker \<lparr>ct_Sequence = int n, ct_ProductID = ''BTC-USD'', ct_Price = ''1'',
         ct_Open24h = ''1'', ct_Volume24h = ''1'', ct_Low24h = ''1'', ct_High24h = ''1'', ct_Time = ''t''\<rparr>,
     Record = Some (demo_rec off n), EventType = []\<rparr>"

definition demo_state :: "int \<Rightarrow> PipelineMessage list \<Rightarrow> SymbolState" where
  "demo_state lst ms = (fresh_state demo_key Coinbase Ticker ''BTC-USD'' CoinbaseTicker CoinbaseTicker CoinbaseTicker TickerPublisher)
     \<lparr>ordererBound := True, BufferSeqMap := map (\<lambda>m. (SeqId m, m)) ms, BufferSeqId := map SeqId ms,
      Gap := ms \<noteq> [], GapActive := ms \<noteq> [], LastSeqId := lst\<rparr>"

definition demo_worker :: "int \<Rightarrow> PipelineMessage list \<Rightarrow> NWorker" where
  "demo_worker lst ms = \<lparr>WorkerMap = [(demo_key, demo_state lst ms)], txnFailed = False\<rparr>"

lemma demo_buffer_key: "buffer_key Coinbase Ticker ''BTC-USD'' = demo_key"
  by code_simp

lemma demo_reg:
  "GetRegisteredConverter Coinbase Ticker = Some CoinbaseTicker" "GetRegisteredNormalizer Coinbase Ticker = Some CoinbaseTicker"
  "GetRegisteredOrderer Coinbase Ticker = Some CoinbaseTicker" "GetRegisteredPublisher Ticker = Some TickerPublisher"
  by (simp_all add: registered_alt publisher_alt reg_keys lower_channels GetConverter_def GetPublisher_def)

lemma demo_convert: "conv_CoinbaseTicker demo_codec (replicate n 0) = Done ((demo_msg off n)\<lparr>Record := None\<rparr>)"
  by (simp add: conv_CoinbaseTicker_def demo_codec_def of_opt_def demo_msg_def)

lemma demo_normalize: "norm_CoinbaseTicker demo_codec (demo_msg off n) = Done []"
  by (simp add: norm_CoinbaseTicker_def demo_codec_def of_opt_def demo_msg_def Let_def)

lemma demo_msg_simps [simp]:
  "SeqId (demo_msg off n) = int n" "SeqId ((demo_msg off n)\<lparr>Record := r\<rparr>) = int n"
  "(demo_msg off n)\<lparr>Record := Some (demo_rec off n)\<rparr> = demo_msg off n" "RValue (demo_rec off n) = replicate n 0"
  "RKey (demo_rec off n) = ''BTC-USD''" "Record (demo_msg off n) = Some (demo_rec off n)" "rec_tp (demo_rec off n) = (''raw.ticks'', 0)"
  "ROffset (demo_rec off n) = off"  "RPartition (demo_rec off n) = 0"
  by (simp_all add: demo_msg_def demo_rec_def rec_tp_def)

lemma demo_header: "json_Header demo_codec b = Some (Coinbase, Ticker)" by (simp add: demo_codec_def)

lemmas seq_defs = InitSequenceOrdererState_def guard_bound_def SequenceOrderer_def ProcessBuffer_def Ack_def SequenceAck_def
  is_seq_def Cleanup_def SequenceOrdererCleanup_def park_seq_def

lemma demo_first:
  "ProcessRecord demo_codec NewNWorker (demo_rec off n) =
     Done (demo_worker (int n) [], [Pub NormalizedTickerTopic demo_key (demo_msg off n) []], [], False)"
  by (simp add: ProcessRecord_def demo_header demo_buffer_key demo_reg NewNWorker_def process_with_def
    fresh_state_def demo_convert [of _ off] demo_normalize put_state_def seq_defs demo_worker_def demo_state_def Let_def)

lemma demo_older:
  "n < l \<Longrightarrow> ProcessRecord demo_codec (demo_worker (int l) []) (demo_rec off n) =
     Done (demo_worker (int n) [demo_msg off n], [], [StartTimer gapFlushTimeout demo_key], False)"
  by (simp add: ProcessRecord_def demo_header demo_buffer_key NewNWorker_def process_with_def
    fresh_state_def demo_convert [of _ off] put_state_def seq_defs demo_worker_def demo_state_def Let_def)

definition demo_1 :: NRun where
  "demo_1 = run_poll demo_codec NRun_init (demo_rec 0 3)"

definition demo_2 :: NRun where
  "demo_2 = settle demo_1 0 True"

definition demo_3 :: NRun where
  "demo_3 = run_poll demo_codec demo_2 (demo_rec 1 1)"

definition demo_4 :: NRun where
  "demo_4 = run_commit demo_3 [(demo_tp, \<lparr>Epoch = 0, Offset = 2\<rparr>)]"

definition demo_5 :: NRun where
  "demo_5 = demo_4\<lparr>broker := (broker demo_4)(demo_tp \<mapsto> 1)\<rparr>"

lemma demo_source:
  "source (RHeaders (ProduceAsync topic key (demo_msg 0 n) b)) = Some (demo_tp, 0)"
  by (simp add: ProduceAsync_def demo_rec_def Decode_def Encode_def demo_tp_def)

lemma demo_1_is:
  "demo_1 = NRun_init\<lparr>wk := demo_worker 3 [], trk := \<lparr>inflight = [(demo_tp, [0])], failed = False\<rparr>,
     flight := [ProduceAsync NormalizedTickerTopic demo_key (demo_msg 0 3) []], pos := (\<lambda>_. 0)(demo_tp := 1)\<rparr>"
  by (simp add: demo_1_def run_poll_def NRun_init_def demo_first emit_def Produce_def demo_source add_def NewSourceTracker_def
    offs_of_def List.insert_def demo_tp_def)

lemma demo_2_is:
  "demo_2 = NRun_init\<lparr>wk := demo_worker 3 [], trk := \<lparr>inflight = [(demo_tp, [])], failed = False\<rparr>,
     pos := (\<lambda>_. 0)(demo_tp := 1), acked := [(demo_tp, 0)]\<rparr>"
  by (simp add: demo_2_def demo_1_is settle_def demo_source promise_def done_ack_def NRun_init_def)

lemma demo_3_is:
  "demo_3 = demo_2\<lparr>wk := demo_worker 1 [demo_msg 1 1], pos := (\<lambda>_. 0)(demo_tp := 2)\<rparr>"
  using demo_older [of 1 3 1]
  by (simp add: demo_3_def run_poll_def demo_2_is emit_def NRun_init_def demo_tp_def fun_upd_twist)

lemma demo_buffered: "all_buffered (demo_worker l [demo_msg off n]) = [demo_msg off n]"
  by (simp add: all_buffered_def demo_worker_def demo_state_def buffered_def fresh_state_def List.map_filter_def is_seq_def)

lemma demo_4_is:
  "demo_4 = demo_3\<lparr>committed := [demo_tp \<mapsto> 1], reqs := [(demo_tp, 1)]\<rparr>"
  by (simp add: demo_4_def run_commit_def demo_3_is demo_2_is commitFrontier_def Frontier_def NRun_init_def MinInflight_def
    min_loop_def bufferedSources_def demo_buffered source_of_def map_filter_Cons_opt List.map_filter_simps min_upd_def
    held_back_def demo_rec_def demo_tp_def)

lemma demo_reach: "nreach demo_codec demo_1" "nreach demo_codec demo_2" "nreach demo_codec demo_3" "nreach demo_codec demo_4"
  "nreach demo_codec demo_5"
proof -
  show 1: "nreach demo_codec demo_1"
    unfolding demo_1_def by (rule nreach_poll [OF nreach.start]) (simp_all add: NRun_init_def in_int64_def in_int32_def)
  show 2: "nreach demo_codec demo_2"
    unfolding demo_2_def by (rule nreach.step [OF 1], rule nstep.answer) (simp add: demo_1_is)
  show 3: "nreach demo_codec demo_3"
    unfolding demo_3_def by (rule nreach_poll [OF 2]) (simp_all add: demo_2_is demo_tp_def in_int64_def in_int32_def)
  show 4: "nreach demo_codec demo_4"
    unfolding demo_4_def by (rule nreach_commit [OF 3]) (simp add: demo_3_is demo_2_is)
  show "nreach demo_codec demo_5"
    unfolding demo_5_def by (rule nreach.step [OF 4], rule nstep.apply_req) (simp add: demo_4_is)
qed

section \<open>Delivery\<close>

lemma distinct_if_count_le: "\<forall>x. count (mset xs) x \<le> 1 \<Longrightarrow> distinct xs"
proof (induction xs)
  case (Cons a xs)
  have "count (mset xs) x \<le> 1" for x
    using order_trans [OF _ Cons.prems [rule_format, of x]] by simp
  moreover have "a \<notin> set xs" using Cons.prems [rule_format, of a] by (simp add: count_eq_zero_iff flip: set_mset_mset)
  ultimately show ?case using Cons.IH by simp
qed simp

text \<open>
  C1. At-least-once delivery. In every reachable state, an offset the broker holds for a partition is not past the
  position polled, and every record of that partition that is still unacknowledged, failed, or parked in an
  orderer's buffer has an offset at or above it: a restart re-reads all of them.
\<close>

theorem at_least_once_safe:
  assumes "nreach cd s" and "broker s k = Some c"
  shows "c \<le> pos s k \<and>
    (\<forall>off. (k, off) \<in> set (flight_srcs (flight s)) \<union> set (lost s) \<union> set (buffer_srcs (wk s)) \<longrightarrow> c \<le> off)"
  using run_invD(7) [OF nreach_inv [OF assms(1)], OF disjI2, OF assms(2)] unfolding behind_def .

lemma at_least_once_safe_witness:
  "broker demo_5 demo_tp = Some 1 \<and> buffer_srcs (wk demo_5) = [(demo_tp, 1)] \<and> (1::int) \<le> pos demo_5 demo_tp"
proof -
  have "broker demo_5 demo_tp = Some 1" by (simp add: demo_5_def)
  moreover have "buffer_srcs (wk demo_5) = [(demo_tp, 1)]"
    by (simp add: demo_5_def demo_4_is demo_3_is buffer_srcs_def demo_buffered source_of_def map_filter_Cons_opt
      List.map_filter_simps demo_rec_def demo_tp_def)
  ultimately show ?thesis using at_least_once_safe [OF demo_reach(5), of demo_tp 1] by blast
qed

text \<open>
  C18. While the process runs, no consumed record is published twice: the source coordinates of the produces in
  flight, acknowledged and failed are pairwise different, and different from those of the parked messages.
\<close>

theorem no_double_publish:
  assumes "nreach cd s"
  shows "distinct (flight_srcs (flight s) @ acked s @ lost s @ buffer_srcs (wk s))"
proof -
  have "live s = mset (flight_srcs (flight s) @ acked s @ lost s @ buffer_srcs (wk s))"
    by (simp add: live_def)
  with run_invD(5) [OF nreach_inv [OF assms]] show ?thesis by (metis distinct_if_count_le)
qed

lemma no_double_publish_witness:
  "acked demo_5 = [(demo_tp, 0)] \<and> distinct (flight_srcs (flight demo_5) @ acked demo_5 @ lost demo_5 @ buffer_srcs (wk demo_5))"
  using no_double_publish [OF demo_reach(5)] by (simp add: demo_5_def demo_4_is demo_3_is demo_2_is)

text \<open>
  C19. A buffer flush of a symbol whose messages all normalize returns (no panic, even for messages that share a
  timestamp), publishes every buffered message exactly once, in increasing sequence id or in
  nondecreasing timestamp according to the symbol's orderer, and leaves the buffer empty.
\<close>

theorem FlushBuffer_complete:
  assumes "nreach cd s" and "map_of (WorkerMap (wk s)) key = Some st" and "ordererBound st"
    and "\<forall>m \<in> set (buffered st). \<exists>b. Normalize (Normalizer st) cd m = Done b"
  shows "\<exists>st' pubs. do_FlushBuffer cd (wk s) key = Done (put_state (wk s) key st', pubs, [], False) \<and>
    buffered st' = [] \<and> mset (pub_msgs pubs) = mset (buffered st) \<and>
    (if is_seq (Orderer st) then sorted_wrt (<) (map SeqId (pub_msgs pubs)) else sorted_wrt (\<le>) (map Ts (pub_msgs pubs)))"
proof -
  have w: "nw_inv (wk s)" using run_invD(1) [OF nreach_inv [OF assms(1)]] .
  have i: "ord_inv st" using nw_invD [OF w assms(2)] assms(3) by (simp add: st_inv_def)
  have "\<forall>m \<in> set (buffered st). Normalize (Normalizer st) cd m \<noteq> Panic" using assms(4) by (metis outcome.distinct(3))
  then obtain st1 buf st2 where
    f: "PrepareBufferFlush (Orderer st) st = Done (st1, buf)" and
    r: "do_FlushBuffer cd (wk s) key = Done (put_state (wk s) key st2, pubs_of cd key st buf, [], False)" "buffered st2 = []"
      "mset buf = mset (buffered st)" by (rule do_FlushBuffer_total [OF w assms(2,3)])
  have "set buf = set (buffered st)" using r(3) by (metis set_mset_mset)
  then have pm: "pub_msgs (pubs_of cd key st buf) = buf" using assms(4) by (intro pub_msgs_all) simp
  have "if is_seq (Orderer st) then sorted_wrt (<) (map SeqId buf) else sorted_wrt (\<le>) (map Ts buf)"
    using f assms(3) i SequenceSortBufferFlush_msgs(2) [of st] PrepareTsBufferFlush_msgs(2) [of st]
    by (auto simp: PrepareBufferFlush_def guard_bound_def ord_inv_def split: if_splits)
  with r pm show ?thesis by auto
qed

lemma FlushBuffer_complete_witness:
  "map_of (WorkerMap (wk demo_3)) demo_key = Some (demo_state 1 [demo_msg 1 1]) \<and>
   (\<exists>st' pubs. do_FlushBuffer demo_codec (wk demo_3) demo_key = Done (put_state (wk demo_3) demo_key st', pubs, [], False) \<and>
      buffered st' = [] \<and> mset (pub_msgs pubs) = {#demo_msg 1 1#})"
proof -
  let ?st = "demo_state 1 [demo_msg 1 1]"
  have b: "buffered ?st = [demo_msg 1 1]"
    by (simp add: demo_state_def buffered_def fresh_state_def List.map_filter_def is_seq_def)
  have m: "map_of (WorkerMap (wk demo_3)) demo_key = Some ?st" by (simp add: demo_3_is demo_worker_def)
  have n: "ordererBound ?st" "\<forall>m \<in> set (buffered ?st). \<exists>b. Normalize (Normalizer ?st) demo_codec m = Done b"
    using b demo_normalize by (auto simp: demo_state_def fresh_state_def)
  from FlushBuffer_complete [OF demo_reach(3) m n] m b show ?thesis by auto
qed

section \<open>The transactional mode\<close>

text \<open>
  \<open>Run\<close>, the exactly-once mode, on the same state: the handlers produce inside the open transaction, and at each
  commit interval \<open>endTransaction\<close> ends it. The client commits, with a transaction that commits, the position
  after the last record polled of every partition, and rewinds to the committed position when it aborts; the
  outputs of a committed transaction become visible together (\<open>acked\<close>).
\<close>

inductive tstep :: "codec \<Rightarrow> NRun \<Rightarrow> NRun \<Rightarrow> bool" for cd where
  t_poll: "\<lbrakk>pos s (rec_tp rec) \<le> ROffset rec; ProcessRecord cd (wk s) rec = Done (w, pubs, effs, err)\<rbrakk> \<Longrightarrow>
     tstep cd s (s\<lparr>wk := w, flight := flight s @ map record_of pubs, pos := (pos s)(rec_tp rec := ROffset rec + 1)\<rparr>)"
| t_flush: "do_FlushBuffer cd (wk s) key = Done (w, pubs, effs, err) \<Longrightarrow>
     tstep cd s (s\<lparr>wk := w, flight := flight s @ map record_of pubs\<rparr>)"
| t_snap: "ProcessSnapshotReady cd now (wk s) dr = Done (w, pubs, effs, err) \<Longrightarrow>
     tstep cd s (s\<lparr>wk := w, flight := flight s @ map record_of pubs\<rparr>)"
| t_fail: "tstep cd s (s\<lparr>wk := onFailure (wk s)\<rparr>)"
| t_commit: "endTransaction (wk s) = (w, TryCommit) \<Longrightarrow>
     tstep cd s (s\<lparr>wk := w, flight := [], acked := flight_srcs (flight s) @ acked s,
       broker := (\<lambda>k. if pos s k = 0 then broker s k else Some (pos s k))\<rparr>)"
| t_abort: "endTransaction (wk s) = (w, TryAbort) \<Longrightarrow>
     tstep cd s (s\<lparr>wk := w, flight := [], pos := (\<lambda>k. case broker s k of None \<Rightarrow> 0 | Some c \<Rightarrow> c)\<rparr>)"

inductive treach :: "codec \<Rightarrow> NRun \<Rightarrow> bool" for cd where
  t_start: "treach cd NRun_init"
| t_step: "treach cd s \<Longrightarrow> tstep cd s s' \<Longrightarrow> treach cd s'"

text \<open>
  The transactional mode is not exactly-once for records an orderer has parked. There is a run without any failure
  in which the offset committed with the transaction is past a record that is only in the worker's buffer, with no
  output produced for it: if the process stops there, the record is lost. The at-least-once mode holds its commit
  back for such records, this mode does not.
\<close>

theorem transaction_commits_parked:
  "\<exists>s k c off. treach demo_codec s \<and> broker s k = Some c \<and> (k, off) \<in> set (buffer_srcs (wk s)) \<and> off < c \<and>
     (k, off) \<notin> set (acked s) \<and> flight s = []"
proof -
  let ?out = "ProduceAsync NormalizedTickerTopic demo_key (demo_msg 0 3) []"
  let ?s1 = "NRun_init\<lparr>wk := demo_worker 3 [], flight := [?out], pos := (\<lambda>_. 0)(demo_tp := 1)\<rparr>"
  let ?s2 = "NRun_init\<lparr>wk := demo_worker 1 [demo_msg 1 1], flight := [?out], pos := (\<lambda>_. 0)(demo_tp := 2)\<rparr>"
  let ?s3 = "?s2\<lparr>flight := [], acked := [(demo_tp, 0)], broker := (\<lambda>k. if k = demo_tp then Some 2 else None)\<rparr>"
  have d: "rec_tp (demo_rec off n) = demo_tp" for off n by (simp add: demo_tp_def)
  have "tstep demo_codec NRun_init ?s1"
    using tstep.t_poll [of NRun_init "demo_rec 0 3" demo_codec _ _ "[]" False, unfolded d] demo_first [of 0 3] by (simp add: NRun_init_def)
  then have 1: "treach demo_codec ?s1" by (rule treach.t_step [OF treach.t_start])
  have "tstep demo_codec ?s1 ?s2"
    using tstep.t_poll [of ?s1 "demo_rec 1 1" demo_codec _ _ _ False, unfolded d] demo_older [of 1 3 1] by simp
  then have 2: "treach demo_codec ?s2" by (rule treach.t_step [OF 1])
  have "endTransaction (wk ?s2) = (demo_worker 1 [demo_msg 1 1], TryCommit)"
    by (simp add: endTransaction_def demo_worker_def)
  from tstep.t_commit [OF this, of demo_codec] have "tstep demo_codec ?s2 ?s3"
    by (simp add: flight_srcs_def map_filter_Cons_opt List.map_filter_simps demo_source NRun_init_def if_distrib cong: if_cong)
  then have 3: "treach demo_codec ?s3" by (rule treach.t_step [OF 2])
  have "buffer_srcs (wk ?s3) = [(demo_tp, 1)]"
    by (simp add: buffer_srcs_def demo_buffered source_of_def map_filter_Cons_opt List.map_filter_simps demo_rec_def demo_tp_def)
  with 3 show ?thesis by (intro exI [of _ ?s3] exI [of _ demo_tp] exI [of _ 2] exI [of _ 1]) simp
qed

section \<open>Ordering and wiring\<close>

lemma Order_no_send:
  assumes "ord_inv st" "Order (Orderer st) st msg key = Done (st', out, effs)"
  shows "SendFlush k \<notin> set effs"
proof -
  have seq: ?thesis if "seq_inv st0" "\<not> NeedsSnapshot st0" "SequenceOrderer msg st0 key = (st', out, effs)" for st0
    using SequenceOrderer_inv(2) [OF that] .
  have q: "seq_inv (st\<lparr>NeedsSnapshot := True\<rparr>)" if "seq_inv st" using that by (simp add: seq_inv_def)
  show ?thesis
    using assms seq [of st] q
    by (cases "Orderer st")
      (auto simp: ord_inv_def is_seq_def guard_bound_def BookOrderWithResync_def TsOrder_def BinanceDepthOrder_def Let_def
        split: if_splits option.splits)
qed

lemma process_with_no_send:
  assumes "st_inv key st"
    and f: "fresh \<Longrightarrow> BufferSeqMap st = [] \<and> BufferTimeMap st = [] \<and> BufferSeqId st = [] \<and> BufferTime st = [] \<and> \<not> NeedsSnapshot st"
    and p: "process_with cd w st fresh rec = Done (w', pubs, effs, err)"
  shows "SendFlush k \<notin> set effs"
proof (cases "Convert (Converter st) cd (RValue rec)")
  case (Done msg0)
  define st1 where "st1 = (if fresh then InitOrderer (Orderer st) st msg0 else st)"
  define msg where "msg = msg0\<lparr>Record := Some rec\<rparr>"
  from p Done obtain st2 out where o: "Order (Orderer st1) st1 msg (BufferKey st1) = Done (st2, out, effs)"
    unfolding process_with_def st1_def [symmetric] msg_def [symmetric]
    by (auto simp: Let_def bind_out_Done st1_def [symmetric] msg_def [symmetric] split: if_splits)
  then have "ordererBound st1 \<or> Orderer st1 = KrakenTicker"
    by (cases "Orderer st1") (auto simp: guard_bound_def split: if_splits)
  then have "ord_inv st1" using assms(1) f InitOrderer_inv(1) [of st msg0] by (auto simp: st1_def st_inv_def)
  from Order_no_send [OF this o] show ?thesis .
qed (use p in \<open>auto simp: process_with_def\<close>)

lemma ProcessRecord_no_send:
  assumes w: "nw_inv w" and p: "ProcessRecord cd w rec = Done (w', pubs, effs, err)"
  shows "SendFlush k \<notin> set effs"
proof (cases "json_Header cd (RValue rec)")
  case (Some h)
  obtain ex ch where h: "h = (ex, ch)" by (cases h)
  let ?key = "buffer_key ex ch (RKey rec)"
  show ?thesis
  proof (cases "map_of (WorkerMap w) ?key")
    case None: None
    have "st_inv ?key (fresh_state ?key ex ch (RKey rec) c o' n q)" for c o' n q
      by (simp add: st_inv_def fresh_state_def ord_inv_def is_seq_def)
    from process_with_no_send [OF this] p Some h None show ?thesis
      by (auto simp: ProcessRecord_def Let_def fresh_state_def split: option.splits)
  next
    case (Some st)
    with p h \<open>json_Header cd (RValue rec) = Some h\<close> have "process_with cd w st False rec = Done (w', pubs, effs, err)"
      by (simp add: ProcessRecord_def Let_def)
    from process_with_no_send [OF nw_invD [OF w Some] _ this] show ?thesis by simp
  qed
qed (use p in \<open>simp add: ProcessRecord_def\<close>)

text \<open>
  The worker never sends on the event channel it is the only reader of: in a reachable state, handling a record
  never takes the branch of \<open>SequenceOrderer\<close> that posts a flush to the worker itself, which would block it
  forever once the channel is full.
\<close>

theorem no_self_send:
  assumes "nreach cd s" and "ProcessRecord cd (wk s) rec = Done (w, pubs, effs, err)"
  shows "SendFlush key \<notin> set effs"
  using ProcessRecord_no_send [OF run_invD(1) [OF nreach_inv [OF assms(1)]] assms(2)] .

lemma no_self_send_witness:
  "ProcessRecord demo_codec (wk demo_2) (demo_rec 1 1) =
     Done (demo_worker 1 [demo_msg 1 1], [], [StartTimer gapFlushTimeout demo_key], False) \<and>
   SendFlush demo_key \<notin> set [StartTimer gapFlushTimeout demo_key]"
proof -
  have e: "ProcessRecord demo_codec (wk demo_2) (demo_rec 1 1) =
     Done (demo_worker 1 [demo_msg 1 1], [], [StartTimer gapFlushTimeout demo_key], False)"
    using demo_older [of 1 3 1] by (simp add: demo_2_is)
  with no_self_send [OF demo_reach(2) e] show ?thesis by blast
qed

text \<open>
  C40. A symbol whose first record cannot be converted stays in the worker map with an orderer that was never bound:
  the next record of the symbol that does convert makes the worker panic. Only the Kraken ticker, whose orderer
  has no state, recovers.
\<close>

theorem first_failure_poisons_symbol:
  assumes "json_Header cd (RValue bad) = Some (ex, ch)" and "json_Header cd (RValue good) = Some (ex, ch)"
    and "RKey good = RKey bad" and "map_of (WorkerMap w) (buffer_key ex ch (RKey bad)) = None"
    and "GetRegisteredConverter ex ch = Some strm" and "GetRegisteredPublisher ch = Some p"
    and "Convert strm cd (RValue bad) = Fail" and "Convert strm cd (RValue good) = Done msg"
  shows "\<exists>w'. ProcessRecord cd w bad = Done (w', [], [], True) \<and>
    (ProcessRecord cd w' good = Panic \<longleftrightarrow>
       strm \<noteq> KrakenTicker \<or> Normalize KrakenTicker cd (msg\<lparr>Record := Some good\<rparr>) = Panic)"
proof -
  let ?key = "buffer_key ex ch (RKey bad)"
  let ?st = "fresh_state ?key ex ch (RKey bad) strm strm strm p"
  have g: "GetRegisteredOrderer ex ch = Some strm" "GetRegisteredNormalizer ex ch = Some strm"
    using assms(5) by (simp_all add: registered_alt)
  have "ProcessRecord cd w bad = Done (put_state w ?key ?st, [], [], True)"
    using assms g by (simp add: ProcessRecord_def process_with_def Let_def fresh_state_def)
  moreover have "ProcessRecord cd (put_state w ?key ?st) good = process_with cd (put_state w ?key ?st) ?st False good"
    using assms(2,3) by (simp add: ProcessRecord_def Let_def put_state_def AList.update_conv')
  moreover have "process_with cd w' ?st False good = Panic \<longleftrightarrow>
      strm \<noteq> KrakenTicker \<or> Normalize KrakenTicker cd (msg\<lparr>Record := Some good\<rparr>) = Panic" for w'
    using assms(8)
    by (cases strm) (auto simp: process_with_def Let_def fresh_state_def guard_bound_def ProcessBuffer_def Ack_def Cleanup_def
      split: outcome.splits)
  ultimately show ?thesis by auto
qed

definition demo_bad_codec :: codec where
  "demo_bad_codec = demo_codec\<lparr>json_CoinbaseTicker := (\<lambda>b. if b = [] then None else json_CoinbaseTicker demo_codec b)\<rparr>"

lemma first_failure_poisons_symbol_witness:
  "\<exists>w'. ProcessRecord demo_bad_codec NewNWorker (demo_rec 0 0) = Done (w', [], [], True) \<and>
     ProcessRecord demo_bad_codec w' (demo_rec 1 3) = Panic"
proof -
  have "Convert CoinbaseTicker demo_bad_codec (RValue (demo_rec 0 0)) = Fail"
    by (simp add: conv_CoinbaseTicker_def demo_bad_codec_def of_opt_def)
  moreover have "Convert CoinbaseTicker demo_bad_codec (RValue (demo_rec 1 3)) = Done ((demo_msg 1 3)\<lparr>Record := None\<rparr>)"
    using demo_convert [of 3 1] by (simp add: conv_CoinbaseTicker_def demo_bad_codec_def)
  ultimately show ?thesis
    using first_failure_poisons_symbol [of demo_bad_codec "demo_rec 0 0" Coinbase Ticker "demo_rec 1 3" NewNWorker CoinbaseTicker
      TickerPublisher "(demo_msg 1 3)\<lparr>Record := None\<rparr>"] demo_reg
    by (simp add: demo_bad_codec_def demo_header NewNWorker_def)
qed

text \<open>The stream whose converter makes a given raw message.\<close>

fun raw_stream :: "RawMessage \<Rightarrow> stream" where
  "raw_stream (RawAggTrade _) = BinanceAggTrade"
| "raw_stream (RawDepth _) = BinanceDepth"
| "raw_stream (RawCoinbaseTicker _) = CoinbaseTicker"
| "raw_stream (RawLevel2 _) = CoinbaseLevel2"
| "raw_stream (RawKrakenTicker _) = KrakenTicker"
| "raw_stream (RawKrakenBook _) = KrakenBook"

lemma Convert_typed:
  "Convert strm cd raw = Done m \<Longrightarrow> raw_stream (Raw m) = strm \<and> GetConverter (reg_key (Exchange m) (Channel m)) = Some strm"
  by (cases strm)
    (auto simp: conv_BinanceAggTrade_def conv_BinanceDepth_def conv_CoinbaseTicker_def conv_CoinbaseLevel2_def
      conv_KrakenTicker_def conv_KrakenBook_def bind_out_Done Let_def reg_keys GetConverter_def split: if_splits)

lemma Normalize_mistyped: "raw_stream (Raw m) \<noteq> strm \<Longrightarrow> Normalize strm cd m = Fail"
  by (cases strm; cases "Raw m")
    (simp_all add: norm_BinanceAggTrade_def norm_BinanceDepth_def norm_CoinbaseTicker_def norm_CoinbaseLevel2_def
      norm_KrakenTicker_def norm_KrakenBook_def)

text \<open>What a stream's normalizer encodes: a ticker message, or a book message for the streams of book updates.\<close>

lemma Normalize_encodes:
  assumes "Normalize strm cd m = Done b"
  shows "if strm \<in> {BinanceDepth, CoinbaseLevel2, KrakenBook} then \<exists>x. marshal_Book cd x = Some b else \<exists>x. marshal_Ticker cd x = Some b"
  using assms
  by (cases strm; cases "Raw m")
    (auto simp: norm_BinanceAggTrade_def norm_BinanceDepth_def norm_CoinbaseTicker_def norm_CoinbaseLevel2_def
      norm_KrakenTicker_def norm_KrakenBook_def bind_out_Done of_opt_def Let_def split: option.splits if_splits prod.splits)

lemma channel_publishers:
  "GetRegisteredPublisher AggTrade = Some TickerPublisher" "GetRegisteredPublisher Ticker = Some TickerPublisher"
  "GetRegisteredPublisher DepthChannel = Some BookPublisher" "GetRegisteredPublisher Level2 = Some BookPublisher"
  "GetRegisteredPublisher Book = Some BookPublisher"
  by (simp_all add: publisher_alt lower_channels GetPublisher_def)

lemma Convert_publisher:
  assumes "Convert strm cd raw = Done m"
  shows "GetRegisteredPublisher (Channel m) = Some (if strm \<in> {BinanceDepth, CoinbaseLevel2, KrakenBook} then BookPublisher else TickerPublisher)"
  using assms
  by (cases strm)
    (auto simp: conv_BinanceAggTrade_def conv_BinanceDepth_def conv_CoinbaseTicker_def conv_CoinbaseLevel2_def
      conv_KrakenTicker_def conv_KrakenBook_def bind_out_Done Let_def channel_publishers split: if_splits)

text \<open>
  C35. The registries agree: an exchange and channel with a converter has the orderer and the normalizer of the same
  stream. What the converter makes carries that exchange and channel and the concrete message type of the stream, the only
  type its normalizer does not reject, and the publisher of its channel is the one for what the normalizer encodes: the
  book publisher, to the topic of books, for the three streams of book updates, whose normalizers encode books, and the ticker
  publisher, to the topic of ticks, for the other three, whose normalizers encode ticks.
\<close>

theorem registries_agree:
  assumes "GetRegisteredConverter ex ch = Some strm"
  shows "GetRegisteredOrderer ex ch = Some strm \<and> GetRegisteredNormalizer ex ch = Some strm \<and>
    (Convert strm cd raw = Done m \<longrightarrow>
       raw_stream (Raw m) = strm \<and> GetRegisteredConverter (Exchange m) (Channel m) = Some strm \<and>
       (\<exists>p. GetRegisteredPublisher (Channel m) = Some p \<and>
          p = (if strm \<in> {BinanceDepth, CoinbaseLevel2, KrakenBook} then BookPublisher else TickerPublisher) \<and>
          (\<forall>r b. Normalize strm cd (m\<lparr>Record := r\<rparr>) = Done b \<longrightarrow>
             (if PublishTopic p = NormalizedBookTopic then \<exists>x. marshal_Book cd x = Some b
              else PublishTopic p = NormalizedTickerTopic \<and> (\<exists>x. marshal_Ticker cd x = Some b))))) \<and>
    (raw_stream (Raw m) \<noteq> strm \<longrightarrow> Normalize strm cd m = Fail)"
proof -
  let ?p = "if strm \<in> {BinanceDepth, CoinbaseLevel2, KrakenBook} then BookPublisher else TickerPublisher"
  have "NormalizedTickerTopic \<noteq> NormalizedBookTopic" by (simp add: NormalizedTickerTopic_def NormalizedBookTopic_def)
  then have "if PublishTopic ?p = NormalizedBookTopic then \<exists>x. marshal_Book cd x = Some b
      else PublishTopic ?p = NormalizedTickerTopic \<and> (\<exists>x. marshal_Ticker cd x = Some b)"
    if "Normalize strm cd (m\<lparr>Record := r\<rparr>) = Done b" for r b
    using Normalize_encodes [OF that] by (auto split: if_splits)
  then show ?thesis using assms Convert_publisher [of strm cd raw m] Convert_typed [of strm cd raw m] Normalize_mistyped [of m strm cd]
    by (simp add: registered_alt)
qed

lemma registries_agree_witness:
  "GetRegisteredOrderer Coinbase Ticker = Some CoinbaseTicker \<and> GetRegisteredNormalizer Coinbase Ticker = Some CoinbaseTicker \<and>
   raw_stream (Raw ((demo_msg 0 3)\<lparr>Record := None\<rparr>)) = CoinbaseTicker \<and> GetRegisteredPublisher (Channel (demo_msg 0 3)) = Some TickerPublisher"
  using registries_agree [OF demo_reg(1), of demo_codec "replicate 3 0" "(demo_msg 0 3)\<lparr>Record := None\<rparr>"]
    demo_convert [of 3 0] by simp

section \<open>Snapshots\<close>

text \<open>What acknowledging the messages \<open>ms\<close> leaves of the fields that matter after a sequence flush.\<close>

definition seq_acked :: "SymbolState \<Rightarrow> PipelineMessage list \<Rightarrow> SymbolState \<Rightarrow> bool" where
  "seq_acked st ms st' \<longleftrightarrow>
     LastSeqId st' = (if ms = [] then LastSeqId st else SeqId (last ms)) \<and> NeedsSnapshot st' = NeedsSnapshot st \<and>
     SnapshotPending st' = SnapshotPending st \<and> BufferTimeMap st' = BufferTimeMap st"

lemma process_msgs_seq:
  assumes "is_seq (Orderer st)" "ordererBound st" "\<forall>m \<in> set ms. \<exists>b. Normalize (Normalizer st) cd m = Done b"
  shows "\<exists>st'. process_msgs cd key st ms = Done (st', pubs_of cd key st ms) \<and> same_conf st st' \<and>
    seq_acked st ms st'"
  using assms
proof (induction ms arbitrary: st)
  case (Cons m ms)
  let ?st = "SequenceAck st m"
  have c: "same_conf st ?st" by (simp add: same_conf_def SequenceAck_def)
  have k: "Orderer st \<noteq> KrakenTicker" using Cons.prems(1) by (auto simp: is_seq_def)
  obtain b where b: "Normalize (Normalizer st) cd m = Done b" using Cons.prems(3) by auto
  have s: "Orderer ?st = Orderer st" "ordererBound ?st = ordererBound st" "Normalizer ?st = Normalizer st"
    by (simp_all add: SequenceAck_def)
  have "\<exists>st'. process_msgs cd key ?st ms = Done (st', pubs_of cd key ?st ms) \<and> same_conf ?st st' \<and>
    seq_acked ?st ms st'"
    by (rule Cons.IH) (use Cons.prems s in simp_all)
  then obtain st' where
    "process_msgs cd key ?st ms = Done (st', pubs_of cd key ?st ms)" "same_conf ?st st'"
    "seq_acked ?st ms st'" by blast
  then show ?case
    using b k Cons.prems(1,2) pubs_of_conf [OF c] same_conf_trans [OF c]
    by (simp add: Ack_def guard_bound_def seq_acked_def SequenceAck_def)
qed (simp add: seq_acked_def)

lemma seq_Cleanup:
  assumes "is_seq (Orderer st)" "ordererBound st"
  shows "Cleanup (Orderer st) st = Done (SequenceOrdererCleanup st)"
  using assms by (auto simp: Cleanup_def guard_bound_def is_seq_def)

lemma Cleanup_simps [simp]:
  "Orderer (SequenceOrdererCleanup st) = Orderer st" "ordererBound (SequenceOrdererCleanup st) = ordererBound st"
  "LastSeqId (SequenceOrdererCleanup st) = LastSeqId st" "NeedsSnapshot (SequenceOrdererCleanup st) = NeedsSnapshot st"
  "BufferTimeMap (SequenceOrdererCleanup st) = BufferTimeMap st" "BufferSeqMap (SequenceOrdererCleanup st) = []"
  "SnapshotPending (SequenceOrdererCleanup st) = SnapshotPending st"
  by (simp_all add: SequenceOrdererCleanup_def)

lemma seq_ProcessBuffer:
  assumes "is_seq (Orderer st)" "ordererBound st" "\<forall>m \<in> set ms. \<exists>b. Normalize (Normalizer st) cd m = Done b"
  shows "\<exists>st'. ProcessBuffer cd key st ms = Done (SequenceOrdererCleanup st', pubs_of cd key st ms) \<and> same_conf st st' \<and>
    seq_acked st ms st'"
proof -
  from process_msgs_seq [OF assms] obtain st' where p: "process_msgs cd key st ms = Done (st', pubs_of cd key st ms)"
    "same_conf st st'" "seq_acked st ms st'" by blast
  then have "Cleanup (Orderer st') st' = Done (SequenceOrdererCleanup st')"
    using assms(1,2) by (intro seq_Cleanup) (simp_all add: same_conf_def)
  then have "ProcessBuffer cd key st ms = Done (SequenceOrdererCleanup st', pubs_of cd key st ms)"
    by (simp add: ProcessBuffer_def p(1))
  with p show ?thesis by blast
qed

lemma splice_with_parked:
  assumes "nreach cd s" and "map_of (WorkerMap (wk s)) (dr_BufferKey dr) = Some st" and "SnapshotResult dr = Some sn"
    and "Orderer st = BinanceDepth" and "ordererBound st"
    and "\<forall>m \<in> set (buffered st). \<exists>b. Normalize (Normalizer st) cd m = Done b"
    and "buildBinanceSnapshotProto cd now (dr_Exchange dr) (dr_Channel dr) (dr_Symbol dr) sn = Done snap"
  shows "\<exists>buf st' pubs effs.
    ProcessSnapshotReady cd now (wk s) dr = Done (put_state (wk s) (dr_BufferKey dr) st', pubs, effs, False) \<and>
    mset buf = mset (buffered st) \<and> sorted_wrt (<) (map SeqId buf) \<and>
    (let left = filter (survives sn) buf
     in if stale sn left
        then pubs = [] \<and> mset (buffered st') = mset (buffered st) \<and> SnapshotPending st' \<and>
             effs = [FetchSnapshot (dr_Exchange dr) (dr_Channel dr) (dr_Symbol dr) (dr_BufferKey dr)]
        else (\<exists>pubs'. pubs = SnapPub (PublishTopic (Publisher st)) (dr_BufferKey dr) snap # pubs' \<and> pub_msgs pubs' = left) \<and>
             effs = [] \<and> buffered st' = [] \<and> \<not> NeedsSnapshot st' \<and> \<not> SnapshotPending st' \<and>
             LastSeqId st' = (if left = [] then LastUpdateID sn else SeqId (last left)))"
proof -
  let ?key = "dr_BufferKey dr" and ?st = "st\<lparr>SnapshotPending := False\<rparr>"
  have w: "nw_inv (wk s)" using run_invD(1) [OF nreach_inv [OF assms(1)]] .
  have "ord_inv st" using nw_invD [OF w assms(2)] assms(5) by (simp add: st_inv_def)
  then have i: "ord_inv ?st" using ord_inv_flags(1) [of st True False] assms(4) by simp
  then have q: "seq_inv ?st" "BufferTimeMap ?st = []" using assms(4) by (simp_all add: ord_inv_def is_seq_def)
  obtain st1 buf where e: "SequenceSortBufferFlush ?st = (st1, buf)" by (cases "SequenceSortBufferFlush ?st")
  then have f: "PrepareBufferFlush (Orderer ?st) ?st = Done (st1, buf)"
    using assms(4,5) by (simp add: PrepareBufferFlush_def guard_bound_def is_seq_def)
  have st1: "st1 = ?st\<lparr>BufferSeqId := sort (BufferSeqId ?st)\<rparr>" using e by (auto simp: SequenceSortBufferFlush_def Let_def)
  have bst: "buffered ?st = buffered st" by (simp add: buffered_def)
  note k = PrepareBufferFlush_keeps [OF i f, unfolded bst]
  have srt: "sorted_wrt (<) (map SeqId buf)" using SequenceSortBufferFlush_msgs(2) [OF q(1)] e by simp
  let ?left = "filter (survives sn) buf"
  show ?thesis
  proof (cases "stale sn ?left")
    case True
    have "ProcessSnapshotReady cd now (wk s) dr = Done (put_state (wk s) ?key (st1\<lparr>SnapshotPending := True\<rparr>), [],
        [FetchSnapshot (dr_Exchange dr) (dr_Channel dr) (dr_Symbol dr) ?key], False)"
      using assms(2,3) f True by (simp add: ProcessSnapshotReady_def Let_def)
    moreover have "buffered (st1\<lparr>SnapshotPending := True\<rparr>) = buffered st1" by (simp add: buffered_def)
    ultimately show ?thesis using k srt True by (intro exI [of _ buf] exI [of _ "st1\<lparr>SnapshotPending := True\<rparr>"]) (simp add: Let_def)
  next
    case False
    let ?st2 = "st1\<lparr>NeedsSnapshot := False, LastSeqId := LastUpdateID sn\<rparr>"
    have s2: "is_seq (Orderer ?st2)" "ordererBound ?st2" "Normalizer ?st2 = Normalizer st" "Publisher ?st2 = Publisher st"
      using assms(4,5) by (simp_all add: st1 is_seq_def)
    have "set buf = set (buffered st)" using k by (metis set_mset_mset)
    then have n: "\<forall>m \<in> set ?left. \<exists>b. Normalize (Normalizer st) cd m = Done b" using assms(6) by simp
    then have "\<forall>m \<in> set ?left. \<exists>b. Normalize (Normalizer ?st2) cd m = Done b" by (simp add: st1)
    from seq_ProcessBuffer [OF s2(1,2) this] obtain st3 where
      p: "ProcessBuffer cd ?key ?st2 ?left = Done (SequenceOrdererCleanup st3, pubs_of cd ?key ?st2 ?left)"
      "same_conf ?st2 st3" "seq_acked ?st2 ?left st3" by blast
    obtain st3' where c: "(if ?left \<noteq> [] then ProcessBuffer cd ?key ?st2 ?left else Done (?st2, [])) =
        Done (st3', pubs_of cd ?key ?st2 ?left)" "is_seq (Orderer st3')" "ordererBound st3'" "seq_acked ?st2 ?left st3'"
    proof (cases "?left = []")
      case True
      then show ?thesis using that [of ?st2] s2 by (simp add: seq_acked_def)
    next
      case False
      then show ?thesis using that [of "SequenceOrdererCleanup st3"] p s2 by (simp add: seq_acked_def same_conf_def)
    qed
    have "ProcessSnapshotReady cd now (wk s) dr = Done (put_state (wk s) ?key (SequenceOrdererCleanup st3'),
        SnapPub (PublishTopic (Publisher st)) ?key snap # pubs_of cd ?key ?st2 ?left, [], False)"
      using assms(2,3,7) f False s2(4) by (simp add: ProcessSnapshotReady_def Let_def c(1) seq_Cleanup [OF c(2,3)] del: if_split)
    moreover have "pub_msgs (pubs_of cd ?key ?st2 ?left) = ?left" by (rule pub_msgs_all) (use n in \<open>simp add: st1\<close>)
    moreover have "buffered (SequenceOrdererCleanup st3') = []" "\<not> NeedsSnapshot st3'" "\<not> SnapshotPending st3'"
      using c(4) q(2) by (simp_all add: buffered_def seq_acked_def st1)
    ultimately show ?thesis using k srt False c(4)
      by (intro exI [of _ buf] exI [of _ "SequenceOrdererCleanup st3'"]) (simp add: Let_def seq_acked_def)
  qed
qed

lemma survives_alt: "survives sn = (\<lambda>m. \<exists>d. Raw m = RawDepth d \<and> LastUpdateID sn < du_FinalUpdateID d)"
  by (intro ext) (auto simp: survives_def split: RawMessage.split)

lemma stale_alt: "stale sn ms = (\<exists>m rest d. ms = m # rest \<and> Raw m = RawDepth d \<and> LastUpdateID sn + 1 < du_FirstUpdateID d)"
  by (auto simp: stale_def split: list.split RawMessage.split)

text \<open>
  C6. The Binance resync. When a snapshot arrives, the parked updates are taken in increasing update id and those the
  snapshot covers are dropped. If the first one left starts beyond the snapshot's next id, nothing is published,
  nothing is dropped and another snapshot is requested. Otherwise the snapshot goes out first, then exactly the
  updates left, in order; the symbol leaves the resync with an empty buffer and its sequence at the last update
  published, or at the snapshot when there is none.
\<close>

theorem snapshot_splice:
  assumes "nreach cd s" and "map_of (WorkerMap (wk s)) (dr_BufferKey dr) = Some st" and "SnapshotResult dr = Some sn"
    and "Orderer st = BinanceDepth" and "ordererBound st"
    and "\<forall>m \<in> set (buffered st). \<exists>b. Normalize (Normalizer st) cd m = Done b"
    and "buildBinanceSnapshotProto cd now (dr_Exchange dr) (dr_Channel dr) (dr_Symbol dr) sn = Done snap"
  shows "\<exists>buf st' pubs effs.
    ProcessSnapshotReady cd now (wk s) dr = Done (put_state (wk s) (dr_BufferKey dr) st', pubs, effs, False) \<and>
    mset buf = mset (buffered st) \<and> sorted_wrt (<) (map SeqId buf) \<and>
    (let left = filter (\<lambda>m. \<exists>d. Raw m = RawDepth d \<and> LastUpdateID sn < du_FinalUpdateID d) buf
     in if \<exists>m rest d. left = m # rest \<and> Raw m = RawDepth d \<and> LastUpdateID sn + 1 < du_FirstUpdateID d
        then pubs = [] \<and> mset (buffered st') = mset (buffered st) \<and> SnapshotPending st' \<and>
             effs = [FetchSnapshot (dr_Exchange dr) (dr_Channel dr) (dr_Symbol dr) (dr_BufferKey dr)]
        else (\<exists>pubs'. pubs = SnapPub (PublishTopic (Publisher st)) (dr_BufferKey dr) snap # pubs' \<and> pub_msgs pubs' = left) \<and>
             effs = [] \<and> buffered st' = [] \<and> \<not> NeedsSnapshot st' \<and> \<not> SnapshotPending st' \<and>
             LastSeqId st' = (if left = [] then LastUpdateID sn else SeqId (last left)))"
  using splice_with_parked [OF assms] unfolding survives_alt stale_alt .

text \<open>A Binance depth stream: its first update is parked until the snapshot it asks for arrives.\<close>

definition depth_codec :: codec where
  "depth_codec = demo_codec\<lparr>json_Header := (\<lambda>b. Some (Binance, DepthChannel)),
     json_Depth := (\<lambda>b. Some \<lparr>du_EventType = [], du_EventTime = 0, du_Symbol = ''BTC-USD'', du_FirstUpdateID = int (length b),
       du_FinalUpdateID = int (length b), du_Bids = [], du_Asks = []\<rparr>)\<rparr>"

definition depth_msg :: PipelineMessage where
  "depth_msg = \<lparr>Exchange = Binance, Channel = DepthChannel, Symbol = ''BTC-USD'', SeqId = 5, Ts = 0,
     Raw = RawDepth \<lparr>du_EventType = [], du_EventTime = 0, du_Symbol = ''BTC-USD'', du_FirstUpdateID = 5,
       du_FinalUpdateID = 5, du_Bids = [], du_Asks = []\<rparr>, Record = Some (demo_rec 0 5), EventType = []\<rparr>"

definition depth_key :: string where
  "depth_key = ''binance:depth:btc-usd''"

definition depth_state :: SymbolState where
  "depth_state = (fresh_state depth_key Binance DepthChannel ''BTC-USD'' BinanceDepth BinanceDepth BinanceDepth BookPublisher)
     \<lparr>ordererBound := True, BufferSeqMap := [(5, depth_msg)], BufferSeqId := [5], LastSeqId := 4, NeedsSnapshot := True,
      SnapshotPending := True\<rparr>"

definition depth_run :: NRun where
  "depth_run = run_poll depth_codec NRun_init (demo_rec 0 5)"

definition depth_snapshot :: DispatchRecord where
  "depth_snapshot = FetchBinanceSnapshotAsync Binance DepthChannel ''BTC-USD'' depth_key
     (Some \<lparr>LastUpdateID = 4, sn_Bids = [], sn_Asks = []\<rparr>)"

lemma depth_reg:
  "GetRegisteredConverter Binance DepthChannel = Some BinanceDepth" "GetRegisteredNormalizer Binance DepthChannel = Some BinanceDepth"
  "GetRegisteredOrderer Binance DepthChannel = Some BinanceDepth" "GetRegisteredPublisher DepthChannel = Some BookPublisher"
  by (simp_all add: registered_alt publisher_alt reg_keys lower_channels GetConverter_def GetPublisher_def)

lemma depth_buffer_key: "buffer_key Binance DepthChannel ''BTC-USD'' = depth_key"
  by code_simp

lemma depth_first:
  "ProcessRecord depth_codec NewNWorker (demo_rec 0 5) =
     Done (\<lparr>WorkerMap = [(depth_key, depth_state)], txnFailed = False\<rparr>, [],
           [FetchSnapshot Binance DepthChannel ''BTC-USD'' depth_key], False)"
  by (simp add: ProcessRecord_def depth_codec_def depth_reg depth_buffer_key NewNWorker_def process_with_def Let_def fresh_state_def
    conv_BinanceDepth_def of_opt_def put_state_def InitBinanceDepthResyncState_def BinanceDepthOrder_def seq_defs depth_state_def
    depth_msg_def)

lemma depth_reach: "nreach depth_codec depth_run" "map_of (WorkerMap (wk depth_run)) depth_key = Some depth_state"
  "buffered depth_state = [depth_msg]" "Orderer depth_state = BinanceDepth" "ordererBound depth_state"
  "Normalizer depth_state = BinanceDepth" "Publisher depth_state = BookPublisher"
proof -
  show "nreach depth_codec depth_run"
    unfolding depth_run_def by (rule nreach_poll [OF nreach.start]) (simp_all add: NRun_init_def in_int64_def in_int32_def)
qed (simp_all add: depth_run_def run_poll_def NRun_init_def depth_first emit_def depth_state_def buffered_def fresh_state_def)

lemma snapshot_splice_witness:
  "\<exists>st' pubs'. ProcessSnapshotReady depth_codec 0 (wk depth_run) depth_snapshot =
     Done (put_state (wk depth_run) depth_key st', SnapPub NormalizedBookTopic depth_key [] # pubs', [], False) \<and>
     pub_msgs pubs' = [depth_msg] \<and> buffered st' = [] \<and> LastSeqId st' = 5"
proof -
  have n: "\<forall>m \<in> set (buffered depth_state). \<exists>b. Normalize (Normalizer depth_state) depth_codec m = Done b"
    by (simp add: depth_reach depth_msg_def norm_BinanceDepth_def depth_codec_def demo_codec_def of_opt_def)
  have b: "buildBinanceSnapshotProto depth_codec 0 (dr_Exchange depth_snapshot) (dr_Channel depth_snapshot)
      (dr_Symbol depth_snapshot) \<lparr>LastUpdateID = 4, sn_Bids = [], sn_Asks = []\<rparr> = Done []"
    by (simp add: buildBinanceSnapshotProto_def depth_codec_def demo_codec_def of_opt_def)
  have k: "dr_BufferKey depth_snapshot = depth_key"
    "SnapshotResult depth_snapshot = Some \<lparr>LastUpdateID = 4, sn_Bids = [], sn_Asks = []\<rparr>"
    by (simp_all add: depth_snapshot_def FetchBinanceSnapshotAsync_def)
  have s: "survives \<lparr>LastUpdateID = 4, sn_Bids = [], sn_Asks = []\<rparr> depth_msg"
    "\<not> stale \<lparr>LastUpdateID = 4, sn_Bids = [], sn_Asks = []\<rparr> [depth_msg]" "SeqId depth_msg = 5"
    by (simp_all add: survives_def stale_def depth_msg_def)
  from snapshot_splice [OF depth_reach(1) depth_reach(2) [folded k(1)] k(2) depth_reach(4,5) n b, folded survives_alt stale_alt] show ?thesis
    by (auto simp: Let_def k depth_reach mset_single_iff_right s)
qed

text \<open>
  A Coinbase book snapshot without a parsable time is lost silently: the converter accepts it, as only the
  updates carry a time, the orderer ends its wait for a snapshot and discards the updates parked so far, and the
  normalizer then rejects the message because it parses the time of snapshots too. Nothing is published and no error
  is returned.
\<close>

theorem coinbase_snapshot_lost:
  assumes "json_Header cd (RValue rec) = Some (ex, ch)" and "map_of (WorkerMap w) (buffer_key ex ch (RKey rec)) = Some st"
    and "Converter st = CoinbaseLevel2" and "Orderer st = CoinbaseLevel2" and "Normalizer st = CoinbaseLevel2"
    and "ordererBound st" and "BufferSeqMap st = []"
    and "json_Level2 cd (RValue rec) = Some m" and "l2_Type m = Snapshot" and "ParseTime cd (l2_Time m) = None"
  shows "\<exists>st'. ProcessRecord cd w rec = Done (put_state w (BufferKey st) st', [], [], False) \<and>
    \<not> AwaitingSnapshot st' \<and> buffered st' = []"
proof -
  have "l2_Type m \<noteq> L2Update" using assms(9) by (simp add: const_defs)
  then have "Convert CoinbaseLevel2 cd (RValue rec) = Done \<lparr>Exchange = Coinbase, Channel = Level2, Symbol = l2_ProductId m,
      SeqId = 0, Ts = 0, Raw = RawLevel2 m, Record = None, EventType = Snapshot\<rparr>"
    using assms(8) by (simp add: conv_CoinbaseLevel2_def of_opt_def Let_def)
  then show ?thesis
    using assms
    by (simp add: ProcessRecord_def process_with_def Let_def guard_bound_def BookOrderWithResync_def ProcessBuffer_def
      norm_CoinbaseLevel2_def of_opt_def Cleanup_def is_seq_def)
      (intro exI conjI, rule refl, simp_all add: TsCleanup_def buffered_def)
qed

definition level2_codec :: codec where
  "level2_codec = demo_codec\<lparr>json_Header := (\<lambda>b. Some (Coinbase, Level2)), ParseTime := (\<lambda>s. if s = [] then None else Some 0),
     json_Level2 := (\<lambda>b. Some \<lparr>l2_Type = Snapshot, l2_ProductId = ''BTC-USD'', l2_Bids = [], l2_Asks = [], l2_Time = [],
       l2_Changes = []\<rparr>)\<rparr>"

definition level2_worker :: NWorker where
  "level2_worker = \<lparr>WorkerMap = [(buffer_key Coinbase Level2 ''BTC-USD'',
     (fresh_state (buffer_key Coinbase Level2 ''BTC-USD'') Coinbase Level2 ''BTC-USD'' CoinbaseLevel2 CoinbaseLevel2
       CoinbaseLevel2 BookPublisher)\<lparr>ordererBound := True, AwaitingSnapshot := True\<rparr>)], txnFailed = False\<rparr>"

lemma coinbase_snapshot_lost_witness:
  "\<exists>st'. ProcessRecord level2_codec level2_worker (demo_rec 0 3) =
     Done (put_state level2_worker (buffer_key Coinbase Level2 ''BTC-USD'') st', [], [], False) \<and> \<not> AwaitingSnapshot st'"
  using coinbase_snapshot_lost [of level2_codec "demo_rec 0 3" Coinbase Level2 level2_worker
      "(fresh_state (buffer_key Coinbase Level2 ''BTC-USD'') Coinbase Level2 ''BTC-USD'' CoinbaseLevel2 CoinbaseLevel2
       CoinbaseLevel2 BookPublisher)\<lparr>ordererBound := True, AwaitingSnapshot := True\<rparr>"
      "\<lparr>l2_Type = Snapshot, l2_ProductId = ''BTC-USD'', l2_Bids = [], l2_Asks = [], l2_Time = [], l2_Changes = []\<rparr>"]
  by (auto simp: level2_codec_def level2_worker_def fresh_state_def)

end
