(* ===== verification/Norm_Backpressure.thy ===== *)
theory Norm_Backpressure
  imports Float64 "HOL-Library.AList"
begin

text \<open>
  The backpressure controller of a normalizer worker (\<open>normalizer/backpressure/backpressure.go\<close>) and the way the worker uses it
  (\<open>normalizer/worker/worker.go\<close>): one call before and one after the handling of each record.
\<close>

section \<open>The controller\<close>

record Controller =
  ctl_depth :: int
  ctl_paused :: bool
  ctl_high :: int
  ctl_low :: int
  ctl_partitions :: "(string \<times> int list) list"

datatype fetch_call = PauseFetch "(string \<times> int list) list" | ResumeFetch "(string \<times> int list) list"

definition NewController :: "f64 \<Rightarrow> f64 \<Rightarrow> int \<Rightarrow> Controller" where
  "NewController high low queueCapacity =
     \<lparr>ctl_depth = 0, ctl_paused = False, ctl_high = f_trunc (f_mul high (f_of_int queueCapacity)),
      ctl_low = f_trunc (f_mul low (f_of_int queueCapacity)), ctl_partitions = []\<rparr>"

text \<open>\<open>snapshotPartitions\<close> copies the map.\<close>

definition snapshotPartitions :: "Controller \<Rightarrow> (string \<times> int list) list" where
  "snapshotPartitions c = ctl_partitions c"

definition ctl_OnEnqueue :: "string \<Rightarrow> int \<Rightarrow> Controller \<Rightarrow> Controller \<times> fetch_call list" where
  "ctl_OnEnqueue topic part c =
     (let ps = (case map_of (ctl_partitions c) topic of None \<Rightarrow> [] | Some ps \<Rightarrow> ps);
          c = c\<lparr>ctl_partitions := AList.update topic (List.insert part ps) (ctl_partitions c), ctl_depth := ctl_depth c + 1\<rparr>
      in if ctl_depth c > ctl_high c \<and> \<not> ctl_paused c
         then (c\<lparr>ctl_paused := True\<rparr>, [PauseFetch (snapshotPartitions c)]) else (c, []))"

definition ctl_OnDequeue :: "Controller \<Rightarrow> Controller \<times> fetch_call list" where
  "ctl_OnDequeue c =
     (let c = c\<lparr>ctl_depth := max 0 (ctl_depth c - 1)\<rparr>
      in if ctl_depth c < ctl_low c \<and> ctl_paused c
         then (c\<lparr>ctl_paused := False\<rparr>, [ResumeFetch (snapshotPartitions c)]) else (c, []))"

text \<open>The records a worker handles, one after the other, and the calls the controller makes.\<close>

fun handle_records :: "(string \<times> int) list \<Rightarrow> Controller \<Rightarrow> Controller \<times> fetch_call list" where
  "handle_records [] c = (c, [])"
| "handle_records ((topic, part) # recs) c =
     (let (c, calls1) = ctl_OnEnqueue topic part c; (c, calls2) = ctl_OnDequeue c; (c, calls) = handle_records recs c
      in (c, calls1 @ calls2 @ calls))"

section \<open>It never acts\<close>

lemma handled_record:
  assumes "ctl_depth c = 0" and "\<not> ctl_paused c" and "1 \<le> ctl_high c"
  shows "\<exists>c'. ctl_OnEnqueue topic part c = (c', []) \<and> \<not> ctl_paused c' \<and> ctl_depth c' = 1 \<and> ctl_high c' = ctl_high c \<and>
    ctl_OnDequeue c' = (c'\<lparr>ctl_depth := 0\<rparr>, [])"
  using assms by (simp add: ctl_OnEnqueue_def ctl_OnDequeue_def Let_def)

text \<open>
  The depth counts the one record in hand. With a high threshold of at least one record the controller never pauses a
  partition, however long the worker takes and however many records wait in the client.
\<close>

theorem controller_never_pauses:
  assumes "1 \<le> f_trunc (f_mul high (f_of_int queueCapacity))"
  shows "snd (handle_records recs (NewController high low queueCapacity)) = []"
proof -
  have "snd (handle_records recs c) = []" if "ctl_depth c = 0" "\<not> ctl_paused c" "1 \<le> ctl_high c" for c
    using that
  proof (induction recs arbitrary: c)
    case (Cons r recs)
    obtain t p where r: "r = (t, p)" by fastforce
    obtain c' where c': "ctl_OnEnqueue t p c = (c', [])" "\<not> ctl_paused c'" "ctl_high c' = ctl_high c" "ctl_OnDequeue c' = (c'\<lparr>ctl_depth := 0\<rparr>, [])"
      using handled_record [OF Cons.prems, of t p] by blast
    have "snd (handle_records recs (c'\<lparr>ctl_depth := 0\<rparr>)) = []" using Cons.prems c' by (intro Cons.IH) simp_all
    then show ?case using c' r by (simp add: case_prod_beta Let_def)
  qed simp
  then show ?thesis using assms by (simp add: NewController_def)
qed

end
