(* ===== verification/Agg_Metrics.thy ===== *)
theory Agg_Metrics
  imports Float64 Go_Prelude "HOL-Library.Signed_Division"
begin

text \<open>
  The metrics of the aggregator (\<open>aggregator/internal/aggmetrics\<close>), their registry and the windows
  built from it. A metric is a value of the datatype \<open>Metric\<close>, whose constructors are the concrete
  types behind the Go interface; \<open>Update\<close>, \<open>Apply\<close> and \<open>Reset\<close> dispatch on it. All arithmetic is the
  rounded arithmetic of \<^typ>\<open>f64\<close>, one rounding per operation, in the order the code writes it.
  \<open>math.Log\<close>, \<open>math.Exp\<close> and \<open>math.Sqrt\<close> are the record \<open>gomath\<close>, an argument of what calls them.
\<close>

section \<open>Messages\<close>

record gomath =
  m_Log :: "f64 \<Rightarrow> f64"
  m_Exp :: "f64 \<Rightarrow> f64"
  m_Sqrt :: "f64 \<Rightarrow> f64"

record NormalizedTick =
  tk_Exchange :: string
  tk_Channel :: string
  tk_Symbol :: string
  tk_EventTsMillis :: int
  tk_Price :: f64
  tk_Volume :: f64
  tk_Open :: f64
  tk_Close :: f64
  tk_Low :: f64
  tk_High :: f64

record OhlcProto =
  oh_Open :: f64
  oh_High :: f64
  oh_Low :: f64
  oh_Close :: f64

record PriceMetrics =
  pm_Ohlc :: "OhlcProto option"
  pm_Vwap :: f64
  pm_RollingVwap :: f64
  pm_Twap :: f64

record VolumeMetrics =
  vm_Volume :: f64
  vm_RollingVolume :: f64
  vm_VolumeAcceleration :: f64

record VolatilityMetrics =
  ym_Volatility :: f64
  ym_Atr :: f64

record TrendMetrics =
  tm_Ema :: f64
  tm_Sma :: f64
  tm_LogReturn :: f64
  tm_SimpleReturn :: f64

record AggregatedTick =
  ag_Exchange :: string
  ag_Channel :: string
  ag_Symbol :: string
  ag_WindowId :: string
  ag_StartTsMs :: int
  ag_EndTsMs :: int
  ag_Price :: "PriceMetrics option"
  ag_Volume :: "VolumeMetrics option"
  ag_Volatility :: "VolatilityMetrics option"
  ag_Trend :: "TrendMetrics option"

text \<open>The \<open>if a.X == nil { a.X = &X{} }\<close> before each write of a sub-message.\<close>

definition zero_price :: PriceMetrics where
  "zero_price = \<lparr>pm_Ohlc = None, pm_Vwap = Fin 0, pm_RollingVwap = Fin 0, pm_Twap = Fin 0\<rparr>"

definition zero_volume :: VolumeMetrics where
  "zero_volume = \<lparr>vm_Volume = Fin 0, vm_RollingVolume = Fin 0, vm_VolumeAcceleration = Fin 0\<rparr>"

definition zero_volatility :: VolatilityMetrics where
  "zero_volatility = \<lparr>ym_Volatility = Fin 0, ym_Atr = Fin 0\<rparr>"

definition zero_trend :: TrendMetrics where
  "zero_trend = \<lparr>tm_Ema = Fin 0, tm_Sma = Fin 0, tm_LogReturn = Fin 0, tm_SimpleReturn = Fin 0\<rparr>"

definition or_new :: "'a \<Rightarrow> 'a option \<Rightarrow> 'a" where
  "or_new z m = (case m of None \<Rightarrow> z | Some x \<Rightarrow> x)"

definition set_price :: "(PriceMetrics \<Rightarrow> PriceMetrics) \<Rightarrow> AggregatedTick \<Rightarrow> AggregatedTick" where
  "set_price f a = a\<lparr>ag_Price := Some (f (or_new zero_price (ag_Price a)))\<rparr>"

definition set_volume :: "(VolumeMetrics \<Rightarrow> VolumeMetrics) \<Rightarrow> AggregatedTick \<Rightarrow> AggregatedTick" where
  "set_volume f a = a\<lparr>ag_Volume := Some (f (or_new zero_volume (ag_Volume a)))\<rparr>"

definition set_volatility :: "(VolatilityMetrics \<Rightarrow> VolatilityMetrics) \<Rightarrow> AggregatedTick \<Rightarrow> AggregatedTick" where
  "set_volatility f a = a\<lparr>ag_Volatility := Some (f (or_new zero_volatility (ag_Volatility a)))\<rparr>"

definition set_trend :: "(TrendMetrics \<Rightarrow> TrendMetrics) \<Rightarrow> AggregatedTick \<Rightarrow> AggregatedTick" where
  "set_trend f a = a\<lparr>ag_Trend := Some (f (or_new zero_trend (ag_Trend a)))\<rparr>"

text \<open>\<open>math.IsNaN(x) || math.IsInf(x, 0)\<close>\<close>

definition bad :: "f64 \<Rightarrow> bool" where
  "bad x \<longleftrightarrow> is_nan x \<or> is_inf x"

record WindowConfig =
  cfg_Id :: string
  cfg_DurationMs :: int
  cfg_FlushCadencyMs :: int
  cfg_BucketSizeMs :: int

section \<open>Tumbling metrics\<close>

record OHLC =
  OpenSet :: bool
  Open :: f64
  High :: f64
  Low :: f64
  Close :: f64

definition new_OHLC :: OHLC where
  "new_OHLC = \<lparr>OpenSet = False, Open = Fin 0, High = Fin 0, Low = Fin 0, Close = Fin 0\<rparr>"

definition OHLC_Update :: "NormalizedTick \<Rightarrow> OHLC \<Rightarrow> OHLC" where
  "OHLC_Update t h =
     (if \<not> OpenSet h then h\<lparr>Open := tk_Open t, Low := tk_Low t, High := tk_High t, OpenSet := True\<rparr>
      else h\<lparr>Low := f_min (Low h) (tk_Low t), High := f_max (High h) (tk_High t)\<rparr>)\<lparr>Close := tk_Close t\<rparr>"

definition OHLC_Apply :: "OHLC \<Rightarrow> AggregatedTick \<Rightarrow> AggregatedTick" where
  "OHLC_Apply h = set_price (\<lambda>p. p\<lparr>pm_Ohlc := Some \<lparr>oh_Open = Open h, oh_High = High h, oh_Low = Low h, oh_Close = Close h\<rparr>\<rparr>)"

definition OHLC_Reset :: "OHLC \<Rightarrow> OHLC" where
  "OHLC_Reset h = h\<lparr>Low := Fin 0, High := Fin 0, Close := Fin 0, Open := Fin 0, OpenSet := False\<rparr>"

record VWAP =
  SumPV :: f64
  SumV :: f64

definition VWAP_Update :: "NormalizedTick \<Rightarrow> VWAP \<Rightarrow> VWAP" where
  "VWAP_Update t v =
     (if bad (tk_Price t) \<or> bad (tk_Volume t) \<or> f_le (tk_Volume t) (Fin 0) then v
      else v\<lparr>SumPV := f_add (SumPV v) (f_mul (tk_Price t) (tk_Volume t)), SumV := f_add (SumV v) (tk_Volume t)\<rparr>)"

definition VWAP_Apply :: "VWAP \<Rightarrow> AggregatedTick \<Rightarrow> AggregatedTick" where
  "VWAP_Apply v a =
     (if f_le (SumV v) (Fin 0) \<or> bad (SumPV v) \<or> bad (SumV v) then a
      else set_price (\<lambda>p. p\<lparr>pm_Vwap := f_div (SumPV v) (SumV v)\<rparr>) a)"

definition VWAP_Reset :: "VWAP \<Rightarrow> VWAP" where
  "VWAP_Reset v = v\<lparr>SumPV := Fin 0, SumV := Fin 0\<rparr>"

record TWAP =
  SumPrice :: f64
  Count :: f64

definition TWAP_Update :: "NormalizedTick \<Rightarrow> TWAP \<Rightarrow> TWAP" where
  "TWAP_Update t w = w\<lparr>SumPrice := f_add (SumPrice w) (tk_Price t), Count := f_add (Count w) (Fin 1)\<rparr>"

definition TWAP_Apply :: "TWAP \<Rightarrow> AggregatedTick \<Rightarrow> AggregatedTick" where
  "TWAP_Apply w a =
     (let a1 = set_trend id (set_price id a)
      in if f_eq (Count w) (Fin 0) then set_price (\<lambda>p. p\<lparr>pm_Twap := Fin 0\<rparr>) a1
         else let v = f_div (SumPrice w) (Count w)
              in set_trend (\<lambda>t. t\<lparr>tm_Sma := v\<rparr>) (set_price (\<lambda>p. p\<lparr>pm_Twap := v\<rparr>) a1))"

definition TWAP_Reset :: "TWAP \<Rightarrow> TWAP" where
  "TWAP_Reset w = w\<lparr>SumPrice := Fin 0, Count := Fin 0\<rparr>"

record Returns =
  PrevPrice :: f64
  LogReturn :: f64
  SimpleReturn :: f64

definition Returns_Update :: "gomath \<Rightarrow> NormalizedTick \<Rightarrow> Returns \<Rightarrow> Returns" where
  "Returns_Update gm t r =
     (let p = tk_Price t
      in if bad p \<or> f_le p (Fin 0) then r
         else if f_eq (PrevPrice r) (Fin 0) then r\<lparr>PrevPrice := p\<rparr>
         else if bad (PrevPrice r) \<or> f_le (PrevPrice r) (Fin 0) then r\<lparr>PrevPrice := p\<rparr>
         else r\<lparr>SimpleReturn := f_add (SimpleReturn r) (f_div (f_sub p (PrevPrice r)) (PrevPrice r)),
               LogReturn := f_add (LogReturn r) (m_Log gm (f_div p (PrevPrice r))),
               PrevPrice := p\<rparr>)"

definition Returns_Apply :: "Returns \<Rightarrow> AggregatedTick \<Rightarrow> AggregatedTick" where
  "Returns_Apply r a =
     (if bad (SimpleReturn r) \<or> bad (LogReturn r) then a
      else set_trend (\<lambda>t. t\<lparr>tm_SimpleReturn := SimpleReturn r, tm_LogReturn := LogReturn r\<rparr>) a)"

definition Returns_Reset :: "Returns \<Rightarrow> Returns" where
  "Returns_Reset r = r\<lparr>PrevPrice := Fin 0, LogReturn := Fin 0, SimpleReturn := Fin 0\<rparr>"

record Volatility =
  N :: int
  M2 :: f64
  Mean :: f64
  v_Init :: bool
  v_PrevPrice :: f64

definition Volatility_Update :: "gomath \<Rightarrow> NormalizedTick \<Rightarrow> Volatility \<Rightarrow> Volatility" where
  "Volatility_Update gm t v =
     (let p = tk_Price t
      in if bad p \<or> f_le p (Fin 0) then v
         else if \<not> v_Init v then v\<lparr>v_PrevPrice := p, v_Init := True\<rparr>
         else if bad (v_PrevPrice v) \<or> f_le (v_PrevPrice v) (Fin 0) then v\<lparr>v_PrevPrice := p\<rparr>
         else
           let ret = m_Log gm (f_div p (v_PrevPrice v));
               n = N v + 1;
               delta = f_sub ret (Mean v);
               mean = f_add (Mean v) (f_div delta (f_of_int n));
               delta2 = f_sub ret mean
           in v\<lparr>v_PrevPrice := p, N := n, Mean := mean, M2 := f_add (M2 v) (f_mul delta delta2)\<rparr>)"

definition Volatility_Apply :: "gomath \<Rightarrow> Volatility \<Rightarrow> AggregatedTick \<Rightarrow> AggregatedTick" where
  "Volatility_Apply gm v a =
     (if N v < 2 then a
      else let x = m_Sqrt gm (f_div (M2 v) (f_of_int (N v - 1)))
           in if bad x then a else set_volatility (\<lambda>m. m\<lparr>ym_Volatility := x\<rparr>) a)"

definition Volatility_Reset :: "Volatility \<Rightarrow> Volatility" where
  "Volatility_Reset v = v\<lparr>N := 0, Mean := Fin 0, v_Init := False, M2 := Fin 0, v_PrevPrice := Fin 0\<rparr>"

record Volume =
  Vol :: f64

definition Volume_Update :: "NormalizedTick \<Rightarrow> Volume \<Rightarrow> Volume" where
  "Volume_Update t v = v\<lparr>Vol := f_add (Vol v) (tk_Volume t)\<rparr>"

definition Volume_Apply :: "Volume \<Rightarrow> AggregatedTick \<Rightarrow> AggregatedTick" where
  "Volume_Apply v = set_volume (\<lambda>m. m\<lparr>vm_Volume := Vol v\<rparr>)"

definition Volume_Reset :: "Volume \<Rightarrow> Volume" where
  "Volume_Reset v = v\<lparr>Vol := Fin 0\<rparr>"

section \<open>Decayed and rolling metrics\<close>

record EMA =
  e_Alpha :: f64
  e_Value :: f64
  e_Init :: bool

text \<open>\<open>0.5\<close> is exact; \<open>DurationMs / 1000\<close> is the integer quotient.\<close>

definition NewEMA :: "gomath \<Rightarrow> WindowConfig \<Rightarrow> EMA" where
  "NewEMA gm cfg =
     (let numUpdates = cfg_DurationMs cfg sdiv 1000
      in \<lparr>e_Alpha = f_sub (Fin 1) (m_Exp gm (f_div (m_Log gm (Fin (1 / 2))) (f_of_int numUpdates))),
          e_Value = Fin 0, e_Init = False\<rparr>)"

definition EMA_Update :: "NormalizedTick \<Rightarrow> EMA \<Rightarrow> EMA" where
  "EMA_Update t e =
     (if \<not> e_Init e then e\<lparr>e_Value := tk_Price t, e_Init := True\<rparr>
      else e\<lparr>e_Value := f_add (f_mul (e_Alpha e) (tk_Price t)) (f_mul (f_sub (Fin 1) (e_Alpha e)) (e_Value e))\<rparr>)"

definition EMA_Apply :: "EMA \<Rightarrow> AggregatedTick \<Rightarrow> AggregatedTick" where
  "EMA_Apply e = set_trend (\<lambda>m. m\<lparr>tm_Ema := e_Value e\<rparr>)"

record ATR =
  a_Value :: f64
  a_Alpha :: f64
  PrevClose :: f64
  a_Init :: bool

definition NewATR :: "WindowConfig \<Rightarrow> ATR" where
  "NewATR cfg = \<lparr>a_Value = Fin 0, a_Alpha = f_div (Fin 1) (f_of_int 14), PrevClose = Fin 0, a_Init = False\<rparr>"

definition ATR_Update :: "NormalizedTick \<Rightarrow> ATR \<Rightarrow> ATR" where
  "ATR_Update t a =
     (if \<not> a_Init a then a\<lparr>a_Value := f_sub (tk_High t) (tk_Low t), PrevClose := tk_Close t, a_Init := True\<rparr>
      else
        let tr = math_max (f_sub (tk_High t) (tk_Low t))
                   (math_max (f_abs (f_sub (tk_High t) (PrevClose a))) (f_abs (f_sub (tk_Low t) (PrevClose a))))
        in a\<lparr>PrevClose := tk_Close t,
             a_Value := f_add (f_mul (a_Alpha a) tr) (f_mul (f_sub (Fin 1) (a_Alpha a)) (a_Value a))\<rparr>)"

definition ATR_Apply :: "ATR \<Rightarrow> AggregatedTick \<Rightarrow> AggregatedTick" where
  "ATR_Apply x = set_volatility (\<lambda>m. m\<lparr>ym_Atr := a_Value x\<rparr>)"

record RollingVolume =
  VolumeBuckets :: "f64 list"
  rv_Idx :: nat
  RunningTotal :: f64
  PrevRunningTotal :: f64
  rv_BucketSizeMs :: int
  rv_LastBucketTsMs :: int
  rv_FlushCadencyMs :: int

definition NewRollingVolume :: "WindowConfig \<Rightarrow> RollingVolume outcome" where
  "NewRollingVolume cfg =
     (if cfg_BucketSizeMs cfg \<le> 0 then Panic
      else let n = cfg_DurationMs cfg sdiv cfg_BucketSizeMs cfg
           in if n \<le> 0 then Panic
              else Done \<lparr>VolumeBuckets = replicate (nat n) (Fin 0), rv_Idx = 0, RunningTotal = Fin 0,
                         PrevRunningTotal = Fin 0, rv_BucketSizeMs = cfg_BucketSizeMs cfg, rv_LastBucketTsMs = 0,
                         rv_FlushCadencyMs = cfg_FlushCadencyMs cfg\<rparr>)"

text \<open>One iteration of the loop that moves to the next bucket, and the loop.\<close>

definition rv_advance :: "RollingVolume \<Rightarrow> RollingVolume" where
  "rv_advance r =
     (let i = (rv_Idx r + 1) mod length (VolumeBuckets r)
      in r\<lparr>rv_Idx := i, RunningTotal := f_sub (RunningTotal r) (VolumeBuckets r ! i),
           VolumeBuckets := (VolumeBuckets r)[i := Fin 0]\<rparr>)"

definition RollingVolume_Update :: "NormalizedTick \<Rightarrow> RollingVolume \<Rightarrow> RollingVolume" where
  "RollingVolume_Update t r =
     (let now = tk_EventTsMillis t;
          r0 = (if rv_LastBucketTsMs r = 0 then r\<lparr>rv_LastBucketTsMs := now\<rparr> else r);
          steps = (now - rv_LastBucketTsMs r0) sdiv rv_BucketSizeMs r0;
          r1 = (rv_advance ^^ nat steps) r0;
          r2 = r1\<lparr>rv_LastBucketTsMs := rv_LastBucketTsMs r1 + steps * rv_BucketSizeMs r1\<rparr>
      in r2\<lparr>VolumeBuckets := (VolumeBuckets r2)[rv_Idx r2 := f_add (VolumeBuckets r2 ! rv_Idx r2) (tk_Volume t)],
            RunningTotal := f_add (RunningTotal r2) (tk_Volume t)\<rparr>)"

text \<open>
  \<open>Apply\<close> also moves the total to \<open>PrevRunningTotal\<close>. The divisor is \<open>float64(FlushCadencyMs / 1000.0)\<close>: the
  constant takes the type of the field, so the quotient is an integer.
\<close>

definition RollingVolume_Apply :: "RollingVolume \<Rightarrow> AggregatedTick \<Rightarrow> AggregatedTick \<times> RollingVolume" where
  "RollingVolume_Apply r a =
     (set_volume (\<lambda>m.
        let m = m\<lparr>vm_RollingVolume := RunningTotal r\<rparr>
        in if f_lt (Fin 0) (PrevRunningTotal r)
           then m\<lparr>vm_VolumeAcceleration := f_div (f_sub (RunningTotal r) (PrevRunningTotal r))
                    (f_of_int (rv_FlushCadencyMs r sdiv 1000))\<rparr>
           else m) a,
      r\<lparr>PrevRunningTotal := RunningTotal r\<rparr>)"

record RollingVWAP =
  Buckets :: "(f64 \<times> f64) list"
  rw_Idx :: nat
  rw_BucketSizeMs :: int
  rw_LastBucketTsMs :: int
  TotalSumPV :: f64
  TotalSumV :: f64

definition NewRollingVWAP :: "WindowConfig \<Rightarrow> RollingVWAP outcome" where
  "NewRollingVWAP cfg =
     (if cfg_BucketSizeMs cfg \<le> 0 then Panic
      else let n = cfg_DurationMs cfg sdiv cfg_BucketSizeMs cfg
           in if n \<le> 0 then Panic
              else Done \<lparr>Buckets = replicate (nat n) (Fin 0, Fin 0), rw_Idx = 0, rw_BucketSizeMs = cfg_BucketSizeMs cfg,
                         rw_LastBucketTsMs = 0, TotalSumPV = Fin 0, TotalSumV = Fin 0\<rparr>)"

definition rw_advance :: "RollingVWAP \<Rightarrow> RollingVWAP" where
  "rw_advance r =
     (let i = (rw_Idx r + 1) mod length (Buckets r)
      in r\<lparr>rw_Idx := i, TotalSumPV := f_sub (TotalSumPV r) (fst (Buckets r ! i)),
           TotalSumV := f_sub (TotalSumV r) (snd (Buckets r ! i)), Buckets := (Buckets r)[i := (Fin 0, Fin 0)]\<rparr>)"

definition RollingVWAP_Update :: "NormalizedTick \<Rightarrow> RollingVWAP \<Rightarrow> RollingVWAP" where
  "RollingVWAP_Update t r =
     (let now = tk_EventTsMillis t;
          r0 = (if rw_LastBucketTsMs r = 0 then r\<lparr>rw_LastBucketTsMs := now\<rparr> else r);
          elapsed = now - rw_LastBucketTsMs r0;
          r1 = (if rw_BucketSizeMs r0 \<le> elapsed
                then let steps = elapsed sdiv rw_BucketSizeMs r0; r1 = (rw_advance ^^ nat steps) r0
                     in r1\<lparr>rw_LastBucketTsMs := rw_LastBucketTsMs r1 + steps * rw_BucketSizeMs r1\<rparr>
                else r0);
          pv = f_mul (tk_Price t) (tk_Volume t);
          (bpv, bv) = Buckets r1 ! rw_Idx r1
      in r1\<lparr>Buckets := (Buckets r1)[rw_Idx r1 := (f_add bpv pv, f_add bv (tk_Volume t))],
            TotalSumPV := f_add (TotalSumPV r1) pv, TotalSumV := f_add (TotalSumV r1) (tk_Volume t)\<rparr>)"

definition RollingVWAP_Apply :: "RollingVWAP \<Rightarrow> AggregatedTick \<Rightarrow> AggregatedTick" where
  "RollingVWAP_Apply r =
     set_price (\<lambda>p. p\<lparr>pm_RollingVwap := (if f_lt (Fin 0) (TotalSumV r) then f_div (TotalSumPV r) (TotalSumV r) else Fin 0)\<rparr>)"

section \<open>The interface\<close>

datatype Metric =
    MOhlc OHLC | MVwap VWAP | MTwap TWAP | MReturns Returns | MVolatility Volatility | MVolume Volume
  | MEma EMA | MAtr ATR | MRollingVolume RollingVolume | MRollingVWAP RollingVWAP

fun Update :: "gomath \<Rightarrow> NormalizedTick \<Rightarrow> Metric \<Rightarrow> Metric" where
  "Update gm t (MOhlc x) = MOhlc (OHLC_Update t x)"
| "Update gm t (MVwap x) = MVwap (VWAP_Update t x)"
| "Update gm t (MTwap x) = MTwap (TWAP_Update t x)"
| "Update gm t (MReturns x) = MReturns (Returns_Update gm t x)"
| "Update gm t (MVolatility x) = MVolatility (Volatility_Update gm t x)"
| "Update gm t (MVolume x) = MVolume (Volume_Update t x)"
| "Update gm t (MEma x) = MEma (EMA_Update t x)"
| "Update gm t (MAtr x) = MAtr (ATR_Update t x)"
| "Update gm t (MRollingVolume x) = MRollingVolume (RollingVolume_Update t x)"
| "Update gm t (MRollingVWAP x) = MRollingVWAP (RollingVWAP_Update t x)"

fun Apply :: "gomath \<Rightarrow> Metric \<Rightarrow> AggregatedTick \<Rightarrow> AggregatedTick \<times> Metric" where
  "Apply gm (MOhlc x) a = (OHLC_Apply x a, MOhlc x)"
| "Apply gm (MVwap x) a = (VWAP_Apply x a, MVwap x)"
| "Apply gm (MTwap x) a = (TWAP_Apply x a, MTwap x)"
| "Apply gm (MReturns x) a = (Returns_Apply x a, MReturns x)"
| "Apply gm (MVolatility x) a = (Volatility_Apply gm x a, MVolatility x)"
| "Apply gm (MVolume x) a = (Volume_Apply x a, MVolume x)"
| "Apply gm (MEma x) a = (EMA_Apply x a, MEma x)"
| "Apply gm (MAtr x) a = (ATR_Apply x a, MAtr x)"
| "Apply gm (MRollingVolume x) a = (case RollingVolume_Apply x a of (a', x') \<Rightarrow> (a', MRollingVolume x'))"
| "Apply gm (MRollingVWAP x) a = (RollingVWAP_Apply x a, MRollingVWAP x)"

text \<open>A no-op for the decayed and the rolling metrics.\<close>

fun Reset :: "Metric \<Rightarrow> Metric" where
  "Reset (MOhlc x) = MOhlc (OHLC_Reset x)"
| "Reset (MVwap x) = MVwap (VWAP_Reset x)"
| "Reset (MTwap x) = MTwap (TWAP_Reset x)"
| "Reset (MReturns x) = MReturns (Returns_Reset x)"
| "Reset (MVolatility x) = MVolatility (Volatility_Reset x)"
| "Reset (MVolume x) = MVolume (Volume_Reset x)"
| "Reset m = m"

section \<open>Registry and windows\<close>

definition OhlcKey :: string where "OhlcKey = ''ohlc''"
definition RollingVWAPKey :: string where "RollingVWAPKey = ''rollingVWAP''"
definition RollingVolumeKey :: string where "RollingVolumeKey = ''rollingVolume''"
definition AtrKey :: string where "AtrKey = ''atr''"
definition TwapSmaKey :: string where "TwapSmaKey = ''twapSma''"
definition VolatilityKey :: string where "VolatilityKey = ''volatility''"
definition VolumeKey :: string where "VolumeKey = ''volume''"
definition VwapKey :: string where "VwapKey = ''vwap''"
definition ReturnsKey :: string where "ReturnsKey = ''returns''"
definition EmaKey :: string where "EmaKey = ''ema''"

lemmas metric_keys = OhlcKey_def RollingVWAPKey_def RollingVolumeKey_def AtrKey_def TwapSmaKey_def VolatilityKey_def
  VolumeKey_def VwapKey_def ReturnsKey_def EmaKey_def

definition zero_returns :: Returns where
  "zero_returns = \<lparr>PrevPrice = Fin 0, LogReturn = Fin 0, SimpleReturn = Fin 0\<rparr>"

text \<open>The constructors registered, under their keys.\<close>

definition MetricCtorRegistry :: "gomath \<Rightarrow> (string \<times> (WindowConfig \<Rightarrow> Metric outcome)) list" where
  "MetricCtorRegistry gm =
     [(OhlcKey, \<lambda>wc. Done (MOhlc new_OHLC)),
      (VwapKey, \<lambda>wc. Done (MVwap \<lparr>SumPV = Fin 0, SumV = Fin 0\<rparr>)),
      (TwapSmaKey, \<lambda>wc. Done (MReturns zero_returns)),
      (RollingVWAPKey, \<lambda>wc. bind_out (NewRollingVWAP wc) (\<lambda>x. Done (MRollingVWAP x))),
      (VolumeKey, \<lambda>wc. Done (MVolume \<lparr>Vol = Fin 0\<rparr>)),
      (RollingVolumeKey, \<lambda>wc. bind_out (NewRollingVolume wc) (\<lambda>x. Done (MRollingVolume x))),
      (VolatilityKey, \<lambda>wc. Done (MVolatility \<lparr>N = 0, M2 = Fin 0, Mean = Fin 0, v_Init = False, v_PrevPrice = Fin 0\<rparr>)),
      (AtrKey, \<lambda>wc. Done (MAtr (NewATR wc))),
      (EmaKey, \<lambda>wc. Done (MEma (NewEMA gm wc))),
      (ReturnsKey, \<lambda>wc. Done (MReturns zero_returns))]"

record Window =
  Metrics :: "(string \<times> Metric) list"
  win_Id :: string
  win_DurationMs :: int
  win_FlushCadencyMs :: int
  LastFlushTsMs :: int
  NewestIngestMs :: int

fun build_metrics :: "(string \<times> (WindowConfig \<Rightarrow> Metric outcome)) list \<Rightarrow> WindowConfig \<Rightarrow> (string \<times> Metric) list outcome" where
  "build_metrics [] wc = Done []"
| "build_metrics ((name, ctor) # cs) wc =
     bind_out (ctor wc) (\<lambda>m. bind_out (build_metrics cs wc) (\<lambda>ms. Done ((name, m) # ms)))"

text \<open>A window id that occurs twice keeps the last configuration.\<close>

fun BuildWindows_from :: "gomath \<Rightarrow> WindowConfig list \<Rightarrow> (string \<times> Window) list \<Rightarrow> (string \<times> Window) list outcome" where
  "BuildWindows_from gm [] acc = Done acc"
| "BuildWindows_from gm (wc # wcs) acc =
     bind_out (build_metrics (MetricCtorRegistry gm) wc) (\<lambda>ms.
       BuildWindows_from gm wcs (AList.update (cfg_Id wc)
         \<lparr>Metrics = ms, win_Id = cfg_Id wc, win_DurationMs = cfg_DurationMs wc, win_FlushCadencyMs = cfg_FlushCadencyMs wc,
          LastFlushTsMs = 0, NewestIngestMs = 0\<rparr> acc))"

definition BuildWindows :: "gomath \<Rightarrow> WindowConfig list \<Rightarrow> (string \<times> Window) list outcome" where
  "BuildWindows gm cfgs = BuildWindows_from gm cfgs []"

end
