(* ===== verification/Agg_Worker.thy ===== *)
theory Agg_Worker
  imports Agg_Metrics Seen_Window Source_Tracker
begin

text \<open>
  The aggregator's worker (\<open>aggregator/worker/worker.go\<close>), its checkpoints (\<open>kafka/checkpoint.go\<close>) and its
  publishing (\<open>kafka/publish_aggregate.go\<close>). The worker is a record passed through the handlers; what a
  handler hands to the Kafka client is part of its result. Decoding a tick, encoding an aggregate and encoding a
  checkpoint are arguments (protobuf and gob); the interned topic names, the metrics and the scratch tick are
  not modelled.
\<close>

section \<open>State\<close>

type_synonym metric_map = "(string \<times> Metric) list"
type_synonym src = "tp \<times> int"

record WindowState =
  ws_Exchange :: string
  ws_Channel :: string
  ws_Symbol :: string
  Windows :: "(string \<times> Window) list"
  ws_Seen :: seen_set_map

record SymbolCheckpoint =
  ck_Windows :: "(string \<times> metric_map) list"
  ck_Seen :: seen_set_map

record AWorker =
  SymbolStates :: "(string \<times> WindowState) list"
  WindowConfigs :: "WindowConfig list"
  Checkpoints :: "string \<rightharpoonup> metric_map"
  aTxnFailed :: bool
  atLeastOnce :: bool
  symbolCkpts :: "string \<rightharpoonup> SymbolCheckpoint"
  dirty :: "string list"
  batchInFlight :: bool
  lastCommitted :: "tp \<rightharpoonup> int"

definition NewAWorker :: "WindowConfig list \<Rightarrow> (string \<rightharpoonup> metric_map) \<Rightarrow> AWorker" where
  "NewAWorker cfgs ckpts =
     \<lparr>SymbolStates = [], WindowConfigs = cfgs, Checkpoints = ckpts, aTxnFailed = False, atLeastOnce = False,
      symbolCkpts = Map.empty, dirty = [], batchInFlight = False, lastCommitted = Map.empty\<rparr>"

definition EnableAtLeastOnce :: "AWorker \<Rightarrow> (string \<rightharpoonup> SymbolCheckpoint) \<Rightarrow> AWorker" where
  "EnableAtLeastOnce w ckpts =
     w\<lparr>atLeastOnce := True, symbolCkpts := ckpts, dirty := [], lastCommitted := Map.empty\<rparr>"

definition put_sym :: "AWorker \<Rightarrow> string \<Rightarrow> WindowState \<Rightarrow> AWorker" where
  "put_sym w key ws = w\<lparr>SymbolStates := AList.update key ws (SymbolStates w)\<rparr>"

definition mark_dirty :: "AWorker \<Rightarrow> string \<Rightarrow> AWorker" where
  "mark_dirty w key = w\<lparr>dirty := List.insert key (dirty w)\<rparr>"

section \<open>Ticks\<close>

definition tick_key :: "NormalizedTick \<Rightarrow> string" where
  "tick_key t = tk_Exchange t @ '':'' @ tk_Channel t @ '':'' @ tk_Symbol t"

text \<open>A new symbol: its windows, with the metrics of a checkpoint where there is one.\<close>

definition rehydrate :: "(string \<Rightarrow> metric_map option) \<Rightarrow> (string \<times> Window) list \<Rightarrow> (string \<times> Window) list" where
  "rehydrate found = map (\<lambda>(id, win). (id, case found id of None \<Rightarrow> win | Some ms \<Rightarrow> win\<lparr>Metrics := ms\<rparr>))"

definition new_symbol :: "gomath \<Rightarrow> AWorker \<Rightarrow> NormalizedTick \<Rightarrow> WindowState outcome" where
  "new_symbol gm w t =
     bind_out (BuildWindows gm (WindowConfigs w)) (\<lambda>wins.
       let key = tick_key t;
           ws = \<lparr>ws_Exchange = tk_Exchange t, ws_Channel = tk_Channel t, ws_Symbol = tk_Symbol t, Windows = wins, ws_Seen = Map.empty\<rparr>
       in Done (if atLeastOnce w then
                  (case symbolCkpts w key of
                     None \<Rightarrow> ws
                   | Some ck \<Rightarrow> ws\<lparr>Windows := rehydrate (map_of (ck_Windows ck)) wins, ws_Seen := ck_Seen ck\<rparr>)
                else ws\<lparr>Windows := rehydrate (\<lambda>id. Checkpoints w (key @ '':'' @ id)) wins\<rparr>))"

fun alreadyApplied :: "header list \<Rightarrow> WindowState \<Rightarrow> bool \<times> WindowState" where
  "alreadyApplied [] ws = (False, ws)"
| "alreadyApplied (h # hs) ws =
     (if HKey h \<noteq> HeaderKey then alreadyApplied hs ws
      else (case Decode (HValue h) of
              None \<Rightarrow> (False, ws)
            | Some (topic, part, off) \<Rightarrow>
                let r = SeenSet_Check (ws_Seen ws) (topic, part) off in (fst r, ws\<lparr>ws_Seen := snd r\<rparr>)))"

definition update_window :: "gomath \<Rightarrow> NormalizedTick \<Rightarrow> int option \<Rightarrow> Window \<Rightarrow> Window" where
  "update_window gm t ingest win =
     win\<lparr>Metrics := map (\<lambda>(name, m). (name, Update gm t m)) (Metrics win),
         NewestIngestMs := (case ingest of
             None \<Rightarrow> NewestIngestMs win
           | Some ms \<Rightarrow> if ms > NewestIngestMs win then ms else NewestIngestMs win)\<rparr>"

definition apply_tick :: "gomath \<Rightarrow> kgo_record \<Rightarrow> NormalizedTick \<Rightarrow> WindowState \<Rightarrow> WindowState" where
  "apply_tick gm rec t ws =
     ws\<lparr>Windows := map (\<lambda>(id, win). (id, update_window gm t (Find (RHeaders rec)) win)) (Windows ws)\<rparr>"

text \<open>The second result says whether the tick was applied to the windows, and to which symbol.\<close>

definition ProcessTick ::
    "(bytes \<Rightarrow> NormalizedTick option) \<Rightarrow> gomath \<Rightarrow> AWorker \<Rightarrow> kgo_record \<Rightarrow> (AWorker \<times> string option) outcome" where
  "ProcessTick um gm w rec =
     (case um (RValue rec) of
        None \<Rightarrow> Done (w, None)
      | Some t \<Rightarrow>
          let key = tick_key t
          in bind_out (case map_of (SymbolStates w) key of Some ws \<Rightarrow> Done ws | None \<Rightarrow> new_symbol gm w t) (\<lambda>ws.
               if atLeastOnce w then
                 (case alreadyApplied (RHeaders rec) ws of
                    (dup, ws1) \<Rightarrow>
                      if dup then Done (put_sym w key ws1, None)
                      else Done (mark_dirty (put_sym w key (apply_tick gm rec t ws1)) key, Some key))
               else Done (put_sym w key (apply_tick gm rec t ws), Some key)))"

section \<open>Window flushes\<close>

fun flush_metrics :: "gomath \<Rightarrow> metric_map \<Rightarrow> AggregatedTick \<Rightarrow> AggregatedTick \<times> metric_map" where
  "flush_metrics gm [] a = (a, [])"
| "flush_metrics gm ((name, m) # ms) a =
     (case Apply gm m a of (a1, m1) \<Rightarrow>
      case flush_metrics gm ms a1 of (a2, ms2) \<Rightarrow> (a2, (name, Reset m1) # ms2))"

text \<open>The downstream topic is a setting.\<close>

definition PublishAggregate :: "string \<Rightarrow> AggregatedTick \<Rightarrow> int \<Rightarrow> bytes \<Rightarrow> kgo_record" where
  "PublishAggregate topic a ingestMs val =
     \<lparr>RTopic = topic, RPartition = 0, ROffset = 0,
      RKey = ag_Exchange a @ '':'' @ ag_Channel a @ '':'' @ ag_Symbol a, RValue = val,
      RHeaders = (if ingestMs > 0 then [Header ingestMs] else []), RTimestamp = 0\<rparr>"

definition empty_aggregate :: "WindowState \<Rightarrow> Window \<Rightarrow> WindowConfig \<Rightarrow> int \<Rightarrow> AggregatedTick" where
  "empty_aggregate ws win cfg flushTs =
     \<lparr>ag_Exchange = ws_Exchange ws, ag_Channel = ws_Channel ws, ag_Symbol = ws_Symbol ws, ag_WindowId = win_Id win,
      ag_StartTsMs = flushTs - cfg_DurationMs cfg, ag_EndTsMs = flushTs,
      ag_Price = None, ag_Volume = None, ag_Volatility = None, ag_Trend = None\<rparr>"

text \<open>One symbol of \<open>FlushWindow\<close>: the window with its metrics reset, the aggregate and its ingest time.\<close>

definition flush_symbol :: "gomath \<Rightarrow> WindowConfig \<Rightarrow> int \<Rightarrow> WindowState \<Rightarrow> WindowState \<times> (AggregatedTick \<times> int) option" where
  "flush_symbol gm cfg flushTs ws =
     (case map_of (Windows ws) (cfg_Id cfg) of
        None \<Rightarrow> (ws, None)
      | Some win \<Rightarrow>
          (case flush_metrics gm (Metrics win) (empty_aggregate ws win cfg flushTs) of
             (a, ms) \<Rightarrow>
               (ws\<lparr>Windows := AList.update (cfg_Id cfg) (win\<lparr>Metrics := ms, NewestIngestMs := 0\<rparr>) (Windows ws)\<rparr>,
                Some (a, NewestIngestMs win))))"

fun flush_symbols ::
    "gomath \<Rightarrow> WindowConfig \<Rightarrow> int \<Rightarrow> (string \<times> WindowState) list \<Rightarrow> (string \<times> WindowState) list \<times> (string \<times> AggregatedTick \<times> int) list" where
  "flush_symbols gm cfg flushTs [] = ([], [])"
| "flush_symbols gm cfg flushTs ((key, ws) # xs) =
     (case flush_symbol gm cfg flushTs ws of (ws1, out) \<Rightarrow>
      case flush_symbols gm cfg flushTs xs of (xs1, outs) \<Rightarrow>
        ((key, ws1) # xs1, (case out of None \<Rightarrow> outs | Some (a, ms) \<Rightarrow> (key, a, ms) # outs)))"

text \<open>\<open>ma\<close> is the protobuf encoder; an aggregate that does not encode is a produce failure.\<close>

definition FlushWindow ::
    "string \<Rightarrow> (AggregatedTick \<Rightarrow> bytes option) \<Rightarrow> gomath \<Rightarrow> AWorker \<Rightarrow> WindowConfig \<Rightarrow> int \<Rightarrow> AWorker \<times> kgo_record list" where
  "FlushWindow topic ma gm w cfg flushTs =
     (case flush_symbols gm cfg flushTs (SymbolStates w) of (syms, outs) \<Rightarrow>
        (w\<lparr>SymbolStates := syms,
           dirty := (if atLeastOnce w then fold List.insert (map fst outs) (dirty w) else dirty w),
           aTxnFailed := (aTxnFailed w \<or> (\<exists>(k, a, ms) \<in> set outs. ma a = None))\<rparr>,
         List.map_filter (\<lambda>(k, a, ms). map_option (PublishAggregate topic a ms) (ma a)) outs))"

section \<open>The transactional mode\<close>

definition CheckpointTopic :: string where
  "CheckpointTopic = ''aggregator.window.checkpoints''"

definition PublishCheckpoint :: "string \<Rightarrow> string \<Rightarrow> bytes \<Rightarrow> kgo_record" where
  "PublishCheckpoint bufferKey windowId val =
     \<lparr>RTopic = CheckpointTopic, RPartition = 0, ROffset = 0, RKey = bufferKey @ '':'' @ windowId, RValue = val,
      RHeaders = [], RTimestamp = 0\<rparr>"

text \<open>\<open>checkpointWindows\<close>: one record per symbol and window; one that does not encode fails the transaction.\<close>

definition checkpointWindows :: "(metric_map \<Rightarrow> bytes option) \<Rightarrow> AWorker \<Rightarrow> AWorker \<times> kgo_record list" where
  "checkpointWindows ew w =
     (let all = concat (map (\<lambda>(key, ws). map (\<lambda>(id, win). (key, id, ew (Metrics win))) (Windows ws)) (SymbolStates w))
      in (w\<lparr>aTxnFailed := (aTxnFailed w \<or> (\<exists>(k, id, v) \<in> set all. v = None))\<rparr>,
          List.map_filter (\<lambda>(k, id, v). map_option (PublishCheckpoint k id) v) all))"

datatype agg_end = AggCommit | AggAbort

definition agg_endTransaction :: "(metric_map \<Rightarrow> bytes option) \<Rightarrow> AWorker \<Rightarrow> AWorker \<times> kgo_record list \<times> agg_end" where
  "agg_endTransaction ew w =
     (case checkpointWindows ew w of (w1, recs) \<Rightarrow>
        (w1\<lparr>aTxnFailed := False\<rparr>, recs, if aTxnFailed w1 then AggAbort else AggCommit))"

section \<open>Checkpoints of the at-least-once mode\<close>

definition symbolKeyPrefix :: string where
  "symbolKeyPrefix = ''v2:''"

definition ProduceSymbolCheckpoint :: "string \<Rightarrow> bytes \<Rightarrow> kgo_record" where
  "ProduceSymbolCheckpoint bufferKey val =
     \<lparr>RTopic = CheckpointTopic, RPartition = 0, ROffset = 0, RKey = symbolKeyPrefix @ bufferKey, RValue = val,
      RHeaders = [], RTimestamp = 0\<rparr>"

text \<open>The loaders' callbacks: each takes the records of its own format and skips the other's.\<close>

fun cut_prefix :: "string \<Rightarrow> string \<Rightarrow> string option" where
  "cut_prefix [] s = Some s"
| "cut_prefix (p # ps) [] = None"
| "cut_prefix (p # ps) (c # cs) = (if p = c then cut_prefix ps cs else None)"

definition LoadCheckpoints :: "(bytes \<Rightarrow> metric_map option) \<Rightarrow> kgo_record list \<Rightarrow> string \<rightharpoonup> metric_map" where
  "LoadCheckpoints dw recs =
     fold (\<lambda>r m. if cut_prefix symbolKeyPrefix (RKey r) \<noteq> None then m
                 else (case dw (RValue r) of None \<Rightarrow> m | Some ms \<Rightarrow> m(RKey r \<mapsto> ms))) recs Map.empty"

definition LoadSymbolCheckpoints :: "(bytes \<Rightarrow> SymbolCheckpoint option) \<Rightarrow> kgo_record list \<Rightarrow> string \<rightharpoonup> SymbolCheckpoint" where
  "LoadSymbolCheckpoints ds recs =
     fold (\<lambda>r m. case cut_prefix symbolKeyPrefix (RKey r) of
                   None \<Rightarrow> m
                 | Some key \<Rightarrow> (case ds (RValue r) of None \<Rightarrow> m | Some ck \<Rightarrow> m(key \<mapsto> ck))) recs Map.empty"

definition checkpoint_of :: "WindowState \<Rightarrow> SymbolCheckpoint" where
  "checkpoint_of ws = \<lparr>ck_Windows = map (\<lambda>(id, win). (id, Metrics win)) (Windows ws), ck_Seen = ws_Seen ws\<rparr>"

definition commitPositions :: "AWorker \<Rightarrow> (tp \<times> EpochOffset) list \<Rightarrow> AWorker \<times> (tp \<times> EpochOffset) list" where
  "commitPositions w poss =
     (let adv = filter (\<lambda>(k, eo). case lastCommitted w k of None \<Rightarrow> True | Some p \<Rightarrow> \<not> Offset eo \<le> p) poss
      in (w\<lparr>lastCommitted := fold (\<lambda>(k, eo) m. m(k \<mapsto> Offset eo)) adv (lastCommitted w)\<rparr>, adv))"

text \<open>
  What \<open>checkpointDirty\<close> starts: nothing, a commit, or a batch of checkpoint records with the positions to commit
  once all of them are acknowledged. \<open>ec\<close> is the gob encoder.
\<close>

datatype ckpt_action =
    NoAction
  | CommitNow "(tp \<times> EpochOffset) list"
  | StartBatch "(string \<times> bytes) list" "(tp \<times> EpochOffset) list"

text \<open>A dirty key without a symbol state would dereference nil.\<close>

fun encode_all :: "(SymbolCheckpoint \<Rightarrow> bytes option) \<Rightarrow> (string \<rightharpoonup> WindowState) \<Rightarrow> string list \<Rightarrow> (string \<times> bytes) list outcome" where
  "encode_all ec syms [] = Done []"
| "encode_all ec syms (key # keys) =
     (case syms key of
        None \<Rightarrow> Panic
      | Some ws \<Rightarrow>
          bind_out (of_opt (ec (checkpoint_of ws))) (\<lambda>val.
          bind_out (encode_all ec syms keys) (\<lambda>rest. Done ((key, val) # rest))))"

definition checkpointDirty ::
    "(SymbolCheckpoint \<Rightarrow> bytes option) \<Rightarrow> AWorker \<Rightarrow> (tp \<times> EpochOffset) list \<Rightarrow> (AWorker \<times> ckpt_action) outcome" where
  "checkpointDirty ec w poss =
     (if batchInFlight w then Done (w, NoAction)
      else if dirty w = [] then (case commitPositions w poss of (w1, adv) \<Rightarrow> Done (w1, CommitNow adv))
      else (case encode_all ec (map_of (SymbolStates w)) (dirty w) of
              Panic \<Rightarrow> Panic
            | Fail \<Rightarrow> Done (w, NoAction)
            | Done batch \<Rightarrow> Done (w\<lparr>batchInFlight := True, dirty := []\<rparr>, StartBatch batch poss)))"

record ckptResult =
  positions :: "(tp \<times> EpochOffset) list"
  ck_keys :: "string list"
  ck_failed :: bool

definition finishBatch :: "AWorker \<Rightarrow> ckptResult \<Rightarrow> AWorker \<times> (tp \<times> EpochOffset) list" where
  "finishBatch w res =
     (let w1 = w\<lparr>batchInFlight := False\<rparr>
      in if ck_failed res then (w1\<lparr>dirty := fold List.insert (ck_keys res) (dirty w1)\<rparr>, [])
         else commitPositions w1 (positions res))"

end
