(* ===== verification/Agg_Rolling.thy ===== *)
theory Agg_Rolling
  imports Agg_Metrics
begin

text \<open>
  What the metrics of a window compute from the ticks it was given.
\<close>

section \<open>Open, high, low, close\<close>

lemma f_max_max: "a \<noteq> NaN \<Longrightarrow> b \<noteq> NaN \<Longrightarrow> f_max a b = max a b"
  by (auto simp: f_max_def f_lt_less max_def)

lemma f_min_min: "a \<noteq> NaN \<Longrightarrow> b \<noteq> NaN \<Longrightarrow> f_min a b = min a b"
  by (auto simp: f_min_def f_lt_less min_def)

lemma ohlc_fold:
  assumes "OpenSet h" "High h \<noteq> NaN" "Low h \<noteq> NaN" "\<forall>t \<in> set ts. tk_High t \<noteq> NaN \<and> tk_Low t \<noteq> NaN"
  shows "fold OHLC_Update ts h =
    h\<lparr>High := Max (insert (High h) (tk_High ` set ts)), Low := Min (insert (Low h) (tk_Low ` set ts)),
      Close := (if ts = [] then Close h else tk_Close (last ts))\<rparr>"
  using assms
proof (induction ts arbitrary: h)
  case (Cons t ts)
  let ?h = "OHLC_Update t h"
  have u: "?h = h\<lparr>High := max (High h) (tk_High t), Low := min (Low h) (tk_Low t), Close := tk_Close t\<rparr>"
    using Cons.prems by (simp add: OHLC_Update_def f_max_max f_min_min)
  have "High ?h \<noteq> NaN" "Low ?h \<noteq> NaN" using Cons.prems by (simp_all add: u max_def min_def)
  then have ih: "fold OHLC_Update ts ?h = ?h\<lparr>High := Max (insert (High ?h) (tk_High ` set ts)),
      Low := Min (insert (Low ?h) (tk_Low ` set ts)), Close := (if ts = [] then Close ?h else tk_Close (last ts))\<rparr>"
    using Cons.prems by (intro Cons.IH) (simp_all add: u)
  have "Max (insert (max a b) A) = Max (insert a (insert b A))" if "finite A" for a b :: f64 and A
    using that by (cases "A = {}") (simp_all add: max.assoc)
  moreover have "Min (insert (min a b) A) = Min (insert a (insert b A))" if "finite A" for a b :: f64 and A
    using that by (cases "A = {}") (simp_all add: min.assoc)
  ultimately show ?case using ih by (simp add: u)
qed simp

lemma ohlc_of_ticks:
  assumes "ts \<noteq> []" "\<forall>t \<in> set ts. tk_High t \<noteq> NaN \<and> tk_Low t \<noteq> NaN"
  shows "fold OHLC_Update ts new_OHLC =
    \<lparr>OpenSet = True, Open = tk_Open (hd ts), High = Max (tk_High ` set ts), Low = Min (tk_Low ` set ts), Close = tk_Close (last ts)\<rparr>"
proof (cases ts)
  case (Cons t rest)
  have "OHLC_Update t new_OHLC = \<lparr>OpenSet = True, Open = tk_Open t, High = tk_High t, Low = tk_Low t, Close = tk_Close t\<rparr>"
    by (simp add: OHLC_Update_def new_OHLC_def)
  with Cons assms ohlc_fold [of "OHLC_Update t new_OHLC" rest] show ?thesis by auto
qed (use assms in simp)

section \<open>The bucket ring\<close>

text \<open>
  The ring as a function: \<open>S k\<close> is the volume that fell into bucket number \<open>k\<close>, counted from the first tick;
  the ring holds the buckets \<open>c - n + 1, ..., c\<close>, bucket \<open>k\<close> in slot \<open>k mod n\<close>, and the running total is their sum.
\<close>

definition ring_holds :: "nat \<Rightarrow> int \<Rightarrow> (int \<Rightarrow> int) \<Rightarrow> RollingVolume \<Rightarrow> bool" where
  "ring_holds n c S r \<longleftrightarrow>
     length (VolumeBuckets r) = n \<and> rv_Idx r = nat (c mod int n) \<and>
     (\<forall>k. c - int n < k \<and> k \<le> c \<longrightarrow> VolumeBuckets r ! nat (k mod int n) = Fin (of_int (S k))) \<and>
     RunningTotal r = Fin (of_int (\<Sum>k \<in> {c - int n<..c}. S k))"

lemma f_add_int: "\<bar>x + y\<bar> < 2 ^ 53 \<Longrightarrow> f_add (Fin (of_int x)) (Fin (of_int y)) = Fin (of_int (x + y))"
  using f64_round_int [of "x + y"] by simp

lemma f_sub_int: "\<bar>x - y\<bar> < 2 ^ 53 \<Longrightarrow> f_sub (Fin (of_int x)) (Fin (of_int y)) = Fin (of_int (x - y))"
  using f_add_int [of x "- y"] by (simp add: f_sub_def)

lemma slot_eq:
  fixes k c :: int
  assumes "c - int n < k" "k \<le> c" "0 < n"
  shows "nat (k mod int n) = nat (c mod int n) \<longleftrightarrow> k = c"
proof
  assume "nat (k mod int n) = nat (c mod int n)"
  then have "k mod int n = c mod int n" using assms(3) by (simp add: nat_eq_iff)
  then have "int n dvd c - k" by (metis mod_eq_dvd_iff)
  moreover have "0 \<le> c - k" "c - k < int n" using assms by simp_all
  ultimately show "k = c" using zdvd_not_zless [of "c - k" "int n"] by linarith
qed simp

lemma next_slot: "0 < n \<Longrightarrow> (nat (c mod int n) + 1) mod n = nat ((c + 1) mod int n)"
proof -
  assume "0 < n"
  then have "int ((nat (c mod int n) + 1) mod n) = (c + 1) mod int n" by (simp add: zmod_int mod_add_right_eq add.commute)
  then show ?thesis by (metis nat_int)
qed

lemma ring_sum_shift:
  fixes S :: "int \<Rightarrow> int"
  assumes "0 < n"
  shows "(\<Sum>k \<in> {c + 1 - int n<..c + 1}. S k) = (\<Sum>k \<in> {c - int n<..c}. S k) - S (c + 1 - int n) + S (c + 1)"
proof -
  have "{c - int n<..c} = insert (c + 1 - int n) {c + 1 - int n<..c}" "{c + 1 - int n<..c + 1} = insert (c + 1) {c + 1 - int n<..c}"
    using assms by auto
  then show ?thesis by simp
qed

lemma ring_advance:
  assumes r: "ring_holds n c S r" and n: "0 < n" and z: "S (c + 1) = 0"
    and nn: "\<And>k. 0 \<le> S k" and b: "(\<Sum>k \<in> {c - int n<..c}. S k) < 2 ^ 53"
  shows "ring_holds n (c + 1) S (rv_advance r)"
proof -
  let ?i = "nat ((c + 1) mod int n)" and ?T = "\<Sum>k \<in> {c - int n<..c}. S k" and ?old = "c + 1 - int n"
  have len: "length (VolumeBuckets r) = n" and ix: "rv_Idx r = nat (c mod int n)"
    and v: "\<And>k. c - int n < k \<Longrightarrow> k \<le> c \<Longrightarrow> VolumeBuckets r ! nat (k mod int n) = Fin (of_int (S k))"
    and t: "RunningTotal r = Fin (of_int ?T)"
    using r by (simp_all add: ring_holds_def)
  have i: "(rv_Idx r + 1) mod length (VolumeBuckets r) = ?i" unfolding len ix by (rule next_slot [OF n])
  have lt: "?i < n" using n by (simp add: nat_less_iff)
  have "?old mod int n = (c + 1) mod int n" by simp
  then have o: "VolumeBuckets r ! ?i = Fin (of_int (S ?old))" using v [of ?old] n by simp
  have "S ?old \<le> ?T" using n nn by (intro member_le_sum) auto
  then have "\<bar>?T - S ?old\<bar> < 2 ^ 53" using b nn [of ?old] by linarith
  then have "RunningTotal (rv_advance r) = Fin (of_int (?T - S ?old))"
    unfolding rv_advance_def Let_def i by (simp add: t o f_sub_int del: of_int_diff of_int_sum)
  moreover have "?T - S ?old = (\<Sum>k \<in> {c + 1 - int n<..c + 1}. S k)" using ring_sum_shift [OF n, of S c] z by simp
  moreover have "VolumeBuckets (rv_advance r) ! nat (k mod int n) = Fin (of_int (S k))"
    if k: "c + 1 - int n < k" "k \<le> c + 1" for k
  proof (cases "k = c + 1")
    case True
    then show ?thesis using lt len z unfolding rv_advance_def Let_def i by simp
  next
    case False
    then have "nat (k mod int n) \<noteq> ?i" using slot_eq [OF k n] by simp
    then show ?thesis using v [of k] k False unfolding rv_advance_def Let_def i by simp
  qed
  moreover have "rv_Idx (rv_advance r) = ?i" "length (VolumeBuckets (rv_advance r)) = n"
    unfolding rv_advance_def Let_def i by (simp_all add: len)
  ultimately show ?thesis unfolding ring_holds_def by simp
qed

lemma ring_advance_many:
  assumes "ring_holds n c S r" "0 < n" "\<And>k. c < k \<Longrightarrow> S k = 0" "\<And>k. 0 \<le> S k" "(\<Sum>k \<in> {c - int n<..c}. S k) < 2 ^ 53"
  shows "ring_holds n (c + int m) S ((rv_advance ^^ m) r)"
  using assms
proof (induction m)
  case (Suc m)
  let ?c = "c + int m"
  have ih: "ring_holds n ?c S ((rv_advance ^^ m) r)" using Suc by simp
  have "(\<Sum>k \<in> {?c - int n<..?c}. S k) = (\<Sum>k \<in> {?c - int n<..c}. S k)"
    by (rule sum.mono_neutral_right) (auto intro: Suc.prems(3))
  also have "\<dots> \<le> (\<Sum>k \<in> {c - int n<..c}. S k)" by (rule sum_mono2) (auto intro: Suc.prems(4))
  finally have "(\<Sum>k \<in> {?c - int n<..?c}. S k) < 2 ^ 53" using Suc.prems(5) by linarith
  from ring_advance [OF ih Suc.prems(2) _ Suc.prems(4) this] Suc.prems(3) show ?case by (simp add: algebra_simps)
qed simp

lemma advance_fields [simp]:
  "rv_BucketSizeMs ((rv_advance ^^ m) r) = rv_BucketSizeMs r" "rv_LastBucketTsMs ((rv_advance ^^ m) r) = rv_LastBucketTsMs r"
  by (induction m) (simp_all add: rv_advance_def Let_def)

lemma ring_add:
  assumes r: "ring_holds n c S r" and n: "0 < n" and v: "0 \<le> v" and nn: "\<And>k. 0 \<le> S k"
    and b: "(\<Sum>k \<in> {c - int n<..c}. S k) + v < 2 ^ 53"
  shows "ring_holds n c (S(c := S c + v))
    (r\<lparr>VolumeBuckets := (VolumeBuckets r)[rv_Idx r := f_add (VolumeBuckets r ! rv_Idx r) (Fin (of_int v))],
       RunningTotal := f_add (RunningTotal r) (Fin (of_int v)), rv_LastBucketTsMs := l\<rparr>)"
proof -
  let ?T = "\<Sum>k \<in> {c - int n<..c}. S k"
  have c: "c \<in> {c - int n<..c}" using n by simp
  have le: "S c \<le> ?T" "0 \<le> ?T" using c nn by (auto intro: member_le_sum sum_nonneg)
  have len: "length (VolumeBuckets r) = n" and ix: "rv_Idx r = nat (c mod int n)"
    and vb: "\<And>k. c - int n < k \<Longrightarrow> k \<le> c \<Longrightarrow> VolumeBuckets r ! nat (k mod int n) = Fin (of_int (S k))"
    and t: "RunningTotal r = Fin (of_int ?T)"
    using r by (simp_all add: ring_holds_def)
  have lt: "rv_Idx r < n" using n by (simp add: ix nat_less_iff)
  have "f_add (VolumeBuckets r ! rv_Idx r) (Fin (of_int v)) = Fin (of_int (S c + v))"
    using vb [of c] n f_add_int [of "S c" v] le b v nn [of c] by (simp add: ix)
  moreover have "f_add (RunningTotal r) (Fin (of_int v)) = Fin (of_int (?T + v))"
    unfolding t using le b v by (intro f_add_int) linarith
  moreover have "(\<Sum>k \<in> {c - int n<..c}. (S(c := S c + v)) k) = ?T + v"
    using c by (simp add: sum.remove [of _ c])
  moreover have "(VolumeBuckets r)[rv_Idx r := Fin (of_int (S c + v))] ! nat (k mod int n) = Fin (of_int ((S(c := S c + v)) k))"
    if k: "c - int n < k" "k \<le> c" for k
  proof (cases "k = c")
    case True
    then show ?thesis using lt len by (simp add: ix)
  next
    case False
    then have "nat (k mod int n) \<noteq> rv_Idx r" using slot_eq [OF k n] by (simp add: ix)
    then show ?thesis using vb [OF k] False by simp
  qed
  ultimately show ?thesis using ix len unfolding ring_holds_def by (simp del: of_int_add of_int_sum)
qed

lemma bucket_shift:
  fixes t0 c B :: int
  assumes "0 < B"
  shows "c + (now - (t0 + c * B)) div B = (now - t0) div B"
proof -
  have "(now - (t0 + c * B) + c * B) div B = c + (now - (t0 + c * B)) div B" using assms by (intro div_mult_self1) simp
  then show ?thesis by simp
qed

lemma ring_update:
  assumes r: "ring_holds n c S r" and n: "0 < n" and B: "rv_BucketSizeMs r = B" "0 < B"
    and l: "rv_LastBucketTsMs r = t0 + c * B" "rv_LastBucketTsMs r \<noteq> 0" "t0 + c * B \<le> tk_EventTsMillis t"
    and v: "tk_Volume t = Fin (of_int v)" "0 \<le> v"
    and S: "\<And>k. 0 \<le> S k" "\<And>k. c < k \<Longrightarrow> S k = 0" and b: "(\<Sum>k \<in> {c - int n<..c}. S k) + v < 2 ^ 53"
  defines "c' \<equiv> (tk_EventTsMillis t - t0) div B"
  shows "ring_holds n c' (S(c' := S c' + v)) (RollingVolume_Update t r)"
    and "rv_BucketSizeMs (RollingVolume_Update t r) = B" and "rv_LastBucketTsMs (RollingVolume_Update t r) = t0 + c' * B"
    and "c \<le> c'"
proof -
  define st where "st = (tk_EventTsMillis t - rv_LastBucketTsMs r) sdiv B"
  have div: "st = (tk_EventTsMillis t - (t0 + c * B)) div B"
    using l B by (simp add: st_def signed_divide_int_def sgn_if)
  have st0: "0 \<le> st" using l(3) B by (simp add: div pos_imp_zdiv_nonneg_iff)
  have c': "c' = c + int (nat st)" using bucket_shift [OF B(2), of c _ t0] st0 by (simp add: c'_def div)
  then show "c \<le> c'" by simp
  let ?r1 = "(rv_advance ^^ nat st) r"
  have r1: "ring_holds n c' S ?r1" unfolding c' by (rule ring_advance_many [OF r n S(2) S(1)]) (use b v(2) in linarith)+
  have "(\<Sum>k \<in> {c' - int n<..c'}. S k) = (\<Sum>k \<in> {c' - int n<..c}. S k)"
    by (rule sum.mono_neutral_right) (auto simp: c' intro: S(2))
  also have "\<dots> \<le> (\<Sum>k \<in> {c - int n<..c}. S k)" by (rule sum_mono2) (auto simp: c' intro: S(1))
  finally have b': "(\<Sum>k \<in> {c' - int n<..c'}. S k) + v < 2 ^ 53" using b by linarith
  let ?l = "rv_LastBucketTsMs ?r1 + st * rv_BucketSizeMs ?r1"
  have u: "RollingVolume_Update t r = ?r1\<lparr>VolumeBuckets := (VolumeBuckets ?r1)[rv_Idx ?r1 := f_add (VolumeBuckets ?r1 ! rv_Idx ?r1) (Fin (of_int v))],
       RunningTotal := f_add (RunningTotal ?r1) (Fin (of_int v)), rv_LastBucketTsMs := ?l\<rparr>"
    using l(2) by (simp add: RollingVolume_Update_def Let_def st_def B v(1))
  show "ring_holds n c' (S(c' := S c' + v)) (RollingVolume_Update t r)"
    unfolding u by (rule ring_add [OF r1 n v(2) S(1) b'])
  show "rv_BucketSizeMs (RollingVolume_Update t r) = B" by (simp add: u B)
  show "rv_LastBucketTsMs (RollingVolume_Update t r) = t0 + c' * B"
    using l st0 by (simp add: u B c' algebra_simps)
qed

text \<open>
  The volume of the ticks that fell into each bucket, for ticks whose volumes are whole numbers \<open>vol t\<close>, and the
  bucket of a tick.
\<close>

definition whole :: "(NormalizedTick \<Rightarrow> int) \<Rightarrow> NormalizedTick \<Rightarrow> bool" where
  "whole vol t \<longleftrightarrow> tk_Volume t = Fin (of_int (vol t)) \<and> 0 \<le> vol t"

definition bucket_no :: "int \<Rightarrow> int \<Rightarrow> NormalizedTick \<Rightarrow> int" where
  "bucket_no t0 B t = (tk_EventTsMillis t - t0) div B"

definition bucket_sum :: "int \<Rightarrow> int \<Rightarrow> (NormalizedTick \<Rightarrow> int) \<Rightarrow> NormalizedTick list \<Rightarrow> int \<Rightarrow> int" where
  "bucket_sum t0 B vol ts k = (\<Sum>t\<leftarrow>filter (\<lambda>t. bucket_no t0 B t = k) ts. vol t)"

lemma bucket_sum_snoc:
  "bucket_sum t0 B vol (ts @ [t]) =
     (bucket_sum t0 B vol ts)(bucket_no t0 B t := bucket_sum t0 B vol ts (bucket_no t0 B t) + vol t)"
  by (auto simp: bucket_sum_def fun_eq_iff)

lemma bucket_sum_total:
  "finite K \<Longrightarrow> (\<Sum>k \<in> K. bucket_sum t0 B vol ts k) = (\<Sum>t\<leftarrow>filter (\<lambda>t. bucket_no t0 B t \<in> K) ts. vol t)"
proof (induction ts)
  case (Cons t ts)
  have "bucket_sum t0 B vol (t # ts) k = bucket_sum t0 B vol ts k + (if k = bucket_no t0 B t then vol t else 0)" for k
    by (simp add: bucket_sum_def)
  then have "(\<Sum>k \<in> K. bucket_sum t0 B vol (t # ts) k) =
      (\<Sum>k \<in> K. bucket_sum t0 B vol ts k) + (if bucket_no t0 B t \<in> K then vol t else 0)"
    using Cons.prems by (simp add: sum.distrib)
  then show ?case using Cons by simp
qed (simp add: bucket_sum_def)

lemma sum_list_filter_le:
  fixes f :: "'a \<Rightarrow> int"
  shows "\<forall>x \<in> set xs. 0 \<le> f x \<Longrightarrow> sum_list (map f (filter P xs)) \<le> sum_list (map f xs)"
  by (induction xs) auto

text \<open>The state of the ring after a non-empty run of ticks in time order.\<close>

definition ring_after :: "nat \<Rightarrow> int \<Rightarrow> (NormalizedTick \<Rightarrow> int) \<Rightarrow> NormalizedTick list \<Rightarrow> RollingVolume \<Rightarrow> bool" where
  "ring_after n B vol ts r \<longleftrightarrow>
     (let t0 = tk_EventTsMillis (hd ts); c = bucket_no t0 B (last ts)
      in ring_holds n c (bucket_sum t0 B vol ts) r \<and> rv_BucketSizeMs r = B \<and> rv_LastBucketTsMs r = t0 + c * B)"

lemma ring_after_first:
  assumes "NewRollingVolume cfg = Done r0" "whole vol t" "0 < tk_EventTsMillis t" "vol t < 2 ^ 53"
  defines "n \<equiv> nat (cfg_DurationMs cfg sdiv cfg_BucketSizeMs cfg)"
  shows "ring_after n (cfg_BucketSizeMs cfg) vol [t] (RollingVolume_Update t r0)"
    and "0 < n" and "0 < cfg_BucketSizeMs cfg"
proof -
  show n: "0 < n" and B: "0 < cfg_BucketSizeMs cfg"
    using assms(1) by (auto simp: NewRollingVolume_def Let_def n_def split: if_splits)
  let ?B = "cfg_BucketSizeMs cfg" and ?t0 = "tk_EventTsMillis t"
  let ?r = "r0\<lparr>rv_LastBucketTsMs := ?t0\<rparr>"
  have r0: "r0 = \<lparr>VolumeBuckets = replicate n (Fin 0), rv_Idx = 0, RunningTotal = Fin 0, PrevRunningTotal = Fin 0,
      rv_BucketSizeMs = ?B, rv_LastBucketTsMs = 0, rv_FlushCadencyMs = cfg_FlushCadencyMs cfg\<rparr>"
    using assms(1) by (auto simp: NewRollingVolume_def Let_def n_def split: if_splits)
  have h: "ring_holds n 0 (\<lambda>_. 0) ?r" using n by (simp add: ring_holds_def r0 nat_less_iff)
  have z: "bucket_no ?t0 ?B t = 0" by (simp add: bucket_no_def)
  have u: "RollingVolume_Update t r0 = RollingVolume_Update t ?r"
    using assms(3) by (simp add: RollingVolume_Update_def r0 Let_def)
  have "bucket_sum ?t0 ?B vol [t] = (\<lambda>_. 0)(0 := 0 + vol t)" by (auto simp: bucket_sum_def z fun_eq_iff)
  then show "ring_after n ?B vol [t] (RollingVolume_Update t r0)"
    using ring_update [OF h n _ B, of ?t0 t "vol t"] assms(2-4)
    unfolding ring_after_def u by (simp add: r0 z whole_def bucket_no_def [symmetric])
qed

lemma ring_after_snoc:
  assumes r: "ring_after n B vol ts r" and ne: "ts \<noteq> []" and n: "0 < n" and B: "0 < B"
    and s: "sorted (map tk_EventTsMillis (ts @ [t]))" and t0: "0 < tk_EventTsMillis (hd ts)"
    and w: "\<forall>u \<in> set (ts @ [t]). whole vol u" and b: "(\<Sum>u\<leftarrow>ts @ [t]. vol u) < 2 ^ 53"
  shows "ring_after n B vol (ts @ [t]) (RollingVolume_Update t r)"
proof -
  let ?t0 = "tk_EventTsMillis (hd ts)" and ?S = "bucket_sum (tk_EventTsMillis (hd ts)) B vol ts"
  let ?c = "bucket_no ?t0 B (last ts)" and ?c' = "bucket_no ?t0 B t"
  have h: "ring_holds n ?c ?S r" "rv_BucketSizeMs r = B" "rv_LastBucketTsMs r = ?t0 + ?c * B"
    using r by (simp_all add: ring_after_def Let_def)
  have le: "tk_EventTsMillis u \<le> tk_EventTsMillis (last ts)" "?t0 \<le> tk_EventTsMillis u" if "u \<in> set ts" for u
  proof -
    from that obtain i where i: "u = ts ! i" "i < length ts" by (metis in_set_conv_nth)
    have "sorted (map tk_EventTsMillis ts)" using s by (simp add: sorted_append)
    from sorted_nth_mono [OF this, of i "length ts - 1"] sorted_nth_mono [OF this, of 0 i] i ne
    show "tk_EventTsMillis u \<le> tk_EventTsMillis (last ts)" "?t0 \<le> tk_EventTsMillis u"
      by (simp_all add: last_conv_nth hd_conv_nth)
  qed
  have last: "tk_EventTsMillis (last ts) \<le> tk_EventTsMillis t" using s ne by (simp add: sorted_append)
  have c0: "0 \<le> ?c" using le(2) [of "last ts"] ne B by (simp add: bucket_no_def pos_imp_zdiv_nonneg_iff)
  have "?t0 + ?c * B \<le> tk_EventTsMillis (last ts)"
    using minus_mod_eq_div_mult [of "tk_EventTsMillis (last ts) - ?t0" B] pos_mod_sign [OF B, of "tk_EventTsMillis (last ts) - ?t0"]
    by (simp add: bucket_no_def)
  with last have l: "?t0 + ?c * B \<le> tk_EventTsMillis t" by simp
  have "0 \<le> ?c * B" using c0 B by simp
  then have nz: "rv_LastBucketTsMs r \<noteq> 0" using t0 h(3) by linarith
  have S0: "0 \<le> ?S k" for k
    unfolding bucket_sum_def using w by (intro sum_list_nonneg) (auto simp: whole_def)
  have Sz: "?S k = 0" if "?c < k" for k
  proof -
    have "bucket_no ?t0 B u \<noteq> k" if "u \<in> set ts" for u
      using zdiv_mono1 [of "tk_EventTsMillis u - ?t0" "tk_EventTsMillis (last ts) - ?t0" B] le(1) [OF that] B \<open>?c < k\<close>
      by (simp add: bucket_no_def)
    then have "filter (\<lambda>u. bucket_no ?t0 B u = k) ts = []" by (simp add: filter_empty_conv)
    then show ?thesis by (simp only: bucket_sum_def list.map sum_list.Nil)
  qed
  have "(\<Sum>k \<in> {?c - int n<..?c}. ?S k) \<le> (\<Sum>u\<leftarrow>ts. vol u)"
    using w by (simp add: bucket_sum_total sum_list_filter_le whole_def)
  then have b': "(\<Sum>k \<in> {?c - int n<..?c}. ?S k) + vol t < 2 ^ 53" using b by simp
  have wt: "tk_Volume t = Fin (of_int (vol t))" "0 \<le> vol t" using w by (simp_all add: whole_def)
  note u = ring_update [OF h(1) n h(2) B h(3) nz l wt S0 Sz b', folded bucket_no_def]
  show ?thesis using u ne unfolding ring_after_def Let_def by (simp add: bucket_sum_snoc)
qed

lemma ring_after_run:
  assumes "NewRollingVolume cfg = Done r0" "ts \<noteq> []" "sorted (map tk_EventTsMillis ts)" "0 < tk_EventTsMillis (hd ts)"
    "\<forall>t \<in> set ts. whole vol t" "(\<Sum>t\<leftarrow>ts. vol t) < 2 ^ 53"
  shows "ring_after (nat (cfg_DurationMs cfg sdiv cfg_BucketSizeMs cfg)) (cfg_BucketSizeMs cfg) vol ts (fold RollingVolume_Update ts r0)"
  using assms(2-)
proof (induction ts rule: rev_induct)
  case (snoc t ts)
  have nn: "0 \<le> vol t" using snoc.prems by (simp add: whole_def)
  show ?case
  proof (cases "ts = []")
    case True
    then show ?thesis using ring_after_first(1) [OF assms(1), of vol t] snoc.prems by simp
  next
    case False
    have pos: "0 < nat (cfg_DurationMs cfg sdiv cfg_BucketSizeMs cfg)" "0 < cfg_BucketSizeMs cfg"
      using assms(1) by (auto simp: NewRollingVolume_def Let_def split: if_splits)
    have "ring_after (nat (cfg_DurationMs cfg sdiv cfg_BucketSizeMs cfg)) (cfg_BucketSizeMs cfg) vol ts (fold RollingVolume_Update ts r0)"
      using snoc.prems False nn by (intro snoc.IH) (simp_all add: sorted_append)
    from ring_after_snoc [OF this False pos snoc.prems(2)] snoc.prems False show ?thesis by simp
  qed
qed simp

lemma rolling_total:
  assumes "NewRollingVolume cfg = Done r0" and "ts \<noteq> []" and "sorted (map tk_EventTsMillis ts)"
    and "0 < tk_EventTsMillis (hd ts)" and "\<forall>t \<in> set ts. whole vol t" and "(\<Sum>t\<leftarrow>ts. vol t) < 2 ^ 53"
  shows "RunningTotal (fold RollingVolume_Update ts r0) =
    Fin (of_int (\<Sum>t\<leftarrow>filter (\<lambda>t. bucket_no (tk_EventTsMillis (hd ts)) (cfg_BucketSizeMs cfg) (last ts)
        < bucket_no (tk_EventTsMillis (hd ts)) (cfg_BucketSizeMs cfg) t + cfg_DurationMs cfg sdiv cfg_BucketSizeMs cfg) ts. vol t))"
proof -
  let ?n = "nat (cfg_DurationMs cfg sdiv cfg_BucketSizeMs cfg)" and ?b = "bucket_no (tk_EventTsMillis (hd ts)) (cfg_BucketSizeMs cfg)"
  have pos: "0 < cfg_DurationMs cfg sdiv cfg_BucketSizeMs cfg" "0 < cfg_BucketSizeMs cfg"
    using assms(1) by (auto simp: NewRollingVolume_def Let_def split: if_splits)
  have "RunningTotal (fold RollingVolume_Update ts r0) =
      Fin (of_int (\<Sum>k \<in> {?b (last ts) - int ?n<..?b (last ts)}. bucket_sum (tk_EventTsMillis (hd ts)) (cfg_BucketSizeMs cfg) vol ts k))"
    using ring_after_run [OF assms] unfolding ring_after_def Let_def ring_holds_def by blast
  also have "\<dots> = Fin (of_int (\<Sum>t\<leftarrow>filter (\<lambda>t. ?b t \<in> {?b (last ts) - int ?n<..?b (last ts)}) ts. vol t))"
    by (simp only: bucket_sum_total finite_greaterThanAtMost_int)
  also have "filter (\<lambda>t. ?b t \<in> {?b (last ts) - int ?n<..?b (last ts)}) ts =
      filter (\<lambda>t. ?b (last ts) < ?b t + cfg_DurationMs cfg sdiv cfg_BucketSizeMs cfg) ts"
  proof (rule filter_cong [OF refl])
    fix t
    assume "t \<in> set ts"
    then obtain i where i: "t = ts ! i" "i < length ts" by (metis in_set_conv_nth)
    have "tk_EventTsMillis t \<le> tk_EventTsMillis (last ts)"
      using sorted_nth_mono [OF assms(3), of i "length ts - 1"] i assms(2) by (simp add: last_conv_nth)
    then have "?b t \<le> ?b (last ts)" using pos(2) by (simp add: bucket_no_def zdiv_mono1)
    then show "?b t \<in> {?b (last ts) - int ?n<..?b (last ts)} \<longleftrightarrow> ?b (last ts) < ?b t + cfg_DurationMs cfg sdiv cfg_BucketSizeMs cfg"
      using pos(1) by auto
  qed
  finally show ?thesis .
qed

text \<open>
  C16. The rolling volume is exact. For ticks that arrive in time order with whole-number volumes (their sum below
  \<open>2 ^ 53\<close>, so that no addition rounds), the running total after any number of updates is the sum of the volumes
  of exactly the ticks whose bucket is among the last \<open>DurationMs / BucketSizeMs\<close>, whatever was added and expired
  on the way.
\<close>

theorem rolling_volume_exact:
  assumes "NewRollingVolume cfg = Done r0" and "ts \<noteq> []" and "sorted (map tk_EventTsMillis ts)"
    and "0 < tk_EventTsMillis (hd ts)" and "\<forall>t \<in> set ts. whole vol t" and "(\<Sum>t\<leftarrow>ts. vol t) < 2 ^ 53"
  shows "RunningTotal (fold RollingVolume_Update ts r0) =
    Fin (of_int (\<Sum>t\<leftarrow>filter (\<lambda>t. bucket_no (tk_EventTsMillis (hd ts)) (cfg_BucketSizeMs cfg) (last ts)
        < bucket_no (tk_EventTsMillis (hd ts)) (cfg_BucketSizeMs cfg) t + cfg_DurationMs cfg sdiv cfg_BucketSizeMs cfg) ts. vol t))"
  using assms by (rule rolling_total)

definition demo_cfg :: WindowConfig where
  "demo_cfg = \<lparr>cfg_Id = ''5s'', cfg_DurationMs = 5000, cfg_FlushCadencyMs = 1000, cfg_BucketSizeMs = 500\<rparr>"

definition demo_tick :: "int \<Rightarrow> int \<Rightarrow> NormalizedTick" where
  "demo_tick ts v = \<lparr>tk_Exchange = ''binance'', tk_Channel = ''aggTrade'', tk_Symbol = ''BTCUSDT'', tk_EventTsMillis = ts,
     tk_Price = Fin 2, tk_Volume = Fin (of_int v), tk_Open = Fin 2, tk_Close = Fin 2, tk_Low = Fin 1, tk_High = Fin 3\<rparr>"

definition demo_ring :: RollingVolume where
  "demo_ring = \<lparr>VolumeBuckets = replicate 10 (Fin 0), rv_Idx = 0, RunningTotal = Fin 0, PrevRunningTotal = Fin 0,
     rv_BucketSizeMs = 500, rv_LastBucketTsMs = 0, rv_FlushCadencyMs = 1000\<rparr>"

lemma demo_ring_new: "NewRollingVolume demo_cfg = Done demo_ring"
  by (simp add: NewRollingVolume_def demo_cfg_def demo_ring_def signed_divide_int_def)

lemma rolling_volume_exact_witness:
  "RunningTotal (fold RollingVolume_Update [demo_tick 10000 7, demo_tick 12000 5, demo_tick 16000 1] demo_ring) = Fin 6"
  using rolling_volume_exact [OF demo_ring_new, of "[demo_tick 10000 7, demo_tick 12000 5, demo_tick 16000 1]"
    "\<lambda>t. \<lfloor>f_val (tk_Volume t)\<rfloor>"]
  by (simp add: demo_tick_def whole_def bucket_no_def demo_cfg_def signed_divide_int_def)

text \<open>
  Late ticks empty the window. The five ticks below lie within half a second of each other and the ring covers one
  second, but each late one moves the bucket clock back without moving the ring, and the next on-time tick then
  advances the ring as if time had passed: the volume of the first two ticks has expired and the total is 3, not 5.
\<close>

theorem rolling_volume_late_ticks:
  "RunningTotal (fold RollingVolume_Update
     [demo_tick 10000 1, demo_tick 9500 1, demo_tick 10000 1, demo_tick 9500 1, demo_tick 10000 1]
     (demo_ring\<lparr>VolumeBuckets := [Fin 0, Fin 0]\<rparr>)) = Fin 3"
  by (simp add: demo_tick_def demo_ring_def RollingVolume_Update_def Let_def signed_divide_int_def rv_advance_def f_sub_def)

section \<open>The rolling average price\<close>

text \<open>
  The two rings inside a \<open>RollingVWAP\<close>, read as rolling volumes: one of the volumes and one of the products of price
  and volume.
\<close>

definition volume_ring :: "RollingVWAP \<Rightarrow> RollingVolume" where
  "volume_ring r = \<lparr>VolumeBuckets = map snd (Buckets r), rv_Idx = rw_Idx r, RunningTotal = TotalSumV r, PrevRunningTotal = Fin 0,
     rv_BucketSizeMs = rw_BucketSizeMs r, rv_LastBucketTsMs = rw_LastBucketTsMs r, rv_FlushCadencyMs = 0\<rparr>"

definition product_ring :: "RollingVWAP \<Rightarrow> RollingVolume" where
  "product_ring r = \<lparr>VolumeBuckets = map fst (Buckets r), rv_Idx = rw_Idx r, RunningTotal = TotalSumPV r, PrevRunningTotal = Fin 0,
     rv_BucketSizeMs = rw_BucketSizeMs r, rv_LastBucketTsMs = rw_LastBucketTsMs r, rv_FlushCadencyMs = 0\<rparr>"

definition product_tick :: "NormalizedTick \<Rightarrow> NormalizedTick" where
  "product_tick t = t\<lparr>tk_Volume := f_mul (tk_Price t) (tk_Volume t)\<rparr>"

lemma ring_last [simp]:
  "volume_ring (r\<lparr>rw_LastBucketTsMs := x\<rparr>) = (volume_ring r)\<lparr>rv_LastBucketTsMs := x\<rparr>"
  "product_ring (r\<lparr>rw_LastBucketTsMs := x\<rparr>) = (product_ring r)\<lparr>rv_LastBucketTsMs := x\<rparr>"
  by (simp_all add: volume_ring_def product_ring_def)

lemma ring_fields [simp]:
  "rv_LastBucketTsMs (volume_ring r) = rw_LastBucketTsMs r" "rv_BucketSizeMs (volume_ring r) = rw_BucketSizeMs r"
  "rv_LastBucketTsMs (product_ring r) = rw_LastBucketTsMs r" "rv_BucketSizeMs (product_ring r) = rw_BucketSizeMs r"
  by (simp_all add: volume_ring_def product_ring_def)

definition rw_ok :: "RollingVWAP \<Rightarrow> bool" where
  "rw_ok r \<longleftrightarrow> rw_Idx r < length (Buckets r) \<and> 0 < rw_BucketSizeMs r"

lemma rw_advance_rings:
  assumes "rw_ok r"
  shows "volume_ring (rw_advance r) = rv_advance (volume_ring r)" "product_ring (rw_advance r) = rv_advance (product_ring r)"
    "rw_ok (rw_advance r)" "rw_BucketSizeMs (rw_advance r) = rw_BucketSizeMs r" "rw_LastBucketTsMs (rw_advance r) = rw_LastBucketTsMs r"
proof -
  have n: "0 < length (Buckets r)" using assms by (auto simp: rw_ok_def)
  then have "(rw_Idx r + 1) mod length (Buckets r) < length (Buckets r)" by simp
  then show "volume_ring (rw_advance r) = rv_advance (volume_ring r)" "product_ring (rw_advance r) = rv_advance (product_ring r)"
    by (simp_all add: volume_ring_def product_ring_def rw_advance_def rv_advance_def Let_def map_update)
  show "rw_ok (rw_advance r)" using assms n by (simp add: rw_ok_def rw_advance_def Let_def)
qed (simp_all add: rw_advance_def Let_def)

lemma rw_advance_many:
  assumes "rw_ok r"
  shows "volume_ring ((rw_advance ^^ m) r) = (rv_advance ^^ m) (volume_ring r) \<and>
    product_ring ((rw_advance ^^ m) r) = (rv_advance ^^ m) (product_ring r) \<and> rw_ok ((rw_advance ^^ m) r) \<and>
    rw_BucketSizeMs ((rw_advance ^^ m) r) = rw_BucketSizeMs r \<and> rw_LastBucketTsMs ((rw_advance ^^ m) r) = rw_LastBucketTsMs r"
  using assms by (induction m) (simp_all add: rw_advance_rings)

lemma sdiv_small: "0 \<le> e \<Longrightarrow> e < B \<Longrightarrow> e sdiv B = (0::int)"
  by (simp add: signed_divide_int_def sgn_if)

lemma rw_update_rings:
  assumes "rw_ok r" and "rw_LastBucketTsMs r = 0 \<or> rw_LastBucketTsMs r \<le> tk_EventTsMillis t"
  shows "volume_ring (RollingVWAP_Update t r) = RollingVolume_Update t (volume_ring r)"
    "product_ring (RollingVWAP_Update t r) = RollingVolume_Update (product_tick t) (product_ring r)"
    "rw_ok (RollingVWAP_Update t r)"
proof -
  define r0 where "r0 = (if rw_LastBucketTsMs r = 0 then r\<lparr>rw_LastBucketTsMs := tk_EventTsMillis t\<rparr> else r)"
  define e where "e = tk_EventTsMillis t - rw_LastBucketTsMs r0"
  define st where "st = e sdiv rw_BucketSizeMs r0"
  define r1 where "r1 = ((rw_advance ^^ nat st) r0)\<lparr>rw_LastBucketTsMs := rw_LastBucketTsMs r0 + st * rw_BucketSizeMs r0\<rparr>"
  have ok: "rw_ok r0" using assms by (auto simp: r0_def rw_ok_def)
  have e: "0 \<le> e" using assms by (auto simp: e_def r0_def)
  have B: "0 < rw_BucketSizeMs r0" using ok by (simp add: rw_ok_def)
  note m = rw_advance_many [OF ok, of "nat st"]
  obtain bpv bv where b: "Buckets r1 ! rw_Idx r1 = (bpv, bv)" by (cases "Buckets r1 ! rw_Idx r1")
  let ?pv = "f_mul (tk_Price t) (tk_Volume t)"
  let ?r2 = "r1\<lparr>Buckets := (Buckets r1)[rw_Idx r1 := (f_add bpv ?pv, f_add bv (tk_Volume t))],
            TotalSumPV := f_add (TotalSumPV r1) ?pv, TotalSumV := f_add (TotalSumV r1) (tk_Volume t)\<rparr>"
  have "(if rw_BucketSizeMs r0 \<le> e then let steps = e sdiv rw_BucketSizeMs r0; r1 = (rw_advance ^^ nat steps) r0
       in r1\<lparr>rw_LastBucketTsMs := rw_LastBucketTsMs r1 + steps * rw_BucketSizeMs r1\<rparr> else r0) = r1"
    using sdiv_small [OF e] m by (auto simp: r1_def st_def Let_def)
  then have u: "RollingVWAP_Update t r = ?r2"
    unfolding RollingVWAP_Update_def Let_def r0_def [symmetric] e_def [symmetric] by (simp add: b)
  have ok1: "rw_ok r1" using m by (simp add: r1_def rw_ok_def)
  then have lt: "rw_Idx r1 < length (Buckets r1)" by (simp add: rw_ok_def)
  show "rw_ok (RollingVWAP_Update t r)" using ok1 unfolding u by (simp add: rw_ok_def)
  have v0: "(if rw_LastBucketTsMs r = 0 then (volume_ring r)\<lparr>rv_LastBucketTsMs := tk_EventTsMillis t\<rparr> else volume_ring r) = volume_ring r0"
    "(if rw_LastBucketTsMs r = 0 then (product_ring r)\<lparr>rv_LastBucketTsMs := tk_EventTsMillis t\<rparr> else product_ring r) = product_ring r0"
    by (simp_all add: r0_def)
  have v1: "((rv_advance ^^ nat st) (volume_ring r0))\<lparr>rv_LastBucketTsMs := rw_LastBucketTsMs r0 + st * rw_BucketSizeMs r0\<rparr> = volume_ring r1"
    "((rv_advance ^^ nat st) (product_ring r0))\<lparr>rv_LastBucketTsMs := rw_LastBucketTsMs r0 + st * rw_BucketSizeMs r0\<rparr> = product_ring r1"
    using m by (simp_all add: r1_def)
  show "volume_ring (RollingVWAP_Update t r) = RollingVolume_Update t (volume_ring r)"
    unfolding u RollingVolume_Update_def Let_def ring_fields v0 e_def [symmetric] st_def [symmetric] advance_fields v1
    using lt b by (simp add: volume_ring_def map_update)
  have p: "tk_EventTsMillis (product_tick t) = tk_EventTsMillis t" "tk_Volume (product_tick t) = ?pv"
    by (simp_all add: product_tick_def)
  show "product_ring (RollingVWAP_Update t r) = RollingVolume_Update (product_tick t) (product_ring r)"
    unfolding u RollingVolume_Update_def Let_def p ring_fields v0 e_def [symmetric] st_def [symmetric] advance_fields v1
    using lt b by (simp add: product_ring_def map_update)
qed

lemma late_bound:
  fixes x l B :: int
  assumes "0 < B" "l \<le> x"
  shows "l + ((x - l) sdiv B) * B \<le> x"
proof -
  have "(x - l) sdiv B = (x - l) div B" using assms by (simp add: signed_divide_int_def sgn_if)
  moreover have "(x - l) div B * B \<le> x - l"
    using minus_mod_eq_div_mult [of "x - l" B] pos_mod_sign [OF assms(1), of "x - l"] by linarith
  ultimately show ?thesis by simp
qed

lemma rw_clock:
  assumes "rw_ok r" "rw_LastBucketTsMs r = 0 \<or> rw_LastBucketTsMs r \<le> tk_EventTsMillis t"
  shows "rw_LastBucketTsMs (RollingVWAP_Update t r) \<le> tk_EventTsMillis t"
proof -
  have "rw_LastBucketTsMs (RollingVWAP_Update t r) = rv_LastBucketTsMs (RollingVolume_Update t (volume_ring r))"
    using rw_update_rings(1) [OF assms] by (metis ring_fields(1))
  also have "\<dots> \<le> tk_EventTsMillis t"
    using assms late_bound [of "rw_BucketSizeMs r" "rw_LastBucketTsMs r" "tk_EventTsMillis t"]
    by (auto simp: RollingVolume_Update_def Let_def rw_ok_def)
  finally show ?thesis .
qed

lemma rw_run_rings:
  assumes "rw_ok r" "sorted (map tk_EventTsMillis ts)"
    "rw_LastBucketTsMs r = 0 \<or> (\<forall>t \<in> set ts. rw_LastBucketTsMs r \<le> tk_EventTsMillis t)"
  shows "volume_ring (fold RollingVWAP_Update ts r) = fold RollingVolume_Update ts (volume_ring r) \<and>
    product_ring (fold RollingVWAP_Update ts r) = fold RollingVolume_Update (map product_tick ts) (product_ring r)"
  using assms
proof (induction ts arbitrary: r)
  case (Cons t ts)
  let ?r = "RollingVWAP_Update t r"
  have o: "rw_LastBucketTsMs r = 0 \<or> rw_LastBucketTsMs r \<le> tk_EventTsMillis t" using Cons.prems(3) by auto
  note u = rw_update_rings [OF Cons.prems(1) o]
  have "\<forall>x \<in> set ts. rw_LastBucketTsMs ?r \<le> tk_EventTsMillis x"
    using rw_clock [OF Cons.prems(1) o] Cons.prems(2) by fastforce
  then show ?case using Cons.IH [OF u(3)] Cons.prems(2) u(1,2) by simp
qed simp

text \<open>
  C17. The rolling average price is the exact quotient. For ticks in time order with whole-number prices and volumes
  (all sums below \<open>2 ^ 53\<close>), the two totals of a \<open>RollingVWAP\<close> are the sums of price times volume and of volume
  over exactly the ticks of the last \<open>DurationMs / BucketSizeMs\<close> buckets, the same ticks for both, so that the
  average \<open>Apply\<close> reports is their quotient, rounded once, or zero when there is no volume.
\<close>

theorem rolling_vwap_exact:
  assumes "NewRollingVWAP cfg = Done r0" and "ts \<noteq> []" and "sorted (map tk_EventTsMillis ts)"
    and "0 < tk_EventTsMillis (hd ts)" and "\<forall>t \<in> set ts. whole vol t \<and> tk_Price t = Fin (of_int (prc t)) \<and> 0 \<le> prc t"
    and "(\<Sum>t\<leftarrow>ts. vol t) < 2 ^ 53" and "(\<Sum>t\<leftarrow>ts. prc t * vol t) < 2 ^ 53"
  shows "let r = fold RollingVWAP_Update ts r0; b = bucket_no (tk_EventTsMillis (hd ts)) (cfg_BucketSizeMs cfg);
             lst = filter (\<lambda>t. b (last ts) < b t + cfg_DurationMs cfg sdiv cfg_BucketSizeMs cfg) ts;
             v = (\<Sum>t\<leftarrow>lst. vol t); pv = (\<Sum>t\<leftarrow>lst. prc t * vol t)
         in TotalSumV r = Fin (of_int v) \<and> TotalSumPV r = Fin (of_int pv) \<and>
            pm_RollingVwap (or_new zero_price (ag_Price (RollingVWAP_Apply r a))) =
              (if 0 < v then f64_round (of_int pv / of_int v) else Fin 0)"
proof -
  let ?cfg = "cfg\<lparr>cfg_FlushCadencyMs := 0\<rparr>" and ?pt = "map product_tick ts"
  let ?r = "fold RollingVWAP_Update ts r0" and ?w = "\<lambda>t. \<lfloor>f_val (tk_Volume t)\<rfloor>"
  have new: "NewRollingVolume ?cfg = Done (volume_ring r0)" "NewRollingVolume ?cfg = Done (product_ring r0)"
    and ok: "rw_ok r0" "rw_LastBucketTsMs r0 = 0"
    using assms(1)
    by (auto simp: NewRollingVWAP_def NewRollingVolume_def Let_def volume_ring_def product_ring_def rw_ok_def split: if_splits)
  note rings = rw_run_rings [OF ok(1) assms(3) disjI1 [OF ok(2)]]
  have nn: "0 \<le> prc t * vol t" if "t \<in> set ts" for t using assms(5) that by (simp add: whole_def)
  have p: "tk_Volume (product_tick t) = Fin (of_int (prc t * vol t))" if "t \<in> set ts" for t
  proof -
    have "prc t * vol t \<le> (\<Sum>t\<leftarrow>ts. prc t * vol t)" using nn that by (intro member_le_sum_list) auto
    then have "\<bar>prc t * vol t\<bar> < 2 ^ 53" using assms(7) nn [OF that] by linarith
    from f64_round_int [OF this] show ?thesis using assms(5) that by (simp add: product_tick_def whole_def)
  qed
  have ts: "tk_EventTsMillis (product_tick t) = tk_EventTsMillis t" for t by (simp add: product_tick_def)
  then have b: "bucket_no t0 B (product_tick t) = bucket_no t0 B t" for t0 B t by (simp add: bucket_no_def)
  have w: "map ?w (filter P ?pt) = map (\<lambda>t. prc t * vol t) (filter (P \<circ> product_tick) ts)" for P
    by (auto simp: filter_map p simp del: of_int_mult)
  have wh: "\<forall>t \<in> set ?pt. whole ?w t" using p nn by (simp add: whole_def del: of_int_mult)
  have "map ?w ?pt = map (\<lambda>t. prc t * vol t) ts" using p by (simp del: of_int_mult)
  then have sm: "(\<Sum>t\<leftarrow>?pt. ?w t) < 2 ^ 53" using assms(7) by (simp only:)
  have srt: "sorted (map tk_EventTsMillis ?pt)" using assms(3) by (simp add: ts comp_def)
  have hl: "hd ?pt = product_tick (hd ts)" "last ?pt = product_tick (last ts)" using assms(2) by (simp_all add: hd_map last_map)
  let ?b = "bucket_no (tk_EventTsMillis (hd ts)) (cfg_BucketSizeMs cfg)"
  let ?lst = "filter (\<lambda>t. ?b (last ts) < ?b t + cfg_DurationMs cfg sdiv cfg_BucketSizeMs cfg) ts"
  have tot: "TotalSumV x = RunningTotal (volume_ring x)" "TotalSumPV x = RunningTotal (product_ring x)" for x
    by (simp_all add: volume_ring_def product_ring_def)
  have v: "TotalSumV ?r = Fin (of_int (\<Sum>t\<leftarrow>?lst. vol t))"
    using rolling_total [OF new(1) assms(2-4) _ assms(6)] assms(5) rings unfolding tot by simp
  have "TotalSumPV ?r = RunningTotal (fold RollingVolume_Update ?pt (product_ring r0))" unfolding tot using rings by simp
  also have "\<dots> = Fin (of_int (\<Sum>t\<leftarrow>filter (\<lambda>t. ?b (last ?pt) < ?b t + cfg_DurationMs cfg sdiv cfg_BucketSizeMs cfg) ?pt. ?w t))"
    using rolling_total [OF new(2) _ srt _ wh sm] assms(2,4) by (simp add: hl ts)
  also have "\<dots> = Fin (of_int (\<Sum>t\<leftarrow>?lst. prc t * vol t))" by (simp only: w comp_def hl b)
  finally have pv: "TotalSumPV ?r = Fin (of_int (\<Sum>t\<leftarrow>?lst. prc t * vol t))" .
  show ?thesis unfolding Let_def v pv
    by (simp add: RollingVWAP_Apply_def set_price_def or_new_def v pv)
qed

lemma rolling_vwap_exact_witness:
  "let r0 = \<lparr>Buckets = replicate 10 (Fin 0, Fin 0), rw_Idx = 0, rw_BucketSizeMs = 500, rw_LastBucketTsMs = 0,
              TotalSumPV = Fin 0, TotalSumV = Fin 0\<rparr>;
       r = fold RollingVWAP_Update [demo_tick 10000 7, demo_tick 12000 5, demo_tick 16000 1] r0
   in NewRollingVWAP demo_cfg = Done r0 \<and> TotalSumV r = Fin 6 \<and> TotalSumPV r = Fin 12"
proof -
  let ?r0 = "\<lparr>Buckets = replicate 10 (Fin 0, Fin 0), rw_Idx = 0, rw_BucketSizeMs = 500, rw_LastBucketTsMs = 0,
              TotalSumPV = Fin 0, TotalSumV = Fin 0\<rparr>"
  have n: "NewRollingVWAP demo_cfg = Done ?r0"
    by (simp add: NewRollingVWAP_def demo_cfg_def signed_divide_int_def)
  show ?thesis
    using rolling_vwap_exact [OF n, of "[demo_tick 10000 7, demo_tick 12000 5, demo_tick 16000 1]"
      "\<lambda>t. \<lfloor>f_val (tk_Volume t)\<rfloor>" "\<lambda>t. 2"] n
    by (simp add: demo_tick_def whole_def bucket_no_def demo_cfg_def signed_divide_int_def Let_def)
qed

end
