(* ===== verification/Agg_Flush.thy ===== *)
theory Agg_Flush
  imports Agg_Worker Agg_Rolling
begin

text \<open>
  What a window publishes. The metrics of a window go through ticks and flushes; the lemmas give the aggregate of
  each flush as a function of the ticks since the one before, whatever order the metric map is iterated in.
\<close>

section \<open>The life of a window\<close>

definition tick_metrics :: "gomath \<Rightarrow> NormalizedTick \<Rightarrow> metric_map \<Rightarrow> metric_map" where
  "tick_metrics gm t ms = map (\<lambda>(name, m). (name, Update gm t m)) ms"

lemma Metrics_update_window: "Metrics (update_window gm t ingest win) = tick_metrics gm t (Metrics win)"
  by (simp add: update_window_def tick_metrics_def)

text \<open>The metrics of a window and the ticks applied since its last flush.\<close>

inductive window_run :: "gomath \<Rightarrow> WindowConfig \<Rightarrow> metric_map \<Rightarrow> NormalizedTick list \<Rightarrow> bool" for gm cfg where
  built: "build_metrics (MetricCtorRegistry gm) cfg = Done ms \<Longrightarrow> window_run gm cfg ms []"
| ticked: "window_run gm cfg ms ts \<Longrightarrow> window_run gm cfg (tick_metrics gm t ms) (ts @ [t])"
| flushed: "window_run gm cfg ms ts \<Longrightarrow> flush_metrics gm ms a = (a', ms') \<Longrightarrow> window_run gm cfg ms' []"

definition tumbling :: "gomath \<Rightarrow> NormalizedTick list \<Rightarrow> metric_map \<Rightarrow> bool" where
  "tumbling gm ts ms \<longleftrightarrow>
     (\<exists>rw rv tr em. ms =
       [(OhlcKey, MOhlc (fold OHLC_Update ts new_OHLC)),
        (VwapKey, MVwap (fold VWAP_Update ts \<lparr>SumPV = Fin 0, SumV = Fin 0\<rparr>)),
        (TwapSmaKey, MReturns (fold (Returns_Update gm) ts zero_returns)),
        (RollingVWAPKey, MRollingVWAP rw),
        (VolumeKey, MVolume (fold Volume_Update ts \<lparr>Vol = Fin 0\<rparr>)),
        (RollingVolumeKey, MRollingVolume rv),
        (VolatilityKey, MVolatility (fold (Volatility_Update gm) ts \<lparr>N = 0, M2 = Fin 0, Mean = Fin 0, v_Init = False, v_PrevPrice = Fin 0\<rparr>)),
        (AtrKey, MAtr tr), (EmaKey, MEma em),
        (ReturnsKey, MReturns (fold (Returns_Update gm) ts zero_returns))])"

lemma window_run_tumbling: "window_run gm cfg ms ts \<Longrightarrow> tumbling gm ts ms"
proof (induction rule: window_run.induct)
  case (built ms)
  then show ?case by (auto simp: MetricCtorRegistry_def bind_out_Done tumbling_def)
next
  case (ticked ms ts t)
  then show ?case by (auto simp: tumbling_def tick_metrics_def)
next
  case (flushed ms ts a a' ms')
  then show ?case
    by (auto simp: tumbling_def RollingVolume_Apply_def OHLC_Reset_def new_OHLC_def VWAP_Reset_def Returns_Reset_def zero_returns_def
      Volume_Reset_def Volatility_Reset_def)
qed

section \<open>Independence of the iteration order\<close>

definition ap :: "gomath \<Rightarrow> Metric \<Rightarrow> AggregatedTick \<Rightarrow> AggregatedTick" where
  "ap gm m a = fst (Apply gm m a)"

fun kind :: "Metric \<Rightarrow> nat" where
  "kind (MOhlc _) = 0" | "kind (MVwap _) = 1" | "kind (MTwap _) = 2" | "kind (MReturns _) = 3" | "kind (MVolatility _) = 4"
| "kind (MVolume _) = 5" | "kind (MEma _) = 6" | "kind (MAtr _) = 7" | "kind (MRollingVolume _) = 8" | "kind (MRollingVWAP _) = 9"

lemmas set_defs = set_price_def set_volume_def set_volatility_def set_trend_def or_new_def

lemmas apply_defs = OHLC_Apply_def VWAP_Apply_def TWAP_Apply_def Returns_Apply_def Volatility_Apply_def Volume_Apply_def
  EMA_Apply_def ATR_Apply_def RollingVolume_Apply_def RollingVWAP_Apply_def

lemma ap_commute_lt: "kind m < kind m' \<Longrightarrow> ap gm m (ap gm m' a) = ap gm m' (ap gm m a)"
  by (cases m; cases m') (simp_all add: ap_def apply_defs set_defs Let_def)

lemma ap_commute: "kind m \<noteq> kind m' \<or> m = m' \<Longrightarrow> ap gm m (ap gm m' a) = ap gm m' (ap gm m a)"
  using ap_commute_lt [of m m'] ap_commute_lt [of m' m] by (metis linorder_neqE_nat)

lemma flush_metrics_fold: "fst (flush_metrics gm ms a) = fold (\<lambda>p. ap gm (snd p)) ms a"
  by (induction ms arbitrary: a) (auto simp: ap_def case_prod_beta)

lemma tumbling_commute:
  assumes "tumbling gm ts ms" "p \<in> set ms" "q \<in> set ms"
  shows "kind (snd p) \<noteq> kind (snd q) \<or> snd p = snd q"
  using assms by (auto simp: tumbling_def)

text \<open>
  C27. The aggregate of a flush does not depend on the order in which the map of metrics is iterated (Go leaves it
  open): any permutation of the metrics of a window publishes the same message.
\<close>

theorem flush_order_irrelevant:
  assumes "window_run gm cfg ms ts" "mset ms' = mset ms"
  shows "fst (flush_metrics gm ms' a) = fst (flush_metrics gm ms a)"
proof -
  have "ap gm (snd p) \<circ> ap gm (snd q) = ap gm (snd q) \<circ> ap gm (snd p)" if "p \<in> set ms" "q \<in> set ms" for p q
    using ap_commute [OF tumbling_commute [OF window_run_tumbling [OF assms(1)] that]] by (intro ext) simp
  moreover have "set ms' = set ms" using assms(2) by (metis set_mset_mset)
  ultimately have "fold (\<lambda>p. ap gm (snd p)) ms' = fold (\<lambda>p. ap gm (snd p)) ms"
    using assms(2) by (intro fold_multiset_equiv) auto
  then show ?thesis by (simp add: flush_metrics_fold)
qed

section \<open>What is published\<close>

lemma ag_Price_apply:
  "ag_Price (Volume_Apply v a) = ag_Price a" "ag_Price (Returns_Apply r a) = ag_Price a"
  "ag_Price (Volatility_Apply gm y a) = ag_Price a" "ag_Price (EMA_Apply e a) = ag_Price a"
  "ag_Price (ATR_Apply x a) = ag_Price a" "ag_Price (fst (RollingVolume_Apply rv a)) = ag_Price a"
  by (simp_all add: apply_defs set_defs Let_def)

lemma ag_Volume_apply:
  "ag_Volume (OHLC_Apply h a) = ag_Volume a" "ag_Volume (VWAP_Apply w a) = ag_Volume a"
  "ag_Volume (Returns_Apply r a) = ag_Volume a" "ag_Volume (Volatility_Apply gm y a) = ag_Volume a"
  "ag_Volume (EMA_Apply e a) = ag_Volume a" "ag_Volume (ATR_Apply x a) = ag_Volume a"
  "ag_Volume (RollingVWAP_Apply rw a) = ag_Volume a"
  by (simp_all add: apply_defs set_defs Let_def)

lemma ag_Trend_apply:
  "ag_Trend (OHLC_Apply h a) = ag_Trend a" "ag_Trend (VWAP_Apply w a) = ag_Trend a"
  "ag_Trend (Volume_Apply v a) = ag_Trend a" "ag_Trend (Volatility_Apply gm y a) = ag_Trend a"
  "ag_Trend (ATR_Apply x a) = ag_Trend a" "ag_Trend (RollingVWAP_Apply rw a) = ag_Trend a"
  "ag_Trend (fst (RollingVolume_Apply rv a)) = ag_Trend a"
  by (simp_all add: apply_defs set_defs Let_def)

lemmas ag_apply = ag_Price_apply ag_Volume_apply ag_Trend_apply

lemma flush_tumbling_price:
  assumes "tumbling gm ts ms" "ag_Price a = None"
  shows "\<exists>p h. ag_Price (fst (flush_metrics gm ms a)) = Some p \<and> h = fold OHLC_Update ts new_OHLC \<and> pm_Twap p = Fin 0 \<and>
    pm_Ohlc p = Some \<lparr>oh_Open = Open h, oh_High = High h, oh_Low = Low h, oh_Close = Close h\<rparr>"
  using assms unfolding tumbling_def
  by (auto simp: flush_metrics_fold ap_def case_prod_beta ag_apply)
     (auto simp: OHLC_Apply_def VWAP_Apply_def RollingVWAP_Apply_def set_defs zero_price_def ag_apply)

lemma flush_tumbling_volume:
  assumes "tumbling gm ts ms" "ag_Volume a = None"
  shows "\<exists>v. ag_Volume (fst (flush_metrics gm ms a)) = Some v \<and> vm_Volume v = Vol (fold Volume_Update ts \<lparr>Vol = Fin 0\<rparr>)"
  using assms unfolding tumbling_def
  by (auto simp: flush_metrics_fold ap_def case_prod_beta ag_apply)
     (auto simp: Volume_Apply_def RollingVolume_Apply_def set_defs zero_volume_def Let_def ag_apply)

lemma flush_tumbling_trend:
  assumes "tumbling gm ts ms" "ag_Trend a = None"
  shows "\<exists>t. ag_Trend (fst (flush_metrics gm ms a)) = Some t \<and> tm_Sma t = Fin 0"
  using assms unfolding tumbling_def
  by (auto simp: flush_metrics_fold ap_def case_prod_beta ag_apply)
     (auto simp: Returns_Apply_def EMA_Apply_def set_defs zero_trend_def ag_apply)

lemma flush_ts:
  "ag_StartTsMs (fst (flush_metrics gm ms a)) = ag_StartTsMs a \<and> ag_EndTsMs (fst (flush_metrics gm ms a)) = ag_EndTsMs a"
proof -
  have "ag_StartTsMs (ap gm m b) = ag_StartTsMs b \<and> ag_EndTsMs (ap gm m b) = ag_EndTsMs b" for m b
    by (cases m) (simp_all add: ap_def apply_defs set_defs Let_def)
  then show ?thesis unfolding flush_metrics_fold by (induction ms arbitrary: a) simp_all
qed

lemma volume_fold: "Vol (fold Volume_Update ts v) = fold (\<lambda>t x. f_add x (tk_Volume t)) ts (Vol v)"
  by (induction ts arbitrary: v) (simp_all add: Volume_Update_def)

lemma flush_symbol_cases:
  assumes "map_of (Windows ws) (cfg_Id cfg) = Some win" "flush_symbol gm cfg flushTs ws = (ws', out)"
  shows "out = Some (fst (flush_metrics gm (Metrics win) (empty_aggregate ws win cfg flushTs)), NewestIngestMs win)"
    "map_of (Windows ws') (cfg_Id cfg) =
       Some (win\<lparr>Metrics := snd (flush_metrics gm (Metrics win) (empty_aggregate ws win cfg flushTs)), NewestIngestMs := 0\<rparr>)"
  using assms by (auto simp: flush_symbol_def case_prod_beta update_conv)

text \<open>
  C15. A flush publishes the candle of exactly the ticks applied to the window since the flush before: the open of
  the first, the close of the last, the highest high and the lowest low, and the volume added up in arrival order;
  and the window it leaves is one to which no tick has been applied.
\<close>

theorem flush_publishes_candle:
  assumes win: "map_of (Windows ws) (cfg_Id cfg) = Some win" and run: "window_run gm cfg (Metrics win) ts"
    and flush: "flush_symbol gm cfg flushTs ws = (ws', out)"
    and ticks: "ts \<noteq> []" "\<forall>t \<in> set ts. tk_High t \<noteq> NaN \<and> tk_Low t \<noteq> NaN"
  shows "\<exists>a p v win'. out = Some (a, NewestIngestMs win) \<and> ag_StartTsMs a = flushTs - cfg_DurationMs cfg \<and> ag_EndTsMs a = flushTs \<and>
    ag_Price a = Some p \<and> ag_Volume a = Some v \<and>
    pm_Ohlc p = Some \<lparr>oh_Open = tk_Open (hd ts), oh_High = Max (tk_High ` set ts), oh_Low = Min (tk_Low ` set ts),
                      oh_Close = tk_Close (last ts)\<rparr> \<and>
    vm_Volume v = fold (\<lambda>t x. f_add x (tk_Volume t)) ts (Fin 0) \<and>
    map_of (Windows ws') (cfg_Id cfg) = Some win' \<and> window_run gm cfg (Metrics win') [] \<and> NewestIngestMs win' = 0"
proof -
  let ?a = "empty_aggregate ws win cfg flushTs"
  obtain a ms' where fm: "flush_metrics gm (Metrics win) ?a = (a, ms')" by fastforce
  note tum = window_run_tumbling [OF run]
  have ts: "ag_StartTsMs a = flushTs - cfg_DurationMs cfg" "ag_EndTsMs a = flushTs"
    using flush_ts [of gm "Metrics win" ?a] fm by (simp_all add: empty_aggregate_def)
  from flush_tumbling_price [OF tum, of ?a] flush_tumbling_volume [OF tum, of ?a] ts show ?thesis
    using flush_symbol_cases [OF win flush] fm window_run.flushed [OF run fm] ohlc_of_ticks [OF ticks]
    by (auto simp: empty_aggregate_def volume_fold)
qed

text \<open>
  No published aggregate ever has a time-weighted price or a moving average: the registry builds a \<open>Returns\<close>
  metric under the key \<open>twapSma\<close>, so both fields are zero whatever the ticks were.
\<close>

theorem twap_never_published:
  assumes "map_of (Windows ws) (cfg_Id cfg) = Some win" "window_run gm cfg (Metrics win) ts"
    "flush_symbol gm cfg flushTs ws = (ws', out)"
  shows "\<exists>a p t. out = Some (a, NewestIngestMs win) \<and> ag_Price a = Some p \<and> ag_Trend a = Some t \<and> pm_Twap p = Fin 0 \<and> tm_Sma t = Fin 0"
  using flush_symbol_cases [OF assms(1,3)] flush_tumbling_price [OF window_run_tumbling [OF assms(2)], of "empty_aggregate ws win cfg flushTs"]
    flush_tumbling_trend [OF window_run_tumbling [OF assms(2)], of "empty_aggregate ws win cfg flushTs"]
  by (auto simp: empty_aggregate_def)

section \<open>An example window\<close>

definition demo_gm :: gomath where
  "demo_gm = \<lparr>m_Log = \<lambda>x. Fin 0, m_Exp = \<lambda>x. Fin 1, m_Sqrt = \<lambda>x. x\<rparr>"

definition demo_metrics :: metric_map where
  "demo_metrics = (case build_metrics (MetricCtorRegistry demo_gm) demo_cfg of Done ms \<Rightarrow> ms | _ \<Rightarrow> [])"

definition demo_ticks :: "NormalizedTick list" where
  "demo_ticks = [(demo_tick 10000 7)\<lparr>tk_Open := Fin 4, tk_High := Fin 9, tk_Low := Fin 3, tk_Close := Fin 5\<rparr>,
     (demo_tick 12000 5)\<lparr>tk_Open := Fin 5, tk_High := Fin 8, tk_Low := Fin 2, tk_Close := Fin 6\<rparr>]"

definition demo_state :: WindowState where
  "demo_state = \<lparr>ws_Exchange = ''binance'', ws_Channel = ''aggTrade'', ws_Symbol = ''BTCUSDT'',
     Windows = [(''5s'', \<lparr>Metrics = fold (tick_metrics demo_gm) demo_ticks demo_metrics, win_Id = ''5s'', win_DurationMs = 5000,
       win_FlushCadencyMs = 1000, LastFlushTsMs = 0, NewestIngestMs = 42\<rparr>)], ws_Seen = Map.empty\<rparr>"

lemma demo_metrics_run: "window_run demo_gm demo_cfg demo_metrics []"
  by (rule window_run.built)
     (simp add: demo_metrics_def MetricCtorRegistry_def NewRollingVolume_def NewRollingVWAP_def demo_cfg_def signed_divide_int_def)

lemma window_run_fold: "window_run gm cfg ms ts \<Longrightarrow> window_run gm cfg (fold (tick_metrics gm) us ms) (ts @ us)"
proof (induction us arbitrary: ms ts)
  case (Cons u us)
  from Cons.IH [OF window_run.ticked [OF Cons.prems, of u]] show ?case by simp
qed simp

lemma demo_run: "window_run demo_gm demo_cfg (fold (tick_metrics demo_gm) demo_ticks demo_metrics) demo_ticks"
  using window_run_fold [OF demo_metrics_run, of demo_ticks] by simp

lemma demo_window: "map_of (Windows demo_state) (cfg_Id demo_cfg) = Some
    \<lparr>Metrics = fold (tick_metrics demo_gm) demo_ticks demo_metrics, win_Id = ''5s'', win_DurationMs = 5000,
     win_FlushCadencyMs = 1000, LastFlushTsMs = 0, NewestIngestMs = 42\<rparr>"
  by (simp add: demo_state_def demo_cfg_def)

theorem flush_order_irrelevant_witness:
  "fst (flush_metrics demo_gm (rev demo_metrics) (empty_aggregate demo_state (snd (hd (Windows demo_state))) demo_cfg 16000)) =
   fst (flush_metrics demo_gm demo_metrics (empty_aggregate demo_state (snd (hd (Windows demo_state))) demo_cfg 16000))"
  by (rule flush_order_irrelevant [OF demo_metrics_run]) simp

theorem flush_publishes_candle_witness:
  "\<exists>a p v. snd (flush_symbol demo_gm demo_cfg 16000 demo_state) = Some (a, 42) \<and> ag_StartTsMs a = 11000 \<and>
     ag_Price a = Some p \<and> ag_Volume a = Some v \<and> vm_Volume v = Fin 12 \<and>
     pm_Ohlc p = Some \<lparr>oh_Open = Fin 4, oh_High = Fin 9, oh_Low = Fin 2, oh_Close = Fin 6\<rparr>"
proof -
  obtain ws' out where f: "flush_symbol demo_gm demo_cfg 16000 demo_state = (ws', out)" by fastforce
  show ?thesis
    using flush_publishes_candle [OF demo_window, unfolded Window.simps, OF demo_run f]
    by (auto simp: f [unfolded demo_cfg_def] demo_ticks_def demo_tick_def demo_cfg_def max_def min_def less_eq_f64_def)
qed

theorem twap_never_published_witness:
  "\<exists>a p t. snd (flush_symbol demo_gm demo_cfg 16000 demo_state) = Some (a, 42) \<and> ag_Price a = Some p \<and> ag_Trend a = Some t \<and>
     pm_Twap p = Fin 0 \<and> tm_Sma t = Fin 0"
proof -
  obtain ws' out where f: "flush_symbol demo_gm demo_cfg 16000 demo_state = (ws', out)" by fastforce
  show ?thesis
    using twap_never_published [OF demo_window, unfolded Window.simps, OF demo_run f] by (simp add: f)
qed

end
