(* ===== verification/Agg_Crash.thy ===== *)
theory Agg_Crash
  imports Agg_Flush
begin

text \<open>
  The at-least-once mode of the aggregator as a step relation with crashes (\<open>RunAtLeastOnce\<close> and the client
  around it), and the invariant behind its two guarantees: the metrics of a symbol's windows are those of a log of ticks
  and flushes in which no source coordinate occurs twice, across any number of crashes and replays, and an input offset is
  committed only once the saved windows contain every tick below it. The relation is that of a worker which keeps its
  partitions and whose start reads the checkpoint topic to the end.
\<close>

section \<open>The system\<close>

text \<open>
  What happened to the windows of a symbol: the tick at an offset of an input partition was applied, or a flush reset the
  tumbling metrics of a window. The logs are not part of the program; the invariant says that the windows of the program
  are the ones the log gives.
\<close>

datatype agg_event = EvTick tp int | EvFlush WindowConfig

type_synonym agg_log = "string \<Rightarrow> agg_event list"

record batch =
  bt_entries :: "(string \<times> bytes) list"
  bt_keys :: "string list"
  bt_positions :: "(tp \<times> EpochOffset) list"
  bt_failed :: bool
  bt_log :: agg_log

text \<open>
  \<open>a_topic\<close> is the checkpoint topic, \<open>a_batch\<close> the checkpoint batch whose produces are not all finished,
  \<open>a_reqs\<close> the commit requests sent and \<open>a_broker\<close> the offsets the broker holds. \<open>live_log\<close> is the log of what is in
  the windows of the worker, \<open>saved_log\<close> that of the last checkpoint of each symbol on the topic, and \<open>bt_log\<close> the live
  log at the time the batch was encoded.
\<close>

record ASys =
  aw :: AWorker
  a_pos :: "tp \<Rightarrow> int"
  a_topic :: "kgo_record list"
  a_batch :: "batch option"
  a_reqs :: "(tp \<times> int) list"
  a_broker :: "tp \<rightharpoonup> int"
  live_log :: agg_log
  saved_log :: agg_log

text \<open>What the worker uses of its surroundings: the decoders and encoders, the settings, and the input log.\<close>

record agg_env =
  unmarshal :: "bytes \<Rightarrow> NormalizedTick option"
  marshal :: "AggregatedTick \<Rightarrow> bytes option"
  gob_enc :: "SymbolCheckpoint \<Rightarrow> bytes option"
  gob_dec :: "bytes \<Rightarrow> SymbolCheckpoint option"
  env_math :: gomath
  env_cfgs :: "WindowConfig list"
  env_topic :: string
  input_log :: "tp \<Rightarrow> int \<Rightarrow> kgo_record option"

definition start_worker :: "agg_env \<Rightarrow> kgo_record list \<Rightarrow> AWorker" where
  "start_worker e topic = EnableAtLeastOnce (NewAWorker (env_cfgs e) Map.empty) (LoadSymbolCheckpoints (gob_dec e) topic)"

definition start_pos :: "(tp \<rightharpoonup> int) \<Rightarrow> tp \<Rightarrow> int" where
  "start_pos b k = (case b k of None \<Rightarrow> 0 | Some c \<Rightarrow> c)"

definition ASys_init :: "agg_env \<Rightarrow> ASys" where
  "ASys_init e = \<lparr>aw = start_worker e [], a_pos = (\<lambda>_. 0), a_topic = [], a_batch = None, a_reqs = [], a_broker = Map.empty,
     live_log = (\<lambda>_. []), saved_log = (\<lambda>_. [])\<rparr>"

text \<open>The log entry of a tick that was applied, and of a flush, which concerns the symbols that have the window.\<close>

definition note_tick :: "string option \<Rightarrow> tp \<Rightarrow> int \<Rightarrow> agg_log \<Rightarrow> agg_log" where
  "note_tick app k off l = (case app of None \<Rightarrow> l | Some key \<Rightarrow> l(key := l key @ [EvTick k off]))"

definition has_window :: "AWorker \<Rightarrow> WindowConfig \<Rightarrow> string \<Rightarrow> bool" where
  "has_window w cfg key \<longleftrightarrow>
     (case map_of (SymbolStates w) key of None \<Rightarrow> False | Some ws \<Rightarrow> map_of (Windows ws) (cfg_Id cfg) \<noteq> None)"

definition note_flush :: "AWorker \<Rightarrow> WindowConfig \<Rightarrow> agg_log \<Rightarrow> agg_log" where
  "note_flush w cfg l = (\<lambda>key. if has_window w cfg key then l key @ [EvFlush cfg] else l key)"

definition start_batch :: "ASys \<Rightarrow> ckpt_action \<Rightarrow> ASys" where
  "start_batch s act =
     (case act of
        NoAction \<Rightarrow> s
      | CommitNow adv \<Rightarrow> s\<lparr>a_reqs := map (\<lambda>(k, eo). (k, Offset eo)) adv @ a_reqs s\<rparr>
      | StartBatch entries poss \<Rightarrow>
          s\<lparr>a_batch := Some \<lparr>bt_entries = entries, bt_keys = map fst entries, bt_positions = poss, bt_failed = False,
              bt_log = live_log s\<rparr>\<rparr>)"

text \<open>
  The client delivers every record of the log of a partition in offset order from its position, and reports as
  uncommitted no offset beyond that position. A produce may be reported failed although the record was written.
  After a crash the worker loads the checkpoint topic and the client starts at the committed offsets.
\<close>

inductive astep :: "agg_env \<Rightarrow> ASys \<Rightarrow> ASys \<Rightarrow> bool" for e where
  a_poll: "\<lbrakk>input_log e k off = Some rec; a_pos s k \<le> off; \<forall>o'. a_pos s k \<le> o' \<and> o' < off \<longrightarrow> input_log e k o' = None;
     ProcessTick (unmarshal e) (env_math e) (aw s) rec = Done (w, app)\<rbrakk> \<Longrightarrow>
     astep e s (s\<lparr>aw := w, a_pos := (a_pos s)(k := off + 1), live_log := note_tick app k off (live_log s)\<rparr>)"
| a_flush: "FlushWindow (env_topic e) (marshal e) (env_math e) (aw s) cfg ts = (w, recs) \<Longrightarrow>
     astep e s (s\<lparr>aw := w, live_log := note_flush (aw s) cfg (live_log s)\<rparr>)"
| a_ckpt: "\<lbrakk>\<forall>(k, eo) \<in> set poss. Offset eo \<le> a_pos s k; checkpointDirty (gob_enc e) (aw s) poss = Done (w, act)\<rbrakk> \<Longrightarrow>
     astep e s (start_batch (s\<lparr>aw := w\<rparr>) act)"
| a_answer: "\<lbrakk>a_batch s = Some b; bt_entries b = xs @ (key, val) # ys; ok \<longrightarrow> landed\<rbrakk> \<Longrightarrow>
     astep e s (s\<lparr>a_batch := Some (b\<lparr>bt_entries := xs @ ys, bt_failed := (bt_failed b \<or> \<not> ok)\<rparr>),
       a_topic := (if landed then a_topic s @ [ProduceSymbolCheckpoint key val] else a_topic s),
       saved_log := (if landed then (saved_log s)(key := bt_log b key) else saved_log s)\<rparr>)"
| a_done: "\<lbrakk>a_batch s = Some b; bt_entries b = [];
     finishBatch (aw s) \<lparr>positions = bt_positions b, ck_keys = bt_keys b, ck_failed = bt_failed b\<rparr> = (w, adv)\<rbrakk> \<Longrightarrow>
     astep e s (s\<lparr>aw := w, a_batch := None, a_reqs := map (\<lambda>(k, eo). (k, Offset eo)) adv @ a_reqs s\<rparr>)"
| a_commit: "(k, c) \<in> set (a_reqs s) \<Longrightarrow> astep e s (s\<lparr>a_broker := (a_broker s)(k \<mapsto> c)\<rparr>)"
| a_crash: "astep e s (s\<lparr>aw := start_worker e (a_topic s), a_pos := start_pos (a_broker s), a_batch := None,
     live_log := saved_log s\<rparr>)"

inductive areach :: "agg_env \<Rightarrow> ASys \<Rightarrow> bool" for e where
  a_start: "areach e (ASys_init e)"
| a_step: "areach e s \<Longrightarrow> astep e s s' \<Longrightarrow> areach e s'"

section \<open>Replaying a log\<close>

text \<open>The metrics of the windows of a symbol, which is what a checkpoint keeps of them.\<close>

definition metrics_of :: "WindowState \<Rightarrow> (string \<times> metric_map) list" where
  "metrics_of ws = map (\<lambda>(id, win). (id, Metrics win)) (Windows ws)"

definition tick_windows :: "gomath \<Rightarrow> NormalizedTick \<Rightarrow> (string \<times> metric_map) list \<Rightarrow> (string \<times> metric_map) list" where
  "tick_windows gm t = map (\<lambda>(i, ms). (i, tick_metrics gm t ms))"

text \<open>What a flush leaves of the metrics does not depend on the message it fills.\<close>

definition blank_agg :: AggregatedTick where
  "blank_agg = \<lparr>ag_Exchange = [], ag_Channel = [], ag_Symbol = [], ag_WindowId = [], ag_StartTsMs = 0, ag_EndTsMs = 0,
     ag_Price = None, ag_Volume = None, ag_Volatility = None, ag_Trend = None\<rparr>"

definition flush_windows :: "gomath \<Rightarrow> WindowConfig \<Rightarrow> (string \<times> metric_map) list \<Rightarrow> (string \<times> metric_map) list" where
  "flush_windows gm cfg wins =
     (case map_of wins (cfg_Id cfg) of
        None \<Rightarrow> wins
      | Some ms \<Rightarrow> AList.update (cfg_Id cfg) (snd (flush_metrics gm ms blank_agg)) wins)"

definition log_tick :: "agg_env \<Rightarrow> tp \<Rightarrow> int \<Rightarrow> NormalizedTick option" where
  "log_tick e k off = (case input_log e k off of None \<Rightarrow> None | Some rec \<Rightarrow> unmarshal e (RValue rec))"

fun replay_event :: "agg_env \<Rightarrow> agg_event \<Rightarrow> (string \<times> metric_map) list \<Rightarrow> (string \<times> metric_map) list" where
  "replay_event e (EvTick k off) wins =
     (case log_tick e k off of None \<Rightarrow> wins | Some t \<Rightarrow> tick_windows (env_math e) t wins)"
| "replay_event e (EvFlush cfg) wins = flush_windows (env_math e) cfg wins"

definition fresh_windows :: "agg_env \<Rightarrow> (string \<times> metric_map) list" where
  "fresh_windows e =
     (case BuildWindows (env_math e) (env_cfgs e) of Done wins \<Rightarrow> map (\<lambda>(id, win). (id, Metrics win)) wins | _ \<Rightarrow> [])"

definition replay :: "agg_env \<Rightarrow> agg_event list \<Rightarrow> (string \<times> metric_map) list" where
  "replay e l = fold (replay_event e) l (fresh_windows e)"

text \<open>The source coordinates of the ticks of a log, where their records carry one.\<close>

fun ev_src :: "agg_env \<Rightarrow> agg_event \<Rightarrow> src option" where
  "ev_src e (EvTick k off) = (case input_log e k off of None \<Rightarrow> None | Some rec \<Rightarrow> source (RHeaders rec))"
| "ev_src e (EvFlush cfg) = None"

primrec log_srcs :: "agg_env \<Rightarrow> agg_event list \<Rightarrow> src list" where
  "log_srcs e [] = []"
| "log_srcs e (ev # l) = (case ev_src e ev of None \<Rightarrow> log_srcs e l | Some c \<Rightarrow> c # log_srcs e l)"

lemma log_srcs_append [simp]: "log_srcs e (l @ l') = log_srcs e l @ log_srcs e l'"
  by (induction l) (auto split: option.splits)

lemma set_log_srcs: "set (log_srcs e l) = {c. \<exists>ev \<in> set l. ev_src e ev = Some c}"
  by (induction l) (auto split: option.splits)

lemma log_srcs_mono: "set l \<subseteq> set l' \<Longrightarrow> set (log_srcs e l) \<subseteq> set (log_srcs e l')"
  by (auto simp: set_log_srcs)

lemma replay_append [simp]: "replay e (l @ [ev]) = replay_event e ev (replay e l)"
  by (simp add: replay_def)

lemma keys_update: "set (map fst (AList.update k v xs)) = insert k (set (map fst xs))"
  by (induction xs) auto

lemma BuildWindows_from_ids:
  "BuildWindows_from gm cfgs acc = Done wins \<Longrightarrow> distinct (map fst acc) \<Longrightarrow>
     distinct (map fst wins) \<and> set (map fst wins) \<subseteq> set (map fst acc) \<union> cfg_Id ` set cfgs"
proof (induction cfgs arbitrary: acc)
  case (Cons wc wcs)
  then obtain ms where "BuildWindows_from gm wcs (AList.update (cfg_Id wc)
         \<lparr>Metrics = ms, win_Id = cfg_Id wc, win_DurationMs = cfg_DurationMs wc, win_FlushCadencyMs = cfg_FlushCadencyMs wc,
          LastFlushTsMs = 0, NewestIngestMs = 0\<rparr> acc) = Done wins" by (auto simp: bind_out_Done)
  from Cons.IH [OF this] Cons.prems(2) show ?case by (auto simp: distinct_update keys_update simp del: set_map)
qed simp

lemma BuildWindows_ids: "BuildWindows gm cfgs = Done wins \<Longrightarrow> distinct (map fst wins) \<and> set (map fst wins) \<subseteq> cfg_Id ` set cfgs"
  using BuildWindows_from_ids [of gm cfgs "[]" wins] by (simp add: BuildWindows_def)

lemma rehydrate_ids [simp]: "map fst (rehydrate found wins) = map fst wins"
  by (simp add: rehydrate_def comp_def split_beta)

lemma apply_tick_ids [simp]: "map fst (Windows (apply_tick gm rec t ws)) = map fst (Windows ws)"
  by (simp add: apply_tick_def comp_def split_beta)

lemma flush_symbol_ids: "flush_symbol gm cfg ts ws = (ws', out) \<Longrightarrow> map fst (Windows ws') = map fst (Windows ws)"
  by (auto simp: flush_symbol_def update_keys dom_map_of_conv_image_fst [symmetric] split: option.splits prod.splits)

lemma metrics_of_apply: "metrics_of (apply_tick gm rec t ws) = tick_windows gm t (metrics_of ws)"
  by (simp add: metrics_of_def apply_tick_def tick_windows_def tick_metrics_def update_window_def split_beta)

lemma replay_ids [simp]: "map fst (replay e l) = map fst (fresh_windows e)"
proof -
  have "map fst (replay_event e ev wins) = map fst wins" for ev wins
    by (cases ev) (auto simp: tick_windows_def flush_windows_def split_beta comp_def update_keys
      dom_map_of_conv_image_fst [symmetric] split: option.splits)
  then show ?thesis unfolding replay_def by (induction l rule: rev_induct) simp_all
qed

lemma fresh_windows_distinct: "distinct (map fst (fresh_windows e))"
  by (auto simp: fresh_windows_def split_beta comp_def split: outcome.splits dest: BuildWindows_ids)

text \<open>Installing the metrics of a checkpoint in newly built windows gives the windows of the checkpoint.\<close>

lemma rehydrate_metrics:
  assumes "distinct (map fst ms)" "map fst wins = map fst ms"
  shows "map (\<lambda>(id, win). (id, Metrics win)) (rehydrate (map_of ms) wins) = ms"
proof -
  have "map (\<lambda>(id, win). (id, Metrics win)) (rehydrate (map_of ms) us) = xs"
    if "map fst us = map fst xs" "set xs \<subseteq> set ms" for us xs
    using that
  proof (induction xs arbitrary: us)
    case (Cons x xs)
    then obtain u vs where us: "us = u # vs" "fst u = fst x" "map fst vs = map fst xs" by (cases us) auto
    have "map_of ms (fst x) = Some (snd x)" using assms(1) Cons.prems(2) by (simp add: map_of_is_SomeI)
    with us Cons show ?case by (simp add: rehydrate_def split_beta prod_eq_iff)
  qed (simp add: rehydrate_def)
  from this [OF assms(2) order_refl] show ?thesis .
qed

lemma Apply_state: "snd (Apply gm m a) = snd (Apply gm m b)"
  by (cases m) (simp_all add: RollingVolume_Apply_def)

lemma flush_metrics_state: "snd (flush_metrics gm ms a) = snd (flush_metrics gm ms b)"
proof (induction ms arbitrary: a b)
  case (Cons x ms)
  have "snd (flush_metrics gm (x # ms) a) = (fst x, Reset (snd (Apply gm (snd x) a))) # snd (flush_metrics gm ms (fst (Apply gm (snd x) a)))" for a
    by (cases x) (simp add: case_prod_beta)
  then show ?case using Apply_state [of gm "snd x" a b] Cons.IH by metis
qed simp

lemma map_of_metrics: "map_of (map (\<lambda>(id, win). (id, Metrics win)) wins) x = map_option Metrics (map_of wins x)"
  by (induction wins) auto

lemma update_metrics:
  "map (\<lambda>(id, win). (id, Metrics win)) (AList.update x win wins) =
     AList.update x (Metrics win) (map (\<lambda>(id, win). (id, Metrics win)) wins)"
  by (induction wins) auto

lemma flush_symbol_metrics:
  assumes "flush_symbol gm cfg ts ws = (ws', out)"
  shows "metrics_of ws' = flush_windows gm cfg (metrics_of ws) \<and> ws_Seen ws' = ws_Seen ws \<and>
    (out = None \<longleftrightarrow> map_of (Windows ws) (cfg_Id cfg) = None)"
proof (cases "map_of (Windows ws) (cfg_Id cfg)")
  case None
  with assms show ?thesis by (simp add: flush_symbol_def flush_windows_def metrics_of_def map_of_metrics)
next
  case (Some win)
  let ?a = "empty_aggregate ws win cfg ts"
  from assms Some have "ws' = ws\<lparr>Windows := AList.update (cfg_Id cfg) (win\<lparr>Metrics := snd (flush_metrics gm (Metrics win) ?a), NewestIngestMs := 0\<rparr>) (Windows ws)\<rparr>"
    "out \<noteq> None" by (auto simp: flush_symbol_def split: prod.splits)
  then show ?thesis using Some flush_metrics_state [of gm "Metrics win" ?a blank_agg]
    by (simp add: flush_windows_def metrics_of_def map_of_metrics update_metrics)
qed

section \<open>Logs and windows of offsets\<close>

definition offs_in :: "src list \<Rightarrow> tp \<Rightarrow> int set" where
  "offs_in h k = {off. (k, off) \<in> set h}"

text \<open>A coordinate that the window of a history reports as applied: it is in the history, or too old to tell.\<close>

definition judged :: "src list \<Rightarrow> src \<Rightarrow> bool" where
  "judged h c \<longleftrightarrow> (case c of (k, off) \<Rightarrow> off \<in> offs_in h k \<or> (offs_in h k \<noteq> {} \<and> off \<le> Max (offs_in h k) - SeenSpan))"

definition seen_holds :: "seen_set_map \<Rightarrow> src list \<Rightarrow> bool" where
  "seen_holds m h \<longleftrightarrow> (\<forall>k. seen_rel (case m k of None \<Rightarrow> seen_zero | Some s \<Rightarrow> s) (offs_in h k))"

lemma finite_offs [simp]: "finite (offs_in h k)"
proof -
  have "offs_in h k \<subseteq> snd ` set h" by (force simp: offs_in_def)
  then show ?thesis by (rule finite_subset) simp
qed

lemma judged_mono:
  assumes "judged h c" "set h \<subseteq> set h'"
  shows "judged h' c"
proof -
  obtain k off where c: "c = (k, off)" by (cases c)
  have sub: "offs_in h k \<subseteq> offs_in h' k" using assms(2) by (auto simp: offs_in_def)
  show ?thesis
  proof (cases "off \<in> offs_in h k")
    case False
    with assms(1) c have "offs_in h k \<noteq> {}" "off \<le> Max (offs_in h k) - SeenSpan" by (simp_all add: judged_def)
    moreover from this(1) have "Max (offs_in h k) \<le> Max (offs_in h' k)" by (rule Max_mono [OF sub]) simp
    ultimately have "off \<le> Max (offs_in h' k) - SeenSpan" "offs_in h' k \<noteq> {}" using sub by (linarith, blast)
    then show ?thesis unfolding c judged_def by simp
  qed (use sub c in \<open>auto simp: judged_def\<close>)
qed

lemma judged_set: "set h = set h' \<Longrightarrow> judged h c = judged h' c"
  using judged_mono [of h c h'] judged_mono [of h' c h] by auto

lemma seen_holds_empty [simp]: "seen_holds Map.empty []"
  using sw.rel_zero by (simp add: seen_holds_def offs_in_def)

lemma seen_holds_check:
  assumes "seen_holds m h"
  shows "fst (SeenSet_Check m k off) \<longleftrightarrow> judged h (k, off)"
    and "seen_holds (snd (SeenSet_Check m k off)) (if judged h (k, off) then h else h @ [(k, off)])"
proof -
  let ?s = "case m k of None \<Rightarrow> seen_zero | Some s \<Rightarrow> s"
  have r: "seen_rel ?s (offs_in h k)" using assms unfolding seen_holds_def by blast
  show d: "fst (SeenSet_Check m k off) \<longleftrightarrow> judged h (k, off)"
    using sw.check_dup [OF r, of off] by (simp add: SeenSet_Check_def Let_def judged_def)
  have "offs_in (h @ [(k, off)]) k' = (if k' = k then insert off (offs_in h k') else offs_in h k')" for k'
    by (auto simp: offs_in_def)
  then show "seen_holds (snd (SeenSet_Check m k off)) (if judged h (k, off) then h else h @ [(k, off)])"
    using sw.check_rel [OF r, of off] d assms unfolding seen_holds_def by (auto simp add: SeenSet_Check_def Let_def)
qed

lemma seen_holds_set: "seen_holds m h \<Longrightarrow> set h = set h' \<Longrightarrow> seen_holds m h'"
  by (simp add: seen_holds_def offs_in_def)

lemma alreadyApplied_source:
  "alreadyApplied hs ws =
     (case source hs of
        None \<Rightarrow> (False, ws)
      | Some (k, off) \<Rightarrow> (fst (SeenSet_Check (ws_Seen ws) k off), ws\<lparr>ws_Seen := snd (SeenSet_Check (ws_Seen ws) k off)\<rparr>))"
  by (induction hs) (auto simp: Let_def split: option.splits)

text \<open>
  Every tick of partition \<open>k\<close> below offset \<open>n\<close> is accounted for by the log of its symbol: a tick without source coordinate is
  in it, the coordinate of any other one is judged applied by it.
\<close>

definition covers :: "agg_env \<Rightarrow> agg_log \<Rightarrow> tp \<Rightarrow> int \<Rightarrow> bool" where
  "covers e l k n \<longleftrightarrow>
     (\<forall>off rec t. 0 \<le> off \<and> off < n \<and> input_log e k off = Some rec \<and> unmarshal e (RValue rec) = Some t \<longrightarrow>
        (case source (RHeaders rec) of
           None \<Rightarrow> EvTick k off \<in> set (l (tick_key t))
         | Some c \<Rightarrow> judged (log_srcs e (l (tick_key t))) c))"

lemma coversI:
  assumes "\<And>off rec t. 0 \<le> off \<Longrightarrow> off < n \<Longrightarrow> input_log e k off = Some rec \<Longrightarrow> unmarshal e (RValue rec) = Some t \<Longrightarrow>
     (case source (RHeaders rec) of
        None \<Rightarrow> EvTick k off \<in> set (l (tick_key t))
      | Some c \<Rightarrow> judged (log_srcs e (l (tick_key t))) c)"
  shows "covers e l k n"
  unfolding covers_def using assms by blast

lemma coversD:
  assumes "covers e l k n" "0 \<le> off" "off < n" "input_log e k off = Some rec" "unmarshal e (RValue rec) = Some t"
  shows "case source (RHeaders rec) of None \<Rightarrow> EvTick k off \<in> set (l (tick_key t)) | Some c \<Rightarrow> judged (log_srcs e (l (tick_key t))) c"
  using assms unfolding covers_def by blast

lemma covers_zero [simp]: "covers e l k 0"
  by (rule coversI) linarith

lemma covers_mono:
  assumes "covers e l k n" "\<And>x. set (l x) \<subseteq> set (l' x)" "m \<le> n"
  shows "covers e l' k m"
proof (rule coversI)
  fix off rec t
  assume a: "0 \<le> off" "off < m" "input_log e k off = Some rec" "unmarshal e (RValue rec) = Some t"
  from coversD [OF assms(1) a(1) _ a(3,4)] a(2) assms(3)
  show "case source (RHeaders rec) of None \<Rightarrow> EvTick k off \<in> set (l' (tick_key t)) | Some c \<Rightarrow> judged (log_srcs e (l' (tick_key t))) c"
    using assms(2) [of "tick_key t"] judged_mono [OF _ log_srcs_mono [OF assms(2) [of "tick_key t"]]]
    by (auto split: option.splits)
qed

section \<open>What the handlers do to a symbol\<close>

text \<open>What a checkpoint of a symbol would hold now; a symbol the worker has not met yet is as the loaded checkpoint says.\<close>

definition ckpt_or_fresh :: "agg_env \<Rightarrow> (string \<rightharpoonup> SymbolCheckpoint) \<Rightarrow> string \<Rightarrow> SymbolCheckpoint" where
  "ckpt_or_fresh e m key = (case m key of None \<Rightarrow> \<lparr>ck_Windows = fresh_windows e, ck_Seen = Map.empty\<rparr> | Some ck \<Rightarrow> ck)"

definition cur_ckpt :: "agg_env \<Rightarrow> AWorker \<Rightarrow> string \<Rightarrow> SymbolCheckpoint" where
  "cur_ckpt e w key =
     (case map_of (SymbolStates w) key of
        Some ws \<Rightarrow> \<lparr>ck_Windows = metrics_of ws, ck_Seen = ws_Seen ws\<rparr>
      | None \<Rightarrow> ckpt_or_fresh e (symbolCkpts w) key)"

lemma checkpoint_of_metrics: "checkpoint_of ws = \<lparr>ck_Windows = metrics_of ws, ck_Seen = ws_Seen ws\<rparr>"
  by (simp add: checkpoint_of_def metrics_of_def)

text \<open>Everything a handler leaves alone.\<close>

definition same_frame :: "AWorker \<Rightarrow> AWorker \<Rightarrow> bool" where
  "same_frame w w' \<longleftrightarrow> atLeastOnce w' = atLeastOnce w \<and> symbolCkpts w' = symbolCkpts w \<and> batchInFlight w' = batchInFlight w \<and>
     WindowConfigs w' = WindowConfigs w \<and> set (map fst (SymbolStates w)) \<subseteq> set (map fst (SymbolStates w'))"

text \<open>A worker whose windows are those of the configuration.\<close>

definition configured :: "agg_env \<Rightarrow> AWorker \<Rightarrow> bool" where
  "configured e w \<longleftrightarrow> atLeastOnce w \<and> WindowConfigs w = env_cfgs e \<and>
     (\<forall>key. map fst (ck_Windows (cur_ckpt e w key)) = map fst (fresh_windows e))"

lemma new_symbol_ckpt:
  assumes w: "configured e w" and n: "new_symbol (env_math e) w t = Done ws" and none: "map_of (SymbolStates w) (tick_key t) = None"
  shows "\<lparr>ck_Windows = metrics_of ws, ck_Seen = ws_Seen ws\<rparr> = cur_ckpt e w (tick_key t)"
proof -
  from n w obtain wins where b: "BuildWindows (env_math e) (env_cfgs e) = Done wins" by (auto simp: new_symbol_def bind_out_Done configured_def)
  then have f: "fresh_windows e = map (\<lambda>(id, win). (id, Metrics win)) wins" by (simp add: fresh_windows_def)
  then have d: "map fst wins = map fst (fresh_windows e)" by (simp add: comp_def split_beta)
  show ?thesis
  proof (cases "symbolCkpts w (tick_key t)")
    case None
    with n w b f none show ?thesis by (auto simp: new_symbol_def cur_ckpt_def ckpt_or_fresh_def metrics_of_def configured_def)
  next
    case (Some ck)
    then have c: "cur_ckpt e w (tick_key t) = ck" using none by (simp add: cur_ckpt_def ckpt_or_fresh_def)
    then have "map fst (ck_Windows ck) = map fst (fresh_windows e)" using w unfolding configured_def by metis
    with d fresh_windows_distinct [of e] have "map (\<lambda>(id, win). (id, Metrics win)) (rehydrate (map_of (ck_Windows ck)) wins) = ck_Windows ck"
      by (intro rehydrate_metrics) simp_all
    with n w b Some c show ?thesis by (auto simp: new_symbol_def metrics_of_def configured_def)
  qed
qed

lemma ProcessTick_cases:
  assumes a: "configured e w" and p: "ProcessTick (unmarshal e) (env_math e) w rec = Done (w', app)"
  obtains "unmarshal e (RValue rec) = None" "w' = w" "app = None"
  | t c where "unmarshal e (RValue rec) = Some t" "c = cur_ckpt e w (tick_key t)" "source (RHeaders rec) = None" "app = Some (tick_key t)"
      "cur_ckpt e w' = (cur_ckpt e w)(tick_key t := \<lparr>ck_Windows = tick_windows (env_math e) t (ck_Windows c), ck_Seen = ck_Seen c\<rparr>)"
      "dirty w' = List.insert (tick_key t) (dirty w)" "same_frame w w'" "tick_key t \<in> set (map fst (SymbolStates w'))"
  | t c k off where "unmarshal e (RValue rec) = Some t" "c = cur_ckpt e w (tick_key t)" "source (RHeaders rec) = Some (k, off)"
      "fst (SeenSet_Check (ck_Seen c) k off)" "app = None"
      "cur_ckpt e w' = (cur_ckpt e w)(tick_key t := c\<lparr>ck_Seen := snd (SeenSet_Check (ck_Seen c) k off)\<rparr>)"
      "dirty w' = dirty w" "same_frame w w'"
  | t c k off where "unmarshal e (RValue rec) = Some t" "c = cur_ckpt e w (tick_key t)" "source (RHeaders rec) = Some (k, off)"
      "\<not> fst (SeenSet_Check (ck_Seen c) k off)" "app = Some (tick_key t)"
      "cur_ckpt e w' = (cur_ckpt e w)(tick_key t := \<lparr>ck_Windows = tick_windows (env_math e) t (ck_Windows c),
         ck_Seen = snd (SeenSet_Check (ck_Seen c) k off)\<rparr>)"
      "dirty w' = List.insert (tick_key t) (dirty w)" "same_frame w w'" "tick_key t \<in> set (map fst (SymbolStates w'))"
proof (cases "unmarshal e (RValue rec)")
  case None
  with p that(1) show ?thesis by (simp add: ProcessTick_def)
next
  case (Some t)
  let ?key = "tick_key t" and ?gm = "env_math e"
  from p Some obtain ws where ws: "(case map_of (SymbolStates w) ?key of Some ws \<Rightarrow> Done ws | None \<Rightarrow> new_symbol ?gm w t) = Done ws"
    and r: "(case alreadyApplied (RHeaders rec) ws of (dup, ws1) \<Rightarrow>
        if dup then Done (put_sym w ?key ws1, None)
        else Done (mark_dirty (put_sym w ?key (apply_tick ?gm rec t ws1)) ?key, Some ?key)) = Done (w', app)"
    using a by (auto simp: ProcessTick_def Let_def bind_out_Done configured_def)
  have "\<lparr>ck_Windows = metrics_of ws, ck_Seen = ws_Seen ws\<rparr> = cur_ckpt e w ?key"
    using ws new_symbol_ckpt [OF a] by (auto simp: cur_ckpt_def split: option.splits)
  then have cs: "cur_ckpt e w ?key = \<lparr>ck_Windows = metrics_of ws, ck_Seen = ws_Seen ws\<rparr>" ..
  have put: "cur_ckpt e (put_sym w ?key x) = (cur_ckpt e w)(?key := \<lparr>ck_Windows = metrics_of x, ck_Seen = ws_Seen x\<rparr>)"
    "same_frame w (put_sym w ?key x)"
    "dirty (put_sym w ?key x) = dirty w" "?key \<in> set (map fst (SymbolStates (put_sym w ?key x)))" for x
  proof -
    show "cur_ckpt e (put_sym w ?key x) = (cur_ckpt e w)(?key := \<lparr>ck_Windows = metrics_of x, ck_Seen = ws_Seen x\<rparr>)"
      by (rule ext) (simp add: cur_ckpt_def put_sym_def AList.update_conv' split: option.splits)
  qed (use keys_update [of ?key x "SymbolStates w"] in \<open>auto simp: put_sym_def same_frame_def\<close>)
  have md: "cur_ckpt e (mark_dirty v ?key) = cur_ckpt e v" "same_frame w v \<Longrightarrow> same_frame w (mark_dirty v ?key)"
    "dirty (mark_dirty v ?key) = List.insert ?key (dirty v)" "SymbolStates (mark_dirty v ?key) = SymbolStates v" for v
    by (simp_all add: mark_dirty_def cur_ckpt_def ext same_frame_def cong: option.case_cong)
  have ap: "ws_Seen (apply_tick ?gm rec t x) = ws_Seen x" "metrics_of (x\<lparr>ws_Seen := m\<rparr>) = metrics_of x" for x m
    by (simp_all add: apply_tick_def metrics_of_def)
  show ?thesis
  proof (cases "source (RHeaders rec)")
    case None
    then have "alreadyApplied (RHeaders rec) ws = (False, ws)" by (simp add: alreadyApplied_source)
    with r have "w' = mark_dirty (put_sym w ?key (apply_tick ?gm rec t ws)) ?key" "app = Some ?key" by simp_all
    with that(2) [OF Some refl None] put md ap metrics_of_apply cs show ?thesis by simp
  next
    case s: (Some c)
    obtain k off where c: "c = (k, off)" by (cases c)
    let ?r = "SeenSet_Check (ck_Seen (cur_ckpt e w ?key)) k off"
    have al: "alreadyApplied (RHeaders rec) ws = (fst ?r, ws\<lparr>ws_Seen := snd ?r\<rparr>)"
      using s c cs by (simp add: alreadyApplied_source)
    show ?thesis
    proof (cases "fst ?r")
      case True
      with r al have "w' = put_sym w ?key (ws\<lparr>ws_Seen := snd ?r\<rparr>)" "app = None" by simp_all
      with that(3) [OF Some refl s [unfolded c] True] put ap cs show ?thesis by simp
    next
      case False
      with r al have "w' = mark_dirty (put_sym w ?key (apply_tick ?gm rec t (ws\<lparr>ws_Seen := snd ?r\<rparr>))) ?key" "app = Some ?key" by simp_all
      with that(4) [OF Some refl s [unfolded c] False] put md ap metrics_of_apply cs show ?thesis by simp
    qed
  qed
qed

lemma flush_symbols_keep:
  assumes "flush_symbols gm cfg ts xs = (ys, outs)"
  shows "map fst ys = map fst xs \<and>
    map_of ys k = map_option (\<lambda>ws. fst (flush_symbol gm cfg ts ws)) (map_of xs k) \<and>
    set (map fst outs) \<subseteq> set (map fst xs) \<and>
    (\<forall>ws. map_of xs k = Some ws \<and> map_of (Windows ws) (cfg_Id cfg) \<noteq> None \<longrightarrow> k \<in> set (map fst outs))"
  using assms
proof (induction xs arbitrary: ys outs)
  case (Cons x xs)
  obtain key ws where x: "x = (key, ws)" by (cases x)
  obtain ws1 out where f: "flush_symbol gm cfg ts ws = (ws1, out)" by (cases "flush_symbol gm cfg ts ws")
  obtain ys' outs' where g: "flush_symbols gm cfg ts xs = (ys', outs')" by (cases "flush_symbols gm cfg ts xs")
  have "ys = (key, ws1) # ys'" "outs = (case out of None \<Rightarrow> outs' | Some (a, ms) \<Rightarrow> (key, a, ms) # outs')"
    using Cons.prems x f g by simp_all
  moreover note Cons.IH [OF g] flush_symbol_metrics [OF f]
  ultimately show ?case using f by (auto simp: x split: option.splits simp flip: set_map)
qed simp

lemma set_fold_insert: "set (fold List.insert xs ys) = set xs \<union> set ys"
  by (induction xs arbitrary: ys) auto

lemma distinct_fold_insert: "distinct ys \<Longrightarrow> distinct (fold List.insert xs ys)"
  by (induction xs arbitrary: ys) auto

lemma FlushWindow_keeps:
  assumes "atLeastOnce w" "FlushWindow topic ma (env_math e) w cfg ts = (w', recs)"
  obtains d where "same_frame w w'" "set (dirty w') = set (dirty w) \<union> d"
    "d \<subseteq> set (map fst (SymbolStates w))" "distinct (dirty w) \<Longrightarrow> distinct (dirty w')"
    "\<And>key. has_window w cfg key \<Longrightarrow> key \<in> d"
    "\<And>key. cur_ckpt e w' key = (if has_window w cfg key
       then (cur_ckpt e w key)\<lparr>ck_Windows := flush_windows (env_math e) cfg (ck_Windows (cur_ckpt e w key))\<rparr> else cur_ckpt e w key)"
proof -
  let ?gm = "env_math e"
  obtain syms outs where f: "flush_symbols ?gm cfg ts (SymbolStates w) = (syms, outs)"
    by (cases "flush_symbols ?gm cfg ts (SymbolStates w)")
  note k = flush_symbols_keep [OF f]
  have w': "SymbolStates w' = syms" "symbolCkpts w' = symbolCkpts w" using assms(2) f by (auto simp: FlushWindow_def)
  have "cur_ckpt e w' key = (if has_window w cfg key
       then (cur_ckpt e w key)\<lparr>ck_Windows := flush_windows ?gm cfg (ck_Windows (cur_ckpt e w key))\<rparr> else cur_ckpt e w key)" for key
  proof (cases "map_of (SymbolStates w) key")
    case None
    with k [of key] w' show ?thesis by (simp add: cur_ckpt_def has_window_def)
  next
    case (Some ws)
    obtain ws1 out where g: "flush_symbol ?gm cfg ts ws = (ws1, out)" by (cases "flush_symbol ?gm cfg ts ws")
    note m = flush_symbol_metrics [OF g]
    have "flush_windows ?gm cfg (metrics_of ws) = metrics_of ws" if "map_of (Windows ws) (cfg_Id cfg) = None"
      using that by (simp add: flush_windows_def metrics_of_def map_of_metrics)
    with Some k [of key] w' g m show ?thesis by (auto simp: cur_ckpt_def has_window_def)
  qed
  moreover have "same_frame w w'" "set (dirty w') = set (dirty w) \<union> set (map fst outs)" "distinct (dirty w) \<Longrightarrow> distinct (dirty w')"
    using assms f k by (auto simp: FlushWindow_def same_frame_def set_fold_insert distinct_fold_insert simp flip: set_map)
  moreover have "has_window w cfg key \<Longrightarrow> key \<in> set (map fst outs)" for key
    using k [of key] by (auto simp: has_window_def simp flip: set_map split: option.splits)
  ultimately show ?thesis using that [of "set (map fst outs)"] k by blast
qed

lemma encode_all_entries:
  assumes "encode_all ec syms keys = Done entries"
  shows "map fst entries = keys \<and> (\<forall>(key, val) \<in> set entries. \<exists>ws. syms key = Some ws \<and> ec (checkpoint_of ws) = Some val)"
  using assms
proof (induction keys arbitrary: entries)
  case (Cons key keys)
  then obtain ws val rest where "syms key = Some ws" "ec (checkpoint_of ws) = Some val" "encode_all ec syms keys = Done rest"
    "entries = (key, val) # rest"
    by (auto simp: bind_out_Done of_opt_def split: option.splits)
  with Cons.IH show ?case by auto
qed simp

lemma commitPositions_keeps:
  assumes "commitPositions w poss = (w', adv)"
  shows "set adv \<subseteq> set poss" "cur_ckpt e w' = cur_ckpt e w" "same_frame w w'" "dirty w' = dirty w" "SymbolStates w' = SymbolStates w"
  using assms by (auto simp: commitPositions_def Let_def cur_ckpt_def same_frame_def fun_eq_iff cong: option.case_cong)

lemma Load_snoc:
  assumes "gob_dec e val = Some ck"
  shows "LoadSymbolCheckpoints (gob_dec e) (topic @ [ProduceSymbolCheckpoint key val]) =
    (LoadSymbolCheckpoints (gob_dec e) topic)(key \<mapsto> ck)"
proof -
  have "cut_prefix symbolKeyPrefix (symbolKeyPrefix @ key) = Some key" by (simp add: symbolKeyPrefix_def)
  then show ?thesis using assms by (simp add: LoadSymbolCheckpoints_def ProduceSymbolCheckpoint_def)
qed

section \<open>The invariant\<close>

text \<open>Gob gives back what it was given.\<close>

definition gob_roundtrip :: "agg_env \<Rightarrow> bool" where
  "gob_roundtrip e \<longleftrightarrow> (\<forall>ck b. gob_enc e ck = Some b \<longrightarrow> gob_dec e b = Some ck)"

definition saved_ckpt :: "agg_env \<Rightarrow> ASys \<Rightarrow> string \<Rightarrow> SymbolCheckpoint" where
  "saved_ckpt e s = ckpt_or_fresh e (LoadSymbolCheckpoints (gob_dec e) (a_topic s))"

text \<open>
  A checkpoint of a symbol that a log explains: its windows are those of the log, its seen offsets are the coordinates of the
  log, which are pairwise different, and the ticks of the log are ticks of the symbol.
\<close>

definition explains_ckpt :: "agg_env \<Rightarrow> string \<Rightarrow> agg_event list \<Rightarrow> SymbolCheckpoint \<Rightarrow> bool" where
  "explains_ckpt e key l ck \<longleftrightarrow> ck_Windows ck = replay e l \<and> seen_holds (ck_Seen ck) (log_srcs e l) \<and> distinct (log_srcs e l) \<and>
     (\<forall>k off. EvTick k off \<in> set l \<longrightarrow> (\<exists>t. log_tick e k off = Some t \<and> tick_key t = key))"

lemma explains_fresh: "explains_ckpt e key [] \<lparr>ck_Windows = fresh_windows e, ck_Seen = Map.empty\<rparr>"
  by (simp add: explains_ckpt_def replay_def)

definition batch_keys :: "ASys \<Rightarrow> string set" where
  "batch_keys s = (case a_batch s of None \<Rightarrow> {} | Some b \<Rightarrow> set (bt_keys b))"

definition worker_inv :: "agg_env \<Rightarrow> ASys \<Rightarrow> bool" where
  "worker_inv e s \<longleftrightarrow>
     atLeastOnce (aw s) \<and> WindowConfigs (aw s) = env_cfgs e \<and> distinct (dirty (aw s)) \<and> (batchInFlight (aw s) \<longleftrightarrow> a_batch s \<noteq> None) \<and>
     set (dirty (aw s)) \<union> batch_keys s \<subseteq> set (map fst (SymbolStates (aw s)))"

definition log_inv :: "agg_env \<Rightarrow> ASys \<Rightarrow> bool" where
  "log_inv e s \<longleftrightarrow>
     (\<forall>key. explains_ckpt e key (live_log s key) (cur_ckpt e (aw s) key) \<and>
        explains_ckpt e key (saved_log s key) (saved_ckpt e s key) \<and>
        set (saved_log s key) \<subseteq> set (live_log s key) \<and>
        (saved_log s key \<noteq> [] \<longrightarrow> LoadSymbolCheckpoints (gob_dec e) (a_topic s) key \<noteq> None) \<and>
        (key \<notin> set (dirty (aw s)) \<union> batch_keys s \<longrightarrow> saved_log s key = live_log s key))"

definition cover_inv :: "agg_env \<Rightarrow> ASys \<Rightarrow> bool" where
  "cover_inv e s \<longleftrightarrow>
     (\<forall>k. covers e (live_log s) k (a_pos s k)) \<and>
     (\<forall>k c. (k, c) \<in> set (a_reqs s) \<or> a_broker s k = Some c \<longrightarrow> covers e (saved_log s) k c)"

definition batch_inv :: "agg_env \<Rightarrow> ASys \<Rightarrow> batch \<Rightarrow> bool" where
  "batch_inv e s b \<longleftrightarrow>
     distinct (map fst (bt_entries b)) \<and> set (map fst (bt_entries b)) \<subseteq> set (bt_keys b) \<and>
     (\<forall>(key, val) \<in> set (bt_entries b). \<exists>ck. gob_enc e ck = Some val \<and> explains_ckpt e key (bt_log b key) ck) \<and>
     (\<forall>key. set (saved_log s key) \<subseteq> set (bt_log b key) \<and> set (bt_log b key) \<subseteq> set (live_log s key) \<and>
        (key \<notin> set (bt_keys b) \<longrightarrow> saved_log s key = bt_log b key) \<and>
        (key \<in> set (bt_keys b) \<and> key \<notin> set (dirty (aw s)) \<longrightarrow> live_log s key = bt_log b key) \<and>
        (\<not> bt_failed b \<and> key \<notin> set (map fst (bt_entries b)) \<longrightarrow> saved_log s key = bt_log b key)) \<and>
     (\<forall>(k, eo) \<in> set (bt_positions b). covers e (bt_log b) k (Offset eo))"

definition ainv :: "agg_env \<Rightarrow> ASys \<Rightarrow> bool" where
  "ainv e s \<longleftrightarrow> worker_inv e s \<and> log_inv e s \<and> cover_inv e s \<and> (\<forall>b. a_batch s = Some b \<longrightarrow> batch_inv e s b)"

lemma log_invD:
  assumes "log_inv e s"
  shows "explains_ckpt e key (live_log s key) (cur_ckpt e (aw s) key)"
    "explains_ckpt e key (saved_log s key) (saved_ckpt e s key)"
    "set (saved_log s key) \<subseteq> set (live_log s key)"
    "saved_log s key \<noteq> [] \<Longrightarrow> LoadSymbolCheckpoints (gob_dec e) (a_topic s) key \<noteq> None"
    "key \<notin> set (dirty (aw s)) \<Longrightarrow> key \<notin> batch_keys s \<Longrightarrow> saved_log s key = live_log s key"
  using assms unfolding log_inv_def by blast+

lemma cover_invD:
  assumes "cover_inv e s"
  shows "covers e (live_log s) k (a_pos s k)" "(k, c) \<in> set (a_reqs s) \<or> a_broker s k = Some c \<Longrightarrow> covers e (saved_log s) k c"
  using assms unfolding cover_inv_def by blast+

lemma batch_invD:
  assumes "batch_inv e s b"
  shows "distinct (map fst (bt_entries b))" "set (map fst (bt_entries b)) \<subseteq> set (bt_keys b)"
    "\<And>key val. (key, val) \<in> set (bt_entries b) \<Longrightarrow> \<exists>ck. gob_enc e ck = Some val \<and> explains_ckpt e key (bt_log b key) ck"
    "\<And>key. set (saved_log s key) \<subseteq> set (bt_log b key)"
    "\<And>key. set (bt_log b key) \<subseteq> set (live_log s key)"
    "\<And>key. key \<notin> set (bt_keys b) \<Longrightarrow> saved_log s key = bt_log b key"
    "\<And>key. key \<in> set (bt_keys b) \<Longrightarrow> key \<notin> set (dirty (aw s)) \<Longrightarrow> live_log s key = bt_log b key"
    "\<And>key. \<not> bt_failed b \<Longrightarrow> key \<notin> set (map fst (bt_entries b)) \<Longrightarrow> saved_log s key = bt_log b key"
    "\<And>k eo. (k, eo) \<in> set (bt_positions b) \<Longrightarrow> covers e (bt_log b) k (Offset eo)"
  using assms unfolding batch_inv_def by blast+

lemma ainv_configured: "ainv e s \<Longrightarrow> configured e (aw s)"
  using log_invD(1) [of e s] by (simp add: ainv_def worker_inv_def configured_def explains_ckpt_def)

text \<open>A step of the worker that may dirty symbols and grow the live logs, and leaves everything else.\<close>

lemma ainv_local:
  assumes i: "ainv e s" and f: "same_frame (aw s) w"
    and d: "set (dirty (aw s)) \<subseteq> set (dirty w)" "set (dirty w) \<subseteq> set (dirty (aw s)) \<union> set (map fst (SymbolStates w))" "distinct (dirty w)"
    and h: "\<And>key. explains_ckpt e key (h key) (cur_ckpt e w key)" "\<And>key. set (live_log s key) \<subseteq> set (h key)"
      "\<And>key. key \<notin> set (dirty w) \<Longrightarrow> h key = live_log s key"
    and p: "\<And>k. covers e h k (q k)"
  shows "ainv e (s\<lparr>aw := w, a_pos := q, live_log := h\<rparr>)"
proof -
  let ?s = "s\<lparr>aw := w, a_pos := q, live_log := h\<rparr>"
  have W: "worker_inv e s" "log_inv e s" "cover_inv e s" using i by (simp_all add: ainv_def)
  note H = log_invD [OF W(2)]
  have bk: "batch_keys ?s = batch_keys s" "saved_ckpt e ?s = saved_ckpt e s" by (simp_all add: batch_keys_def saved_ckpt_def)
  have "set (dirty w) \<union> batch_keys s \<subseteq> set (map fst (SymbolStates w))"
    using W(1) f d(2) unfolding worker_inv_def same_frame_def by blast
  then have "worker_inv e ?s" using W(1) f d(3) unfolding worker_inv_def same_frame_def bk by simp
  moreover have "log_inv e ?s"
    unfolding log_inv_def bk
  proof (intro allI conjI)
    fix key
    show "set (saved_log ?s key) \<subseteq> set (live_log ?s key)" using H(3) [of key] h(2) [of key] by auto
    show "saved_log ?s key \<noteq> [] \<longrightarrow> LoadSymbolCheckpoints (gob_dec e) (a_topic ?s) key \<noteq> None" using H(4) by simp
    show "key \<notin> set (dirty (aw ?s)) \<union> batch_keys s \<longrightarrow> saved_log ?s key = live_log ?s key"
      using d(1) H(5) [of key] h(3) [of key] by auto
  qed (use H h in simp_all)
  moreover have "cover_inv e ?s" using W(3) p unfolding cover_inv_def by simp
  moreover have "batch_inv e ?s b" if "a_batch ?s = Some b" for b
  proof -
    have "batch_inv e s b" using that i by (simp add: ainv_def)
    note B = batch_invD [OF this]
    show ?thesis
      unfolding batch_inv_def
    proof (intro conjI allI impI ballI)
      fix key
      show "set (bt_log b key) \<subseteq> set (live_log ?s key)" using B(5) [of key] h(2) [of key] by auto
      show "live_log ?s key = bt_log b key" if "key \<in> set (bt_keys b) \<and> key \<notin> set (dirty (aw ?s))"
        using that d(1) B(7) [of key] h(3) [of key] by auto
    qed (use B in auto)
  qed
  ultimately show ?thesis unfolding ainv_def by blast
qed

text \<open>The log after one more record of partition \<open>k\<close> still covers what was read.\<close>

lemma covers_poll:
  assumes old: "covers e l k' (q k')" and grow: "\<And>x. set (l x) \<subseteq> set (l' x)"
    and gap: "\<forall>o'. q k \<le> o' \<and> o' < off \<longrightarrow> input_log e k o' = None" and rec: "input_log e k off = Some rec"
    and new: "\<And>t. unmarshal e (RValue rec) = Some t \<Longrightarrow>
      (case source (RHeaders rec) of None \<Rightarrow> EvTick k off \<in> set (l' (tick_key t)) | Some c \<Rightarrow> judged (log_srcs e (l' (tick_key t))) c)"
  shows "covers e l' k' ((q(k := off + 1)) k')"
proof -
  have o: "covers e l' k' (q k')" by (rule covers_mono [OF old grow order_refl])
  show ?thesis
  proof (cases "k' = k")
    case True
    show ?thesis
    proof (rule coversI)
      fix o' rec' t
      assume a: "0 \<le> o'" "o' < (q(k := off + 1)) k'" "input_log e k' o' = Some rec'" "unmarshal e (RValue rec') = Some t"
      consider "o' < q k" | "q k \<le> o'" "o' < off" | "o' = off" using a(2) True by force
      then show "case source (RHeaders rec') of None \<Rightarrow> EvTick k' o' \<in> set (l' (tick_key t)) | Some c \<Rightarrow> judged (log_srcs e (l' (tick_key t))) c"
      proof cases
        case 1
        then show ?thesis using coversD [OF o a(1) _ a(3,4)] True by blast
      next
        case 2
        then show ?thesis using a(3) True gap by (metis option.distinct(1))
      next
        case 3
        then show ?thesis using a(3,4) True rec new [of t] by (auto split: option.splits)
      qed
    qed
  qed (use o in simp)
qed

lemma explains_tick:
  assumes "explains_ckpt e key l ck" "input_log e k off = Some rec" "unmarshal e (RValue rec) = Some t" "tick_key t = key"
    and "source (RHeaders rec) = None \<and> m = ck_Seen ck \<or>
      (\<exists>c. source (RHeaders rec) = Some c \<and> \<not> judged (log_srcs e l) c \<and> seen_holds m (log_srcs e l @ [c]))"
  shows "explains_ckpt e key (l @ [EvTick k off]) \<lparr>ck_Windows = tick_windows (env_math e) t (ck_Windows ck), ck_Seen = m\<rparr>"
proof -
  have t: "log_tick e k off = Some t" using assms(2,3) by (simp add: log_tick_def)
  have "c \<notin> set (log_srcs e l)" if "\<not> judged (log_srcs e l) c" for c
    using that by (cases c) (auto simp: judged_def offs_in_def)
  with assms t show ?thesis by (auto simp: explains_ckpt_def)
qed

lemma ainv_poll:
  assumes i: "ainv e s" and l: "input_log e k off = Some rec" "a_pos s k \<le> off"
    and gap: "\<forall>o'. a_pos s k \<le> o' \<and> o' < off \<longrightarrow> input_log e k o' = None"
    and p: "ProcessTick (unmarshal e) (env_math e) (aw s) rec = Done (w, app)"
  shows "ainv e (s\<lparr>aw := w, a_pos := (a_pos s)(k := off + 1), live_log := note_tick app k off (live_log s)\<rparr>)"
proof -
  have W: "worker_inv e s" "log_inv e s" "cover_inv e s" using i by (simp_all add: ainv_def)
  note H = log_invD [OF W(2)]
  have al: "distinct (dirty (aw s))" using W(1) by (simp add: worker_inv_def)
  let ?q = "(a_pos s)(k := off + 1)" and ?h = "note_tick app k off (live_log s)"
  have grow: "set (live_log s key) \<subseteq> set (?h key)" for key by (auto simp: note_tick_def split: option.splits)
  note cov = covers_poll [of e "live_log s" _ "a_pos s" ?h k off rec, OF cover_invD(1) [OF W(3)] grow gap l(1)]
  have ev: "ev_src e (EvTick k off) = source (RHeaders rec)" using l(1) by simp
  show ?thesis
  proof (cases rule: ProcessTick_cases [OF ainv_configured [OF i] p])
    case 1
    have cv: "covers e ?h k' (?q k')" for k' by (rule cov) (simp add: 1)
    have "?h = live_log s" using 1 by (simp add: note_tick_def)
    then show ?thesis using H al by (intro ainv_local [OF i _ _ _ _ _ _ _ cv]) (auto simp: 1 same_frame_def)
  next
    case (2 t c)
    have hh: "?h = (live_log s)(tick_key t := live_log s (tick_key t) @ [EvTick k off])" using 2 by (simp add: note_tick_def)
    have cv: "covers e ?h k' (?q k')" for k' by (rule cov) (simp add: 2(1,3,4) note_tick_def)
    have "explains_ckpt e (tick_key t) (?h (tick_key t)) (cur_ckpt e w (tick_key t))"
      using explains_tick [OF H(1) [of "tick_key t"] l(1) 2(1) refl, of "ck_Seen c"] 2 hh by simp
    then have "explains_ckpt e key (?h key) (cur_ckpt e w key)" for key using H(1) [of key] 2 hh by (cases "key = tick_key t") simp_all
    moreover have "?h key = live_log s key" if "key \<notin> set (dirty w)" for key using that 2 hh by auto
    ultimately show ?thesis using 2 al by (intro ainv_local [OF i _ _ _ _ _ grow _ cv]) auto
  next
    case (3 t c k2 off2)
    have hh: "?h = live_log s" using 3 by (simp add: note_tick_def)
    have hc: "explains_ckpt e (tick_key t) (live_log s (tick_key t)) c" using H(1) 3(2) by simp
    then have sh: "seen_holds (ck_Seen c) (log_srcs e (live_log s (tick_key t)))" by (simp add: explains_ckpt_def)
    note ck = seen_holds_check [OF sh, of k2 off2]
    have j: "judged (log_srcs e (live_log s (tick_key t))) (k2, off2)" using 3 ck(1) by simp
    then have "explains_ckpt e (tick_key t) (live_log s (tick_key t)) (cur_ckpt e w (tick_key t))"
      using ck(2) hc 3(6) by (simp add: explains_ckpt_def)
    then have "explains_ckpt e key (live_log s key) (cur_ckpt e w key)" for key using H(1) [of key] 3 by (cases "key = tick_key t") simp_all
    moreover have cv: "covers e ?h k' (?q k')" for k' by (rule cov) (use 3 j hh in simp)
    ultimately show ?thesis using al 3 hh by (intro ainv_local [OF i _ _ _ _ _ _ _ cv]) auto
  next
    case (4 t c k2 off2)
    have hh: "?h = (live_log s)(tick_key t := live_log s (tick_key t) @ [EvTick k off])" using 4 by (simp add: note_tick_def)
    have hc: "explains_ckpt e (tick_key t) (live_log s (tick_key t)) c" using H(1) 4(2) by simp
    then have sh: "seen_holds (ck_Seen c) (log_srcs e (live_log s (tick_key t)))" by (simp add: explains_ckpt_def)
    note ck = seen_holds_check [OF sh, of k2 off2]
    have j: "\<not> judged (log_srcs e (live_log s (tick_key t))) (k2, off2)" using 4 ck(1) by simp
    have "explains_ckpt e (tick_key t) (?h (tick_key t)) (cur_ckpt e w (tick_key t))"
      using explains_tick [OF hc l(1) 4(1) refl, of "snd (SeenSet_Check (ck_Seen c) k2 off2)"] 4(3,6) j ck(2) hh by simp
    then have ex: "explains_ckpt e key (?h key) (cur_ckpt e w key)" for key using H(1) [of key] 4(6) hh by (cases "key = tick_key t") simp_all
    have "judged (log_srcs e (?h (tick_key t))) (k2, off2)" using ev 4(3) by (simp add: hh judged_def offs_in_def)
    then have cv: "covers e ?h k' (?q k')" for k' by (intro cov) (use 4(1,3) in simp)
    have "?h key = live_log s key" if "key \<notin> set (dirty w)" for key using that 4(7) hh by auto
    then show ?thesis using 4(7-) al by (intro ainv_local [OF i _ _ _ _ ex grow _ cv]) auto
  qed
qed

lemma ainv_flush:
  assumes i: "ainv e s" and f: "FlushWindow (env_topic e) (marshal e) (env_math e) (aw s) cfg ts = (w, recs)"
  shows "ainv e (s\<lparr>aw := w, live_log := note_flush (aw s) cfg (live_log s)\<rparr>)"
proof -
  have W: "worker_inv e s" "log_inv e s" "cover_inv e s" using i by (simp_all add: ainv_def)
  note H = log_invD [OF W(2)]
  have al: "atLeastOnce (aw s)" "distinct (dirty (aw s))" using W(1) by (simp_all add: worker_inv_def)
  let ?h = "note_flush (aw s) cfg (live_log s)"
  obtain d where k: "same_frame (aw s) w" "set (dirty w) = set (dirty (aw s)) \<union> d" "d \<subseteq> set (map fst (SymbolStates (aw s)))"
    "distinct (dirty w)" "\<And>key. has_window (aw s) cfg key \<Longrightarrow> key \<in> d"
    "\<And>key. cur_ckpt e w key = (if has_window (aw s) cfg key
       then (cur_ckpt e (aw s) key)\<lparr>ck_Windows := flush_windows (env_math e) cfg (ck_Windows (cur_ckpt e (aw s) key))\<rparr> else cur_ckpt e (aw s) key)"
    using FlushWindow_keeps [OF al(1) f] al(2) by metis
  have d: "d \<subseteq> set (map fst (SymbolStates w))" using k(1,3) unfolding same_frame_def by blast
  have grow: "set (live_log s key) \<subseteq> set (?h key)" for key by (auto simp: note_flush_def)
  have ex: "explains_ckpt e key (?h key) (cur_ckpt e w key)" for key
    using H(1) [of key] unfolding k(6) by (simp add: note_flush_def explains_ckpt_def)
  have cv: "covers e ?h k' (a_pos s k')" for k' by (rule covers_mono [OF cover_invD(1) [OF W(3)] grow order_refl])
  have "?h key = live_log s key" if "key \<notin> set (dirty w)" for key using that k(2,5) by (auto simp: note_flush_def)
  then have "ainv e (s\<lparr>aw := w, a_pos := a_pos s, live_log := ?h\<rparr>)"
    using k d by (intro ainv_local [OF i _ _ _ _ ex grow _ cv]) auto
  then show ?thesis by simp
qed

text \<open>New requests are covered by what is saved, and the worker forgets which symbols were in the batch.\<close>

lemma cover_reqs:
  assumes "cover_inv e s" "\<And>k eo. (k, eo) \<in> set adv \<Longrightarrow> covers e (saved_log s) k (Offset eo)"
  shows "cover_inv e (s\<lparr>a_reqs := map (\<lambda>(k, eo). (k, Offset eo)) adv @ a_reqs s\<rparr>)"
proof -
  have "covers e (saved_log s) k c"
    if "(k, c) \<in> set (map (\<lambda>(k, eo). (k, Offset eo)) adv @ a_reqs s) \<or> a_broker s k = Some c" for k c
    using that cover_invD(2) [OF assms(1), of k c] assms(2) [of k] by auto
  then show ?thesis using cover_invD(1) [OF assms(1)] unfolding cover_inv_def by simp
qed

lemma ainv_ckpt:
  assumes i: "ainv e s" and q: "\<forall>(k, eo) \<in> set poss. Offset eo \<le> a_pos s k"
    and c: "checkpointDirty (gob_enc e) (aw s) poss = Done (w, act)"
  shows "ainv e (start_batch (s\<lparr>aw := w\<rparr>) act)"
proof -
  have W: "worker_inv e s" "log_inv e s" "cover_inv e s" using i by (simp_all add: ainv_def)
  note H = log_invD [OF W(2)]
  have al: "atLeastOnce (aw s)" "distinct (dirty (aw s))" "set (dirty (aw s)) \<subseteq> set (map fst (SymbolStates (aw s)))"
    using W(1) by (auto simp: worker_inv_def)
  have pc: "covers e (live_log s) k (Offset eo)" if "(k, eo) \<in> set poss" for k eo
    using covers_mono [OF cover_invD(1) [OF W(3), of k]] q that by blast
  consider "w = aw s" "act = NoAction"
    | adv where "a_batch s = None" "dirty (aw s) = []" "commitPositions (aw s) poss = (w, adv)" "act = CommitNow adv"
    | entries where "a_batch s = None" "encode_all (gob_enc e) (map_of (SymbolStates (aw s))) (dirty (aw s)) = Done entries"
        "w = (aw s)\<lparr>batchInFlight := True, dirty := []\<rparr>" "act = StartBatch entries poss"
    using c W(1) by (auto simp: checkpointDirty_def worker_inv_def split: if_splits outcome.splits prod.splits)
  then show ?thesis
  proof cases
    case 1
    then show ?thesis using i by (simp add: start_batch_def)
  next
    case (2 adv)
    note k = commitPositions_keeps [OF 2(3)]
    let ?s = "s\<lparr>aw := w\<rparr>"
    have same: "saved_log s key = live_log s key" for key using H(5) [of key] 2 by (simp add: batch_keys_def)
    have "covers e (saved_log s) k (Offset eo)" if "(k, eo) \<in> set adv" for k eo
      by (rule covers_mono [OF pc]) (use that k(1) same in auto)
    moreover have "cover_inv e ?s" using W(3) unfolding cover_inv_def by simp
    ultimately have cv: "cover_inv e (?s\<lparr>a_reqs := map (\<lambda>(k, eo). (k, Offset eo)) adv @ a_reqs ?s\<rparr>)"
      by (intro cover_reqs) simp_all
    have "worker_inv e ?s" using W(1) k unfolding worker_inv_def batch_keys_def same_frame_def by simp
    moreover have "log_inv e ?s" using W(2) k unfolding log_inv_def batch_keys_def saved_ckpt_def by simp
    ultimately show ?thesis using cv 2
      unfolding ainv_def worker_inv_def log_inv_def batch_keys_def saved_ckpt_def start_batch_def by simp
  next
    case (3 entries)
    note en = encode_all_entries [OF 3(2)]
    let ?b = "\<lparr>bt_entries = entries, bt_keys = map fst entries, bt_positions = poss, bt_failed = False, bt_log = live_log s\<rparr>"
    let ?s = "s\<lparr>aw := w, a_batch := Some ?b\<rparr>"
    have keys: "map fst entries = dirty (aw s)" using en by simp
    have cs: "cur_ckpt e w = cur_ckpt e (aw s)" using 3(3) by (simp add: cur_ckpt_def fun_eq_iff cong: option.case_cong)
    have same: "saved_log s key = live_log s key" if "key \<notin> set (dirty (aw s))" for key
      using H(5) [OF that] 3(1) by (simp add: batch_keys_def)
    have bk: "batch_keys ?s = set (dirty (aw s))" "saved_ckpt e ?s = saved_ckpt e s"
      using keys by (simp_all add: batch_keys_def saved_ckpt_def flip: set_map)
    have "worker_inv e ?s" using al W(1) unfolding worker_inv_def bk by (simp add: 3(3))
    moreover have "log_inv e ?s"
      unfolding log_inv_def bk using H same cs by (simp add: 3(3))
    moreover have "cover_inv e ?s" using W(3) unfolding cover_inv_def by simp
    moreover have "\<exists>ck. gob_enc e ck = Some val \<and> explains_ckpt e key (live_log s key) ck" if kv: "(key, val) \<in> set entries" for key val
    proof -
      from en kv obtain ws where ws: "map_of (SymbolStates (aw s)) key = Some ws" "gob_enc e (checkpoint_of ws) = Some val" by blast
      then have "checkpoint_of ws = cur_ckpt e (aw s) key" by (simp add: checkpoint_of_metrics cur_ckpt_def)
      then show ?thesis using ws(2) H(1) [of key] by metis
    qed
    then have "batch_inv e ?s ?b"
      unfolding batch_inv_def using keys al(2) H(3) same pc by (auto simp flip: set_map)
    ultimately show ?thesis unfolding ainv_def start_batch_def by (simp add: 3(4))
  qed
qed

lemma ainv_answer:
  assumes i: "ainv e s" and g: "gob_roundtrip e" and b: "a_batch s = Some b" "bt_entries b = xs @ (key, val) # ys" "ok \<longrightarrow> landed"
  shows "ainv e (s\<lparr>a_batch := Some (b\<lparr>bt_entries := xs @ ys, bt_failed := (bt_failed b \<or> \<not> ok)\<rparr>),
       a_topic := (if landed then a_topic s @ [ProduceSymbolCheckpoint key val] else a_topic s),
       saved_log := (if landed then (saved_log s)(key := bt_log b key) else saved_log s)\<rparr>)" (is "ainv e ?s")
proof -
  have W: "worker_inv e s" "log_inv e s" "cover_inv e s" and bi: "batch_inv e s b" using i b(1) by (simp_all add: ainv_def)
  note H = log_invD [OF W(2)] and B = batch_invD [OF bi]
  let ?b = "b\<lparr>bt_entries := xs @ ys, bt_failed := (bt_failed b \<or> \<not> ok)\<rparr>" and ?sh = "saved_log ?s"
  have key: "key \<in> set (bt_keys b)" "key \<notin> set (map fst (xs @ ys))" using B(1,2) b(2) by auto
  have bk: "batch_keys ?s = batch_keys s" using b(1) by (simp add: batch_keys_def)
  have sh: "?sh x = (if landed \<and> x = key then bt_log b key else saved_log s x)" for x by simp
  have sub: "set (saved_log s x) \<subseteq> set (?sh x)" "set (?sh x) \<subseteq> set (bt_log b x)" for x using B(4) [of x] by (auto simp: sh)
  obtain ck where ck: "gob_enc e ck = Some val" "explains_ckpt e key (bt_log b key) ck" using B(3) [of key val] b(2) by auto
  then have dec: "gob_dec e val = Some ck" using g by (simp add: gob_roundtrip_def)
  then have ss: "saved_ckpt e ?s = (if landed then (saved_ckpt e s)(key := ck) else saved_ckpt e s)"
    by (auto simp: saved_ckpt_def Load_snoc ckpt_or_fresh_def fun_eq_iff)
  have "worker_inv e ?s" using W(1) b(1) unfolding worker_inv_def bk by simp
  moreover have "log_inv e ?s"
    unfolding log_inv_def bk
  proof (intro allI conjI impI)
    fix x
    show "explains_ckpt e x (?sh x) (saved_ckpt e ?s x)" unfolding ss sh using H(2) [of x] ck(2) by simp
    show "set (?sh x) \<subseteq> set (live_log ?s x)" using sub(2) [of x] B(5) [of x] by simp
    show "LoadSymbolCheckpoints (gob_dec e) (a_topic ?s) x \<noteq> None" if "?sh x \<noteq> []"
      using that H(4) [of x] by (cases landed; cases "x = key") (auto simp: Load_snoc [where ck = ck, OF dec])
    show "?sh x = live_log ?s x" if "x \<notin> set (dirty (aw ?s)) \<union> batch_keys s"
      using that H(5) [of x] key(1) b(1) by (auto simp: sh batch_keys_def)
  qed (use H in simp_all)
  moreover have "cover_inv e ?s"
    unfolding cover_inv_def
  proof (intro allI conjI impI)
    fix k c
    assume "(k, c) \<in> set (a_reqs ?s) \<or> a_broker ?s k = Some c"
    then have "covers e (saved_log s) k c" using cover_invD(2) [OF W(3), of k c] by simp
    then show "covers e ?sh k c" using sub(1) by (rule covers_mono) simp
  qed (use cover_invD(1) [OF W(3)] in simp)
  moreover have "batch_inv e ?s ?b"
    unfolding batch_inv_def
  proof (intro conjI allI impI ballI)
    fix x
    show "set (?sh x) \<subseteq> set (bt_log ?b x)" using sub(2) by simp
    show "?sh x = bt_log ?b x" if "x \<notin> set (bt_keys ?b)" using that B(6) [of x] key(1) by (auto simp: sh)
    show "?sh x = bt_log ?b x" if "\<not> bt_failed ?b \<and> x \<notin> set (map fst (bt_entries ?b))"
      using that B(8) [of x] b(2,3) by (cases "x = key") (auto simp: sh)
  qed (use B b(2) in auto)
  ultimately show ?thesis unfolding ainv_def by simp
qed

lemma ainv_done:
  assumes i: "ainv e s" and b: "a_batch s = Some b" "bt_entries b = []"
    and f: "finishBatch (aw s) \<lparr>positions = bt_positions b, ck_keys = bt_keys b, ck_failed = bt_failed b\<rparr> = (w, adv)"
  shows "ainv e (s\<lparr>aw := w, a_batch := None, a_reqs := map (\<lambda>(k, eo). (k, Offset eo)) adv @ a_reqs s\<rparr>)" (is "ainv e ?s")
proof -
  have W: "worker_inv e s" "log_inv e s" "cover_inv e s" and bi: "batch_inv e s b" using i b(1) by (simp_all add: ainv_def)
  note H = log_invD [OF W(2)] and B = batch_invD [OF bi]
  have k: "batch_keys ?s = {}" "saved_ckpt e ?s = saved_ckpt e s" by (simp_all add: batch_keys_def saved_ckpt_def)
  have bk: "batch_keys s = set (bt_keys b)" using b(1) by (simp add: batch_keys_def)
  have al: "atLeastOnce (aw s)" "distinct (dirty (aw s))" "set (dirty (aw s)) \<union> set (bt_keys b) \<subseteq> set (map fst (SymbolStates (aw s)))"
    "WindowConfigs (aw s) = env_cfgs e"
    using W(1) unfolding worker_inv_def bk by simp_all
  have w: "cur_ckpt e w = cur_ckpt e (aw s)" "SymbolStates w = SymbolStates (aw s)" "atLeastOnce w" "\<not> batchInFlight w"
    "set (dirty w) = (if bt_failed b then set (bt_keys b) \<union> set (dirty (aw s)) else set (dirty (aw s)))" "distinct (dirty w)"
    "bt_failed b \<Longrightarrow> adv = []" "set adv \<subseteq> set (bt_positions b)" "WindowConfigs w = WindowConfigs (aw s)"
  proof -
    have c: "cur_ckpt e ((aw s)\<lparr>batchInFlight := x\<rparr>) = cur_ckpt e (aw s)"
      "cur_ckpt e ((aw s)\<lparr>batchInFlight := x, dirty := d\<rparr>) = cur_ckpt e (aw s)" for x d
      by (simp_all add: cur_ckpt_def fun_eq_iff cong: option.case_cong)
    show "cur_ckpt e w = cur_ckpt e (aw s)" "SymbolStates w = SymbolStates (aw s)" "atLeastOnce w" "\<not> batchInFlight w"
      "set (dirty w) = (if bt_failed b then set (bt_keys b) \<union> set (dirty (aw s)) else set (dirty (aw s)))" "distinct (dirty w)"
      "bt_failed b \<Longrightarrow> adv = []" "set adv \<subseteq> set (bt_positions b)" "WindowConfigs w = WindowConfigs (aw s)"
      using f al(1,2) commitPositions_keeps [of "(aw s)\<lparr>batchInFlight := False\<rparr>" "bt_positions b" w adv] c
      by (auto simp: finishBatch_def Let_def same_frame_def set_fold_insert distinct_fold_insert split: if_splits)
  qed
  have "set (dirty w) \<subseteq> set (map fst (SymbolStates w))" using al(3) w(2,5) by (auto split: if_splits)
  then have "worker_inv e ?s" using w al(4) unfolding worker_inv_def k by simp
  moreover have "log_inv e ?s"
    unfolding log_inv_def k
  proof (intro allI conjI impI)
    fix x
    show "saved_log ?s x = live_log ?s x" if n: "x \<notin> set (dirty (aw ?s)) \<union> {}"
    proof (cases "x \<in> set (bt_keys b)")
      case True
      then have "\<not> bt_failed b" "x \<notin> set (dirty (aw s))" using n w(5) by (auto split: if_splits)
      then show ?thesis using B(7) [OF True] B(8) [of x] b(2) by simp
    next
      case False
      then show ?thesis using n w(5) H(5) [of x] bk by (auto split: if_splits)
    qed
    show "LoadSymbolCheckpoints (gob_dec e) (a_topic ?s) x \<noteq> None" if "saved_log ?s x \<noteq> []" using that H(4) [of x] by simp
  qed (use H w(1) in simp_all)
  moreover have "cover_inv e ?s"
  proof -
    have "covers e (saved_log s) k (Offset eo)" if "(k, eo) \<in> set adv" for k eo
    proof -
      have "\<not> bt_failed b" "(k, eo) \<in> set (bt_positions b)" using that w(7,8) by auto
      then show ?thesis using covers_mono [OF B(9), of k eo "saved_log s"] B(8) b(2) by simp
    qed
    from cover_reqs [OF W(3) this] show ?thesis unfolding cover_inv_def by simp
  qed
  ultimately show ?thesis unfolding ainv_def by simp
qed

lemma start_worker_sel [simp]:
  "atLeastOnce (start_worker e topic)" "WindowConfigs (start_worker e topic) = env_cfgs e" "dirty (start_worker e topic) = []"
  "\<not> batchInFlight (start_worker e topic)" "cur_ckpt e (start_worker e topic) = ckpt_or_fresh e (LoadSymbolCheckpoints (gob_dec e) topic)"
  by (simp_all add: start_worker_def EnableAtLeastOnce_def NewAWorker_def cur_ckpt_def fun_eq_iff)

lemma ainv_crash:
  assumes i: "ainv e s"
  shows "ainv e (s\<lparr>aw := start_worker e (a_topic s), a_pos := start_pos (a_broker s), a_batch := None, live_log := saved_log s\<rparr>)"
    (is "ainv e ?s")
proof -
  have W: "worker_inv e s" "log_inv e s" "cover_inv e s" using i by (simp_all add: ainv_def)
  note H = log_invD [OF W(2)]
  have w: "cur_ckpt e (aw ?s) = saved_ckpt e s" "saved_ckpt e ?s = saved_ckpt e s" "batch_keys ?s = {}"
    by (simp_all add: saved_ckpt_def batch_keys_def)
  have "worker_inv e ?s" unfolding worker_inv_def w by simp
  moreover have "log_inv e ?s" unfolding log_inv_def w using H(2,4) by simp
  moreover have "covers e (saved_log s) k (start_pos (a_broker s) k)" for k
  proof (cases "a_broker s k")
    case None
    then show ?thesis by (simp add: start_pos_def)
  next
    case (Some c)
    then show ?thesis using cover_invD(2) [OF W(3), of k c] by (simp add: start_pos_def)
  qed
  then have "cover_inv e ?s" using cover_invD(2) [OF W(3)] unfolding cover_inv_def by simp
  ultimately show ?thesis unfolding ainv_def by simp
qed

lemma ainv_init: "ainv e (ASys_init e)"
proof -
  have l: "LoadSymbolCheckpoints (gob_dec e) [] = Map.empty" by (simp add: LoadSymbolCheckpoints_def)
  have "ckpt_or_fresh e Map.empty key = \<lparr>ck_Windows = fresh_windows e, ck_Seen = Map.empty\<rparr>" for key
    by (simp add: ckpt_or_fresh_def)
  then show ?thesis using explains_fresh [of e] l
    by (simp add: ainv_def worker_inv_def log_inv_def cover_inv_def ASys_init_def batch_keys_def saved_ckpt_def)
qed

lemma areach_inv:
  assumes "areach e s" "gob_roundtrip e"
  shows "ainv e s"
  using assms(1)
proof induction
  case a_start
  show ?case by (rule ainv_init)
next
  case (a_step s s')
  from a_step.hyps(2) a_step.IH show ?case
  proof cases
    case (a_commit k c)
    have "cover_inv e s" using a_step.IH by (simp add: ainv_def)
    from cover_invD [OF this] a_commit have "cover_inv e s'"
      unfolding cover_inv_def by (auto split: if_splits)
    then show ?thesis using a_step.IH a_commit
      unfolding ainv_def worker_inv_def log_inv_def batch_inv_def batch_keys_def saved_ckpt_def by simp
  qed (use assms(2) ainv_poll ainv_flush ainv_ckpt ainv_answer ainv_done ainv_crash in \<open>auto\<close>)
qed

section \<open>A concrete run\<close>

text \<open>One tick is polled, saved and committed, with the window of the examples configured.\<close>

definition one_tick :: NormalizedTick where
  "one_tick = \<lparr>tk_Exchange = ''binance'', tk_Channel = ''aggTrade'', tk_Symbol = ''BTCUSDT'', tk_EventTsMillis = 1000,
     tk_Price = Fin 2, tk_Volume = Fin 1, tk_Open = Fin 2, tk_Close = Fin 2, tk_Low = Fin 2, tk_High = Fin 2\<rparr>"

definition one_rec :: kgo_record where
  "one_rec = \<lparr>RTopic = ''normalized.ticks'', RPartition = 0, ROffset = 0, RKey = [], RValue = [1],
     RHeaders = [\<lparr>HKey = HeaderKey, HValue = Encode ''raw.ticks'' 0 7\<rparr>], RTimestamp = 0\<rparr>"

definition one_src :: src where
  "one_src = ((''raw.ticks'', 0), 7)"

definition one_window :: Window where
  "one_window = \<lparr>Metrics = demo_metrics, win_Id = ''5s'', win_DurationMs = 5000, win_FlushCadencyMs = 1000, LastFlushTsMs = 0,
     NewestIngestMs = 0\<rparr>"

definition one_state :: WindowState where
  "one_state = apply_tick demo_gm one_rec one_tick
     \<lparr>ws_Exchange = ''binance'', ws_Channel = ''aggTrade'', ws_Symbol = ''BTCUSDT'', Windows = [(''5s'', one_window)],
      ws_Seen = snd (SeenSet_Check Map.empty (''raw.ticks'', 0) 7)\<rparr>"

definition one_env :: agg_env where
  "one_env = \<lparr>unmarshal = (\<lambda>b. if b = [1] then Some one_tick else None), marshal = (\<lambda>a. Some []),
     gob_enc = (\<lambda>ck. if ck = checkpoint_of one_state then Some [7] else None),
     gob_dec = (\<lambda>b. if b = [7] then Some (checkpoint_of one_state) else None),
     env_math = demo_gm, env_cfgs = [demo_cfg], env_topic = ''aggregated.ticks'',
     input_log = (\<lambda>k off. if k = (''normalized.ticks'', 0) \<and> off = 0 then Some one_rec else None)\<rparr>"

definition one_worker :: "string list \<Rightarrow> bool \<Rightarrow> (tp \<rightharpoonup> int) \<Rightarrow> AWorker" where
  "one_worker d fl lc = \<lparr>SymbolStates = [(tick_key one_tick, one_state)], WindowConfigs = [demo_cfg], Checkpoints = Map.empty,
     aTxnFailed = False, atLeastOnce = True, symbolCkpts = Map.empty, dirty = d, batchInFlight = fl, lastCommitted = lc\<rparr>"

lemma one_env_sel [simp]: "unmarshal one_env (RValue one_rec) = Some one_tick" "env_math one_env = demo_gm" "env_cfgs one_env = [demo_cfg]"
  "gob_enc one_env (checkpoint_of one_state) = Some [7]" "input_log one_env (''normalized.ticks'', 0) 0 = Some one_rec"
  by (simp_all add: one_env_def one_rec_def)

lemma one_roundtrip: "gob_roundtrip one_env"
  by (simp add: gob_roundtrip_def one_env_def)

lemma one_source: "source (RHeaders one_rec) = Some one_src"
  by (simp add: one_rec_def one_src_def Decode_def Encode_def)

lemma one_build: "BuildWindows demo_gm [demo_cfg] = Done [(''5s'', one_window)]"
proof -
  have "build_metrics (MetricCtorRegistry demo_gm) demo_cfg = Done demo_metrics"
    by (simp add: demo_metrics_def MetricCtorRegistry_def NewRollingVolume_def NewRollingVWAP_def demo_cfg_def signed_divide_int_def)
  then show ?thesis by (simp add: BuildWindows_def one_window_def) (simp add: demo_cfg_def)
qed

lemma one_process:
  "ProcessTick (unmarshal one_env) (env_math one_env) (aw (ASys_init one_env)) one_rec =
     Done (one_worker [tick_key one_tick] False Map.empty, Some (tick_key one_tick))"
proof -
  have "\<not> fst (SeenSet_Check Map.empty (''raw.ticks'', 0) 7)"
    by (simp add: SeenSet_Check_def Check_def seen_zero_def Let_def)
  moreover have "LoadSymbolCheckpoints (gob_dec one_env) [] = Map.empty" by (simp add: LoadSymbolCheckpoints_def)
  moreover have "tk_Exchange one_tick = ''binance''" "tk_Channel one_tick = ''aggTrade''" "tk_Symbol one_tick = ''BTCUSDT''"
    by (simp_all add: one_tick_def)
  ultimately show ?thesis
    using one_source one_build
    by (simp add: ProcessTick_def ASys_init_def start_worker_def EnableAtLeastOnce_def NewAWorker_def new_symbol_def
      alreadyApplied_source one_src_def put_sym_def mark_dirty_def one_worker_def one_state_def Let_def List.insert_def)
qed

definition one_run :: ASys where
  "one_run = \<lparr>aw = one_worker [] False [(''normalized.ticks'', 0) \<mapsto> 1], a_pos = (\<lambda>_. 0)((''normalized.ticks'', 0) := 1),
     a_topic = [ProduceSymbolCheckpoint (tick_key one_tick) [7]], a_batch = None, a_reqs = [((''normalized.ticks'', 0), 1)],
     a_broker = [(''normalized.ticks'', 0) \<mapsto> 1], live_log = (\<lambda>_. [])(tick_key one_tick := [EvTick (''normalized.ticks'', 0) 0]),
     saved_log = (\<lambda>_. [])(tick_key one_tick := [EvTick (''normalized.ticks'', 0) 0])\<rparr>"

lemma one_reach: "areach one_env one_run"
proof -
  let ?k = "(''normalized.ticks'', 0) :: tp" and ?key = "tick_key one_tick"
  let ?h = "(\<lambda>_. [])(?key := [EvTick ?k 0])" and ?poss = "[(?k, \<lparr>Epoch = 0, Offset = 1\<rparr>)]"
  let ?b = "\<lparr>bt_entries = [(?key, [7])], bt_keys = [?key], bt_positions = ?poss, bt_failed = False, bt_log = ?h\<rparr>"
  let ?s0 = "ASys_init one_env"
  let ?s1 = "?s0\<lparr>aw := one_worker [?key] False Map.empty, a_pos := (\<lambda>_. 0)(?k := 1), live_log := ?h\<rparr>"
  let ?s2 = "?s0\<lparr>aw := one_worker [] True Map.empty, a_pos := (\<lambda>_. 0)(?k := 1), a_batch := Some ?b, live_log := ?h\<rparr>"
  let ?s3 = "?s0\<lparr>aw := one_worker [] True Map.empty, a_pos := (\<lambda>_. 0)(?k := 1), a_topic := [ProduceSymbolCheckpoint ?key [7]],
     a_batch := Some (?b\<lparr>bt_entries := []\<rparr>), live_log := ?h, saved_log := ?h\<rparr>"
  let ?s4 = "one_run\<lparr>a_broker := Map.empty\<rparr>"
  have n: "\<forall>i. 0 \<le> i \<and> i < 0 \<longrightarrow> input_log one_env ?k i = None" by auto
  have "astep one_env ?s0 ?s1"
    using astep.a_poll [OF _ _ _ one_process, of ?k 0] n by (simp add: ASys_init_def note_tick_def)
  then have 1: "areach one_env ?s1" by (rule areach.a_step [OF areach.a_start])
  have "checkpointDirty (gob_enc one_env) (aw ?s1) ?poss = Done (one_worker [] True Map.empty, StartBatch [(?key, [7])] ?poss)"
    by (simp add: checkpointDirty_def one_worker_def of_opt_def)
  from astep.a_ckpt [OF _ this] have "astep one_env ?s1 ?s2" by (simp add: start_batch_def ASys_init_def)
  then have 2: "areach one_env ?s2" by (rule areach.a_step [OF 1])
  have "astep one_env ?s2 ?s3"
    using astep.a_answer [of ?s2 ?b "[]" ?key "[7]" "[]" True True one_env] by (simp add: ASys_init_def fun_upd_def)
  then have 3: "areach one_env ?s3" by (rule areach.a_step [OF 2])
  have "finishBatch (one_worker [] True Map.empty) \<lparr>positions = ?poss, ck_keys = [?key], ck_failed = False\<rparr> =
      (one_worker [] False [?k \<mapsto> 1], ?poss)"
    by (simp add: finishBatch_def commitPositions_def one_worker_def)
  from astep.a_done [of ?s3 "?b\<lparr>bt_entries := []\<rparr>", simplified, OF this] have "astep one_env ?s3 ?s4"
    by (simp add: ASys_init_def one_run_def)
  then have 4: "areach one_env ?s4" by (rule areach.a_step [OF 3])
  have "astep one_env ?s4 one_run"
    using astep.a_commit [of ?k 1 ?s4 one_env] by (simp add: one_run_def)
  then show ?thesis by (rule areach.a_step [OF 4])
qed

lemma one_replay: "replay one_env [EvTick (''normalized.ticks'', 0) 0] = [(''5s'', tick_metrics demo_gm one_tick demo_metrics)]"
  by (simp add: replay_def log_tick_def fresh_windows_def one_build tick_windows_def) (simp add: one_window_def)

section \<open>The guarantees\<close>

text \<open>
  C2. A tick's input offset is committed only after the checkpoint that contains its effect is saved, for a worker that keeps
  its partitions and reads the checkpoint topic completely at each start. In every
  reachable state, crashes included, the checkpoint that a restart would load now for the symbol of a tick below an offset the
  broker holds exists, and its windows are the result of a log of ticks and flushes. A tick without source coordinate is in that
  log. For any other tick the checkpoint reports the coordinate as applied, and the log contains a tick with this coordinate,
  unless the coordinate is \<open>SeenSpan\<close> or more behind another one of the log, which the program takes for applied.
\<close>

theorem commit_after_checkpoint:
  assumes "areach e s" and "gob_roundtrip e" and "a_broker s k = Some n" and "0 \<le> off" and "off < n"
    and "input_log e k off = Some rec" and "unmarshal e (RValue rec) = Some t"
  shows "\<exists>ck l. LoadSymbolCheckpoints (gob_dec e) (a_topic s) (tick_key t) = Some ck \<and> ck_Windows ck = replay e l \<and>
    distinct (log_srcs e l) \<and>
    (case source (RHeaders rec) of
       None \<Rightarrow> EvTick k off \<in> set l
     | Some (sk, so) \<Rightarrow> fst (SeenSet_Check (ck_Seen ck) sk so) \<and>
         ((sk, so) \<in> set (log_srcs e l) \<or> (\<exists>so'. (sk, so') \<in> set (log_srcs e l) \<and> so \<le> so' - SeenSpan)))"
proof -
  have i: "log_inv e s" "cover_inv e s" using areach_inv [OF assms(1,2)] by (simp_all add: ainv_def)
  let ?l = "saved_log s (tick_key t)"
  have cov: "case source (RHeaders rec) of None \<Rightarrow> EvTick k off \<in> set ?l | Some c \<Rightarrow> judged (log_srcs e ?l) c"
    by (rule coversD [OF _ assms(4,5,6,7)]) (use cover_invD(2) [OF i(2)] assms(3) in blast)
  then have "?l \<noteq> []" by (auto simp: judged_def offs_in_def split: option.splits)
  then obtain ck where ck: "LoadSymbolCheckpoints (gob_dec e) (a_topic s) (tick_key t) = Some ck" using log_invD(4) [OF i(1)] by blast
  then have ex: "explains_ckpt e (tick_key t) ?l ck" using log_invD(2) [OF i(1), of "tick_key t"] by (simp add: saved_ckpt_def ckpt_or_fresh_def)
  then have sh: "seen_holds (ck_Seen ck) (log_srcs e ?l)" by (simp add: explains_ckpt_def)
  have old: "\<exists>so'. (sk, so') \<in> set (log_srcs e ?l) \<and> so \<le> so' - SeenSpan" if "judged (log_srcs e ?l) (sk, so)" "(sk, so) \<notin> set (log_srcs e ?l)" for sk so
    using that Max_in [OF finite_offs, of "log_srcs e ?l" sk] by (auto simp: judged_def offs_in_def)
  have "case source (RHeaders rec) of None \<Rightarrow> EvTick k off \<in> set ?l | Some (sk, so) \<Rightarrow> fst (SeenSet_Check (ck_Seen ck) sk so) \<and>
       ((sk, so) \<in> set (log_srcs e ?l) \<or> (\<exists>so'. (sk, so') \<in> set (log_srcs e ?l) \<and> so \<le> so' - SeenSpan))"
  proof (cases "source (RHeaders rec)")
    case (Some c)
    obtain sk so where c: "c = (sk, so)" by (cases c)
    with cov Some have "judged (log_srcs e ?l) (sk, so)" by simp
    with old [OF this] seen_holds_check(1) [OF sh, of sk so] Some c show ?thesis by auto
  qed (use cov in simp)
  with ck ex show ?thesis unfolding explains_ckpt_def by blast
qed

lemma commit_after_checkpoint_witness:
  "a_broker one_run (''normalized.ticks'', 0) = Some 1 \<and>
   (\<exists>ck l. LoadSymbolCheckpoints (gob_dec one_env) (a_topic one_run) (tick_key one_tick) = Some ck \<and>
      ck_Windows ck = replay one_env l \<and> fst (SeenSet_Check (ck_Seen ck) (''raw.ticks'', 0) 7))"
proof -
  have b: "a_broker one_run (''normalized.ticks'', 0) = Some 1" by (simp add: one_run_def)
  from commit_after_checkpoint [OF one_reach one_roundtrip b, of 0 one_rec one_tick] one_source show ?thesis
    by (simp add: one_src_def b) blast
qed

text \<open>
  C3. No tick is applied twice by a worker that keeps its partitions and reads the checkpoint topic completely at each start.
  In every reachable state, over any number of crashes, replays and failed checkpoints, the
  metrics of the windows of a symbol are what applying the ticks and flushes of its log, in this order and each once, makes of new
  windows; every tick of the log is a tick of this symbol in the input; and the source coordinates of the ticks of the log are
  pairwise different. (A tick whose record carries no source coordinate is applied whenever it is read.)
\<close>

theorem ticks_applied_once:
  assumes "areach e s" and "gob_roundtrip e" and "map_of (SymbolStates (aw s)) key = Some ws"
  shows "metrics_of ws = replay e (live_log s key) \<and> distinct (log_srcs e (live_log s key)) \<and>
    (\<forall>k off. EvTick k off \<in> set (live_log s key) \<longrightarrow> (\<exists>t. log_tick e k off = Some t \<and> tick_key t = key))"
proof -
  have "explains_ckpt e key (live_log s key) (cur_ckpt e (aw s) key)"
    using areach_inv [OF assms(1,2)] log_invD(1) [of e s key] by (simp add: ainv_def)
  then show ?thesis using assms(3) by (simp add: explains_ckpt_def cur_ckpt_def)
qed

lemma ticks_applied_once_witness:
  "metrics_of one_state = [(''5s'', tick_metrics demo_gm one_tick demo_metrics)] \<and> log_srcs one_env (live_log one_run (tick_key one_tick)) = [one_src]"
  using ticks_applied_once [OF one_reach one_roundtrip, of "tick_key one_tick" one_state] one_replay one_source
  by (simp add: one_run_def one_worker_def)

lemma encode_all_no_panic: "\<forall>key \<in> set keys. syms key \<noteq> None \<Longrightarrow> encode_all ec syms keys \<noteq> Panic"
proof (induction keys)
  case (Cons key keys)
  then show ?case by (cases "encode_all ec syms keys") (auto simp: of_opt_def split: option.splits)
qed simp

text \<open>
  C37. Taking a checkpoint never dereferences a missing symbol: in every reachable state the dirty set names only
  symbols the worker holds, and a batch is started only when no other one is in flight.
\<close>

theorem checkpoint_no_panic:
  assumes "areach e s" and "gob_roundtrip e"
  shows "\<exists>w act. checkpointDirty (gob_enc e) (aw s) poss = Done (w, act) \<and>
    (\<forall>entries p. act = StartBatch entries p \<longrightarrow> a_batch s = None \<and> map fst entries = dirty (aw s))"
proof -
  have w: "worker_inv e s" using areach_inv [OF assms] by (simp add: ainv_def)
  then have "encode_all (gob_enc e) (map_of (SymbolStates (aw s))) (dirty (aw s)) \<noteq> Panic"
    by (intro encode_all_no_panic) (auto simp: worker_inv_def map_of_eq_None_iff)
  moreover have "batchInFlight (aw s) \<longleftrightarrow> a_batch s \<noteq> None" using w by (simp add: worker_inv_def)
  ultimately show ?thesis
    by (auto simp: checkpointDirty_def encode_all_entries split: outcome.splits prod.splits)
qed

lemma checkpoint_no_panic_witness:
  "\<exists>w act. checkpointDirty (gob_enc one_env) (aw one_run) [] = Done (w, act)"
  using checkpoint_no_panic [OF one_reach one_roundtrip, of "[]"] by blast

end
