(* ===== verification/Agg_Txn.thy ===== *)
theory Agg_Txn
  imports Agg_Flush Agg_Crash
begin

text \<open>
  The transactional mode of the aggregator: the loop \<open>Run\<close> of \<open>aggregator/worker/worker.go\<close> with its transactions, aborts
  and crashes (relation \<open>xstep\<close>), the loader of the checkpoint topic (\<open>kafka/checkpoint.go\<close>), the flush schedulers
  (\<open>flush/scheduler.go\<close>), the graceful stop of the at-least-once mode, and the validation of the configuration
  (\<open>config/config.go\<close>).
\<close>

section \<open>Reading the checkpoint topic\<close>

text \<open>The end offsets still to be reached; partitions that are empty are left out.\<close>

definition remaining_init :: "(int \<times> int) list \<Rightarrow> (int \<times> int) list" where
  "remaining_init targets = filter (\<lambda>(p, n). n > 0) targets"

definition note_record :: "kgo_record \<Rightarrow> (int \<times> int) list \<Rightarrow> (int \<times> int) list" where
  "note_record rec rem =
     (case map_of rem (RPartition rec) of
        None \<Rightarrow> rem
      | Some target \<Rightarrow> if ROffset rec + 1 \<ge> target then AList.delete (RPartition rec) rem else rem)"

text \<open>
  The loop of \<open>readCheckpointTopic\<close>. The list holds the results of the polls that fit in the thirty seconds of the
  loader. The result lists the records handed to the callback and says whether every target was reached.
\<close>

datatype poll_result = Fetched "kgo_record list" | ClientClosed

fun load_loop :: "poll_result list \<Rightarrow> (int \<times> int) list \<Rightarrow> kgo_record list \<times> bool" where
  "load_loop [] rem = ([], rem = [])"
| "load_loop (poll # polls) rem =
     (if rem = [] then ([], True)
      else case poll of
             ClientClosed \<Rightarrow> ([], False)
           | Fetched recs \<Rightarrow> (case load_loop polls (fold note_record recs rem) of (hs, ok) \<Rightarrow> (recs @ hs, ok)))"

definition readCheckpointTopic :: "(int \<times> int) list option \<Rightarrow> poll_result list \<Rightarrow> kgo_record list \<times> bool" where
  "readCheckpointTopic targets polls =
     (case targets of None \<Rightarrow> ([], False) | Some ts \<Rightarrow> load_loop polls (remaining_init ts))"

fun fetched :: "poll_result \<Rightarrow> kgo_record list" where
  "fetched (Fetched recs) = recs"
| "fetched ClientClosed = []"

lemma note_record_keeps:
  "map_of (note_record r rem) p = (if RPartition r = p \<and> (\<exists>n. map_of rem p = Some n \<and> n \<le> ROffset r + 1) then None else map_of rem p)"
  by (auto simp: note_record_def delete_conv split: option.splits)

lemma fold_note_record:
  "map_of (fold note_record recs rem) p =
     (if \<exists>r \<in> set recs. RPartition r = p \<and> (\<exists>n. map_of rem p = Some n \<and> n \<le> ROffset r + 1) then None else map_of rem p)"
proof (induction recs arbitrary: rem)
  case (Cons r recs)
  show ?case unfolding fold_simps comp_def Cons.IH note_record_keeps by auto
qed simp

text \<open>
  A partition whose last record below the end offset is not handed out keeps the loop going until the time is over.
  That is the case of every partition written in transactions: a transaction ends with a marker, which takes an offset and
  which the client keeps to itself.
\<close>

theorem marker_blocks_loader:
  assumes "map_of rem p = Some n" and "\<forall>r \<in> set (concat (map fetched polls)). RPartition r = p \<longrightarrow> ROffset r + 1 < n"
  shows "\<not> snd (load_loop polls rem)"
  using assms
proof (induction polls arbitrary: rem)
  case (Cons poll polls)
  show ?case
  proof (cases poll)
    case (Fetched recs)
    with Cons.prems have "map_of (fold note_record recs rem) p = Some n" by (fastforce simp: fold_note_record)
    with Cons.IH [OF this] Cons.prems Fetched show ?thesis by (auto split: prod.splits)
  qed (use Cons.prems in auto)
qed auto

text \<open>Otherwise the loop ends as soon as the ends are reached, and it has handed out everything below them.\<close>

lemma load_loop_done:
  assumes "ClientClosed \<notin> set polls"
    and "\<forall>p n. map_of rem p = Some n \<longrightarrow> (\<exists>r \<in> set (concat (map fetched polls)). RPartition r = p \<and> n \<le> ROffset r + 1)"
  shows "snd (load_loop polls rem)"
  using assms
proof (induction polls arbitrary: rem)
  case Nil
  then have "map_of rem = Map.empty" by (auto simp: fun_eq_iff)
  then show ?case by (cases rem) auto
next
  case (Cons poll polls)
  then obtain recs where poll: "poll = Fetched recs" by (cases poll) auto
  have "\<exists>r \<in> set (concat (map fetched polls)). RPartition r = p \<and> n \<le> ROffset r + 1" if "map_of (fold note_record recs rem) p = Some n" for p n
    using that Cons.prems(2) poll by (fastforce simp: fold_note_record split: if_splits)
  with Cons.IH [of "fold note_record recs rem"] Cons.prems(1) poll show ?case by (auto split: prod.splits)
qed

lemma load_loop_handles:
  assumes "snd (load_loop polls rem)" and "map_of rem p = Some n"
    and "sorted_wrt (\<lambda>r r'. RPartition r = RPartition r' \<longrightarrow> ROffset r < ROffset r') (concat (map fetched polls))"
    and "r \<in> set (concat (map fetched polls))" and "RPartition r = p" and "ROffset r < n"
  shows "r \<in> set (fst (load_loop polls rem))"
  using assms
proof (induction polls arbitrary: rem)
  case (Cons poll polls)
  from Cons.prems(2) have ne: "rem \<noteq> []" by auto
  with Cons.prems(1) obtain recs where poll: "poll = Fetched recs" by (cases poll) simp_all
  show ?case
  proof (cases "r \<in> set recs")
    case True
    with ne poll show ?thesis by (auto split: prod.splits)
  next
    case False
    with Cons.prems(4) poll have r: "r \<in> set (concat (map fetched polls))" by auto
    have "\<not> (\<exists>r' \<in> set recs. RPartition r' = p \<and> n \<le> ROffset r' + 1)"
    proof
      assume "\<exists>r' \<in> set recs. RPartition r' = p \<and> n \<le> ROffset r' + 1"
      then obtain r' where r': "r' \<in> set recs" "RPartition r' = p" "n \<le> ROffset r' + 1" by blast
      with Cons.prems(3,5) poll r have "ROffset r' < ROffset r" by (auto simp: sorted_wrt_append)
      with r'(3) Cons.prems(6) show False by simp
    qed
    with Cons.prems(2) have "map_of (fold note_record recs rem) p = Some n" by (auto simp: fold_note_record)
    moreover have "snd (load_loop polls (fold note_record recs rem))" using Cons.prems(1) ne poll by (auto split: prod.splits)
    moreover have "sorted_wrt (\<lambda>r r'. RPartition r = RPartition r' \<longrightarrow> ROffset r < ROffset r') (concat (map fetched polls))"
      using Cons.prems(3) by (simp add: sorted_wrt_append)
    ultimately have "r \<in> set (fst (load_loop polls (fold note_record recs rem)))" using Cons.IH r Cons.prems(5,6) by blast
    with ne poll show ?thesis by (auto split: prod.splits)
  qed
qed simp

section \<open>Flush schedulers and the graceful stop\<close>

text \<open>A tick of \<open>startFlushScheduler\<close>: the event goes to every worker whose channel has room.\<close>

definition flush_tick :: "nat \<Rightarrow> WindowConfig \<Rightarrow> int \<Rightarrow> (WindowConfig \<times> int) list list \<Rightarrow> (WindowConfig \<times> int) list list" where
  "flush_tick cap cfg flushTs chans = map (\<lambda>ch. if length ch < cap then ch @ [(cfg, flushTs)] else ch) chans"

lemma flush_tick_bounded: "\<forall>ch \<in> set chans. length ch \<le> cap \<Longrightarrow> \<forall>ch \<in> set (flush_tick cap cfg ts chans). length ch \<le> cap"
  by (auto simp: flush_tick_def)

text \<open>
  \<open>finalCheckpoint\<close>: \<open>r1\<close> and \<open>r2\<close> are what the two waits receive, nothing when five seconds pass. The result collects
  the offsets committed.
\<close>

definition wait_batch :: "ckptResult option \<Rightarrow> AWorker \<Rightarrow> AWorker \<times> (tp \<times> EpochOffset) list" where
  "wait_batch r w = (if \<not> batchInFlight w then (w, []) else case r of None \<Rightarrow> (w, []) | Some res \<Rightarrow> finishBatch w res)"

definition finalCheckpoint ::
    "(SymbolCheckpoint \<Rightarrow> bytes option) \<Rightarrow> (tp \<times> EpochOffset) list \<Rightarrow> ckptResult option \<Rightarrow> (ckpt_action \<Rightarrow> ckptResult option) \<Rightarrow> AWorker \<Rightarrow>
     (AWorker \<times> (tp \<times> EpochOffset) list) outcome" where
  "finalCheckpoint ec poss r1 r2 w =
     (case wait_batch r1 w of (w1, adv1) \<Rightarrow>
      bind_out (checkpointDirty ec w1 poss) (\<lambda>(w2, act).
        let adv2 = (case act of CommitNow adv \<Rightarrow> adv | _ \<Rightarrow> [])
        in case wait_batch (r2 act) w2 of (w3, adv3) \<Rightarrow> Done (w3, adv1 @ adv2 @ adv3)))"

text \<open>When the batches are acknowledged, nothing is left unsaved.\<close>

lemma finalCheckpoint_saves:
  assumes "finalCheckpoint ec poss (Some a) r2 w = Done (w', adv)" and "\<not> ck_failed a" and "\<forall>ck. ec ck \<noteq> None"
    and "\<forall>act. \<exists>b. r2 act = Some b \<and> \<not> ck_failed b"
  shows "dirty w' = [] \<and> \<not> batchInFlight w'"
proof -
  obtain w1 adv1 where w1: "wait_batch (Some a) w = (w1, adv1)" by (cases "wait_batch (Some a) w")
  have i1: "\<not> batchInFlight w1" using w1 assms(2) by (auto simp: wait_batch_def finishBatch_def commitPositions_def Let_def split: if_splits)
  obtain w2 act where c: "checkpointDirty ec w1 poss = Done (w2, act)" "fst (wait_batch (r2 act) w2) = w'"
    using assms(1) by (auto simp: finalCheckpoint_def w1 bind_out_Done Let_def split_beta)
  then obtain adv2 where w2: "checkpointDirty ec w1 poss = Done (w2, act)" "wait_batch (r2 act) w2 = (w', adv2)"
    by (cases "wait_batch (r2 act) w2") auto
  have "encode_all ec (map_of (SymbolStates w1)) keys \<noteq> Fail" for keys
  proof (induction keys)
    case (Cons key keys)
    show ?case
    proof (cases "map_of (SymbolStates w1) key")
      case (Some ws)
      obtain v where "ec (checkpoint_of ws) = Some v" using assms(3) by blast
      with Some Cons show ?thesis by (cases "encode_all ec (map_of (SymbolStates w1)) keys") (auto simp: of_opt_def)
    qed simp
  qed simp
  then have d2: "dirty w2 = []" using w2(1) i1
    by (auto simp: checkpointDirty_def commitPositions_def Let_def split: if_splits outcome.splits prod.splits)
  obtain b where b: "r2 act = Some b" "\<not> ck_failed b" using assms(4) by blast
  show ?thesis
  proof (cases "batchInFlight w2")
    case True
    with w2(2) b d2 show ?thesis by (auto simp: wait_batch_def finishBatch_def commitPositions_def Let_def)
  next
    case False
    with w2(2) d2 show ?thesis by (simp add: wait_batch_def)
  qed
qed

section \<open>The transactional loop\<close>

text \<open>
  What the worker uses of its surroundings. \<open>xe_enc\<close> and \<open>xe_dec\<close> are the gob codec of a window's metrics, \<open>xe_log\<close> the
  input partitions.
\<close>

record txn_env =
  xe_unmarshal :: "bytes \<Rightarrow> NormalizedTick option"
  xe_marshal :: "AggregatedTick \<Rightarrow> bytes option"
  xe_enc :: "metric_map \<Rightarrow> bytes option"
  xe_dec :: "bytes \<Rightarrow> metric_map option"
  xe_math :: gomath
  xe_cfgs :: "WindowConfig list"
  xe_topic :: string
  xe_log :: "tp \<Rightarrow> int \<Rightarrow> kgo_record option"

text \<open>
  \<open>x_group\<close> holds the offsets of the consumer group, \<open>x_topic\<close> the checkpoint topic with the records of all
  transactions, which is what the loader reads, \<open>x_open\<close> the aggregates of the open transaction and \<open>x_published\<close> those of
  the committed ones.
\<close>

record XSys =
  xw :: AWorker
  x_pos :: "tp \<Rightarrow> int"
  x_group :: "tp \<rightharpoonup> int"
  x_topic :: "kgo_record list"
  x_open :: "kgo_record list"
  x_published :: "kgo_record list"

definition xstart :: "txn_env \<Rightarrow> kgo_record list \<Rightarrow> AWorker" where
  "xstart e topic = NewAWorker (xe_cfgs e) (LoadCheckpoints (xe_dec e) topic)"

definition XSys_init :: "txn_env \<Rightarrow> XSys" where
  "XSys_init e = \<lparr>xw = xstart e [], x_pos = (\<lambda>_. 0), x_group = Map.empty, x_topic = [], x_open = [], x_published = []\<rparr>"

text \<open>
  A commit makes the positions of the consumer the offsets of the group. After an abort, and after a crash, the client
  reads again from the offsets of the group. A crash may come between the checkpoints and the end of the transaction.
\<close>

inductive xstep :: "txn_env \<Rightarrow> XSys \<Rightarrow> XSys \<Rightarrow> bool" for e where
  x_poll: "\<lbrakk>xe_log e k off = Some rec; x_pos s k \<le> off; \<forall>o'. x_pos s k \<le> o' \<and> o' < off \<longrightarrow> xe_log e k o' = None;
     ProcessTick (xe_unmarshal e) (xe_math e) (xw s) rec = Done (w, app)\<rbrakk> \<Longrightarrow>
     xstep e s (s\<lparr>xw := w, x_pos := (x_pos s)(k := off + 1)\<rparr>)"
| x_flush: "FlushWindow (xe_topic e) (xe_marshal e) (xe_math e) (xw s) cfg ts = (w, recs) \<Longrightarrow>
     xstep e s (s\<lparr>xw := w, x_open := x_open s @ recs\<rparr>)"
| x_commit: "agg_endTransaction (xe_enc e) (xw s) = (w, recs, AggCommit) \<Longrightarrow>
     xstep e s (s\<lparr>xw := w, x_topic := x_topic s @ recs, x_published := x_published s @ x_open s, x_open := [],
       x_group := (\<lambda>k. if x_pos s k = start_pos (x_group s) k then x_group s k else Some (x_pos s k))\<rparr>)"
| x_abort: "agg_endTransaction (xe_enc e) (xw s) = (w, recs, act) \<Longrightarrow>
     xstep e s (s\<lparr>xw := w, x_topic := x_topic s @ recs, x_open := [], x_pos := start_pos (x_group s)\<rparr>)"
| x_crash: "agg_endTransaction (xe_enc e) (xw s) = (w, recs, act) \<Longrightarrow> topic = x_topic s @ take n recs \<Longrightarrow>
     xstep e s (s\<lparr>xw := xstart e topic, x_topic := topic, x_open := [], x_pos := start_pos (x_group s)\<rparr>)"

inductive xreach :: "txn_env \<Rightarrow> XSys \<Rightarrow> bool" for e where
  x_start: "xreach e (XSys_init e)"
| x_step: "xreach e s \<Longrightarrow> xstep e s s' \<Longrightarrow> xreach e s'"

section \<open>Its invariant\<close>

definition built_like :: "txn_env \<Rightarrow> WindowState \<Rightarrow> bool" where
  "built_like e ws \<longleftrightarrow> (\<exists>wins. BuildWindows (xe_math e) (xe_cfgs e) = Done wins \<and> map fst (Windows ws) = map fst wins)"

definition xinv :: "txn_env \<Rightarrow> AWorker \<Rightarrow> bool" where
  "xinv e w \<longleftrightarrow> \<not> atLeastOnce w \<and> WindowConfigs w = xe_cfgs e \<and> distinct (map fst (SymbolStates w)) \<and>
     (\<forall>(key, ws) \<in> set (SymbolStates w). built_like e ws)"

lemma new_symbol_built: "new_symbol (xe_math e) w t = Done ws \<Longrightarrow> WindowConfigs w = xe_cfgs e \<Longrightarrow> built_like e ws"
  by (auto simp: new_symbol_def bind_out_Done built_like_def Let_def split: if_splits option.splits)

lemma ProcessTick_txn:
  assumes "\<not> atLeastOnce w"
  shows "ProcessTick um gm w rec = (case um (RValue rec) of None \<Rightarrow> Done (w, None) | Some t \<Rightarrow>
    bind_out (case map_of (SymbolStates w) (tick_key t) of Some ws \<Rightarrow> Done ws | None \<Rightarrow> new_symbol gm w t) (\<lambda>ws.
      Done (put_sym w (tick_key t) (apply_tick gm rec t ws), Some (tick_key t))))"
  using assms by (auto simp: ProcessTick_def Let_def split: option.splits)

lemma xinv_put: "xinv e w \<Longrightarrow> built_like e ws \<Longrightarrow> xinv e (put_sym w key ws)"
  using set_update_le [of key ws "SymbolStates w"] unfolding xinv_def put_sym_def by (auto simp: distinct_update)

lemma xinv_tick:
  assumes "xinv e w" and "ProcessTick (xe_unmarshal e) (xe_math e) w rec = Done (w', app)"
  shows "xinv e w'"
proof (cases "xe_unmarshal e (RValue rec)")
  case None
  with assms show ?thesis by (simp add: ProcessTick_def)
next
  case (Some t)
  with assms obtain ws where ws: "(case map_of (SymbolStates w) (tick_key t) of Some ws \<Rightarrow> Done ws | None \<Rightarrow> new_symbol (xe_math e) w t) = Done ws"
    "w' = put_sym w (tick_key t) (apply_tick (xe_math e) rec t ws)"
    by (auto simp: ProcessTick_txn xinv_def bind_out_Done)
  have "built_like e ws" using ws(1) assms(1) new_symbol_built by (auto simp: xinv_def split: option.splits dest!: map_of_SomeD)
  then have "built_like e (apply_tick (xe_math e) rec t ws)" by (simp add: built_like_def)
  with assms(1) ws(2) show ?thesis by (simp add: xinv_put)
qed

lemma flush_symbols_built:
  "flush_symbols gm cfg ts xs = (xs', res) \<Longrightarrow> map fst xs' = map fst xs \<and>
     ((\<forall>(key, ws) \<in> set xs. built_like e ws) \<longrightarrow> (\<forall>(key, ws) \<in> set xs'. built_like e ws))"
proof (induction xs arbitrary: xs' res)
  case (Cons x xs)
  obtain key ws where x: "x = (key, ws)" by (cases x)
  obtain ws1 out where f: "flush_symbol gm cfg ts ws = (ws1, out)" by (cases "flush_symbol gm cfg ts ws")
  obtain xs1 res1 where r: "flush_symbols gm cfg ts xs = (xs1, res1)" by (cases "flush_symbols gm cfg ts xs")
  from Cons.prems have "xs' = (key, ws1) # xs1" by (simp add: x f r)
  with Cons.IH [OF r] flush_symbol_ids [OF f] show ?case by (auto simp: x built_like_def)
qed simp

lemma xinv_step: "xstep e s s' \<Longrightarrow> xinv e (xw s) \<Longrightarrow> xinv e (xw s')"
proof (induction rule: xstep.induct)
  case (x_poll k off rec s w app)
  then show ?case using xinv_tick by simp
next
  case (x_flush s cfg ts w recs)
  obtain syms res where f: "flush_symbols (xe_math e) cfg ts (SymbolStates (xw s)) = (syms, res)"
    by (cases "flush_symbols (xe_math e) cfg ts (SymbolStates (xw s))")
  from x_flush flush_symbols_built [OF f, of e] show ?case by (auto simp: FlushWindow_def f xinv_def)
next
  case (x_commit s w recs)
  then show ?case by (auto simp: agg_endTransaction_def checkpointWindows_def xinv_def Let_def)
next
  case (x_abort s w recs act)
  then show ?case by (auto simp: agg_endTransaction_def checkpointWindows_def xinv_def Let_def)
next
  case (x_crash s w recs act topic n)
  then show ?case by (simp add: xinv_def xstart_def NewAWorker_def)
qed

lemma xreach_inv: "xreach e s \<Longrightarrow> xinv e (xw s)"
proof (induction rule: xreach.induct)
  case x_start
  then show ?case by (simp add: XSys_init_def xinv_def xstart_def NewAWorker_def)
qed (use xinv_step in blast)

section \<open>Checkpoints are read back\<close>

lemma cut_colon: "CHR '':'' \<notin> set b \<Longrightarrow> CHR '':'' \<notin> set b' \<Longrightarrow> a @ CHR '':'' # b = a' @ CHR '':'' # b' \<Longrightarrow> a = a' \<and> b = b'"
proof (induction a arbitrary: a')
  case Nil
  then show ?case by (cases a') auto
next
  case (Cons c a)
  then show ?case by (cases a') auto
qed

lemma LoadCheckpoints_last:
  assumes "\<forall>r \<in> set recs. RKey r = key \<longrightarrow> dw (RValue r) = Some ms" and "\<exists>r \<in> set recs. RKey r = key"
    and "cut_prefix symbolKeyPrefix key = None"
  shows "LoadCheckpoints dw (topic @ recs) key = Some ms"
  using assms(1,2)
proof (induction recs rule: rev_induct)
  case (snoc r recs)
  show ?case
  proof (cases "RKey r = key")
    case True
    with snoc.prems(1) assms(3) show ?thesis by (auto simp: LoadCheckpoints_def)
  next
    case False
    then have "LoadCheckpoints dw (topic @ recs @ [r]) key = LoadCheckpoints dw (topic @ recs) key"
      by (auto simp: LoadCheckpoints_def split: option.splits)
    with snoc False show ?thesis by auto
  qed
qed simp

lemma checkpoint_records:
  assumes "agg_endTransaction ew w = (w', recs, AggCommit)"
  shows "recs = concat (map (\<lambda>(key, ws). map (\<lambda>(id, ms). PublishCheckpoint key id (the (ew ms))) (metrics_of ws)) (SymbolStates w))"
    and "(key, ws) \<in> set (SymbolStates w) \<Longrightarrow> (i, ms) \<in> set (metrics_of ws) \<Longrightarrow> ew ms \<noteq> None"
proof -
  let ?all = "\<lambda>xs. concat (map (\<lambda>(key, ws). map (\<lambda>(id, win). (key, id, ew (Metrics win))) (Windows ws)) xs)"
  have ok: "\<forall>(k, id, v) \<in> set (?all (SymbolStates w)). v \<noteq> None" and
    recs: "recs = List.map_filter (\<lambda>(k, id, v). map_option (PublishCheckpoint k id) v) (?all (SymbolStates w))"
  proof -
    define all where "all = ?all (SymbolStates w)"
    have "\<not> (\<exists>(k, id, v) \<in> set all. v = None)" "recs = List.map_filter (\<lambda>(k, id, v). map_option (PublishCheckpoint k id) v) all"
      using assms unfolding agg_endTransaction_def checkpointWindows_def Let_def all_def [symmetric] by (auto split: if_splits)
    then show "\<forall>(k, id, v) \<in> set (?all (SymbolStates w)). v \<noteq> None"
      "recs = List.map_filter (\<lambda>(k, id, v). map_option (PublishCheckpoint k id) v) (?all (SymbolStates w))" unfolding all_def by blast+
  qed
  have f: "List.map_filter (\<lambda>(k, id, v). map_option (PublishCheckpoint k id) v) (map (\<lambda>(id, win). (key, id, ew (Metrics win))) wins) =
    map (\<lambda>(id, ms). PublishCheckpoint key id (the (ew ms))) (map (\<lambda>(id, win). (id, Metrics win)) wins)"
    if "\<forall>(id, win) \<in> set wins. ew (Metrics win) \<noteq> None" for key wins
    using that by (induction wins) (auto simp: List.map_filter_simps split: option.splits)
  have m: "List.map_filter g (xs @ ys) = List.map_filter g xs @ List.map_filter g ys" for g :: "'x \<Rightarrow> 'y option" and xs ys
    by (simp add: List.map_filter_def)
  have "List.map_filter (\<lambda>(k, id, v). map_option (PublishCheckpoint k id) v) (?all xs) =
    concat (map (\<lambda>(key, ws). map (\<lambda>(id, ms). PublishCheckpoint key id (the (ew ms))) (metrics_of ws)) xs)"
    if "\<forall>(k, id, v) \<in> set (?all xs). v \<noteq> None" for xs
    using that
  proof (induction xs)
    case (Cons x xs)
    obtain key ws where x: "x = (key, ws)" by (cases x)
    have "\<forall>(id, win) \<in> set (Windows ws). ew (Metrics win) \<noteq> None" using Cons.prems unfolding x by (auto simp: ball_Un)
    moreover have "\<forall>(k, id, v) \<in> set (?all xs). v \<noteq> None" using Cons.prems unfolding x by simp
    ultimately show ?case using Cons.IH unfolding x by (simp add: f m metrics_of_def)
  qed (simp add: List.map_filter_simps)
  from this [OF ok] recs
  show "recs = concat (map (\<lambda>(key, ws). map (\<lambda>(id, ms). PublishCheckpoint key id (the (ew ms))) (metrics_of ws)) (SymbolStates w))" by simp
  show "ew ms \<noteq> None" if k: "(key, ws) \<in> set (SymbolStates w)" and m: "(i, ms) \<in> set (metrics_of ws)"
  proof -
    obtain win where win: "(i, win) \<in> set (Windows ws)" "ms = Metrics win" using m by (auto simp: metrics_of_def)
    have "(key, i, ew ms) \<in> set (map (\<lambda>(id, win). (key, id, ew (Metrics win))) (Windows ws))"
      using image_eqI [OF _ win(1), of "(key, i, ew ms)" "\<lambda>(id, win). (key, id, ew (Metrics win))"] win(2) by simp
    then have "(key, i, ew ms) \<in> set (?all (SymbolStates w))" using k by fastforce
    with ok show ?thesis by fast
  qed
qed

lemma PublishCheckpoint_sel [simp]: "RKey (PublishCheckpoint key wid v) = key @ CHR '':'' # wid" "RValue (PublishCheckpoint key wid v) = v"
  by (simp_all add: PublishCheckpoint_def)

lemma cut_prefix_None: "cut_prefix ps s = None \<longleftrightarrow> take (length ps) s \<noteq> ps"
  by (induction ps s rule: cut_prefix.induct) auto

lemma built_ids:
  assumes "xinv e w" and "\<forall>c \<in> set (xe_cfgs e). CHR '':'' \<notin> set (cfg_Id c)" and "(k, us) \<in> set (SymbolStates w)"
  shows "distinct (map fst (metrics_of us)) \<and> (\<forall>x \<in> set (metrics_of us). CHR '':'' \<notin> set (fst x))"
proof -
  have "built_like e us" using assms(1,3) by (auto simp: xinv_def)
  then obtain wins where wins: "BuildWindows (xe_math e) (xe_cfgs e) = Done wins" "map fst (Windows us) = map fst wins"
    unfolding built_like_def by blast
  have w: "map fst (metrics_of us) = map fst wins" using wins(2) by (simp add: metrics_of_def comp_def split_beta)
  have m: "set (map fst (metrics_of us)) \<subseteq> cfg_Id ` set (xe_cfgs e)" using BuildWindows_ids [OF wins(1)] unfolding w by blast
  have "CHR '':'' \<notin> set (fst x)" if "x \<in> set (metrics_of us)" for x
  proof -
    have "fst x \<in> set (map fst (metrics_of us))" using that by simp
    with m obtain c where "c \<in> set (xe_cfgs e)" "fst x = cfg_Id c" by blast
    with assms(2) show ?thesis by simp
  qed
  with BuildWindows_ids [OF wins(1)] show ?thesis unfolding w by blast
qed

lemma in_records:
  "r \<in> set (concat (map (\<lambda>(key, ws). map (\<lambda>(wid, ms). F key wid ms) (M ws)) xs)) \<longleftrightarrow>
     (\<exists>key ws wid ms. (key, ws) \<in> set xs \<and> (wid, ms) \<in> set (M ws) \<and> r = F key wid ms)"
proof
  assume "r \<in> set (concat (map (\<lambda>(key, ws). map (\<lambda>(wid, ms). F key wid ms) (M ws)) xs))"
  then show "\<exists>key ws wid ms. (key, ws) \<in> set xs \<and> (wid, ms) \<in> set (M ws) \<and> r = F key wid ms" by auto
next
  assume "\<exists>key ws wid ms. (key, ws) \<in> set xs \<and> (wid, ms) \<in> set (M ws) \<and> r = F key wid ms"
  then obtain key ws wid ms where m: "(key, ws) \<in> set xs" "(wid, ms) \<in> set (M ws)" "r = F key wid ms" by blast
  have "r \<in> set (map (\<lambda>(wid, ms). F key wid ms) (M ws))" using image_eqI [of r "\<lambda>(wid, ms). F key wid ms" "(wid, ms)"] m(2,3) by simp
  with m(1) show "r \<in> set (concat (map (\<lambda>(key, ws). map (\<lambda>(wid, ms). F key wid ms) (M ws)) xs))" by fastforce
qed

lemma checkpoint_key_format:
  assumes "take 3 (key @ '':'') \<noteq> symbolKeyPrefix"
  shows "cut_prefix symbolKeyPrefix (key @ '':'' @ wid) = None"
proof (cases key)
  case Nil
  then show ?thesis by (simp add: symbolKeyPrefix_def)
next
  case (Cons a xs)
  with assms show ?thesis by (cases xs; cases "tl xs") (auto simp: symbolKeyPrefix_def)
qed

text \<open>The metrics of every window are found again in the topic, whatever older checkpoints it holds.\<close>

lemma checkpoint_found:
  assumes "xinv e w" and "agg_endTransaction (xe_enc e) w = (w', recs, AggCommit)"
    and "\<forall>ms v. xe_enc e ms = Some v \<longrightarrow> xe_dec e v = Some ms" and "\<forall>c \<in> set (xe_cfgs e). CHR '':'' \<notin> set (cfg_Id c)"
    and "map_of (SymbolStates w) key = Some ws" and "take 3 (key @ '':'') \<noteq> symbolKeyPrefix" and "(wid, ms) \<in> set (metrics_of ws)"
  shows "LoadCheckpoints (xe_dec e) (topic @ recs) (key @ '':'' @ wid) = Some ms"
proof (rule LoadCheckpoints_last)
  have recs: "recs = concat (map (\<lambda>(key, ws). map (\<lambda>(wid, ms). PublishCheckpoint key wid (the (xe_enc e ms))) (metrics_of ws)) (SymbolStates w))"
    by (rule checkpoint_records(1) [OF assms(2)])
  have mem: "(key, ws) \<in> set (SymbolStates w)" using assms(5) by (rule map_of_SomeD)
  note ids = built_ids [OF assms(1,4)]
  show "\<exists>r \<in> set recs. RKey r = key @ '':'' @ wid"
  proof
    show "PublishCheckpoint key wid (the (xe_enc e ms)) \<in> set recs" unfolding recs in_records using mem assms(7) by blast
  qed simp
  show "\<forall>r \<in> set recs. RKey r = key @ '':'' @ wid \<longrightarrow> xe_dec e (RValue r) = Some ms"
  proof (intro ballI impI)
    fix r
    assume "r \<in> set recs" "RKey r = key @ '':'' @ wid"
    then obtain k us i m where r: "(k, us) \<in> set (SymbolStates w)" "(i, m) \<in> set (metrics_of us)" "r = PublishCheckpoint k i (the (xe_enc e m))"
      unfolding recs in_records by blast
    with \<open>RKey r = key @ '':'' @ wid\<close> have r4: "k @ CHR '':'' # i = key @ CHR '':'' # wid" by simp
    have "CHR '':'' \<notin> set i" "CHR '':'' \<notin> set wid" 
      using bspec [OF conjunct2 [OF ids [OF r(1)]] r(2)] bspec [OF conjunct2 [OF ids [OF mem]] assms(7)] by simp_all
    from cut_colon [OF this r4] have eq: "k = key" "i = wid" by simp_all
    have "us = ws" using map_of_is_SomeI [OF _ r(1)] assms(1,5) eq(1) by (simp add: xinv_def)
    then have "map_of (metrics_of ws) wid = Some m" using map_of_is_SomeI [OF conjunct1 [OF ids [OF mem]]] r(2) eq(2) by blast
    then have "m = ms" using map_of_is_SomeI [OF conjunct1 [OF ids [OF mem]] assms(7)] by simp
    obtain v where "xe_enc e ms = Some v" "xe_dec e v = Some ms" using checkpoint_records(2) [OF assms(2) mem assms(7)] assms(3) by blast
    with r(3) \<open>m = ms\<close> show "xe_dec e (RValue r) = Some ms" by simp
  qed
  show "cut_prefix symbolKeyPrefix (key @ '':'' @ wid) = None" using assms(6) by (rule checkpoint_key_format)
qed

lemma restored_symbol:
  assumes "xinv e w" and "agg_endTransaction (xe_enc e) w = (w', recs, AggCommit)"
    and "\<forall>ms v. xe_enc e ms = Some v \<longrightarrow> xe_dec e v = Some ms" and "\<forall>c \<in> set (xe_cfgs e). CHR '':'' \<notin> set (cfg_Id c)"
    and "map_of (SymbolStates w) (tick_key t) = Some ws" and "take 3 (tick_key t @ '':'') \<noteq> symbolKeyPrefix"
  shows "\<exists>ws'. new_symbol (xe_math e) (xstart e (topic @ recs)) t = Done ws' \<and> metrics_of ws' = metrics_of ws"
proof -
  have "built_like e ws" using assms(1) map_of_SomeD [OF assms(5)] by (auto simp: xinv_def)
  then obtain wins where wins: "BuildWindows (xe_math e) (xe_cfgs e) = Done wins" "map fst (Windows ws) = map fst wins"
    unfolding built_like_def by blast
  have found: "Checkpoints (xstart e (topic @ recs)) (tick_key t @ '':'' @ wid) = Some ms" if "(wid, ms) \<in> set (metrics_of ws)" for wid ms
    using checkpoint_found [OF assms that] by (simp add: xstart_def NewAWorker_def)
  have "map (\<lambda>(i, win). (i, Metrics win)) (rehydrate (\<lambda>i. Checkpoints (xstart e (topic @ recs)) (tick_key t @ '':'' @ i)) us) = xs"
    if "map fst xs = map fst us" "set xs \<subseteq> set (metrics_of ws)" for us xs
    using that
  proof (induction us arbitrary: xs)
    case (Cons u us)
    then obtain wid ms ys where xs: "xs = (wid, ms) # ys" "fst u = wid" "map fst ys = map fst us" by (cases xs) auto
    with Cons.prems(2) found [of wid ms] Cons.IH [of ys] show ?case by (cases u) (auto simp: rehydrate_def)
  qed (simp add: rehydrate_def)
  from this [of "metrics_of ws" wins] wins(2)
  have "map (\<lambda>(i, win). (i, Metrics win)) (rehydrate (\<lambda>i. Checkpoints (xstart e (topic @ recs)) (tick_key t @ '':'' @ i)) wins) = metrics_of ws"
    by (simp add: metrics_of_def comp_def split_beta)
  with wins(1) show ?thesis by (simp add: new_symbol_def xstart_def NewAWorker_def metrics_of_def)
qed

definition sym_metrics :: "AWorker \<Rightarrow> string \<Rightarrow> (string \<times> metric_map) list option" where
  "sym_metrics w key = map_option metrics_of (map_of (SymbolStates w) key)"

lemma sym_metrics_put [simp]: "sym_metrics (put_sym w key ws) key = Some (metrics_of ws)"
  by (simp add: sym_metrics_def put_sym_def update_conv')

lemma tick_known:
  assumes "\<not> atLeastOnce w" and "um (RValue rec) = Some t" and "map_of (SymbolStates w) (tick_key t) = Some ws"
  shows "ProcessTick um gm w rec = Done (put_sym w (tick_key t) (apply_tick gm rec t ws), Some (tick_key t))"
  using assms by (simp add: ProcessTick_txn)

lemma tick_restored:
  assumes "um (RValue rec) = Some t" and "new_symbol gm w t = Done ws" and "map_of (SymbolStates w) (tick_key t) = None" and "\<not> atLeastOnce w"
  shows "ProcessTick um gm w rec = Done (put_sym w (tick_key t) (apply_tick gm rec t ws), Some (tick_key t))"
  using assms by (simp add: ProcessTick_txn)

lemma end_keeps:
  assumes "agg_endTransaction ew w = (w', recs, act)"
  shows "SymbolStates w' = SymbolStates w" and "atLeastOnce w' = atLeastOnce w"
  using assms by (auto simp: agg_endTransaction_def checkpointWindows_def Let_def)

lemma end_commits:
  assumes "agg_endTransaction ew w = (w', recs, act)" and "\<not> aTxnFailed w" and "\<forall>ms. ew ms \<noteq> None"
  shows "act = AggCommit"
proof -
  have "(None = ew ms) = False" for ms using assms(3) by (metis)
  with assms show ?thesis by (auto simp: agg_endTransaction_def checkpointWindows_def Let_def split: if_splits)
qed

text \<open>
  C5. A restart after a committed transaction goes on where the worker stood: for every symbol it had, the next tick
  gives the windows of the new worker the metrics that it gives those of the old one, whatever was on the checkpoint topic
  before. Window ids without a colon and exchanges not called \<open>v2\<close> keep the keys of the two checkpoint formats apart.
\<close>

theorem restart_continues:
  assumes "xreach e s" and "agg_endTransaction (xe_enc e) (xw s) = (w, recs, AggCommit)"
    and "\<forall>ms v. xe_enc e ms = Some v \<longrightarrow> xe_dec e v = Some ms" and "\<forall>c \<in> set (xe_cfgs e). CHR '':'' \<notin> set (cfg_Id c)"
    and "xe_unmarshal e (RValue rec) = Some t" and "sym_metrics (xw s) (tick_key t) = Some ms"
    and "take 3 (tick_key t @ '':'') \<noteq> symbolKeyPrefix"
  shows "\<exists>w1 w2. ProcessTick (xe_unmarshal e) (xe_math e) w rec = Done (w1, Some (tick_key t)) \<and>
    ProcessTick (xe_unmarshal e) (xe_math e) (xstart e (x_topic s @ recs)) rec = Done (w2, Some (tick_key t)) \<and>
    sym_metrics w1 (tick_key t) = Some (tick_windows (xe_math e) t ms) \<and>
    sym_metrics w2 (tick_key t) = Some (tick_windows (xe_math e) t ms)"
proof -
  obtain ws where ws: "map_of (SymbolStates (xw s)) (tick_key t) = Some ws" "ms = metrics_of ws"
    using assms(6) by (auto simp: sym_metrics_def)
  note inv = xreach_inv [OF assms(1)]
  obtain ws' where ws': "new_symbol (xe_math e) (xstart e (x_topic s @ recs)) t = Done ws'" "metrics_of ws' = metrics_of ws"
    using restored_symbol [OF inv assms(2-4) ws(1) assms(7)] by blast
  have "ProcessTick (xe_unmarshal e) (xe_math e) w rec = Done (put_sym w (tick_key t) (apply_tick (xe_math e) rec t ws), Some (tick_key t))"
    by (rule tick_known) (use assms(5) ws inv end_keeps [OF assms(2)] in \<open>auto simp: xinv_def\<close>)
  moreover have "ProcessTick (xe_unmarshal e) (xe_math e) (xstart e (x_topic s @ recs)) rec =
      Done (put_sym (xstart e (x_topic s @ recs)) (tick_key t) (apply_tick (xe_math e) rec t ws'), Some (tick_key t))"
    by (rule tick_restored) (use assms(5) ws' in \<open>auto simp: xstart_def NewAWorker_def\<close>)
  ultimately show ?thesis using ws(2) ws'(2) by (auto simp: metrics_of_apply)
qed

definition x_tick :: NormalizedTick where
  "x_tick = demo_tick 10000 7"

definition x_rec :: kgo_record where
  "x_rec = \<lparr>RTopic = ''normalized.ticks'', RPartition = 0, ROffset = 0, RKey = [], RValue = [1], RHeaders = [], RTimestamp = 0\<rparr>"

definition x_env :: txn_env where
  "x_env = \<lparr>xe_unmarshal = (\<lambda>b. if b = [1] then Some x_tick else None), xe_marshal = (\<lambda>a. Some []),
     xe_enc = (\<lambda>ms. if ms = tick_metrics demo_gm x_tick demo_metrics then Some [7] else None),
     xe_dec = (\<lambda>b. if b = [7] then Some (tick_metrics demo_gm x_tick demo_metrics) else None),
     xe_math = demo_gm, xe_cfgs = [demo_cfg], xe_topic = ''aggregated.ticks'',
     xe_log = (\<lambda>k off. if k = (''normalized.ticks'', 0) \<and> off = 0 then Some x_rec else None)\<rparr>"

lemma x_env_sel [simp]: "xe_unmarshal x_env [1] = Some x_tick" "xe_math x_env = demo_gm" "xe_cfgs x_env = [demo_cfg]"
  "xe_enc x_env (tick_metrics demo_gm x_tick demo_metrics) = Some [7]" "xe_log x_env (''normalized.ticks'', 0) 0 = Some x_rec" "RValue x_rec = [1]"
  by (simp_all add: x_env_def x_rec_def)

lemma x_new: "\<exists>ws. new_symbol demo_gm (xstart x_env []) x_tick = Done ws \<and> metrics_of ws = [(''5s'', demo_metrics)]"
proof -
  have "build_metrics (MetricCtorRegistry demo_gm) demo_cfg = Done demo_metrics"
    by (simp add: demo_metrics_def MetricCtorRegistry_def NewRollingVolume_def NewRollingVWAP_def demo_cfg_def signed_divide_int_def)
  then show ?thesis
    by (simp add: new_symbol_def xstart_def NewAWorker_def LoadCheckpoints_def BuildWindows_def rehydrate_def metrics_of_def)
      (simp add: demo_cfg_def)
qed

theorem restart_continues_witness:
  "\<exists>s w recs w2. xreach x_env s \<and> agg_endTransaction (xe_enc x_env) (xw s) = (w, recs, AggCommit) \<and>
     ProcessTick (xe_unmarshal x_env) demo_gm (xstart x_env (x_topic s @ recs)) x_rec = Done (w2, Some (tick_key x_tick)) \<and>
     sym_metrics w2 (tick_key x_tick) = Some [(''5s'', tick_metrics demo_gm x_tick (tick_metrics demo_gm x_tick demo_metrics))]"
proof -
  obtain ws where ws: "new_symbol demo_gm (xstart x_env []) x_tick = Done ws" "metrics_of ws = [(''5s'', demo_metrics)]" using x_new by blast
  let ?ws = "apply_tick demo_gm x_rec x_tick ws" and ?k = "(''normalized.ticks'', 0)"
  let ?w = "put_sym (xstart x_env []) (tick_key x_tick) ?ws"
  define s where "s = (XSys_init x_env)\<lparr>xw := ?w, x_pos := (\<lambda>_. 0)(?k := 1)\<rparr>"
  have "ProcessTick (xe_unmarshal x_env) (xe_math x_env) (xstart x_env []) x_rec = Done (?w, Some (tick_key x_tick))"
    using tick_restored [of "xe_unmarshal x_env" x_rec x_tick demo_gm] ws(1) by (simp add: xstart_def NewAWorker_def)
  moreover have n: "\<forall>i. 0 \<le> i \<and> i < 0 \<longrightarrow> xe_log x_env ?k i = None" by auto
  ultimately have "xstep x_env (XSys_init x_env) s" unfolding s_def
    using xstep.x_poll [of x_env ?k 0 x_rec "XSys_init x_env" ?w "Some (tick_key x_tick)"] n by (simp add: XSys_init_def)
  then have r: "xreach x_env s" by (rule x_step [OF x_start])
  have m: "metrics_of ?ws = [(''5s'', tick_metrics demo_gm x_tick demo_metrics)]" by (simp add: metrics_of_apply ws(2) tick_windows_def)
  then obtain win where win: "Windows ?ws = [(''5s'', win)]" "Metrics win = tick_metrics demo_gm x_tick demo_metrics"
    by (auto simp: metrics_of_def)
  obtain w recs act where e: "agg_endTransaction (xe_enc x_env) (xw s) = (w, recs, act)" by (cases "agg_endTransaction (xe_enc x_env) (xw s)")
  have "SymbolStates (xw s) = [(tick_key x_tick, ?ws)]" "\<not> aTxnFailed (xw s)" by (simp_all add: s_def put_sym_def xstart_def NewAWorker_def)
  with e win have "act = AggCommit" by (auto simp: agg_endTransaction_def checkpointWindows_def Let_def)
  with e have e: "agg_endTransaction (xe_enc x_env) (xw s) = (w, recs, AggCommit)" by simp
  have sm: "sym_metrics (xw s) (tick_key x_tick) = Some [(''5s'', tick_metrics demo_gm x_tick demo_metrics)]" by (simp add: s_def m)
  have rt: "\<forall>ms v. xe_enc x_env ms = Some v \<longrightarrow> xe_dec x_env v = Some ms" by (simp add: x_env_def)
  have pre: "take 3 (tick_key x_tick @ '':'') \<noteq> symbolKeyPrefix" by (simp add: tick_key_def x_tick_def demo_tick_def symbolKeyPrefix_def)
  have colon: "\<forall>c \<in> set (xe_cfgs x_env). CHR '':'' \<notin> set (cfg_Id c)" by (simp add: demo_cfg_def)
  have um: "xe_unmarshal x_env (RValue x_rec) = Some x_tick" by simp
  obtain w2 where "ProcessTick (xe_unmarshal x_env) (xe_math x_env) (xstart x_env (x_topic s @ recs)) x_rec = Done (w2, Some (tick_key x_tick))"
    "sym_metrics w2 (tick_key x_tick) = Some (tick_windows (xe_math x_env) x_tick [(''5s'', tick_metrics demo_gm x_tick demo_metrics)])"
    using restart_continues [OF r e rt colon um sm pre] by blast
  with r e show ?thesis by (intro exI [of _ s] exI [of _ w] exI [of _ recs] exI [of _ w2]) (simp add: tick_windows_def)
qed

section \<open>What an abort and an early crash do\<close>

text \<open>
  An abort takes the consumer back to the offsets of the group, but the windows keep the ticks of the aborted
  transaction: the first tick of the transaction is applied a second time.
\<close>

theorem aborted_tick_applied_again:
  assumes "xreach e s" and "xe_log e k off = Some rec" and "x_pos s k = off" and "start_pos (x_group s) k = off"
    and "xe_unmarshal e (RValue rec) = Some t" and "sym_metrics (xw s) (tick_key t) = Some ms"
  shows "\<exists>s1 s2 s3. xstep e s s1 \<and> xstep e s1 s2 \<and> xstep e s2 s3 \<and> x_pos s1 k = off + 1 \<and> x_pos s2 k = off \<and> x_pos s3 k = off + 1 \<and>
    sym_metrics (xw s3) (tick_key t) = Some (tick_windows (xe_math e) t (tick_windows (xe_math e) t ms))"
proof -
  obtain ws where ws: "map_of (SymbolStates (xw s)) (tick_key t) = Some ws" "ms = metrics_of ws"
    using assms(6) by (auto simp: sym_metrics_def)
  have al: "\<not> atLeastOnce (xw s)" using xreach_inv [OF assms(1)] by (simp add: xinv_def)
  let ?ws1 = "apply_tick (xe_math e) rec t ws"
  let ?w1 = "put_sym (xw s) (tick_key t) ?ws1"
  let ?s1 = "s\<lparr>xw := ?w1, x_pos := (x_pos s)(k := off + 1)\<rparr>"
  have s1: "xstep e s ?s1" by (rule xstep.x_poll [where off = off]) (use assms tick_known [of "xw s" "xe_unmarshal e" rec t, OF al assms(5) ws(1)] in auto)
  obtain w2 recs act where e2: "agg_endTransaction (xe_enc e) ?w1 = (w2, recs, act)" by (cases "agg_endTransaction (xe_enc e) ?w1")
  let ?s2 = "?s1\<lparr>xw := w2, x_topic := x_topic ?s1 @ recs, x_open := [], x_pos := start_pos (x_group ?s1)\<rparr>"
  have s2: "xstep e ?s1 ?s2" using xstep.x_abort [of e ?s1] e2 by simp
  let ?w3 = "put_sym w2 (tick_key t) (apply_tick (xe_math e) rec t ?ws1)"
  let ?s3 = "?s2\<lparr>xw := ?w3, x_pos := (x_pos ?s2)(k := off + 1)\<rparr>"
  have "ProcessTick (xe_unmarshal e) (xe_math e) w2 rec = Done (?w3, Some (tick_key t))"
    by (rule tick_known) (use assms(5) al end_keeps [OF e2] in \<open>auto simp: put_sym_def update_conv'\<close>)
  then have s3: "xstep e ?s2 ?s3" using assms(2,4) by (intro xstep.x_poll [where off = off]) auto
  have "sym_metrics (xw ?s3) (tick_key t) = Some (tick_windows (xe_math e) t (tick_windows (xe_math e) t ms))"
    by (simp add: metrics_of_apply ws(2))
  with s1 s2 s3 assms(4) show ?thesis by (intro exI [of _ ?s1] exI [of _ ?s2] exI [of _ ?s3]) simp
qed

text \<open>
  The loader does not ask for committed records only. A crash after the checkpoints of a transaction and before its end
  has the same effect: the new worker starts from windows that hold the tick and reads it again.
\<close>

theorem uncommitted_checkpoint_loaded:
  assumes "xreach e s" and "xe_log e k off = Some rec" and "x_pos s k = off" and "start_pos (x_group s) k = off"
    and "\<forall>ms. xe_enc e ms \<noteq> None \<and> xe_dec e (the (xe_enc e ms)) = Some ms" and "\<not> aTxnFailed (xw s)" and "\<forall>c \<in> set (xe_cfgs e). CHR '':'' \<notin> set (cfg_Id c)"
    and "xe_unmarshal e (RValue rec) = Some t" and "sym_metrics (xw s) (tick_key t) = Some ms"
    and "take 3 (tick_key t @ '':'') \<noteq> symbolKeyPrefix"
  shows "\<exists>s1 s2 s3. xstep e s s1 \<and> xstep e s1 s2 \<and> xstep e s2 s3 \<and> x_group s2 = x_group s \<and> x_pos s3 k = off + 1 \<and>
    sym_metrics (xw s3) (tick_key t) = Some (tick_windows (xe_math e) t (tick_windows (xe_math e) t ms))"
proof -
  obtain ws where ws: "map_of (SymbolStates (xw s)) (tick_key t) = Some ws" "ms = metrics_of ws"
    using assms(9) by (auto simp: sym_metrics_def)
  have al: "\<not> atLeastOnce (xw s)" using xreach_inv [OF assms(1)] by (simp add: xinv_def)
  let ?w1 = "put_sym (xw s) (tick_key t) (apply_tick (xe_math e) rec t ws)"
  let ?s1 = "s\<lparr>xw := ?w1, x_pos := (x_pos s)(k := off + 1)\<rparr>"
  have s1: "xstep e s ?s1" by (rule xstep.x_poll [where off = off]) (use assms tick_known [of "xw s" "xe_unmarshal e" rec t, OF al assms(8) ws(1)] in auto)
  from xreach_inv [OF x_step [OF assms(1) s1]] have inv: "xinv e ?w1" by simp
  obtain w2 recs act where ee: "agg_endTransaction (xe_enc e) ?w1 = (w2, recs, act)" by (cases "agg_endTransaction (xe_enc e) ?w1")
  moreover have "act = AggCommit" using end_commits [OF ee] assms(5,6) by (simp add: put_sym_def)
  ultimately have e2: "agg_endTransaction (xe_enc e) ?w1 = (w2, recs, AggCommit)" by simp
  let ?topic = "x_topic s @ recs"
  let ?s2 = "?s1\<lparr>xw := xstart e ?topic, x_topic := ?topic, x_open := [], x_pos := start_pos (x_group ?s1)\<rparr>"
  have s2: "xstep e ?s1 ?s2" using xstep.x_crash [of e ?s1 w2 recs AggCommit ?topic "length recs"] e2 by simp
  have rt: "\<forall>ms v. xe_enc e ms = Some v \<longrightarrow> xe_dec e v = Some ms" using assms(5) by (metis option.sel)
  have mp: "map_of (SymbolStates ?w1) (tick_key t) = Some (apply_tick (xe_math e) rec t ws)" by (simp add: put_sym_def update_conv')
  obtain ws' where ws': "new_symbol (xe_math e) (xstart e ?topic) t = Done ws'" "metrics_of ws' = metrics_of (apply_tick (xe_math e) rec t ws)"
    using restored_symbol [OF inv e2 rt assms(7) mp assms(10)] by blast
  let ?w3 = "put_sym (xstart e ?topic) (tick_key t) (apply_tick (xe_math e) rec t ws')"
  let ?s3 = "?s2\<lparr>xw := ?w3, x_pos := (x_pos ?s2)(k := off + 1)\<rparr>"
  have "ProcessTick (xe_unmarshal e) (xe_math e) (xstart e ?topic) rec = Done (?w3, Some (tick_key t))"
    by (rule tick_restored) (use assms(8) ws' in \<open>auto simp: xstart_def NewAWorker_def\<close>)
  then have s3: "xstep e ?s2 ?s3" using assms(2,4) by (intro xstep.x_poll [where off = off]) auto
  have "sym_metrics (xw ?s3) (tick_key t) = Some (tick_windows (xe_math e) t (tick_windows (xe_math e) t ms))"
    by (simp add: metrics_of_apply ws(2) ws'(2))
  with s1 s2 s3 show ?thesis by (intro exI [of _ ?s1] exI [of _ ?s2] exI [of _ ?s3]) simp
qed

section \<open>Configuration\<close>

record agg_Backpressure =
  ab_High :: f64
  ab_Low :: f64
  ab_ThresholdActiveMillis :: int
  ab_CooldownTimeMillis :: int

record agg_KafkaConfig =
  ak_BootstrapServers :: "string list"
  ak_Upstream :: string
  ak_Downstream :: string
  ak_ConsumerGroup :: string
  ak_Backpressure :: agg_Backpressure
  ak_CommitOffsetIntervalMillis :: int
  ak_DeliveryMode :: string
  ak_CheckpointIntervalMillis :: int

record agg_Config =
  ac_Kafka :: "agg_KafkaConfig option"
  ac_WorkerCount :: int
  ac_Windows :: "WindowConfig list"

definition DeliveryTransactional :: string where "DeliveryTransactional = ''transactional''"
definition DeliveryAtLeastOnce :: string where "DeliveryAtLeastOnce = ''at_least_once''"

text \<open>The loop over the windows; \<open>blank\<close> is \<open>strings.TrimSpace(s) == ""\<close>.\<close>

fun check_windows :: "(string \<Rightarrow> bool) \<Rightarrow> string set \<Rightarrow> WindowConfig list \<Rightarrow> unit outcome" where
  "check_windows blank seen [] = Done ()"
| "check_windows blank seen (c # cs) =
     (if cfg_Id c \<in> seen then Fail
      else if blank (cfg_Id c) then Fail
      else if cfg_FlushCadencyMs c \<le> 0 then Fail
      else if cfg_DurationMs c \<le> 0 then Fail
      else if cfg_FlushCadencyMs c > cfg_DurationMs c then Fail
      else if cfg_BucketSizeMs c \<le> 0 then Fail
      else if cfg_BucketSizeMs c > cfg_DurationMs c then Fail
      else check_windows blank (insert (cfg_Id c) seen) cs)"

text \<open>\<open>Validate\<close>: fills in the delivery mode and the checkpoint interval.\<close>

definition agg_Validate :: "(string \<Rightarrow> bool) \<Rightarrow> agg_Config \<Rightarrow> agg_Config outcome" where
  "agg_Validate blank cfg =
     (if ac_WorkerCount cfg \<le> 0 then Fail
      else case ac_Kafka cfg of
        None \<Rightarrow> Panic
      | Some k \<Rightarrow>
          if ak_BootstrapServers k = [] then Fail
          else if blank (ak_Upstream k) then Fail
          else if blank (ak_Downstream k) then Fail
          else if blank (ak_ConsumerGroup k) then Fail
          else if ak_DeliveryMode k \<notin> {DeliveryTransactional, DeliveryAtLeastOnce, []} then Fail
          else
            let k = (if ak_DeliveryMode k = [] then k\<lparr>ak_DeliveryMode := DeliveryTransactional\<rparr> else k);
                k = (if ak_CheckpointIntervalMillis k \<le> 0 then k\<lparr>ak_CheckpointIntervalMillis := 2000\<rparr> else k);
                b = ak_Backpressure k in
            if f_le (ab_High b) (Fin 0) \<or> f_lt (Fin 1) (ab_High b) then Fail
            else if f_lt (ab_Low b) (Fin 0) \<or> f_le (Fin 1) (ab_Low b) \<or> f_lt (ab_High b) (ab_Low b) then Fail
            else if ab_CooldownTimeMillis b < 0 then Fail
            else if ab_ThresholdActiveMillis b \<le> 0 then Fail
            else bind_out (check_windows blank {} (ac_Windows cfg)) (\<lambda>_. Done (cfg\<lparr>ac_Kafka := Some k\<rparr>)))"

text \<open>\<open>time.NewTicker\<close> panics on an interval that is not positive; the two loops start with one.\<close>

definition NewTicker :: "int \<Rightarrow> unit outcome" where
  "NewTicker millis = (if millis \<le> 0 then Panic else Done ())"

definition start_loop :: "agg_KafkaConfig \<Rightarrow> unit outcome" where
  "start_loop k = (if ak_DeliveryMode k = DeliveryAtLeastOnce then NewTicker (ak_CheckpointIntervalMillis k)
     else NewTicker (ak_CommitOffsetIntervalMillis k))"

lemma check_windows_ok:
  "check_windows blank seen cs = Done () \<Longrightarrow> distinct (map cfg_Id cs) \<and> set (map cfg_Id cs) \<inter> seen = {} \<and>
     list_all (\<lambda>c. 0 < cfg_BucketSizeMs c \<and> cfg_BucketSizeMs c \<le> cfg_DurationMs c \<and> 0 < cfg_FlushCadencyMs c \<and>
       cfg_FlushCadencyMs c \<le> cfg_DurationMs c) cs"
  by (induction blank seen cs rule: check_windows.induct) (auto split: if_splits)

lemma agg_Validate_kafka:
  "agg_Validate blank cfg = Done c \<Longrightarrow> \<exists>k. ac_Kafka c = Some k \<and> 0 < ak_CheckpointIntervalMillis k \<and>
     ak_DeliveryMode k \<in> {DeliveryTransactional, DeliveryAtLeastOnce} \<and> ac_Windows c = ac_Windows cfg \<and>
     check_windows blank {} (ac_Windows cfg) = Done ()"
  unfolding agg_Validate_def Let_def
  by (auto simp: bind_out_Done DeliveryTransactional_def DeliveryAtLeastOnce_def split: if_splits option.splits)

text \<open>
  A validated configuration gives windows with distinct ids whose metrics can be built, and a loop that starts in
  the at-least-once mode.
\<close>

lemma validated_windows_build:
  assumes "agg_Validate blank cfg = Done c"
  shows "\<exists>wins. BuildWindows gm (ac_Windows c) = Done wins"
proof -
  have l: "list_all (\<lambda>c. 0 < cfg_BucketSizeMs c \<and> cfg_BucketSizeMs c \<le> cfg_DurationMs c) (ac_Windows c)"
    using agg_Validate_kafka [OF assms] check_windows_ok [of blank "{}" "ac_Windows cfg"] by (auto simp: list_all_iff)
  have b: "\<exists>ms. build_metrics (MetricCtorRegistry gm) w = Done ms" if "0 < cfg_BucketSizeMs w" "cfg_BucketSizeMs w \<le> cfg_DurationMs w" for w
  proof -
    have "0 < cfg_DurationMs w sdiv cfg_BucketSizeMs w"
      using that by (simp add: signed_divide_int_def pos_imp_zdiv_pos_iff)
    with that show ?thesis by (simp add: MetricCtorRegistry_def NewRollingVolume_def NewRollingVWAP_def Let_def)
  qed
  have "\<exists>wins. BuildWindows_from gm cs acc = Done wins" if "list_all (\<lambda>c. 0 < cfg_BucketSizeMs c \<and> cfg_BucketSizeMs c \<le> cfg_DurationMs c) cs" for cs acc
    using that
  proof (induction cs arbitrary: acc)
    case (Cons w ws)
    then obtain ms where "build_metrics (MetricCtorRegistry gm) w = Done ms" using b by auto
    with Cons show ?case by (simp add: bind_out_Done)
  qed simp
  with l show ?thesis by (simp add: BuildWindows_def)
qed

lemma validated_loop_starts:
  assumes "agg_Validate blank cfg = Done c" and "ac_Kafka c = Some k" and "ak_DeliveryMode k = DeliveryAtLeastOnce"
  shows "start_loop k = Done ()"
  using agg_Validate_kafka [OF assms(1)] assms(2,3) by (auto simp: start_loop_def NewTicker_def)

text \<open>The interval of the transactional mode is not validated: a configuration without it passes and the worker panics.\<close>

theorem commit_interval_not_validated:
  "\<exists>cfg c k. agg_Validate (\<lambda>s. s = []) cfg = Done c \<and> ac_Kafka c = Some k \<and> start_loop k = Panic"
proof -
  let ?b = "\<lparr>ab_High = Fin 1, ab_Low = Fin 0, ab_ThresholdActiveMillis = 1, ab_CooldownTimeMillis = 0\<rparr>"
  let ?k = "\<lparr>ak_BootstrapServers = [''b''], ak_Upstream = ''u'', ak_Downstream = ''d'', ak_ConsumerGroup = ''g'', ak_Backpressure = ?b,
    ak_CommitOffsetIntervalMillis = 0, ak_DeliveryMode = DeliveryTransactional, ak_CheckpointIntervalMillis = 1\<rparr>"
  have "agg_Validate (\<lambda>s. s = []) \<lparr>ac_Kafka = Some ?k, ac_WorkerCount = 1, ac_Windows = []\<rparr> =
      Done \<lparr>ac_Kafka = Some ?k, ac_WorkerCount = 1, ac_Windows = []\<rparr>" "start_loop ?k = Panic"
    by (simp_all add: agg_Validate_def start_loop_def NewTicker_def DeliveryTransactional_def DeliveryAtLeastOnce_def f_le_def f_eq_def)
  then show ?thesis by (metis agg_Config.select_convs(1))
qed

end
