(* ===== verification/Ob_Backpressure.thy ===== *)
theory Ob_Backpressure
  imports Float64
begin

text \<open>
  Backpressure of the order book service (\<open>orderbook/backpressure/backpressure.go\<close>): the queue depth per
  worker, the hot flag with its two thresholds, and the count of hot workers per partition that decides when fetching a
  partition is paused or resumed. The package variables are the record \<open>BP\<close>; what the functions ask of the Kafka
  client after releasing the lock is part of their result. The last sections put the functions between the
  dispatcher, which reports a record after sending it, and the workers, which report it after processing it.
\<close>

section \<open>The package\<close>

record WorkerBPState =
  depth :: int
  hot :: bool

text \<open>A map that is still nil is \<open>None\<close>: reading it finds nothing and writing \<open>partitionHotCount\<close> panics.\<close>

record BP =
  workerBPMap :: "int \<rightharpoonup> WorkerBPState"
  workerPartitionMap :: "int \<rightharpoonup> int list"
  partitionHotCount :: "(int \<rightharpoonup> int) option"
  highThreshold :: int
  lowThreshold :: int
  hasPauseResumer :: bool
  bpTopic :: string
  bpOnce :: bool

datatype bp_call = PauseFetchPartitions string int | ResumeFetchPartitions string int

definition InitBP :: "f64 \<Rightarrow> f64 \<Rightarrow> bool \<Rightarrow> string \<Rightarrow> int \<Rightarrow> BP \<Rightarrow> BP" where
  "InitBP high low pauseResumer topic queueCapacity b =
     (if bpOnce b then b
      else b\<lparr>workerBPMap := Map.empty, workerPartitionMap := Map.empty, partitionHotCount := Some Map.empty,
             highThreshold := f_trunc (f_mul high (f_of_int queueCapacity)),
             lowThreshold := f_trunc (f_mul low (f_of_int queueCapacity)),
             hasPauseResumer := pauseResumer, bpTopic := topic, bpOnce := True\<rparr>)"

definition zero_bp :: BP where
  "zero_bp = \<lparr>workerBPMap = Map.empty, workerPartitionMap = Map.empty, partitionHotCount = None, highThreshold = 0,
     lowThreshold = 0, hasPauseResumer = False, bpTopic = [], bpOnce = False\<rparr>"

definition worker_state :: "BP \<Rightarrow> int \<Rightarrow> WorkerBPState" where
  "worker_state b w = (case workerBPMap b w of None \<Rightarrow> \<lparr>depth = 0, hot = False\<rparr> | Some s \<Rightarrow> s)"

definition worker_parts :: "BP \<Rightarrow> int \<Rightarrow> int list" where
  "worker_parts b w = (case workerPartitionMap b w of None \<Rightarrow> [] | Some ps \<Rightarrow> ps)"

definition hot_count :: "(int \<rightharpoonup> int) \<Rightarrow> int \<Rightarrow> int" where
  "hot_count m p = (case m p of None \<Rightarrow> 0 | Some n \<Rightarrow> n)"

text \<open>The two loops over the partitions of the worker.\<close>

fun pause_loop :: "int list \<Rightarrow> (int \<rightharpoonup> int) \<Rightarrow> (int \<rightharpoonup> int) \<times> int list" where
  "pause_loop [] m = (m, [])"
| "pause_loop (p # ps) m =
     (let n = hot_count m p + 1; r = pause_loop ps (m(p \<mapsto> n)) in (fst r, if n = 1 then p # snd r else snd r))"

fun resume_loop :: "int list \<Rightarrow> (int \<rightharpoonup> int) \<Rightarrow> (int \<rightharpoonup> int) \<times> int list" where
  "resume_loop [] m = (m, [])"
| "resume_loop (p # ps) m =
     (let n = hot_count m p - 1; r = resume_loop ps (m(p \<mapsto> max 0 n))
      in (fst r, if n \<le> 0 then p # snd r else snd r))"

definition OnEnqueue :: "BP \<Rightarrow> int \<Rightarrow> int \<Rightarrow> (BP \<times> bp_call list) outcome" where
  "OnEnqueue b w part =
     (let s = (worker_state b w)\<lparr>depth := depth (worker_state b w) + 1\<rparr>;
          parts = List.insert part (worker_parts b w);
          b1 = b\<lparr>workerBPMap := (workerBPMap b)(w \<mapsto> s), workerPartitionMap := (workerPartitionMap b)(w \<mapsto> parts)\<rparr>
      in if depth s > highThreshold b \<and> \<not> hot s then
           (case partitionHotCount b of
              None \<Rightarrow> Panic
            | Some m \<Rightarrow>
                (case pause_loop parts m of
                   (m', ps) \<Rightarrow>
                     Done (b1\<lparr>workerBPMap := (workerBPMap b)(w \<mapsto> s\<lparr>hot := True\<rparr>), partitionHotCount := Some m'\<rparr>,
                           if hasPauseResumer b then map (PauseFetchPartitions (bpTopic b)) ps else [])))
         else Done (b1, []))"

definition OnDequeue :: "BP \<Rightarrow> int \<Rightarrow> (BP \<times> bp_call list) outcome" where
  "OnDequeue b w =
     (case workerBPMap b w of
        None \<Rightarrow> Done (b, [])
      | Some s0 \<Rightarrow>
          let s = s0\<lparr>depth := max 0 (depth s0 - 1)\<rparr>
          in if depth s < lowThreshold b \<and> hot s then
               (case (worker_parts b w, partitionHotCount b) of
                  ([], _) \<Rightarrow> Done (b\<lparr>workerBPMap := (workerBPMap b)(w \<mapsto> s\<lparr>hot := False\<rparr>)\<rparr>, [])
                | (_, None) \<Rightarrow> Panic
                | (parts, Some m) \<Rightarrow>
                    (case resume_loop parts m of
                       (m', ps) \<Rightarrow>
                         Done (b\<lparr>workerBPMap := (workerBPMap b)(w \<mapsto> s\<lparr>hot := False\<rparr>), partitionHotCount := Some m'\<rparr>,
                               if hasPauseResumer b then map (ResumeFetchPartitions (bpTopic b)) ps else [])))
             else Done (b\<lparr>workerBPMap := (workerBPMap b)(w \<mapsto> s)\<rparr>, []))"

section \<open>Between dispatcher and workers\<close>

text \<open>
  \<open>queued w\<close> counts the records sent to the channel of worker \<open>w\<close> whose \<open>OnDequeue\<close> has not run; \<open>pend\<close> is the
  record the dispatcher has sent and not yet reported. The dispatcher is one goroutine, so there is at most one.
  The calls to the client are made after the lock is released, so they are not part of the report: \<open>calls_out\<close> lists
  those that are still to be made, oldest report first, each with the goroutine that makes it. A goroutine makes its
  calls in order and does nothing else before the last of them, but the calls of two goroutines land in any order.
\<close>

datatype bp_actor = Dispatcher | Worker int

record BPSys =
  bp :: BP
  queued :: "int \<Rightarrow> nat"
  pend :: "(int \<times> int) option"
  calls_out :: "(bp_actor \<times> bp_call) list"
  pausedParts :: "int set"

fun do_call :: "bp_call \<Rightarrow> int set \<Rightarrow> int set" where
  "do_call (PauseFetchPartitions tpc p) s = insert p s"
| "do_call (ResumeFetchPartitions tpc p) s = s - {p}"

definition idle :: "BPSys \<Rightarrow> bp_actor \<Rightarrow> bool" where
  "idle s g \<longleftrightarrow> g \<notin> fst ` set (calls_out s)"

inductive bstep :: "BPSys \<Rightarrow> BPSys \<Rightarrow> bool" where
  sent: "pend s = None \<Longrightarrow> idle s Dispatcher \<Longrightarrow> bstep s (s\<lparr>queued := (queued s)(w := queued s w + 1), pend := Some (w, p)\<rparr>)"
| counted: "pend s = Some (w, p) \<Longrightarrow> OnEnqueue (bp s) w p = Done (b, calls) \<Longrightarrow>
    bstep s (s\<lparr>bp := b, pend := None, calls_out := calls_out s @ map (Pair Dispatcher) calls\<rparr>)"
| taken: "0 < queued s w \<Longrightarrow> idle s (Worker w) \<Longrightarrow> OnDequeue (bp s) w = Done (b, calls) \<Longrightarrow>
    bstep s (s\<lparr>bp := b, queued := (queued s)(w := queued s w - 1), calls_out := calls_out s @ map (Pair (Worker w)) calls\<rparr>)"
| landed: "calls_out s = xs @ (g, c) # ys \<Longrightarrow> g \<notin> fst ` set xs \<Longrightarrow>
    bstep s (s\<lparr>calls_out := xs @ ys, pausedParts := do_call c (pausedParts s)\<rparr>)"

definition bp_start :: "f64 \<Rightarrow> f64 \<Rightarrow> string \<Rightarrow> int \<Rightarrow> BPSys" where
  "bp_start high low topic capacity =
     \<lparr>bp = InitBP high low True topic capacity zero_bp, queued = (\<lambda>w. 0), pend = None, calls_out = [], pausedParts = {}\<rparr>"

inductive breach :: "f64 \<Rightarrow> f64 \<Rightarrow> string \<Rightarrow> int \<Rightarrow> BPSys \<Rightarrow> bool" for high low topic capacity where
  breach_start: "breach high low topic capacity (bp_start high low topic capacity)"
| breach_step: "breach high low topic capacity s \<Longrightarrow> bstep s s' \<Longrightarrow> breach high low topic capacity s'"

section \<open>Depth and thresholds\<close>

definition uncounted :: "BPSys \<Rightarrow> int \<Rightarrow> int" where
  "uncounted s w = (if \<exists>p. pend s = Some (w, p) then 1 else 0)"

lemma worker_state_upd [simp]: "worker_state (b\<lparr>workerBPMap := m(w \<mapsto> s)\<rparr>) v = (if v = w then s else worker_state (b\<lparr>workerBPMap := m\<rparr>) v)"
  by (simp add: worker_state_def)

lemma worker_state_other [simp]:
  "worker_state (b\<lparr>workerPartitionMap := pm\<rparr>) v = worker_state b v" "worker_state (b\<lparr>partitionHotCount := c\<rparr>) v = worker_state b v"
  "worker_state (b\<lparr>workerBPMap := workerBPMap b\<rparr>) v = worker_state b v"
  by (simp_all add: worker_state_def)

definition same_bp :: "BP \<Rightarrow> BP \<Rightarrow> bool" where
  "same_bp b b' \<longleftrightarrow> highThreshold b' = highThreshold b \<and> lowThreshold b' = lowThreshold b \<and>
     (partitionHotCount b \<noteq> None \<longrightarrow> partitionHotCount b' \<noteq> None) \<and> hasPauseResumer b' = hasPauseResumer b"

lemma OnEnqueue_Done:
  assumes "OnEnqueue b w p = Done (b', calls)"
  shows "same_bp b b'"
    "worker_state b' w = \<lparr>depth = depth (worker_state b w) + 1, hot = (hot (worker_state b w) \<or> highThreshold b < depth (worker_state b w) + 1)\<rparr>"
    "v \<noteq> w \<Longrightarrow> worker_state b' v = worker_state b v"
  using assms by (auto simp: OnEnqueue_def same_bp_def Let_def split: if_splits option.splits prod.splits)

lemma OnDequeue_Done:
  assumes "OnDequeue b w = Done (b', calls)"
  shows "same_bp b b'"
    "workerBPMap b w \<noteq> None \<Longrightarrow> worker_state b' w = (let d = max 0 (depth (worker_state b w) - 1) in
       \<lparr>depth = d, hot = (hot (worker_state b w) \<and> lowThreshold b \<le> d)\<rparr>)"
    "workerBPMap b w = None \<Longrightarrow> b' = b"
    "v \<noteq> w \<Longrightarrow> worker_state b' v = worker_state b v"
proof -
  show "same_bp b b'" "workerBPMap b w = None \<Longrightarrow> b' = b" "v \<noteq> w \<Longrightarrow> worker_state b' v = worker_state b v"
    using assms by (auto simp: OnDequeue_def same_bp_def Let_def split: if_splits option.splits prod.splits list.splits)
  show "worker_state b' w = (let d = max 0 (depth (worker_state b w) - 1) in
      \<lparr>depth = d, hot = (hot (worker_state b w) \<and> lowThreshold b \<le> d)\<rparr>)" if ne: "workerBPMap b w \<noteq> None"
  proof -
    obtain st where st: "workerBPMap b w = Some st" using ne by blast
    then have "worker_state b w = st" by (simp add: worker_state_def)
    with st assms show ?thesis
      by (cases st) (auto simp: OnDequeue_def Let_def split: if_splits option.splits prod.splits list.splits)
  qed
qed

text \<open>What the invariant says of one worker: its depth \<open>d\<close>, its flag and the records counted in its channel \<open>q\<close>.\<close>

definition depth_ok :: "int \<Rightarrow> int \<Rightarrow> int \<Rightarrow> WorkerBPState \<Rightarrow> bool" where
  "depth_ok high low q ws \<longleftrightarrow> 0 \<le> depth ws \<and> q \<le> depth ws \<and> depth ws \<le> q + 1 \<and>
     (if hot ws then low \<le> depth ws else depth ws \<le> high)"

definition bp_inv :: "int \<Rightarrow> int \<Rightarrow> BPSys \<Rightarrow> bool" where
  "bp_inv high low s \<longleftrightarrow>
     highThreshold (bp s) = high \<and> lowThreshold (bp s) = low \<and> partitionHotCount (bp s) \<noteq> None \<and> hasPauseResumer (bp s) \<and>
     (\<forall>w. depth_ok high low (int (queued s w) - uncounted s w) (worker_state (bp s) w))"

lemma bp_inv_step:
  assumes inv: "bp_inv high low s" and "bstep s s'" and th: "low \<le> high" "0 \<le> high"
  shows "bp_inv high low s'"
  using assms(2)
proof cases
  case (sent w p)
  with inv show ?thesis by (auto simp: bp_inv_def uncounted_def split: if_splits)
next
  case (counted w p b calls)
  have "depth_ok high low (int (queued s v)) (worker_state b v)" for v
  proof (cases "v = w")
    case True
    have "depth_ok high low (int (queued s w) - 1) (worker_state (bp s) w)" "highThreshold (bp s) = high"
      using inv counted(2) by (auto simp: bp_inv_def uncounted_def dest: spec [of _ w])
    with True th OnEnqueue_Done(2) [OF counted(3)] show ?thesis by (auto simp: depth_ok_def split: if_splits)
  next
    case False
    with inv counted(2) OnEnqueue_Done(3) [OF counted(3) False] show ?thesis by (auto simp: bp_inv_def uncounted_def dest: spec [of _ v])
  qed
  with inv counted(1) OnEnqueue_Done(1) [OF counted(3)] show ?thesis by (simp add: bp_inv_def uncounted_def same_bp_def)
next
  case (taken w b calls)
  have "depth_ok high low (int (((queued s)(w := queued s w - 1)) v) - uncounted s v) (worker_state b v)" for v
  proof (cases "v = w")
    case True
    have k: "depth_ok high low (int (queued s w) - uncounted s w) (worker_state (bp s) w)" "lowThreshold (bp s) = low"
      "uncounted s w \<le> 1"
      using inv by (auto simp: bp_inv_def uncounted_def)
    show ?thesis
    proof (cases "workerBPMap (bp s) w")
      case None
      then have "worker_state (bp s) w = \<lparr>depth = 0, hot = False\<rparr>" by (simp add: worker_state_def)
      with True None k taken(2) th OnDequeue_Done(3) [OF taken(4)] show ?thesis by (auto simp: depth_ok_def)
    next
      case (Some x)
      with True k taken(2) th OnDequeue_Done(2) [OF taken(4)] show ?thesis by (auto simp: depth_ok_def Let_def split: if_splits)
    qed
  next
    case False
    with inv OnDequeue_Done(4) [OF taken(4) False] show ?thesis by (simp add: bp_inv_def)
  qed
  with inv taken(1) OnDequeue_Done(1) [OF taken(4)] show ?thesis by (simp add: bp_inv_def uncounted_def same_bp_def)
next
  case (landed xs g c ys)
  with inv show ?thesis by (simp add: bp_inv_def uncounted_def)
qed

lemma breach_inv:
  assumes "breach high low topic capacity s"
    and th: "hi = f_trunc (f_mul high (f_of_int capacity))" "lo = f_trunc (f_mul low (f_of_int capacity))" "lo \<le> hi" "0 \<le> hi"
  shows "bp_inv hi lo s"
  using assms(1)
proof (induction rule: breach.induct)
  case breach_start
  then show ?case
    using th by (simp add: bp_inv_def bp_start_def InitBP_def zero_bp_def worker_state_def depth_ok_def uncounted_def)
qed (use bp_inv_step th in blast)

lemma no_panic:
  assumes "partitionHotCount b \<noteq> None"
  shows "OnEnqueue b w p \<noteq> Panic" "OnDequeue b w \<noteq> Panic"
  using assms by (auto simp: OnEnqueue_def OnDequeue_def Let_def split: option.splits prod.splits list.splits)

text \<open>
  C25. The depth the backpressure keeps for a worker never differs by more than one from the number of its records that
  are counted and still in its channel, although the dispatcher reports a record only after the worker may already
  have processed it; a worker is hot only with at least the low and cool only with at most the high threshold;
  and neither report panics.
\<close>

theorem bp_depth_bounds:
  assumes "breach high low topic capacity s"
    and "f_trunc (f_mul low (f_of_int capacity)) \<le> f_trunc (f_mul high (f_of_int capacity))"
    and "0 \<le> f_trunc (f_mul high (f_of_int capacity))"
  shows "let d = depth (worker_state (bp s) w); q = int (queued s w) - (if \<exists>p. pend s = Some (w, p) then 1 else 0)
     in 0 \<le> d \<and> q \<le> d \<and> d \<le> q + 1 \<and>
        (if hot (worker_state (bp s) w) then f_trunc (f_mul low (f_of_int capacity)) \<le> d
         else d \<le> f_trunc (f_mul high (f_of_int capacity))) \<and>
        OnEnqueue (bp s) w p \<noteq> Panic \<and> OnDequeue (bp s) w \<noteq> Panic"
proof -
  have "bp_inv (f_trunc (f_mul high (f_of_int capacity))) (f_trunc (f_mul low (f_of_int capacity))) s"
    using breach_inv [OF assms(1) refl refl assms(2,3)] .
  then have "depth_ok (f_trunc (f_mul high (f_of_int capacity))) (f_trunc (f_mul low (f_of_int capacity)))
      (int (queued s w) - uncounted s w) (worker_state (bp s) w)" "partitionHotCount (bp s) \<noteq> None"
    by (simp_all add: bp_inv_def)
  then show ?thesis using no_panic [of "bp s"] by (simp add: depth_ok_def uncounted_def Let_def)
qed

section \<open>Paused partitions\<close>

lemma hot_count_upd: "hot_count (m(p \<mapsto> n)) q = (if q = p then n else hot_count m q)"
  by (simp add: hot_count_def)

lemma pause_loop_facts:
  assumes "distinct ps"
  shows "(\<forall>p. hot_count (fst (pause_loop ps m)) p = hot_count m p + (if p \<in> set ps then 1 else 0)) \<and>
    set (snd (pause_loop ps m)) = {p \<in> set ps. hot_count m p = 0}"
  using assms
proof (induction ps arbitrary: m)
  case (Cons q ps)
  define m1 where "m1 = m(q \<mapsto> hot_count m q + 1)"
  have c: "hot_count m1 p = (if p = q then hot_count m q + 1 else hot_count m p)" for p by (simp add: m1_def hot_count_upd)
  have "pause_loop (q # ps) m = (fst (pause_loop ps m1), if hot_count m q = 0 then q # snd (pause_loop ps m1) else snd (pause_loop ps m1))"
    by (simp add: m1_def Let_def)
  moreover have "{p \<in> set ps. hot_count m1 p = 0} = {p \<in> set ps. hot_count m p = 0}" using Cons.prems c by auto
  ultimately show ?case using Cons.IH [of m1] Cons.prems c by auto
qed simp

lemma resume_loop_facts:
  assumes "distinct ps"
  shows "(\<forall>p. hot_count (fst (resume_loop ps m)) p = (if p \<in> set ps then max 0 (hot_count m p - 1) else hot_count m p)) \<and>
    set (snd (resume_loop ps m)) = {p \<in> set ps. hot_count m p \<le> 1}"
  using assms
proof (induction ps arbitrary: m)
  case (Cons q ps)
  define m1 where "m1 = m(q \<mapsto> max 0 (hot_count m q - 1))"
  have c: "hot_count m1 p = (if p = q then max 0 (hot_count m q - 1) else hot_count m p)" for p by (simp add: m1_def hot_count_upd)
  have "resume_loop (q # ps) m = (fst (resume_loop ps m1), if hot_count m q \<le> 1 then q # snd (resume_loop ps m1) else snd (resume_loop ps m1))"
    by (simp add: m1_def Let_def)
  moreover have "{p \<in> set ps. hot_count m1 p \<le> 1} = {p \<in> set ps. hot_count m p \<le> 1}" using Cons.prems c by auto
  ultimately show ?case using Cons.IH [of m1] Cons.prems c by auto
qed simp

lemmas pause_loop_counts = pause_loop_facts [THEN conjunct1, rule_format]
lemmas pause_loop_new = pause_loop_facts [THEN conjunct2]
lemmas resume_loop_counts = resume_loop_facts [THEN conjunct1, rule_format]
lemmas resume_loop_free = resume_loop_facts [THEN conjunct2]

lemma fold_pause: "fold do_call (map (PauseFetchPartitions tpc) ps) A = A \<union> set ps"
  by (induction ps arbitrary: A) auto

lemma fold_resume: "fold do_call (map (ResumeFetchPartitions tpc) ps) A = A - set ps"
  by (induction ps arbitrary: A) auto

text \<open>The hot workers that have seen a partition.\<close>

definition hot_on :: "BP \<Rightarrow> int \<Rightarrow> int set" where
  "hot_on b p = {w. hot (worker_state b w) \<and> p \<in> set (worker_parts b w)}"

text \<open>The partitions that are paused once every outstanding call has landed, in the order of the reports.\<close>

definition settled :: "BPSys \<Rightarrow> int set" where
  "settled s = fold do_call (map snd (calls_out s)) (pausedParts s)"

definition pause_inv :: "BPSys \<Rightarrow> bool" where
  "pause_inv s \<longleftrightarrow> (\<exists>m. partitionHotCount (bp s) = Some m \<and> hasPauseResumer (bp s) \<and> (\<forall>w. distinct (worker_parts (bp s) w)) \<and>
     finite (dom (workerBPMap (bp s))) \<and> (\<forall>p. hot_count m p = int (card (hot_on (bp s) p))) \<and>
     settled s = {p. 0 < hot_count m p})"

text \<open>
  Runs in which a worker that is hot receives no record of a partition it has not had before, and the calls to the
  client land in the order of the reports that ask for them: a step either makes no call, or makes the oldest one.
\<close>

inductive breach_fixed :: "f64 \<Rightarrow> f64 \<Rightarrow> string \<Rightarrow> int \<Rightarrow> BPSys \<Rightarrow> bool" for high low topic capacity where
  fixed_start: "breach_fixed high low topic capacity (bp_start high low topic capacity)"
| fixed_step: "breach_fixed high low topic capacity s \<Longrightarrow> bstep s s' \<Longrightarrow>
    \<forall>w p. pend s = Some (w, p) \<longrightarrow> hot (worker_state (bp s) w) \<longrightarrow> p \<in> set (worker_parts (bp s) w) \<Longrightarrow>
    length (calls_out s) \<le> length (calls_out s') \<Longrightarrow> breach_fixed high low topic capacity s'"
| fixed_landed: "breach_fixed high low topic capacity s \<Longrightarrow> calls_out s = (g, c) # cs \<Longrightarrow>
    breach_fixed high low topic capacity (s\<lparr>calls_out := cs, pausedParts := do_call c (pausedParts s)\<rparr>)"

lemma breach_fixed_reach: "breach_fixed high low topic capacity s \<Longrightarrow> breach high low topic capacity s"
proof (induction rule: breach_fixed.induct)
  case (fixed_landed s g c cs)
  then show ?case using breach_step [OF fixed_landed.IH bstep.landed [of s "[]" g c cs]] by simp
qed (blast intro: breach_start breach_step)+

lemma settled_asks:
  "settled (s\<lparr>bp := b, pend := q, calls_out := calls_out s @ map (Pair g) calls\<rparr>) = fold do_call calls (settled s)"
  "settled (s\<lparr>bp := b, queued := qd, calls_out := calls_out s @ map (Pair g) calls\<rparr>) = fold do_call calls (settled s)"
  by (simp_all add: settled_def comp_def)

lemma worker_parts_upd [simp]:
  "worker_parts (b\<lparr>workerPartitionMap := m(w \<mapsto> ps)\<rparr>) v = (if v = w then ps else worker_parts (b\<lparr>workerPartitionMap := m\<rparr>) v)"
  "worker_parts (b\<lparr>workerBPMap := bm\<rparr>) v = worker_parts b v" "worker_parts (b\<lparr>partitionHotCount := c\<rparr>) v = worker_parts b v"
  "worker_parts (b\<lparr>workerPartitionMap := workerPartitionMap b\<rparr>) v = worker_parts b v"
  by (simp_all add: worker_parts_def)

lemma hot_dom: "hot_on b p \<subseteq> dom (workerBPMap b)"
  by (auto simp: hot_on_def worker_state_def split: option.splits)

lemma pause_inv_enqueue:
  assumes "pause_inv s" "pend s = Some (w, p)" "OnEnqueue (bp s) w p = Done (b, calls)"
    "hot (worker_state (bp s) w) \<longrightarrow> p \<in> set (worker_parts (bp s) w)"
  shows "pause_inv (s\<lparr>bp := b, pend := None, calls_out := calls_out s @ map (Pair g) calls\<rparr>)"
proof -
  obtain m where m: "partitionHotCount (bp s) = Some m" "hasPauseResumer (bp s)" "\<And>w. distinct (worker_parts (bp s) w)"
    "finite (dom (workerBPMap (bp s)))" "\<And>p. hot_count m p = int (card (hot_on (bp s) p))" "settled s = {p. 0 < hot_count m p}"
    using assms(1) by (auto simp: pause_inv_def)
  let ?ps = "List.insert p (worker_parts (bp s) w)"
  let ?heat = "highThreshold (bp s) < depth (worker_state (bp s) w) + 1 \<and> \<not> hot (worker_state (bp s) w)"
  have fin: "finite (hot_on (bp s) q)" for q using finite_subset [OF hot_dom m(4)] .
  show ?thesis
  proof (cases ?heat)
    case True
    obtain m' qs where l: "pause_loop ?ps m = (m', qs)" by fastforce
    have b: "partitionHotCount b = Some m'" "hasPauseResumer b" "worker_parts b v = (if v = w then ?ps else worker_parts (bp s) v)"
      "dom (workerBPMap b) = insert w (dom (workerBPMap (bp s)))" "hot (worker_state b v) = (v = w \<or> hot (worker_state (bp s) v))"
      "calls = map (PauseFetchPartitions (bpTopic (bp s))) qs" for v
      using assms(3) True m(1,2) l by (auto simp: OnEnqueue_def Let_def split: if_splits)
    have d: "distinct ?ps" using m(3) by simp
    have "hot_on b q = (if q \<in> set ?ps then insert w (hot_on (bp s) q) else hot_on (bp s) q)" for q
      using True by (auto simp: hot_on_def b split: if_splits)
    moreover have "w \<notin> hot_on (bp s) q" for q using True by (simp add: hot_on_def)
    ultimately have "hot_count m' q = int (card (hot_on b q))" for q
      using pause_loop_counts [OF d, of m q] m(5) fin by (simp add: l)
    moreover have "fold do_call calls (settled s) = {q. 0 < hot_count m' q}"
      using pause_loop_new [OF d, of m] pause_loop_counts [OF d, of m] m(5) by (auto simp: b fold_pause m(6) l)
    ultimately show ?thesis using m(3,4) by (simp add: pause_inv_def settled_asks b(1-5))
  next
    case False
    then have b: "partitionHotCount b = Some m" "hasPauseResumer b" "worker_parts b v = (if v = w then ?ps else worker_parts (bp s) v)"
      "dom (workerBPMap b) = insert w (dom (workerBPMap (bp s)))" "hot (worker_state b v) = hot (worker_state (bp s) v)" "calls = []" for v
      using assms(3) m(1,2) by (auto simp: OnEnqueue_def Let_def split: if_splits)
    have "hot_on b q = hot_on (bp s) q" for q using assms(4) by (auto simp: hot_on_def b)
    then show ?thesis using m(3-6) by (auto simp: pause_inv_def b settled_def)
  qed
qed

lemma OnDequeue_cools:
  assumes "workerBPMap b0 w = Some st" "max 0 (depth st - 1) < lowThreshold b0 \<and> hot st" "partitionHotCount b0 = Some m" "hasPauseResumer b0"
    "resume_loop (worker_parts b0 w) m = (m', qs)" "OnDequeue b0 w = Done (b, calls)"
  shows "b = b0\<lparr>workerBPMap := (workerBPMap b0)(w \<mapsto> st\<lparr>depth := max 0 (depth st - 1), hot := False\<rparr>), partitionHotCount := Some m'\<rparr> \<and>
    calls = map (ResumeFetchPartitions (bpTopic b0)) qs"
proof (cases "worker_parts b0 w")
  case Nil
  have "b0\<lparr>workerBPMap := f\<rparr> = b0\<lparr>workerBPMap := f, partitionHotCount := Some m\<rparr>" for f
    using assms(3) by (cases b0) simp
  with Nil assms show ?thesis by (auto simp: OnDequeue_def Let_def)
next
  case (Cons p ps)
  with assms show ?thesis by (auto simp: OnDequeue_def Let_def simp del: resume_loop.simps)
qed

lemma pause_inv_dequeue:
  assumes "pause_inv s" "OnDequeue (bp s) w = Done (b, calls)"
  shows "pause_inv (s\<lparr>bp := b, queued := qd, calls_out := calls_out s @ map (Pair g) calls\<rparr>)"
proof (cases "workerBPMap (bp s) w")
  case None
  with assms show ?thesis by (auto simp: OnDequeue_def pause_inv_def settled_def)
next
  case (Some st)
  then have st: "worker_state (bp s) w = st" by (simp add: worker_state_def)
  obtain m where m: "partitionHotCount (bp s) = Some m" "hasPauseResumer (bp s)" "\<And>w. distinct (worker_parts (bp s) w)"
    "finite (dom (workerBPMap (bp s)))" "\<And>p. hot_count m p = int (card (hot_on (bp s) p))" "settled s = {p. 0 < hot_count m p}"
    using assms(1) by (auto simp: pause_inv_def)
  have fin: "finite (hot_on (bp s) q)" for q using finite_subset [OF hot_dom m(4)] .
  let ?ps = "worker_parts (bp s) w"
  show ?thesis
  proof (cases "max 0 (depth st - 1) < lowThreshold (bp s) \<and> hot st")
    case True
    obtain m' qs where l: "resume_loop ?ps m = (m', qs)" by fastforce
    have e: "b = bp s\<lparr>workerBPMap := (workerBPMap (bp s))(w \<mapsto> st\<lparr>depth := max 0 (depth st - 1), hot := False\<rparr>), partitionHotCount := Some m'\<rparr>"
      "calls = map (ResumeFetchPartitions (bpTopic (bp s))) qs"
      using OnDequeue_cools [OF Some _ m(1,2) l, of b calls] True assms(2) by simp_all
    have b: "partitionHotCount b = Some m'" "hasPauseResumer b" "worker_parts b v = worker_parts (bp s) v"
      "dom (workerBPMap b) = insert w (dom (workerBPMap (bp s)))" "hot (worker_state b v) = (v \<noteq> w \<and> hot (worker_state (bp s) v))"
      "calls = map (ResumeFetchPartitions (bpTopic (bp s))) qs" for v
      using m(2) by (auto simp: e split: if_splits)
    note d = m(3) [of w]
    have "hot_on b q = hot_on (bp s) q - {w}" for q by (auto simp: hot_on_def b)
    moreover have "w \<in> hot_on (bp s) q \<longleftrightarrow> q \<in> set ?ps" for q using True st by (simp add: hot_on_def)
    ultimately have c: "hot_count m' q = int (card (hot_on b q))" for q
      using resume_loop_counts [OF d, of m q] m(5) [of q] fin [of q]
      by (auto simp: l card_Diff_singleton_if of_nat_diff Suc_leI card_gt_0_iff)
    moreover have "fold do_call calls (settled s) = {q. 0 < hot_count m' q}"
      using resume_loop_free [OF d, of m] resume_loop_counts [OF d, of m] by (auto simp: b fold_resume m(6) l)
    ultimately show ?thesis using m(3,4) by (simp add: pause_inv_def settled_asks b(1-5))
  next
    case False
    then have b: "partitionHotCount b = Some m" "hasPauseResumer b" "worker_parts b v = worker_parts (bp s) v"
      "dom (workerBPMap b) = insert w (dom (workerBPMap (bp s)))" "hot (worker_state b v) = hot (worker_state (bp s) v)" "calls = []" for v
      using assms(2) m(1,2) Some st by (auto simp: OnDequeue_def Let_def split: if_splits)
    have "hot_on b q = hot_on (bp s) q" for q by (auto simp: hot_on_def b)
    then show ?thesis using m(3-6) by (auto simp: pause_inv_def b settled_def)
  qed
qed

lemma breach_fixed_inv: "breach_fixed high low topic capacity s \<Longrightarrow> pause_inv s"
proof (induction rule: breach_fixed.induct)
  case fixed_start
  then show ?case
    by (simp add: pause_inv_def bp_start_def InitBP_def zero_bp_def worker_parts_def hot_count_def hot_on_def settled_def)
next
  case (fixed_step s s')
  from fixed_step(2) show ?case
  proof cases
    case (sent w p)
    with fixed_step.IH show ?thesis by (simp add: pause_inv_def settled_def)
  next
    case (counted w p b calls)
    with fixed_step pause_inv_enqueue show ?thesis by blast
  next
    case (taken w b calls)
    with fixed_step.IH pause_inv_dequeue show ?thesis by blast
  next
    case (landed xs g c ys)
    with fixed_step(4) show ?thesis by simp
  qed
next
  case (fixed_landed s g c cs)
  then show ?case by (simp add: pause_inv_def settled_def)
qed

text \<open>
  C26. As long as no hot worker receives a partition it has not had before and the calls to the client land in the
  order of the reports that ask for them, the counter of a partition is the number of hot workers it belongs to, and
  the partitions paused once the outstanding calls have landed are exactly those of the hot workers; so when no
  call is outstanding, the client has paused exactly these.
\<close>

theorem bp_paused_exact:
  assumes "breach_fixed high low topic capacity s"
  shows "(\<exists>m. partitionHotCount (bp s) = Some m \<and>
       (\<forall>p. hot_count m p = int (card {w. hot (worker_state (bp s) w) \<and> p \<in> set (worker_parts (bp s) w)}))) \<and>
     fold do_call (map snd (calls_out s)) (pausedParts s) =
       {p. \<exists>w. hot (worker_state (bp s) w) \<and> p \<in> set (worker_parts (bp s) w)} \<and>
     (calls_out s = [] \<longrightarrow> pausedParts s = {p. \<exists>w. hot (worker_state (bp s) w) \<and> p \<in> set (worker_parts (bp s) w)})"
proof -
  from breach_fixed_inv [OF assms] obtain m where m: "partitionHotCount (bp s) = Some m" "finite (dom (workerBPMap (bp s)))"
    "\<forall>p. hot_count m p = int (card (hot_on (bp s) p))" "settled s = {p. 0 < hot_count m p}"
    unfolding pause_inv_def by blast
  have "finite (hot_on (bp s) q)" for q using finite_subset [OF hot_dom m(2)] .
  then have "settled s = {p. \<exists>w. hot (worker_state (bp s) w) \<and> p \<in> set (worker_parts (bp s) w)}"
    by (auto simp: m card_gt_0_iff) (auto simp: hot_on_def)
  with m(1,3) show ?thesis by (auto simp: settled_def hot_on_def)
qed

section \<open>Example runs\<close>

text \<open>
  Runs in which every record is counted before anything else happens; \<open>Lands i\<close> makes the call at position \<open>i\<close> of the
  outstanding ones.
\<close>

datatype bp_event = Sent int int | Taken int | Lands nat

fun bp_exec :: "bp_event list \<Rightarrow> BPSys \<Rightarrow> BPSys outcome" where
  "bp_exec [] s = Done s"
| "bp_exec (Sent w p # es) s = (if Dispatcher \<in> fst ` set (calls_out s) then Fail else bind_out (OnEnqueue (bp s) w p) (\<lambda>(b, calls).
     bp_exec es (s\<lparr>bp := b, queued := (queued s)(w := queued s w + 1), calls_out := calls_out s @ map (Pair Dispatcher) calls\<rparr>)))"
| "bp_exec (Taken w # es) s = (if queued s w = 0 \<or> Worker w \<in> fst ` set (calls_out s) then Fail else bind_out (OnDequeue (bp s) w) (\<lambda>(b, calls).
     bp_exec es (s\<lparr>bp := b, queued := (queued s)(w := queued s w - 1), calls_out := calls_out s @ map (Pair (Worker w)) calls\<rparr>)))"
| "bp_exec (Lands i # es) s = (let xs = take i (calls_out s) in
     case drop i (calls_out s) of
       [] \<Rightarrow> Fail
     | (g, c) # ys \<Rightarrow> if g \<in> fst ` set xs then Fail
         else bp_exec es (s\<lparr>calls_out := xs @ ys, pausedParts := do_call c (pausedParts s)\<rparr>))"

lemma sent_counted:
  assumes "pend s = None" "idle s Dispatcher" "OnEnqueue (bp s) w p = Done (b, calls)"
  defines "t \<equiv> s\<lparr>queued := (queued s)(w := queued s w + 1), pend := Some (w, p)\<rparr>"
  shows "bstep s t" "bstep t (s\<lparr>bp := b, queued := (queued s)(w := queued s w + 1), calls_out := calls_out s @ map (Pair Dispatcher) calls\<rparr>)"
proof -
  show "bstep s t" unfolding t_def using assms(1,2) by (rule bstep.sent)
  have "bstep t (t\<lparr>bp := b, pend := None, calls_out := calls_out t @ map (Pair Dispatcher) calls\<rparr>)"
    using bstep.counted [of t w p b calls] assms(3) by (simp add: t_def)
  moreover have "t\<lparr>bp := b, pend := None, calls_out := calls_out t @ map (Pair Dispatcher) calls\<rparr> =
      s\<lparr>bp := b, queued := (queued s)(w := queued s w + 1), calls_out := calls_out s @ map (Pair Dispatcher) calls\<rparr>"
    using assms(1) by (cases s) (simp add: t_def)
  ultimately show "bstep t (s\<lparr>bp := b, queued := (queued s)(w := queued s w + 1), calls_out := calls_out s @ map (Pair Dispatcher) calls\<rparr>)"
    by (simp only:)
qed

lemma bp_exec_reach:
  "breach high low topic capacity s \<Longrightarrow> pend s = None \<Longrightarrow> bp_exec es s = Done s' \<Longrightarrow> breach high low topic capacity s'"
proof (induction es arbitrary: s)
  case (Cons e es)
  show ?case
  proof (cases e)
    case (Sent w p)
    with Cons.prems(3) obtain b calls where q: "OnEnqueue (bp s) w p = Done (b, calls)" "idle s Dispatcher"
      "bp_exec es (s\<lparr>bp := b, queued := (queued s)(w := queued s w + 1), calls_out := calls_out s @ map (Pair Dispatcher) calls\<rparr>) = Done s'"
      by (auto simp: bind_out_Done idle_def split: if_splits)
    have "breach high low topic capacity (s\<lparr>bp := b, queued := (queued s)(w := queued s w + 1), calls_out := calls_out s @ map (Pair Dispatcher) calls\<rparr>)"
      using breach_step [OF breach_step [OF Cons.prems(1) sent_counted(1) [OF Cons.prems(2) q(2,1)]] sent_counted(2) [OF Cons.prems(2) q(2,1)]] .
    then show ?thesis using Cons.IH q(3) Cons.prems(2) by simp
  next
    case (Taken w)
    with Cons.prems(3) obtain b calls where q: "OnDequeue (bp s) w = Done (b, calls)" "0 < queued s w" "idle s (Worker w)"
      "bp_exec es (s\<lparr>bp := b, queued := (queued s)(w := queued s w - 1), calls_out := calls_out s @ map (Pair (Worker w)) calls\<rparr>) = Done s'"
      by (auto simp: bind_out_Done idle_def split: if_splits)
    have "breach high low topic capacity (s\<lparr>bp := b, queued := (queued s)(w := queued s w - 1), calls_out := calls_out s @ map (Pair (Worker w)) calls\<rparr>)"
      using breach_step [OF Cons.prems(1) bstep.taken [OF q(2,3,1)]] .
    then show ?thesis using Cons.IH q(4) Cons.prems(2) by simp
  next
    case (Lands i)
    with Cons.prems(3) obtain g c ys where q: "drop i (calls_out s) = (g, c) # ys" "g \<notin> fst ` set (take i (calls_out s))"
      "bp_exec es (s\<lparr>calls_out := take i (calls_out s) @ ys, pausedParts := do_call c (pausedParts s)\<rparr>) = Done s'"
      by (auto simp: Let_def split: list.splits if_splits)
    have "calls_out s = take i (calls_out s) @ (g, c) # ys" using q(1) by (metis append_take_drop_id)
    from breach_step [OF Cons.prems(1) bstep.landed [OF this q(2)]] show ?thesis using Cons.IH q(3) Cons.prems(2) by simp
  qed
qed simp

lemma demo_bp_start: "bp_start (Fin (1 / 2)) (Fin (1 / 2)) ''book'' 2 =
  \<lparr>bp = \<lparr>workerBPMap = Map.empty, workerPartitionMap = Map.empty, partitionHotCount = Some Map.empty, highThreshold = 1,
     lowThreshold = 1, hasPauseResumer = True, bpTopic = ''book'', bpOnce = True\<rparr>, queued = (\<lambda>w. 0), pend = None, calls_out = [], pausedParts = {}\<rparr>"
  by (simp add: bp_start_def InitBP_def zero_bp_def f_of_int_def)

lemma demo_bp_pending: "pend (bp_start (Fin (1 / 2)) (Fin (1 / 2)) ''book'' 2) = None"
  by (simp add: demo_bp_start)

lemmas bp_eval = demo_bp_start OnEnqueue_def OnDequeue_def worker_state_def worker_parts_def hot_count_def Let_def List.insert_def

lemma demo_bp_hot:
  "\<exists>s. bp_exec [Sent 1 10, Sent 1 10] (bp_start (Fin (1 / 2)) (Fin (1 / 2)) ''book'' 2) = Done s \<and> depth (worker_state (bp s) 1) = 2 \<and>
     queued s 1 = 2 \<and> pend s = None"
  by (simp add: bp_eval)

theorem bp_depth_bounds_witness:
  "\<exists>s. breach (Fin (1 / 2)) (Fin (1 / 2)) ''book'' 2 s \<and> queued s 1 = 2 \<and> 2 \<le> depth (worker_state (bp s) 1) \<and> depth (worker_state (bp s) 1) \<le> 3"
proof -
  from demo_bp_hot obtain s where e: "bp_exec [Sent 1 10, Sent 1 10] (bp_start (Fin (1 / 2)) (Fin (1 / 2)) ''book'' 2) = Done s"
    and q: "queued s 1 = 2" "pend s = None" by blast
  have r: "breach (Fin (1 / 2)) (Fin (1 / 2)) ''book'' 2 s"
    using bp_exec_reach [OF breach_start demo_bp_pending e] .
  from bp_depth_bounds [OF r, of 1] q have "2 \<le> depth (worker_state (bp s) 1)" "depth (worker_state (bp s) 1) \<le> 3"
    by (simp_all add: Let_def f_of_int_def)
  with r q show ?thesis by blast
qed

lemma fixed_send:
  assumes "breach_fixed high low topic capacity s" "pend s = None" "idle s Dispatcher" "OnEnqueue (bp s) w p = Done (b, calls)"
    "hot (worker_state (bp s) w) \<longrightarrow> p \<in> set (worker_parts (bp s) w)"
  shows "breach_fixed high low topic capacity
    (s\<lparr>bp := b, queued := (queued s)(w := queued s w + 1), calls_out := calls_out s @ map (Pair Dispatcher) calls\<rparr>)"
proof -
  note q = sent_counted [OF assms(2-4)]
  have "breach_fixed high low topic capacity (s\<lparr>queued := (queued s)(w := queued s w + 1), pend := Some (w, p)\<rparr>)"
    using assms(1) q(1) by (rule fixed_step) (simp_all add: assms(2))
  then show ?thesis using q(2) by (rule fixed_step) (use assms(5) in simp_all)
qed

definition demo_bp :: "WorkerBPState \<Rightarrow> (int \<rightharpoonup> int) \<Rightarrow> BP" where
  "demo_bp ws counts = \<lparr>workerBPMap = [1 \<mapsto> ws], workerPartitionMap = [1 \<mapsto> [10]], partitionHotCount = Some counts, highThreshold = 1,
     lowThreshold = 1, hasPauseResumer = True, bpTopic = ''book'', bpOnce = True\<rparr>"

lemma demo_bp_enqueues:
  "OnEnqueue (bp (bp_start (Fin (1 / 2)) (Fin (1 / 2)) ''book'' 2)) 1 10 = Done (demo_bp \<lparr>depth = 1, hot = False\<rparr> Map.empty, [])"
  "OnEnqueue (demo_bp \<lparr>depth = 1, hot = False\<rparr> Map.empty) 1 10 =
     Done (demo_bp \<lparr>depth = 2, hot = True\<rparr> [10 \<mapsto> 1], [PauseFetchPartitions ''book'' 10])"
  by (simp_all add: bp_eval demo_bp_def)

theorem bp_paused_exact_witness:
  "\<exists>s. breach_fixed (Fin (1 / 2)) (Fin (1 / 2)) ''book'' 2 s \<and> calls_out s = [] \<and> pausedParts s = {10} \<and>
     {p. \<exists>w. hot (worker_state (bp s) w) \<and> p \<in> set (worker_parts (bp s) w)} = {10}"
proof -
  let ?s0 = "bp_start (Fin (1 / 2)) (Fin (1 / 2)) ''book'' 2"
  let ?s1 = "?s0\<lparr>bp := demo_bp \<lparr>depth = 1, hot = False\<rparr> Map.empty, queued := (queued ?s0)(1 := queued ?s0 1 + 1),
    calls_out := calls_out ?s0 @ map (Pair Dispatcher) []\<rparr>"
  have r1: "breach_fixed (Fin (1 / 2)) (Fin (1 / 2)) ''book'' 2 ?s1"
    by (rule fixed_send [OF fixed_start demo_bp_pending _ demo_bp_enqueues(1)]) (simp_all add: bp_eval idle_def)
  have o2: "OnEnqueue (bp ?s1) 1 10 = Done (demo_bp \<lparr>depth = 2, hot = True\<rparr> [10 \<mapsto> 1], [PauseFetchPartitions ''book'' 10])"
    by (simp add: demo_bp_enqueues)
  let ?s2 = "?s1\<lparr>bp := demo_bp \<lparr>depth = 2, hot = True\<rparr> [10 \<mapsto> 1], queued := (queued ?s1)(1 := queued ?s1 1 + 1),
    calls_out := calls_out ?s1 @ map (Pair Dispatcher) [PauseFetchPartitions ''book'' 10]\<rparr>"
  have r2: "breach_fixed (Fin (1 / 2)) (Fin (1 / 2)) ''book'' 2 ?s2"
    by (rule fixed_send [OF r1 _ _ o2]) (simp_all add: demo_bp_pending demo_bp_def demo_bp_start worker_state_def idle_def)
  let ?s3 = "?s2\<lparr>calls_out := [], pausedParts := do_call (PauseFetchPartitions ''book'' 10) (pausedParts ?s2)\<rparr>"
  have r3: "breach_fixed (Fin (1 / 2)) (Fin (1 / 2)) ''book'' 2 ?s3"
    by (rule fixed_landed [OF r2, of Dispatcher]) (simp add: demo_bp_start)
  have e: "calls_out ?s3 = []" "pausedParts ?s3 = {10}" by (simp_all add: demo_bp_start)
  then have "{p. \<exists>w. hot (worker_state (bp ?s3) w) \<and> p \<in> set (worker_parts (bp ?s3) w)} = {10}"
    using bp_paused_exact [OF r3] by (metis (no_types, lifting))
  with r3 e show ?thesis by blast
qed

text \<open>
  A partition is resumed under a hot worker. Worker 1 goes hot on partition 10, which is paused; worker 2 goes hot on
  partition 20 and then receives a record of partition 10, which nothing counts; when worker 2 has drained its queue it
  takes partition 10 off the count, and fetching it resumes while worker 1 is still above the threshold.
\<close>

theorem bp_resumes_hot_partition:
  "\<exists>s. breach (Fin (1 / 2)) (Fin (1 / 2)) ''book'' 2 s \<and> hot (worker_state (bp s) 1) \<and> 10 \<in> set (worker_parts (bp s) 1) \<and>
     depth (worker_state (bp s) 1) > highThreshold (bp s) \<and> calls_out s = [] \<and> 10 \<notin> pausedParts s"
proof -
  let ?es = "[Sent 1 10, Sent 1 10, Lands 0, Sent 2 20, Sent 2 20, Lands 0, Sent 2 10, Taken 2, Taken 2, Taken 2, Lands 0, Lands 0]"
  have "\<exists>s. bp_exec ?es (bp_start (Fin (1 / 2)) (Fin (1 / 2)) ''book'' 2) = Done s \<and> hot (worker_state (bp s) 1) \<and> 10 \<in> set (worker_parts (bp s) 1) \<and>
     depth (worker_state (bp s) 1) > highThreshold (bp s) \<and> calls_out s = [] \<and> 10 \<notin> pausedParts s"
    by (simp add: bp_eval)
  then show ?thesis using bp_exec_reach [OF breach_start demo_bp_pending, of ?es] by blast
qed

text \<open>
  A late resume. Worker 1 has cooled down and is about to resume its partition when the dispatcher reports two
  more records, makes it hot again and pauses the partition; then the resume lands, and nothing pauses the partition
  again as long as the worker stays hot.
\<close>

lemma late_resume_unpauses:
  "\<exists>s. breach (Fin (1 / 2)) (Fin (1 / 2)) ''book'' 2 s \<and> hot (worker_state (bp s) 1) \<and> worker_parts (bp s) 1 = [10] \<and>
     depth (worker_state (bp s) 1) > highThreshold (bp s) \<and> calls_out s = [] \<and> pausedParts s = {}"
proof -
  let ?es = "[Sent 1 10, Sent 1 10, Lands 0, Taken 1, Taken 1, Sent 1 10, Sent 1 10, Lands 1, Lands 0]"
  have "\<exists>s. bp_exec ?es (bp_start (Fin (1 / 2)) (Fin (1 / 2)) ''book'' 2) = Done s \<and> hot (worker_state (bp s) 1) \<and> worker_parts (bp s) 1 = [10] \<and>
     depth (worker_state (bp s) 1) > highThreshold (bp s) \<and> calls_out s = [] \<and> pausedParts s = {}"
    by (simp add: bp_eval)
  then show ?thesis using bp_exec_reach [OF breach_start demo_bp_pending, of ?es] by blast
qed

end
