(* ===== verification/Sorted_Assoc.thy ===== *)
theory Sorted_Assoc
  imports Main
begin

text \<open>
  The reference model of an ordered tree: an association list with strictly increasing keys, its
  insert-or-update and its delete, and their laws as a map.
\<close>

fun al_upsert :: "'k :: linorder \<Rightarrow> 'v \<Rightarrow> ('k \<times> 'v) list \<Rightarrow> ('k \<times> 'v) list" where
  "al_upsert k v [] = [(k, v)]"
| "al_upsert k v ((k', v') # xs) =
     (if k' < k then (k', v') # al_upsert k v xs
      else if k' = k then (k, v) # xs
      else (k, v) # (k', v') # xs)"

definition al_delete :: "'k :: linorder \<Rightarrow> ('k \<times> 'v) list \<Rightarrow> ('k \<times> 'v) list" where
  "al_delete k xs = filter (\<lambda>e. fst e \<noteq> k) xs"

abbreviation al_sorted :: "('k :: linorder \<times> 'v) list \<Rightarrow> bool" where
  "al_sorted xs \<equiv> sorted_wrt (<) (map fst xs)"

lemma al_upsert_split:
  assumes "\<forall>e \<in> set xs. fst e < k"
  shows "al_upsert k v (xs @ ys) = xs @ al_upsert k v ys"
  using assms by (induction xs) auto

lemma al_upsert_new:
  assumes "\<forall>e \<in> set xs. fst e < k" and "\<forall>e \<in> set ys. k < fst e"
  shows "al_upsert k v (xs @ ys) = xs @ (k, v) # ys"
  using assms(2) unfolding al_upsert_split [OF assms(1)] by (cases ys) auto

lemma al_upsert_hit:
  assumes "\<forall>e \<in> set xs. fst e < k"
  shows "al_upsert k v (xs @ (k, w) # ys) = xs @ (k, v) # ys"
  using assms by (simp add: al_upsert_split)

lemma al_delete_hit:
  assumes "\<forall>e \<in> set xs. fst e < k" and "\<forall>e \<in> set ys. k < fst e"
  shows "al_delete k (xs @ (k, w) # ys) = xs @ ys"
proof -
  from assms have "filter (\<lambda>e. fst e \<noteq> k) xs = xs" "filter (\<lambda>e. fst e \<noteq> k) ys = ys"
    unfolding filter_id_conv by auto
  then show ?thesis by (simp add: al_delete_def)
qed

lemma al_delete_miss: "k \<notin> fst ` set xs \<Longrightarrow> al_delete k xs = xs"
  unfolding al_delete_def by (auto simp: filter_id_conv)

lemma map_of_al_upsert: "al_sorted xs \<Longrightarrow> map_of (al_upsert k v xs) = (map_of xs)(k \<mapsto> v)"
proof (induction xs)
  case (Cons e xs)
  obtain k' v' where "e = (k', v')" by (cases e)
  with Cons show ?case by (auto simp: fun_eq_iff)
qed simp

lemma map_of_al_delete: "map_of (al_delete k xs) = (map_of xs)(k := None)"
  by (induction xs) (auto simp: al_delete_def fun_eq_iff)

lemma set_al_upsert: "al_sorted xs \<Longrightarrow> set (al_upsert k v xs) = insert (k, v) {e \<in> set xs. fst e \<noteq> k}"
proof (induction xs)
  case (Cons e xs)
  obtain k' v' where e: "e = (k', v')" by (cases e)
  from Cons.prems have gt: "\<forall>e \<in> set xs. k' < fst e" by (auto simp: e)
  from Cons show ?case
  proof (cases "k' < k")
    case True
    with Cons show ?thesis by (auto simp: e)
  next
    case False
    with gt have "\<forall>e \<in> set xs. fst e \<noteq> k" by auto
    with False show ?thesis by (auto simp: e)
  qed
qed simp

lemma al_sorted_upsert: "al_sorted xs \<Longrightarrow> al_sorted (al_upsert k v xs)"
proof (induction xs)
  case (Cons e xs)
  obtain k' v' where "e = (k', v')" by (cases e)
  with Cons show ?case by (auto simp: set_al_upsert)
qed simp

lemma al_sorted_delete: "al_sorted xs \<Longrightarrow> al_sorted (al_delete k xs)"
  by (induction xs) (auto simp: al_delete_def)

lemma al_sorted_distinct: "al_sorted xs \<Longrightarrow> distinct (map fst xs)"
  by (induction xs) auto

text \<open>A sorted list is cut in two by any bound.\<close>

lemma sorted_wrt_cut:
  fixes g :: "'a \<Rightarrow> 'k :: linorder"
  assumes "sorted_wrt (<) (map g xs)"
  shows "xs = filter (\<lambda>a. g a < k) xs @ filter (\<lambda>a. \<not> g a < k) xs"
  using assms
proof (induction xs)
  case (Cons x xs)
  show ?case
  proof (cases "g x < k")
    case False
    with Cons.prems have "filter (\<lambda>a. g a < k) xs = []" by (auto simp: filter_empty_conv)
    with Cons False show ?thesis by simp
  qed (use Cons in simp)
qed simp

end
