(* ===== verification/Skip_List.thy ===== *)
theory Skip_List
  imports Float64 Sorted_Assoc "HOL-Library.Monad_Syntax"
begin

text \<open>
  The ordered tree of the order book (\<open>orderbook/orderedtree\<close> and its one implementation,
  \<open>orderedtree/skiplist\<close>). Nodes live in an explicit heap: an address is an index of the node list,
  address 0 is the head, and a nil pointer is \<^const>\<open>None\<close>. The operations are in the option monad:
  \<^const>\<open>None\<close> is a run-time panic (an index out of range, a nil dereference) or a search that does not
  end. \<open>Insert\<close> takes the outcomes of the comparison \<open>rand.Float64() < p\<close> that its call of
  \<open>randomLevel\<close> sees, so its lemmas hold for every sequence of coin flips.

  The invariant \<open>skip_inv\<close> describes the linked structure; the operations refine a sorted
  association list, and none of them panics or loops. The contract the order book relies on is
  the locale \<open>ordered_tree\<close>.
\<close>

section \<open>The model\<close>

definition maxLevel :: nat where
  "maxLevel = 16"

record Node =
  key :: f64
  nvalue :: f64
  forward :: "nat option list"
  prev :: "nat option"

record SkipList =
  heap :: "Node list"
  tail :: "nat option"
  level :: nat
  size_of :: int

definition NewSkipList :: SkipList where
  "NewSkipList =
     \<lparr>heap = [\<lparr>key = Fin 0, nvalue = Fin 0, forward = replicate maxLevel None, prev = None\<rparr>],
      tail = None, level = 1, size_of = 0\<rparr>"

text \<open>\<open>coins\<close>: the outcomes of \<open>rand.Float64() < p\<close>, in order; none left means the flip that ends the loop.\<close>

fun randomLevel :: "bool list \<Rightarrow> nat \<Rightarrow> nat" where
  "randomLevel (True # coins) lvl = (if lvl < maxLevel then randomLevel coins (lvl + 1) else lvl)"
| "randomLevel _ lvl = lvl"

text \<open>Reads and writes through pointers, with their panics.\<close>

definition deref :: "Node list \<Rightarrow> nat \<Rightarrow> Node option" where
  "deref h a = (if a < length h then Some (h ! a) else None)"

definition fwd :: "Node list \<Rightarrow> nat \<Rightarrow> nat \<Rightarrow> nat option option" where
  "fwd h i a =
     do { nd \<leftarrow> deref h a; if i < length (forward nd) then Some (forward nd ! i) else None }"

definition set_fwd :: "Node list \<Rightarrow> nat \<Rightarrow> nat \<Rightarrow> nat option \<Rightarrow> Node list option" where
  "set_fwd h i a v =
     do { nd \<leftarrow> deref h a;
          if i < length (forward nd) then Some (h[a := nd\<lparr>forward := (forward nd)[i := v]\<rparr>]) else None }"

definition set_prev :: "Node list \<Rightarrow> nat \<Rightarrow> nat option \<Rightarrow> Node list option" where
  "set_prev h a v = do { nd \<leftarrow> deref h a; Some (h[a := nd\<lparr>prev := v\<rparr>]) }"

text \<open>A nil entry of the \<open>update\<close> slice cannot be dereferenced.\<close>

definition upd_at :: "nat option list \<Rightarrow> nat \<Rightarrow> nat option" where
  "upd_at up i = (if i < length up then up ! i else None)"

text \<open>The inner loop of \<open>find\<close> on level \<open>i\<close>; the fuel is the number of nodes ever allocated.\<close>

fun walk :: "nat \<Rightarrow> Node list \<Rightarrow> f64 \<Rightarrow> nat \<Rightarrow> nat \<Rightarrow> nat option" where
  "walk 0 h k i cur = None"
| "walk (Suc n) h k i cur =
     do { nx \<leftarrow> fwd h i cur;
          case nx of
            None \<Rightarrow> Some cur
          | Some b \<Rightarrow>
              do { nd \<leftarrow> deref h b; if f_lt (key nd) k then walk n h k i b else Some cur } }"

text \<open>The outer loop, from level \<open>i - 1\<close> down; the \<open>update\<close> argument is nil in \<open>Get\<close>.\<close>

fun descend :: "Node list \<Rightarrow> f64 \<Rightarrow> nat \<Rightarrow> nat \<Rightarrow> nat option list option \<Rightarrow>
    (nat \<times> nat option list option) option" where
  "descend h k 0 cur up = Some (cur, up)"
| "descend h k (Suc i) cur up =
     do { c \<leftarrow> walk (length h) h k i cur;
          case up of
            None \<Rightarrow> descend h k i c None
          | Some u \<Rightarrow> if i < length u then descend h k i c (Some (u[i := Some c])) else None }"

definition find :: "SkipList \<Rightarrow> f64 \<Rightarrow> nat option list option \<Rightarrow> (nat option \<times> nat option list option) option" where
  "find s k up =
     do { (cur, u) \<leftarrow> descend (heap s) k (level s) 0 up;
          nx \<leftarrow> fwd (heap s) 0 cur;
          Some (nx, u) }"

definition Size :: "SkipList \<Rightarrow> int" where
  "Size s = size_of s"

definition Get :: "SkipList \<Rightarrow> f64 \<Rightarrow> (f64 \<times> bool) option" where
  "Get s k =
     do { (res, _) \<leftarrow> find s k None;
          case res of
            None \<Rightarrow> Some (Fin 0, False)
          | Some a \<Rightarrow>
              do { nd \<leftarrow> deref (heap s) a;
                   if f_eq (key nd) k then Some (nvalue nd, True) else Some (Fin 0, False) } }"

text \<open>The linking loop of \<open>Insert\<close>, on levels \<open>i, i + 1, \<dots>, i + n - 1\<close>.\<close>

fun link_levels :: "nat \<Rightarrow> nat \<Rightarrow> nat \<Rightarrow> nat option list \<Rightarrow> Node list \<Rightarrow> Node list option" where
  "link_levels 0 i new up h = Some h"
| "link_levels (Suc n) i new up h =
     do { p \<leftarrow> upd_at up i;
          nx \<leftarrow> fwd h i p;
          h \<leftarrow> set_fwd h i new nx;
          h \<leftarrow> set_fwd h i p (Some new);
          link_levels n (Suc i) new up h }"

text \<open>\<open>for i := s.level; i < lvl; i++ { update[i] = s.head }\<close>\<close>

definition raise_update :: "nat \<Rightarrow> nat \<Rightarrow> nat option list \<Rightarrow> nat option list" where
  "raise_update lev lvl up = map (\<lambda>i. if lev \<le> i \<and> i < lvl then Some 0 else up ! i) [0..<length up]"

definition Insert :: "bool list \<Rightarrow> SkipList \<Rightarrow> f64 \<Rightarrow> f64 \<Rightarrow> (SkipList \<times> bool) option" where
  "Insert coins s k v =
     do { (res, u) \<leftarrow> find s k (Some (replicate maxLevel None));
          up \<leftarrow> u;
          found \<leftarrow> (case res of None \<Rightarrow> Some False
                   | Some a \<Rightarrow> do { nd \<leftarrow> deref (heap s) a; Some (f_eq (key nd) k) });
          if found then
            do { a \<leftarrow> res;
                 nd \<leftarrow> deref (heap s) a;
                 Some (s\<lparr>heap := (heap s)[a := nd\<lparr>nvalue := v\<rparr>]\<rparr>, False) }
          else
            let lvl = randomLevel coins 1;
                up = (if lvl > level s then raise_update (level s) lvl up else up);
                lev = (if lvl > level s then lvl else level s);
                new = length (heap s);
                h = heap s @ [\<lparr>key = k, nvalue = v, forward = replicate lvl None, prev = None\<rparr>]
            in if size_of s = 0 then
                 do { h \<leftarrow> set_fwd h 0 0 (Some new);
                      h \<leftarrow> set_prev h new (Some 0);
                      Some (\<lparr>heap = h, tail = Some new, level = lev, size_of = size_of s + 1\<rparr>, True) }
               else
                 do { p \<leftarrow> upd_at up 0;
                      nextNode \<leftarrow> fwd h 0 p;
                      h \<leftarrow> link_levels lvl 0 new up h;
                      (h, t) \<leftarrow> (case nextNode of
                          Some b \<Rightarrow> do { h \<leftarrow> set_prev h b (Some new); Some (h, tail s) }
                        | None \<Rightarrow> Some (h, Some new));
                      h \<leftarrow> set_prev h new (Some p);
                      Some (\<lparr>heap = h, tail = t, level = lev, size_of = size_of s + 1\<rparr>, True) } }"

text \<open>The unlinking loop of \<open>Delete\<close>: it stops at the first level the node is not on.\<close>

fun unlink_levels :: "nat \<Rightarrow> nat \<Rightarrow> nat \<Rightarrow> nat option list \<Rightarrow> Node list \<Rightarrow> Node list option" where
  "unlink_levels 0 i x up h = Some h"
| "unlink_levels (Suc n) i x up h =
     do { p \<leftarrow> upd_at up i;
          nx \<leftarrow> fwd h i p;
          if nx \<noteq> Some x then Some h
          else do { fx \<leftarrow> fwd h i x;
                    h \<leftarrow> set_fwd h i p fx;
                    unlink_levels n (Suc i) x up h } }"

text \<open>\<open>for s.level > 1 && s.head.forward[s.level-1] == nil { s.level-- }\<close>\<close>

fun drop_level :: "Node list \<Rightarrow> nat \<Rightarrow> nat option" where
  "drop_level h (Suc (Suc l)) =
     do { nx \<leftarrow> fwd h (Suc l) 0; if nx = None then drop_level h (Suc l) else Some (Suc (Suc l)) }"
| "drop_level h l = Some l"

definition Delete :: "SkipList \<Rightarrow> f64 \<Rightarrow> (SkipList \<times> bool) option" where
  "Delete s k =
     do { (res, u) \<leftarrow> find s k (Some (replicate maxLevel None));
          up \<leftarrow> u;
          found \<leftarrow> (case res of None \<Rightarrow> Some False
                   | Some a \<Rightarrow> do { nd \<leftarrow> deref (heap s) a; Some (f_eq (key nd) k) });
          if \<not> found then Some (s, False)
          else
            do { x \<leftarrow> res;
                 h \<leftarrow> unlink_levels (level s) 0 x up (heap s);
                 fx \<leftarrow> fwd h 0 x;
                 p \<leftarrow> upd_at up 0;
                 (h, t) \<leftarrow> (case fx of
                     Some b \<Rightarrow> do { h \<leftarrow> set_prev h b (Some p); Some (h, tail s) }
                   | None \<Rightarrow> Some (h, if p = 0 then None else Some p));
                 lev \<leftarrow> drop_level h (level s);
                 Some (\<lparr>heap = h, tail = t, level = lev, size_of = size_of s - 1\<rparr>, True) } }"

definition Min :: "SkipList \<Rightarrow> (f64 \<times> f64 \<times> bool) option" where
  "Min s =
     do { found \<leftarrow> fwd (heap s) 0 0;
          case found of
            None \<Rightarrow> Some (Fin 0, Fin 0, False)
          | Some a \<Rightarrow> do { nd \<leftarrow> deref (heap s) a; Some (key nd, nvalue nd, True) } }"

definition Max :: "SkipList \<Rightarrow> (f64 \<times> f64 \<times> bool) option" where
  "Max s =
     (case tail s of
        None \<Rightarrow> Some (Fin 0, Fin 0, False)
      | Some a \<Rightarrow> do { nd \<leftarrow> deref (heap s) a; Some (key nd, nvalue nd, True) })"

text \<open>The two iterators: \<open>SkipListIterator\<close> and \<open>SkipListReverseIterator\<close>, each holding its \<open>curr\<close>.\<close>

datatype Iterator = SkipListIterator "nat option" | SkipListReverseIterator "nat option"

definition mk_Iterator :: "SkipList \<Rightarrow> Iterator option" where
  "mk_Iterator s = do { a \<leftarrow> fwd (heap s) 0 0; Some (SkipListIterator a) }"

definition mk_ReverseIterator :: "SkipList \<Rightarrow> Iterator option" where
  "mk_ReverseIterator s = Some (SkipListReverseIterator (tail s))"

fun curr_of :: "Iterator \<Rightarrow> nat option" where
  "curr_of (SkipListIterator c) = c"
| "curr_of (SkipListReverseIterator c) = c"

fun Valid :: "SkipList \<Rightarrow> Iterator \<Rightarrow> bool option" where
  "Valid s (SkipListIterator c) = Some (c \<noteq> None)"
| "Valid s (SkipListReverseIterator None) = Some False"
| "Valid s (SkipListReverseIterator (Some a)) = do { nd \<leftarrow> deref (heap s) a; Some (prev nd \<noteq> None) }"

definition it_Key :: "SkipList \<Rightarrow> Iterator \<Rightarrow> f64 option" where
  "it_Key s it = do { a \<leftarrow> curr_of it; nd \<leftarrow> deref (heap s) a; Some (key nd) }"

definition it_Value :: "SkipList \<Rightarrow> Iterator \<Rightarrow> f64 option" where
  "it_Value s it = do { a \<leftarrow> curr_of it; nd \<leftarrow> deref (heap s) a; Some (nvalue nd) }"

fun it_Iterate :: "SkipList \<Rightarrow> Iterator \<Rightarrow> Iterator option" where
  "it_Iterate s (SkipListIterator c) =
     do { a \<leftarrow> c; nx \<leftarrow> fwd (heap s) 0 a; Some (SkipListIterator nx) }"
| "it_Iterate s (SkipListReverseIterator c) =
     do { a \<leftarrow> c; nd \<leftarrow> deref (heap s) a; Some (SkipListReverseIterator (prev nd)) }"

section \<open>Pointer writes\<close>

text \<open>Every write leaves the other fields of every node as they were.\<close>

definition frame :: "Node list \<Rightarrow> Node list \<Rightarrow> bool" where
  "frame h h' \<longleftrightarrow>
     length h' = length h \<and>
     (\<forall>a < length h. key (h' ! a) = key (h ! a) \<and> nvalue (h' ! a) = nvalue (h ! a) \<and> prev (h' ! a) = prev (h ! a))"

lemma frame_refl [simp]: "frame h h"
  by (simp add: frame_def)

lemma frame_trans: "frame h h' \<Longrightarrow> frame h' h'' \<Longrightarrow> frame h h''"
  by (simp add: frame_def)

lemma fwd_Some_lengthD: "fwd h i a = Some v \<Longrightarrow> a < length h"
  by (simp add: fwd_def deref_def bind_eq_Some_conv split: if_splits)

lemma set_fwd_ok:
  assumes "fwd h i a \<noteq> None"
  obtains h' where "set_fwd h i a v = Some h'" "frame h h'"
    "fwd h' i = (fwd h i)(a := Some v)" "\<And>j. j \<noteq> i \<Longrightarrow> fwd h' j = fwd h j"
proof
  from assms have a: "a < length h" and i: "i < length (forward (h ! a))"
    by (auto simp: fwd_def deref_def split: if_splits)
  let ?h = "h[a := (h ! a)\<lparr>forward := (forward (h ! a))[i := v]\<rparr>]"
  show "set_fwd h i a v = Some ?h" using a i by (simp add: set_fwd_def deref_def)
  show "frame h ?h" using a by (auto simp: frame_def nth_list_update)
  show "fwd ?h i = (fwd h i)(a := Some v)" using a i
    by (auto simp: fun_eq_iff fwd_def deref_def nth_list_update)
  show "fwd ?h j = fwd h j" if "j \<noteq> i" for j using a i that
    by (auto simp: fun_eq_iff fwd_def deref_def nth_list_update)
qed

lemma set_prev_ok:
  assumes "a < length h"
  obtains h' where "set_prev h a v = Some h'" "length h' = length h" "fwd h' = fwd h"
    "\<And>b. b < length h \<Longrightarrow> key (h' ! b) = key (h ! b) \<and> nvalue (h' ! b) = nvalue (h ! b)"
    "\<And>b. b < length h \<Longrightarrow> prev (h' ! b) = (if b = a then v else prev (h ! b))"
proof
  let ?h = "h[a := (h ! a)\<lparr>prev := v\<rparr>]"
  show "set_prev h a v = Some ?h" using assms by (simp add: set_prev_def deref_def)
  show "length ?h = length h" by simp
  show "fwd ?h = fwd h" using assms by (auto simp: fun_eq_iff fwd_def deref_def nth_list_update)
qed (auto simp: nth_list_update assms)

lemma link_levels_ok:
  assumes "\<And>j. i \<le> j \<Longrightarrow> j < i + n \<Longrightarrow> upd_at up j = Some (P j) \<and> fwd h j (P j) \<noteq> None \<and> fwd h j new \<noteq> None \<and> P j \<noteq> new"
  shows "\<exists>h'. link_levels n i new up h = Some h' \<and> frame h h' \<and>
    (\<forall>j. fwd h' j = (if i \<le> j \<and> j < i + n
                     then (fwd h j)(new := fwd h j (P j), P j := Some (Some new)) else fwd h j))"
  using assms
proof (induction n arbitrary: i h)
  case 0
  then show ?case by auto
next
  case (Suc n)
  from Suc.prems [of i] obtain nx where p: "upd_at up i = Some (P i)" "fwd h i (P i) = Some nx" "fwd h i new \<noteq> None" "P i \<noteq> new"
    by auto
  obtain h1 where h1: "set_fwd h i new nx = Some h1" "frame h h1"
    "fwd h1 i = (fwd h i)(new := Some nx)" "\<And>j. j \<noteq> i \<Longrightarrow> fwd h1 j = fwd h j"
    using set_fwd_ok [OF p(3)] by metis
  have "fwd h1 i (P i) \<noteq> None" using p h1(3) by simp
  then obtain h2 where h2: "set_fwd h1 i (P i) (Some new) = Some h2" "frame h1 h2"
    "fwd h2 i = (fwd h1 i)(P i := Some (Some new))" "\<And>j. j \<noteq> i \<Longrightarrow> fwd h2 j = fwd h1 j"
    using set_fwd_ok by metis
  have "\<exists>h'. link_levels n (Suc i) new up h2 = Some h' \<and> frame h2 h' \<and>
    (\<forall>j. fwd h' j = (if Suc i \<le> j \<and> j < Suc i + n
                     then (fwd h2 j)(new := fwd h2 j (P j), P j := Some (Some new)) else fwd h2 j))"
  proof (rule Suc.IH)
    fix j assume "Suc i \<le> j" "j < Suc i + n"
    then show "upd_at up j = Some (P j) \<and> fwd h2 j (P j) \<noteq> None \<and> fwd h2 j new \<noteq> None \<and> P j \<noteq> new"
      using Suc.prems [of j] h1(4) h2(4) by simp
  qed
  then obtain h' where h': "link_levels n (Suc i) new up h2 = Some h'" "frame h2 h'"
    "\<And>j. fwd h' j = (if Suc i \<le> j \<and> j < Suc i + n
                     then (fwd h2 j)(new := fwd h2 j (P j), P j := Some (Some new)) else fwd h2 j)"
    by blast
  have "fwd h' j = (if i \<le> j \<and> j < i + Suc n
                     then (fwd h j)(new := fwd h j (P j), P j := Some (Some new)) else fwd h j)" for j
    using h'(3) [of j] h1(3,4) h2(3,4) p(2) by (cases "j = i") (auto simp: not_le)
  moreover have "link_levels (Suc n) i new up h = Some h'" using p h1(1) h2(1) h'(1) by simp
  moreover have "frame h h'" using h1(2) h2(2) h'(2) by (blast intro: frame_trans)
  ultimately show ?case by blast
qed

lemma unlink_levels_ok:
  assumes "i \<le> m" "m \<le> i + n"
    and "\<And>j. i \<le> j \<Longrightarrow> j < m \<Longrightarrow> upd_at up j = Some (P j) \<and> fwd h j (P j) = Some (Some x) \<and> fwd h j x \<noteq> None \<and> P j \<noteq> x"
    and "m < i + n \<Longrightarrow> upd_at up m = Some (P m) \<and> fwd h m (P m) \<noteq> None \<and> fwd h m (P m) \<noteq> Some (Some x)"
  shows "\<exists>h'. unlink_levels n i x up h = Some h' \<and> frame h h' \<and>
    (\<forall>j. fwd h' j = (if i \<le> j \<and> j < m then (fwd h j)(P j := fwd h j x) else fwd h j))"
  using assms
proof (induction n arbitrary: i h)
  case 0
  then show ?case by auto
next
  case (Suc n)
  show ?case
  proof (cases "i = m")
    case True
    with Suc.prems(4) obtain nx where "upd_at up i = Some (P i)" "fwd h i (P i) = Some nx" "nx \<noteq> Some x" by auto
    with True show ?thesis by auto
  next
    case False
    with Suc.prems(1,3) obtain fx where p: "upd_at up i = Some (P i)" "fwd h i (P i) = Some (Some x)" "fwd h i x = Some fx" "P i \<noteq> x"
      by force
    then have "fwd h i (P i) \<noteq> None" by simp
    then obtain h1 where h1: "set_fwd h i (P i) fx = Some h1" "frame h h1"
      "fwd h1 i = (fwd h i)(P i := Some fx)" "\<And>j. j \<noteq> i \<Longrightarrow> fwd h1 j = fwd h j"
      using set_fwd_ok by metis
    have "\<exists>h'. unlink_levels n (Suc i) x up h1 = Some h' \<and> frame h1 h' \<and>
      (\<forall>j. fwd h' j = (if Suc i \<le> j \<and> j < m then (fwd h1 j)(P j := fwd h1 j x) else fwd h1 j))"
      using False Suc.prems h1(4) by (intro Suc.IH) auto
    then obtain h' where h': "unlink_levels n (Suc i) x up h1 = Some h'" "frame h1 h'"
      "\<And>j. fwd h' j = (if Suc i \<le> j \<and> j < m then (fwd h1 j)(P j := fwd h1 j x) else fwd h1 j)"
      by blast
    have "fwd h' j = (if i \<le> j \<and> j < m then (fwd h j)(P j := fwd h j x) else fwd h j)" for j
      using h'(3) [of j] h1(3,4) p False Suc.prems(1) by (cases "j = i") auto
    moreover have "unlink_levels (Suc n) i x up h = Some h'" using p h1(1) h'(1) by simp
    moreover have "frame h h'" using h1(2) h'(2) by (blast intro: frame_trans)
    ultimately show ?thesis by blast
  qed
qed

section \<open>Chains\<close>

text \<open>The nodes a forward pointer leads through, and the back pointers on the way.\<close>

primrec chain :: "(nat \<Rightarrow> nat option option) \<Rightarrow> nat \<Rightarrow> nat list \<Rightarrow> bool" where
  "chain f a [] = (f a = Some None)"
| "chain f a (b # xs) = (f a = Some (Some b) \<and> chain f b xs)"

primrec prevs :: "(nat \<Rightarrow> nat option) \<Rightarrow> nat \<Rightarrow> nat list \<Rightarrow> bool" where
  "prevs g p [] = True"
| "prevs g p (a # xs) = (g a = Some p \<and> prevs g a xs)"

lemma chain_append: "chain f a (xs @ ys) \<Longrightarrow> chain f (last (a # xs)) ys"
  by (induction xs arbitrary: a) auto

lemma chain_head: "chain f a xs \<Longrightarrow> f a = Some (case xs of [] \<Rightarrow> None | b # _ \<Rightarrow> Some b)"
  by (cases xs) auto

lemma chain_mem: "chain f a xs \<Longrightarrow> b \<in> set (a # xs) \<Longrightarrow> f b \<noteq> None"
  by (induction xs arbitrary: a) auto

lemma chain_cong: "(\<And>b. b \<in> set (a # xs) \<Longrightarrow> f b = g b) \<Longrightarrow> chain f a xs \<longleftrightarrow> chain g a xs"
  by (induction xs arbitrary: a) auto

lemma chain_insert:
  assumes "chain f a (xs @ ys)" "distinct (a # xs @ ys)" "n \<notin> set (a # xs @ ys)"
  shows "chain (f(n := f (last (a # xs)), last (a # xs) := Some (Some n))) a (xs @ n # ys)"
  using assms
proof (induction xs arbitrary: a)
  case Nil
  let ?g = "f(n := f a, a := Some (Some n))"
  from Nil have "chain ?g n ys"
    by (cases ys) (auto intro: chain_cong [THEN iffD1, rotated])
  moreover have "?g a = Some (Some n)" by simp
  ultimately have "chain ?g a (n # ys)" unfolding chain.simps by (rule conjI [rotated])
  then show ?case by (simp only: append.simps last_ConsL)
next
  case (Cons b xs)
  then show ?case by (auto split: if_splits)
qed

lemma chain_delete:
  assumes "chain f a (xs @ x # ys)" "distinct (a # xs @ x # ys)"
  shows "chain (f(last (a # xs) := f x)) a (xs @ ys)"
  using assms
proof (induction xs arbitrary: a)
  case Nil
  then show ?case
    by (cases ys) (auto intro: chain_cong [THEN iffD1, rotated])
next
  case (Cons b xs)
  then show ?case by (auto split: if_splits)
qed

lemma prevs_append: "prevs g p (xs @ ys) \<longleftrightarrow> prevs g p xs \<and> prevs g (last (p # xs)) ys"
  by (induction xs arbitrary: p) auto

lemma prevs_cong: "(\<And>b. b \<in> set xs \<Longrightarrow> g b = g' b) \<Longrightarrow> prevs g p xs \<longleftrightarrow> prevs g' p xs"
  by (induction xs arbitrary: p) auto

lemma walk_chain:
  assumes "chain (fwd h i) a (xs @ ys)" and "length xs < n" and "k \<noteq> NaN"
    and "\<And>b. b \<in> set (xs @ ys) \<Longrightarrow> b < length h \<and> key (h ! b) \<noteq> NaN"
    and "\<And>b. b \<in> set xs \<Longrightarrow> key (h ! b) < k" and "\<And>b. b \<in> set ys \<Longrightarrow> \<not> key (h ! b) < k"
  shows "walk n h k i a = Some (last (a # xs))"
  using assms
proof (induction xs arbitrary: a n)
  case Nil
  then obtain m where "n = Suc m" by (cases n) auto
  with Nil show ?case by (cases ys) (auto simp: deref_def f_lt_less)
next
  case (Cons b xs)
  then obtain m where "n = Suc m" by (cases n) auto
  with Cons show ?case by (auto simp: deref_def f_lt_less)
qed

section \<open>The invariant\<close>

definition on_level :: "(nat \<Rightarrow> nat) \<Rightarrow> nat \<Rightarrow> nat list \<Rightarrow> nat list" where
  "on_level ht i L = filter (\<lambda>a. i < ht a) L"

lemma on_level_simps [simp]:
  "on_level ht i [] = []"
  "on_level ht i (A @ B) = on_level ht i A @ on_level ht i B"
  "on_level ht i (a # L) = (if i < ht a then a # on_level ht i L else on_level ht i L)"
  "set (on_level ht i L) = {a \<in> set L. i < ht a}"
  by (simp_all add: on_level_def)

lemma on_level_0: "(\<And>a. a \<in> set L \<Longrightarrow> 1 \<le> ht a) \<Longrightarrow> on_level ht 0 L = L"
  by (force simp: on_level_def filter_id_conv)

lemma on_level_cong: "(\<And>a. a \<in> set L \<Longrightarrow> ht a = ht' a) \<Longrightarrow> on_level ht i L = on_level ht' i L"
  unfolding on_level_def by (rule filter_cong) auto

lemma distinct_on_level: "distinct L \<Longrightarrow> distinct (on_level ht i L)"
  by (simp add: on_level_def)

text \<open>
  \<open>linked h L ht lev\<close>: \<open>L\<close> are the addresses of the nodes in list order and \<open>ht a\<close> is the number of
  levels node \<open>a\<close> is linked on (for the first node put into an empty list this is one, whatever
  the coin flips gave).
\<close>

definition linked :: "Node list \<Rightarrow> nat list \<Rightarrow> (nat \<Rightarrow> nat) \<Rightarrow> nat \<Rightarrow> bool" where
  "linked h L ht lev \<longleftrightarrow>
     distinct (0 # L) \<and>
     (\<forall>a \<in> set L. a < length h \<and> 1 \<le> ht a \<and> ht a \<le> lev \<and> key (h ! a) \<noteq> NaN) \<and>
     sorted_wrt (<) (map (\<lambda>a. key (h ! a)) L) \<and>
     (\<forall>i < maxLevel. chain (fwd h i) 0 (on_level ht i L)) \<and>
     prevs (\<lambda>a. prev (h ! a)) 0 L \<and> prev (h ! 0) = None \<and> 1 \<le> lev \<and> lev \<le> maxLevel"

lemma linkedD:
  assumes "linked h L ht lev"
  shows "distinct (0 # L)"
    and "\<And>a. a \<in> set L \<Longrightarrow> a < length h \<and> 1 \<le> ht a \<and> ht a \<le> lev \<and> key (h ! a) \<noteq> NaN"
    and "sorted_wrt (<) (map (\<lambda>a. key (h ! a)) L)"
    and "\<And>i. i < maxLevel \<Longrightarrow> chain (fwd h i) 0 (on_level ht i L)"
    and "prevs (\<lambda>a. prev (h ! a)) 0 L" and "prev (h ! 0) = None" and "1 \<le> lev" and "lev \<le> maxLevel"
  using assms by (auto simp: linked_def)

lemma maxLevel_pos [simp]: "0 < maxLevel" "Suc 0 \<le> maxLevel"
  by (simp_all add: maxLevel_def)

lemma linked_heap: "linked h L ht lev \<Longrightarrow> 0 < length h"
  using linkedD(4) [of h L ht lev 0] chain_mem [of "fwd h 0" 0 "on_level ht 0 L" 0]
  by (auto dest: fwd_Some_lengthD)

lemma linked_level0: "linked h L ht lev \<Longrightarrow> chain (fwd h 0) 0 L"
  using linkedD(4) [of h L ht lev 0] linkedD(2) [of h L ht lev] on_level_0 [of L ht] by simp

lemma linked_length: "linked h L ht lev \<Longrightarrow> length L < length h"
proof -
  assume l: "linked h L ht lev"
  then have "set (0 # L) \<subseteq> {..<length h}" using linkedD(2) [OF l] linked_heap [OF l] by auto
  then have "card (set (0 # L)) \<le> length h" using card_mono [of "{..<length h}"] by simp
  then show ?thesis using distinct_card [OF linkedD(1) [OF l]] by simp
qed

text \<open>Where a key cuts the list.\<close>

definition below :: "Node list \<Rightarrow> f64 \<Rightarrow> nat list \<Rightarrow> nat list" where
  "below h k L = filter (\<lambda>a. key (h ! a) < k) L"

definition from_on :: "Node list \<Rightarrow> f64 \<Rightarrow> nat list \<Rightarrow> nat list" where
  "from_on h k L = filter (\<lambda>a. \<not> key (h ! a) < k) L"

lemma below_above: "linked h L ht lev \<Longrightarrow> L = below h k L @ from_on h k L"
  unfolding below_def from_on_def by (rule sorted_wrt_cut [OF linkedD(3)])

lemma set_below_above [simp]:
  "set (below h k L) = {a \<in> set L. key (h ! a) < k}"
  "set (from_on h k L) = {a \<in> set L. \<not> key (h ! a) < k}"
  by (auto simp: below_def from_on_def)

definition pred_at :: "Node list \<Rightarrow> nat list \<Rightarrow> (nat \<Rightarrow> nat) \<Rightarrow> f64 \<Rightarrow> nat \<Rightarrow> nat" where
  "pred_at h L ht k i = last (0 # on_level ht i (below h k L))"

lemma chain_split_level:
  assumes "linked h L ht lev" "i < maxLevel"
  shows "chain (fwd h i) 0 (on_level ht i (below h k L) @ on_level ht i (from_on h k L))"
  using linkedD(4) [OF assms] below_above [OF assms(1), of k] by (metis on_level_simps(2))

section \<open>Search\<close>

lemma walk_linked:
  assumes l: "linked h L ht lev" and k: "k \<noteq> NaN" and i: "i < maxLevel"
    and c: "c = 0 \<or> c \<in> set (below h k L) \<and> i < ht c"
  shows "walk (length h) h k i c = Some (pred_at h L ht k i)"
proof -
  let ?A = "on_level ht i (below h k L)" and ?B = "on_level ht i (from_on h k L)"
  obtain pre post where A: "0 # ?A = pre @ c # post"
    using c by (metis (no_types, lifting) append_Nil in_set_conv_decomp mem_Collect_eq on_level_simps(4) list.set_intros)
  have "chain (fwd h i) c (post @ ?B)"
  proof (cases pre)
    case Nil
    with A chain_split_level [OF l i, of k] show ?thesis by simp
  next
    case (Cons x pre')
    with A have "?A = pre' @ c # post" by simp
    with chain_append [of "fwd h i" 0 "pre' @ [c]" "post @ ?B"] chain_split_level [OF l i, of k] show ?thesis by simp
  qed
  moreover have sub: "set post \<subseteq> set ?A"
  proof
    fix x assume x: "x \<in> set post"
    then have "x \<in> set (0 # ?A)" by (simp only: A) simp
    moreover have "x \<noteq> 0"
    proof
      assume "x = 0"
      have "distinct (0 # ?A)" using linkedD(1) [OF l] by (auto simp: distinct_on_level below_def)
      with A x \<open>x = 0\<close> show False by (cases pre) auto
    qed
    ultimately show "x \<in> set ?A" by simp
  qed
  moreover have "length post < length h"
  proof -
    have "length post \<le> length ?A" using arg_cong [OF A, of length] by simp
    also have "\<dots> \<le> length (below h k L)" by (simp add: on_level_def)
    also have "\<dots> \<le> length L" by (simp add: below_def)
    finally show ?thesis using linked_length [OF l] by simp
  qed
  ultimately have "walk (length h) h k i c = Some (last (c # post))"
    using k linkedD(2) [OF l] by (intro walk_chain [where ys = ?B]) (auto dest!: subsetD)
  also have "last (c # post) = last (0 # ?A)" using A by simp
  finally show ?thesis by (simp only: pred_at_def)
qed

lemma pred_at_mem:
  "pred_at h L ht k i = 0 \<or> pred_at h L ht k i \<in> set (below h k L) \<and> i < ht (pred_at h L ht k i)"
  using last_in_set [of "on_level ht i (below h k L)"] by (auto simp: pred_at_def)

definition upd_levels :: "nat \<Rightarrow> (nat \<Rightarrow> nat) \<Rightarrow> nat option list \<Rightarrow> nat option list" where
  "upd_levels n f u = map (\<lambda>j. if j < n then Some (f j) else u ! j) [0..<length u]"

lemma upd_levels_Suc:
  "upd_levels n f (u[n := Some (f n)]) = upd_levels (Suc n) f u"
  by (auto simp: upd_levels_def nth_list_update less_Suc_eq intro!: nth_equalityI)

lemma descend_linked:
  assumes l: "linked h L ht lev" and k: "k \<noteq> NaN"
  shows "\<lbrakk>n \<le> maxLevel; c = 0 \<or> c \<in> set (below h k L) \<and> n \<le> ht c; \<forall>u. up = Some u \<longrightarrow> n \<le> length u\<rbrakk> \<Longrightarrow>
    descend h k n c up =
      Some (if n = 0 then c else pred_at h L ht k 0, map_option (upd_levels n (pred_at h L ht k)) up)"
proof (induction n arbitrary: c up)
  case 0
  have "map_option (upd_levels 0 f) up = up" for f
    by (cases up) (auto simp: upd_levels_def map_nth)
  with 0 show ?case by simp
next
  case (Suc n)
  have w: "walk (length h) h k n c = Some (pred_at h L ht k n)"
    using Suc.prems by (intro walk_linked [OF l k]) auto
  let ?p = "pred_at h L ht k n"
  have IH: "descend h k n ?p up' =
      Some (if n = 0 then ?p else pred_at h L ht k 0, map_option (upd_levels n (pred_at h L ht k)) up')"
    if "\<forall>u. up' = Some u \<longrightarrow> n \<le> length u" for up'
    using Suc.prems(1) that pred_at_mem [of h L ht k n] by (intro Suc.IH) auto
  show ?case
  proof (cases up)
    case None
    then show ?thesis using w IH [of None] by simp
  next
    case (Some u)
    with Suc.prems(3) have "n < length u" by simp
    with Some show ?thesis using w IH [of "Some (u[n := Some ?p])"]
      by (simp add: upd_levels_Suc)
  qed
qed

lemma below_ht:
  assumes "linked h L ht lev"
  shows "on_level ht 0 (below h k L) = below h k L"
  by (rule on_level_0) (use linkedD(2) [OF assms] in auto)

lemma find_linked:
  assumes l: "linked (heap s) L ht (level s)" and k: "k \<noteq> NaN" and "\<forall>u. up = Some u \<longrightarrow> maxLevel \<le> length u"
  shows "find s k up =
    Some (case from_on (heap s) k L of [] \<Rightarrow> None | b # _ \<Rightarrow> Some b,
          map_option (upd_levels (level s) (pred_at (heap s) L ht k)) up)"
proof -
  let ?p = "pred_at (heap s) L ht k"
  have "descend (heap s) k (level s) 0 up = Some (?p 0, map_option (upd_levels (level s) ?p) up)"
    using descend_linked [OF l k, of "level s" 0 up] linkedD(7,8) [OF l] assms(3) le_trans by fastforce
  moreover have "fwd (heap s) 0 (?p 0) = Some (case from_on (heap s) k L of [] \<Rightarrow> None | b # _ \<Rightarrow> Some b)"
    using chain_append [of "fwd (heap s) 0" 0 "below (heap s) k L" "from_on (heap s) k L"]
      linked_level0 [OF l] below_above [OF l, of k] chain_head
    by (simp add: below_ht [OF l] pred_at_def)
  ultimately show ?thesis by (simp add: find_def)
qed

section \<open>Structural updates\<close>

lemma sorted_key_cong:
  "sorted_wrt (<) (map f L) \<Longrightarrow> (\<And>a. a \<in> set L \<Longrightarrow> g a = f a) \<Longrightarrow> sorted_wrt (<) (map g L)"
  by (metis map_cong)

lemma linked_cong:
  assumes "linked h L ht lev" "length h' = length h" "\<And>i. fwd h' i = fwd h i"
    "\<And>a. a < length h \<Longrightarrow> key (h' ! a) = key (h ! a) \<and> prev (h' ! a) = prev (h ! a)"
  shows "linked h' L ht lev"
proof -
  note d = linkedD [OF assms(1)]
  have "sorted_wrt (<) (map (\<lambda>a. key (h' ! a)) L)" using d(2) assms(4) by (intro sorted_key_cong [OF d(3)]) simp
  moreover have "prevs (\<lambda>a. prev (h' ! a)) 0 L"
    using d(2,5) assms(4) prevs_cong [of L "\<lambda>a. prev (h' ! a)" "\<lambda>a. prev (h ! a)"] by auto
  ultimately show ?thesis
    using d assms linked_heap [OF assms(1)] by (simp add: linked_def)
qed

lemma fwd_append:
  "fwd (h @ [nd]) i a =
     (if a = length h then (if i < length (forward nd) then Some (forward nd ! i) else None) else fwd h i a)"
  by (auto simp: fwd_def deref_def nth_append)

lemma chain_bound:
  assumes "chain (fwd h i) a xs" "b \<in> set (a # xs)" shows "b < length h"
  using chain_mem [OF assms] by (auto dest: fwd_Some_lengthD)

lemma linked_append:
  assumes "linked h L ht lev" "lev \<le> lev'" "lev' \<le> maxLevel"
  shows "linked (h @ [nd]) L ht lev'"
proof -
  note d = linkedD [OF assms(1)]
  have "chain (fwd (h @ [nd]) i) 0 (on_level ht i L)" if "i < maxLevel" for i
    using d(4) [OF that] chain_bound [OF d(4) [OF that]] linked_heap [OF assms(1)]
    by (subst chain_cong [where g = "fwd h i"]) (auto simp: fwd_append)
  moreover have "sorted_wrt (<) (map (\<lambda>a. key ((h @ [nd]) ! a)) L)"
    using d(2) by (intro sorted_key_cong [OF d(3)]) (simp add: nth_append)
  moreover have "prevs (\<lambda>a. prev ((h @ [nd]) ! a)) 0 L"
    using d(2,5) prevs_cong [of L "\<lambda>a. prev ((h @ [nd]) ! a)" "\<lambda>a. prev (h ! a)"] by (auto simp: nth_append)
  ultimately show ?thesis
    unfolding linked_def using d(1,2,6,7) assms(2,3) linked_heap [OF assms(1)]
    by (intro conjI ballI allI impI) (auto simp: nth_append intro: le_trans less_SucI)
qed

lemma prevs_insert:
  assumes "prevs g p (A @ B)" "distinct (A @ B)" "n \<notin> set (A @ B)"
    and "g' n = Some (last (p # A))" "\<And>a. a \<in> set (A @ B) \<Longrightarrow> g' a = (if B \<noteq> [] \<and> a = hd B then Some n else g a)"
  shows "prevs g' p (A @ n # B)"
proof -
  have "prevs g' p A" using assms by (subst prevs_cong [where g' = g]) (auto simp: prevs_append)
  moreover have "prevs g' n B"
  proof (cases B)
    case (Cons b B')
    have "prevs g b B'" using assms(1) Cons by (simp add: prevs_append)
    then have "prevs g' b B'" using assms Cons by (subst prevs_cong [where g' = g]) auto
    then show ?thesis using assms(5) Cons by simp
  qed simp
  ultimately show ?thesis using assms(4) by (simp add: prevs_append)
qed

lemma prevs_delete:
  assumes "prevs g p (A @ x # B)" "distinct (A @ x # B)"
    and "\<And>a. a \<in> set (A @ B) \<Longrightarrow> g' a = (if B \<noteq> [] \<and> a = hd B then Some (last (p # A)) else g a)"
  shows "prevs g' p (A @ B)"
proof -
  have "prevs g' p A" using assms by (subst prevs_cong [where g' = g]) (auto simp: prevs_append)
  moreover have "prevs g' (last (p # A)) B"
  proof (cases B)
    case (Cons b B')
    have "prevs g b B'" using assms(1) Cons by (simp add: prevs_append)
    then have "prevs g' b B'" using assms Cons by (subst prevs_cong [where g' = g]) auto
    then show ?thesis using assms(3) Cons by simp
  qed simp
  ultimately show ?thesis by (simp add: prevs_append)
qed

lemma linked_insert:
  assumes l: "linked h L ht lev" and k: "k \<noteq> NaN" "\<And>a. a \<in> set L \<Longrightarrow> key (h ! a) \<noteq> k"
    and new: "new < length h" "new \<notin> set (0 # L)" "key (h' ! new) = k" and len: "length h' = length h"
    and keys: "\<And>a. a < length h \<Longrightarrow> a \<noteq> new \<Longrightarrow> key (h' ! a) = key (h ! a)"
    and fw: "\<And>i. i < maxLevel \<Longrightarrow> fwd h' i =
       (if i < lvl then (fwd h i)(new := fwd h i (pred_at h L ht k i), pred_at h L ht k i := Some (Some new)) else fwd h i)"
    and pv: "\<And>a. a < length h \<Longrightarrow> prev (h' ! a) =
       (if a = new then Some (last (0 # below h k L))
        else if from_on h k L \<noteq> [] \<and> a = hd (from_on h k L) then Some new else prev (h ! a))"
    and lvl: "1 \<le> lvl" "lvl \<le> lev"
  shows "linked h' (below h k L @ new # from_on h k L) (ht(new := lvl)) lev"
proof -
  note d = linkedD [OF l]
  let ?A = "below h k L" and ?B = "from_on h k L" and ?ht = "ht(new := lvl)"
  have L: "L = ?A @ ?B" by (rule below_above [OF l])
  have dist: "distinct (0 # ?A @ new # ?B)" using d(1) new(2) by (auto simp: below_def from_on_def)
  have sub: "\<And>a. a \<in> set (?A @ ?B) \<Longrightarrow> a \<in> set L \<and> a \<noteq> new" using new(2) by auto
  have ks: "key (h' ! a) = key (h ! a)" if "a \<in> set (?A @ ?B)" for a
    using keys [of a] d(2) [of a] sub [OF that] by blast
  have chains: "chain (fwd h' i) 0 (on_level ?ht i (?A @ new # ?B))" if i: "i < maxLevel" for i
  proof -
    have ol: "on_level ?ht i ?A = on_level ht i ?A" "on_level ?ht i ?B = on_level ht i ?B"
      using new(2) by (auto intro!: on_level_cong)
    note c = chain_split_level [OF l i, of k]
    show ?thesis
    proof (cases "i < lvl")
      case True
      have "distinct (0 # on_level ht i ?A @ on_level ht i ?B)" "new \<notin> set (0 # on_level ht i ?A @ on_level ht i ?B)"
        using dist by (auto simp: on_level_def)
      from chain_insert [OF c this] True i show ?thesis by (simp add: ol fw pred_at_def)
    next
      case False
      with c i show ?thesis by (simp add: ol fw)
    qed
  qed
  have srt: "sorted_wrt (<) (map (\<lambda>a. key (h' ! a)) (?A @ new # ?B))"
  proof -
    have "sorted_wrt (<) (map (\<lambda>a. key (h ! a)) (?A @ ?B))" using d(3) by (simp only: L [symmetric])
    then have "sorted_wrt (<) (map (\<lambda>a. key (h' ! a)) (?A @ ?B))"
      by (rule sorted_key_cong) (rule ks)
    moreover have "\<forall>b \<in> set ?B. k < key (h' ! b)" using k(2) ks by (auto simp: less_le)
    moreover have "\<forall>a \<in> set ?A. key (h' ! a) < k" using ks by simp
    ultimately show ?thesis using new(3) by (auto simp: sorted_wrt_append simp del: set_below_above)
  qed
  have "prevs (\<lambda>a. prev (h ! a)) 0 (?A @ ?B)" using d(5) by (simp only: L [symmetric])
  then have "prevs (\<lambda>a. prev (h' ! a)) 0 (?A @ new # ?B)"
  proof (rule prevs_insert)
    show "distinct (?A @ ?B)" "new \<notin> set (?A @ ?B)" using dist by (simp_all del: set_below_above)
    show "prev (h' ! new) = Some (last (0 # ?A))" using pv [OF new(1)] by simp
    show "prev (h' ! a) = (if ?B \<noteq> [] \<and> a = hd ?B then Some new else prev (h ! a))" if "a \<in> set (?A @ ?B)" for a
      using sub [OF that] d(2) [of a] pv [of a] by auto
  qed
  moreover have "prev (h' ! 0) = None"
  proof -
    have "\<not> (from_on h k L \<noteq> [] \<and> 0 = hd (from_on h k L))"
      using d(1) hd_in_set [of "from_on h k L"] by (metis (no_types, lifting) distinct.simps(2) mem_Collect_eq set_below_above(2))
    then show ?thesis using pv [of 0] d(6) linked_heap [OF l] new(2) by simp
  qed
  moreover have "\<forall>a \<in> set (?A @ new # ?B). a < length h' \<and> 1 \<le> ?ht a \<and> ?ht a \<le> lev \<and> key (h' ! a) \<noteq> NaN"
  proof
    fix a assume "a \<in> set (?A @ new # ?B)"
    then consider "a = new" | "a \<in> set (?A @ ?B)" by auto
    then show "a < length h' \<and> 1 \<le> ?ht a \<and> ?ht a \<le> lev \<and> key (h' ! a) \<noteq> NaN"
      using new k(1) len lvl ks [of a] sub [of a] d(2) [of a] by cases (simp_all del: set_below_above)
  qed
  ultimately show ?thesis using dist chains srt d(7,8) unfolding linked_def by blast
qed

lemma linked_delete:
  assumes l: "linked h L ht lev" and x: "from_on h k L = x # B" and len: "length h' = length h"
    and keys: "\<And>a. a < length h \<Longrightarrow> key (h' ! a) = key (h ! a)"
    and fw: "\<And>i. i < maxLevel \<Longrightarrow> fwd h' i =
       (if i < ht x then (fwd h i)(pred_at h L ht k i := fwd h i x) else fwd h i)"
    and pv: "\<And>a. a < length h \<Longrightarrow> prev (h' ! a) =
       (if B \<noteq> [] \<and> a = hd B then Some (last (0 # below h k L)) else prev (h ! a))"
  shows "linked h' (below h k L @ B) ht lev"
proof -
  note d = linkedD [OF l]
  let ?A = "below h k L"
  have L: "L = ?A @ x # B" unfolding x [symmetric] by (rule below_above [OF l])
  have dist: "distinct (0 # ?A @ x # B)" using d(1) by (simp only: L [symmetric])
  have sub: "\<And>a. a \<in> set (?A @ B) \<Longrightarrow> a \<in> set L" by (subst L) auto
  have ks: "key (h' ! a) = key (h ! a)" if "a \<in> set (?A @ B)" for a
    using keys [of a] d(2) [of a] sub [OF that] by blast
  have chains: "chain (fwd h' i) 0 (on_level ht i (?A @ B))" if i: "i < maxLevel" for i
  proof -
    note c = chain_split_level [OF l i, of k]
    show ?thesis
    proof (cases "i < ht x")
      case True
      have "distinct (0 # on_level ht i ?A @ x # on_level ht i B)"
        using dist by (auto simp: on_level_def)
      with chain_delete [of "fwd h i" 0 "on_level ht i ?A" x "on_level ht i B"] c True i x
      show ?thesis by (simp add: fw pred_at_def)
    next
      case False
      with c i x show ?thesis by (simp add: fw)
    qed
  qed
  have "sorted_wrt (<) (map (\<lambda>a. key (h ! a)) (?A @ x # B))" using d(3) by (simp only: L [symmetric])
  then have "sorted_wrt (<) (map (\<lambda>a. key (h ! a)) (?A @ B))" by (auto simp: sorted_wrt_append)
  then have srt: "sorted_wrt (<) (map (\<lambda>a. key (h' ! a)) (?A @ B))"
    by (rule sorted_key_cong) (rule ks)
  have "prevs (\<lambda>a. prev (h ! a)) 0 (?A @ x # B)" using d(5) by (simp only: L [symmetric])
  then have "prevs (\<lambda>a. prev (h' ! a)) 0 (?A @ B)"
  proof (rule prevs_delete)
    show "distinct (?A @ x # B)" using dist by simp
    show "prev (h' ! a) = (if B \<noteq> [] \<and> a = hd B then Some (last (0 # ?A)) else prev (h ! a))" if "a \<in> set (?A @ B)" for a
      using pv [of a] d(2) [OF sub [OF that]] by blast
  qed
  moreover have "prev (h' ! 0) = None"
  proof -
    have "\<not> (B \<noteq> [] \<and> 0 = hd B)" using dist by (cases B) auto
    then show ?thesis using pv [of 0] d(6) linked_heap [OF l] by simp
  qed
  moreover have "\<forall>a \<in> set (?A @ B). a < length h' \<and> 1 \<le> ht a \<and> ht a \<le> lev \<and> key (h' ! a) \<noteq> NaN"
    using d(2) [OF sub] ks len by (simp del: set_below_above set_append)
  moreover have "distinct (0 # ?A @ B)" using dist by (simp del: set_below_above)
  ultimately show ?thesis using chains srt d(7,8) unfolding linked_def by blast
qed

lemma drop_level_ok:
  assumes "\<And>i. i < l \<Longrightarrow> fwd h i 0 \<noteq> None"
  shows "\<exists>l'. drop_level h l = Some l' \<and> l' \<le> l \<and> (1 \<le> l \<longrightarrow> 1 \<le> l') \<and>
    (\<forall>i. l' \<le> i \<and> i < l \<longrightarrow> fwd h i 0 = Some None)"
  using assms
proof (induction h l rule: drop_level.induct)
  case (1 h l)
  from 1(2) [of "Suc l"] obtain nx where nx: "fwd h (Suc l) 0 = Some nx" by auto
  show ?case
  proof (cases nx)
    case None
    with 1(1) [of nx] 1(2) nx obtain l' where "drop_level h (Suc l) = Some l'" "l' \<le> Suc l" "1 \<le> l'"
      "\<forall>i. l' \<le> i \<and> i < Suc l \<longrightarrow> fwd h i 0 = Some None" by auto
    with None nx show ?thesis by (auto simp: less_Suc_eq)
  next
    case (Some b)
    with nx show ?thesis by auto
  qed
qed auto

lemma linked_drop_level:
  assumes "linked h L ht lev"
  obtains lev' where "drop_level h lev = Some lev'" "linked h L ht lev'"
proof -
  note d = linkedD [OF assms]
  have "fwd h i 0 \<noteq> None" if "i < lev" for i
    using chain_mem [OF d(4), of i 0] that d(8) by auto
  then have "\<exists>l'. drop_level h lev = Some l' \<and> l' \<le> lev \<and> (1 \<le> lev \<longrightarrow> 1 \<le> l') \<and>
    (\<forall>i. l' \<le> i \<and> i < lev \<longrightarrow> fwd h i 0 = Some None)" by (rule drop_level_ok)
  with d(7) obtain lev' where lev': "drop_level h lev = Some lev'" "lev' \<le> lev" "1 \<le> lev'"
    "\<And>i. lev' \<le> i \<Longrightarrow> i < lev \<Longrightarrow> fwd h i 0 = Some None" by auto
  have "ht a \<le> lev'" if a: "a \<in> set L" for a
  proof (rule ccontr)
    assume "\<not> ht a \<le> lev'"
    with d(2) [OF a] have i: "lev' < lev" "lev' < ht a" by auto
    with lev'(4) [of lev'] have "fwd h lev' 0 = Some None" by simp
    with chain_head [OF d(4), of lev'] i d(8) have "on_level ht lev' L = []" by (auto split: list.splits)
    moreover have "a \<in> set (on_level ht lev' L)" using a i by simp
    ultimately show False by simp
  qed
  with assms lev' have "linked h L ht lev'" by (auto simp: linked_def)
  with lev'(1) that show ?thesis by blast
qed

section \<open>Refinement of the operations\<close>

definition entry :: "Node list \<Rightarrow> nat \<Rightarrow> f64 \<times> f64" where
  "entry h a = (key (h ! a), nvalue (h ! a))"

definition skip_rep :: "SkipList \<Rightarrow> nat list \<Rightarrow> (nat \<Rightarrow> nat) \<Rightarrow> bool" where
  "skip_rep s L ht \<longleftrightarrow>
     linked (heap s) L ht (level s) \<and>
     tail s = (if L = [] then None else Some (last L)) \<and> size_of s = int (length L)"

definition skip_inv :: "SkipList \<Rightarrow> bool" where
  "skip_inv s \<longleftrightarrow> (\<exists>L ht. skip_rep s L ht)"

text \<open>The contents, read off by following the level-0 pointers.\<close>

fun follow :: "nat \<Rightarrow> Node list \<Rightarrow> nat option \<Rightarrow> (f64 \<times> f64) list" where
  "follow (Suc n) h (Some a) = entry h a # follow n h (Option.bind (fwd h 0 a) (\<lambda>b. b))"
| "follow _ h _ = []"

definition entries :: "SkipList \<Rightarrow> (f64 \<times> f64) list" where
  "entries s = follow (length (heap s)) (heap s) (Option.bind (fwd (heap s) 0 0) (\<lambda>b. b))"

lemma follow_chain:
  "chain (fwd h 0) a xs \<Longrightarrow> length xs < n \<Longrightarrow> follow n h (Option.bind (fwd h 0 a) (\<lambda>b. b)) = map (entry h) xs"
proof (induction xs arbitrary: a n)
  case Nil
  then show ?case by (cases n) auto
next
  case (Cons b xs)
  then obtain m where "n = Suc m" by (cases n) auto
  with Cons show ?case by simp
qed

lemma entries_rep: "skip_rep s L ht \<Longrightarrow> entries s = map (entry (heap s)) L"
  unfolding entries_def skip_rep_def
  by (rule follow_chain) (auto intro: linked_level0 linked_length)

lemma entries_sorted: "skip_inv s \<Longrightarrow> al_sorted (entries s)"
proof -
  assume "skip_inv s"
  then obtain L ht where r: "skip_rep s L ht" by (auto simp: skip_inv_def)
  then have "sorted_wrt (<) (map (\<lambda>a. key (heap s ! a)) L)" using linkedD(3) by (auto simp: skip_rep_def)
  then show ?thesis by (simp add: entries_rep [OF r] entry_def comp_def)
qed

lemma entries_no_nan: "skip_inv s \<Longrightarrow> NaN \<notin> fst ` set (entries s)"
proof -
  assume "skip_inv s"
  then obtain L ht where r: "skip_rep s L ht" by (auto simp: skip_inv_def)
  then show ?thesis using linkedD(2) by (force simp: skip_rep_def entries_rep [OF r] entry_def)
qed

lemma entries_cut:
  assumes "skip_rep s L ht"
  shows "entries s = map (entry (heap s)) (below (heap s) k L) @ map (entry (heap s)) (from_on (heap s) k L)"
  using below_above [of "heap s" L ht "level s" k] assms unfolding entries_rep [OF assms]
  by (metis map_append skip_rep_def)

text \<open>The node that \<open>find\<close> returns carries the key exactly when the list has it.\<close>

lemma found_cases:
  assumes "skip_rep s L ht"
  obtains (hit) x B where "from_on (heap s) k L = x # B" "key (heap s ! x) = k"
      "\<forall>b \<in> set B. k < key (heap s ! b)" "k \<in> fst ` set (entries s)"
    | (miss) "\<forall>b \<in> set (from_on (heap s) k L). k < key (heap s ! b)" "\<forall>a \<in> set L. key (heap s ! a) \<noteq> k"
      "k \<notin> fst ` set (entries s)"
proof (cases "\<exists>a \<in> set L. key (heap s ! a) = k")
  case True
  then obtain a where a: "a \<in> set L" "key (heap s ! a) = k" by blast
  then have "a \<in> set (from_on (heap s) k L)" by simp
  then obtain x B where B: "from_on (heap s) k L = x # B" by (cases "from_on (heap s) k L") auto
  have l: "linked (heap s) L ht (level s)" using assms by (simp add: skip_rep_def)
  have "sorted_wrt (<) (map (\<lambda>a. key (heap s ! a)) (from_on (heap s) k L))"
    using linkedD(3) [OF l] unfolding from_on_def sorted_wrt_map by (rule sorted_wrt_filter)
  then have gt: "\<forall>b \<in> set B. key (heap s ! x) < key (heap s ! b)" by (simp add: B)
  have "x \<in> set (from_on (heap s) k L)" by (simp add: B)
  then have "\<not> key (heap s ! x) < k" by simp
  then have x: "key (heap s ! x) = k"
    using a \<open>a \<in> set (from_on (heap s) k L)\<close> gt B by (metis neqE set_ConsD)
  have "k \<in> fst ` set (entries s)" using a by (force simp: entries_rep [OF assms] entry_def)
  with gt x B hit show ?thesis by metis
next
  case False
  then have "k \<notin> fst ` set (entries s)" by (auto simp: entries_rep [OF assms] entry_def)
  moreover have "\<forall>b \<in> set (from_on (heap s) k L). k < key (heap s ! b)"
    using False by (auto simp: not_less order.order_iff_strict)
  ultimately show ?thesis using False miss by blast
qed

lemma rep_find:
  assumes "skip_rep s L ht" "k \<noteq> NaN" "\<forall>u. up = Some u \<longrightarrow> maxLevel \<le> length u"
  shows "find s k up =
    Some (case from_on (heap s) k L of [] \<Rightarrow> None | b # _ \<Rightarrow> Some b,
          map_option (upd_levels (level s) (pred_at (heap s) L ht k)) up)"
  using assms by (intro find_linked) (simp_all add: skip_rep_def)

lemma rep_addr: "skip_rep s L ht \<Longrightarrow> a \<in> set (from_on (heap s) k L) \<Longrightarrow> deref (heap s) a = Some (heap s ! a) \<and> key (heap s ! a) \<noteq> NaN"
  using linkedD(2) [of "heap s" L ht "level s" a] by (simp add: skip_rep_def deref_def)

text \<open>The test \<open>findRes != nil && findRes.key == key\<close>.\<close>

lemma found_test:
  assumes r: "skip_rep s L ht" and k: "k \<noteq> NaN"
  shows "(case (case from_on (heap s) k L of [] \<Rightarrow> None | b # _ \<Rightarrow> Some b) of None \<Rightarrow> Some False
          | Some a \<Rightarrow> do { nd \<leftarrow> deref (heap s) a; Some (f_eq (key nd) k) }) = Some (k \<in> fst ` set (entries s))"
  using r
proof (cases rule: found_cases [where k = k])
  case (hit x B)
  with rep_addr [OF r, of x k] k show ?thesis by (simp add: f_eq_eq)
next
  case miss
  show ?thesis
  proof (cases "from_on (heap s) k L")
    case (Cons b B)
    with rep_addr [OF r, of b k] k miss show ?thesis by (auto simp: f_eq_eq)
  qed (use miss in simp)
qed

lemma Get_refines:
  assumes "skip_inv s" and k: "k \<noteq> NaN"
  shows "Get s k = Some (case map_of (entries s) k of Some v \<Rightarrow> (v, True) | None \<Rightarrow> (Fin 0, False))"
proof -
  obtain L ht where r: "skip_rep s L ht" using assms(1) by (auto simp: skip_inv_def)
  note f = rep_find [OF r k, of None] and e = entries_cut [OF r, of k]
  have A: "map_of (map (entry (heap s)) (below (heap s) k L)) k = None"
    by (auto simp: map_of_eq_None_iff entry_def)
  show ?thesis using r
  proof (cases rule: found_cases [where k = k])
    case (hit x B)
    with rep_addr [OF r, of x k] k f show ?thesis
      by (simp add: Get_def e f_eq_eq map_add_def A entry_def)
  next
    case miss
    then have "map_of (entries s) k = None" by (simp add: map_of_eq_None_iff)
    then show ?thesis
    proof (cases "from_on (heap s) k L")
      case (Cons b B)
      with rep_addr [OF r, of b k] k f miss(1) \<open>map_of (entries s) k = None\<close> show ?thesis
        by (auto simp: Get_def f_eq_eq)
    qed (use f in \<open>simp add: Get_def\<close>)
  qed
qed

lemma Min_refines:
  assumes "skip_inv s"
  shows "Min s = Some (case entries s of [] \<Rightarrow> (Fin 0, Fin 0, False) | (k, v) # _ \<Rightarrow> (k, v, True))"
proof -
  obtain L ht where r: "skip_rep s L ht" using assms by (auto simp: skip_inv_def)
  then have "chain (fwd (heap s) 0) 0 L" using linked_level0 by (auto simp: skip_rep_def)
  then show ?thesis using linkedD(2) [of "heap s" L ht "level s"] r
    by (cases L) (auto simp: Min_def entries_rep [OF r] entry_def deref_def skip_rep_def)
qed

lemma Max_refines:
  assumes "skip_inv s"
  shows "Max s = Some (if entries s = [] then (Fin 0, Fin 0, False) else let (k, v) = last (entries s) in (k, v, True))"
proof -
  obtain L ht where r: "skip_rep s L ht" using assms by (auto simp: skip_inv_def)
  then show ?thesis using linkedD(2) [of "heap s" L ht "level s" "last L"]
    by (auto simp: Max_def entries_rep [OF r] entry_def deref_def skip_rep_def last_map)
qed

lemma Size_refines: "skip_inv s \<Longrightarrow> Size s = int (length (entries s))"
  by (auto simp: skip_inv_def Size_def entries_rep skip_rep_def)

lemma NewSkipList_inv: "skip_inv NewSkipList" "entries NewSkipList = []"
proof -
  have "chain (fwd (heap NewSkipList) i) 0 []" if "i < maxLevel" for i
    using that by (simp add: NewSkipList_def fwd_def deref_def)
  then have "skip_rep NewSkipList [] (\<lambda>_. 0)"
    by (simp add: skip_rep_def linked_def NewSkipList_def maxLevel_def)
  then show "skip_inv NewSkipList" "entries NewSkipList = []"
    using entries_rep by (fastforce simp: skip_inv_def)+
qed

lemma randomLevel_ge: "l \<le> randomLevel cs l"
  by (induction cs l rule: randomLevel.induct) auto

lemma randomLevel_le: "l \<le> maxLevel \<Longrightarrow> randomLevel cs l \<le> maxLevel"
  by (induction cs l rule: randomLevel.induct) auto

lemma pred_at_high:
  assumes "linked h L ht lev" "lev \<le> i"
  shows "pred_at h L ht k i = 0"
proof -
  have "on_level ht i (below h k L) = []"
    using linkedD(2) [OF assms(1)] assms(2) by (fastforce simp: on_level_def filter_empty_conv)
  then show ?thesis by (simp add: pred_at_def)
qed

lemma raised_update:
  assumes "linked h L ht lev" "i < lvl" "lvl \<le> maxLevel"
  shows "upd_at (if lev < lvl then raise_update lev lvl (upd_levels lev (pred_at h L ht k) (replicate maxLevel None))
                 else upd_levels lev (pred_at h L ht k) (replicate maxLevel None)) i = Some (pred_at h L ht k i)"
  using assms pred_at_high [OF assms(1), of i k]
  by (auto simp: upd_at_def raise_update_def upd_levels_def)

lemma pred_at_fwd:
  assumes "linked h L ht lev" "i < maxLevel"
  shows "fwd h i (pred_at h L ht k i) = Some (case on_level ht i (from_on h k L) of [] \<Rightarrow> None | b # _ \<Rightarrow> Some b)"
  using chain_append [OF chain_split_level [OF assms, of k]] by (auto simp: pred_at_def dest: chain_head)

lemma pred_at_addr: "linked h L ht lev \<Longrightarrow> pred_at h L ht k i = 0 \<or> pred_at h L ht k i \<in> set L"
  using pred_at_mem [of h L ht k i] by auto

lemma Insert_hit:
  assumes r: "skip_rep s L ht" and k: "k \<noteq> NaN" and hit: "from_on (heap s) k L = x # B" "key (heap s ! x) = k"
    and "k \<in> fst ` set (entries s)" "\<forall>b \<in> set B. k < key (heap s ! b)"
  obtains s' where "Insert coins s k v = Some (s', False)" "skip_rep s' L ht" "entries s' = al_upsert k v (entries s)"
proof
  have l: "linked (heap s) L ht (level s)" using r by (simp add: skip_rep_def)
  have x: "x \<in> set (from_on (heap s) k L)" "x \<in> set L" using hit(1) set_below_above(2) [of "heap s" k L] by auto
  then have xl: "x < length (heap s)" using linkedD(2) [OF l] by simp
  let ?h = "(heap s)[x := (heap s ! x)\<lparr>nvalue := v\<rparr>]"
  let ?s = "s\<lparr>heap := ?h\<rparr>"
  show "Insert coins s k v = Some (?s, False)"
    using rep_find [OF r k, of "Some (replicate maxLevel None)"] found_test [OF r k] rep_addr [OF r x(1)] hit(1) assms(5)
    by (simp add: Insert_def)
  have "linked ?h L ht (level s)"
    by (rule linked_cong [OF l]) (use xl in \<open>auto simp: fun_eq_iff fwd_def deref_def nth_list_update\<close>)
  then show r': "skip_rep ?s L ht" using r by (simp add: skip_rep_def)
  have L: "L = below (heap s) k L @ x # B" unfolding hit(1) [symmetric] by (rule below_above [OF l])
  have d: "distinct (below (heap s) k L @ x # B)" using linkedD(1) [OF l] by (metis L distinct.simps(2))
  have "map (entry ?h) (below (heap s) k L @ x # B) = map (entry (heap s)) (below (heap s) k L) @ (k, v) # map (entry (heap s)) B"
    using d xl hit(2) by (auto simp: entry_def nth_list_update simp del: set_below_above)
  also have "\<dots> = al_upsert k v (map (entry (heap s)) (below (heap s) k L) @ (k, nvalue (heap s ! x)) # map (entry (heap s)) B)"
    by (rule al_upsert_hit [symmetric]) (auto simp: entry_def)
  also have "\<dots> = al_upsert k v (entries s)"
    using entries_cut [OF r, of k] hit by (simp add: entry_def)
  finally show "entries ?s = al_upsert k v (entries s)" using L entries_rep [OF r'] by (metis SkipList.select_convs(1) SkipList.update_convs(1) SkipList.surjective)
qed

lemma cut_append:
  assumes "linked h L ht lev"
  shows "below (h @ [nd]) k L = below h k L" "from_on (h @ [nd]) k L = from_on h k L"
    "pred_at (h @ [nd]) L ht k i = pred_at h L ht k i"
proof -
  show 1: "below (h @ [nd]) k L = below h k L" "from_on (h @ [nd]) k L = from_on h k L"
    using linkedD(2) [OF assms] by (auto simp: below_def from_on_def nth_append intro!: filter_cong)
  show "pred_at (h @ [nd]) L ht k i = pred_at h L ht k i" by (simp only: pred_at_def 1)
qed

text \<open>The state after a new node has been linked, whichever way it was linked.\<close>

lemma insert_result:
  assumes r: "skip_rep s L ht" and k: "k \<noteq> NaN" and miss: "\<forall>b \<in> set (from_on (heap s) k L). k < key (heap s ! b)"
      "\<forall>a \<in> set L. key (heap s ! a) \<noteq> k"
    and new: "new = length (heap s)" and h0: "h0 = heap s @ [nd]" and nd: "key nd = k" "nvalue nd = v" "prev nd = None"
    and len: "length h' = length h0"
    and keys: "\<And>a. a < length h0 \<Longrightarrow> key (h' ! a) = key (h0 ! a) \<and> nvalue (h' ! a) = nvalue (h0 ! a)"
    and fw: "\<And>i. i < maxLevel \<Longrightarrow> fwd h' i =
       (if i < lvl then (fwd h0 i)(new := fwd h0 i (pred_at (heap s) L ht k i), pred_at (heap s) L ht k i := Some (Some new)) else fwd h0 i)"
    and pv: "\<And>a. a < length h0 \<Longrightarrow> prev (h' ! a) =
       (if a = new then Some (last (0 # below (heap s) k L))
        else if from_on (heap s) k L \<noteq> [] \<and> a = hd (from_on (heap s) k L) then Some new else prev (h0 ! a))"
    and lvl: "1 \<le> lvl" "lvl \<le> lev" "level s \<le> lev" "lev \<le> maxLevel"
    and t: "t = (if from_on (heap s) k L = [] then Some new else tail s)"
  shows "skip_rep \<lparr>heap = h', tail = t, level = lev, size_of = size_of s + 1\<rparr>
      (below (heap s) k L @ new # from_on (heap s) k L) (ht(new := lvl)) \<and>
    entries \<lparr>heap = h', tail = t, level = lev, size_of = size_of s + 1\<rparr> = al_upsert k v (entries s)"
proof -
  have l: "linked (heap s) L ht (level s)" using r by (simp add: skip_rep_def)
  let ?A = "below (heap s) k L" and ?B = "from_on (heap s) k L"
  let ?s = "\<lparr>heap = h', tail = t, level = lev, size_of = size_of s + 1\<rparr>"
  have l0: "linked h0 L ht lev" unfolding h0 by (rule linked_append [OF l lvl(3,4)])
  note cut = cut_append [OF l, of nd k, folded h0]
  have nL: "new \<notin> set (0 # L)" using linkedD(2) [OF l] linked_heap [OF l] new by auto
  have "linked h' (below h0 k L @ new # from_on h0 k L) (ht(new := lvl)) lev"
  proof (rule linked_insert [OF l0 k _ _ nL _ len])
    show "key (h0 ! a) \<noteq> k" if "a \<in> set L" for a using that miss(2) linkedD(2) [OF l that] by (simp add: h0 nth_append)
    show "new < length h0" by (simp add: new h0)
    show "key (h' ! new) = k" using keys [of new] nd by (simp add: new h0)
  qed (use lvl in \<open>simp_all add: cut keys fw pv\<close>)
  then have lk: "linked h' (?A @ new # ?B) (ht(new := lvl)) lev" by (simp only: cut)
  have L: "?A @ ?B = L" by (rule below_above [OF l, symmetric])
  have "length (?A @ ?B) = length L" by (simp only: L)
  then have len': "length ?A + length ?B = length L" by simp
  have "tail s = Some (last ?B)" if "?B \<noteq> []"
    using that r L by (metis append_is_Nil_conv last_appendR skip_rep_def)
  then have rep: "skip_rep ?s (?A @ new # ?B) (ht(new := lvl))"
    using lk t r len' by (auto simp: skip_rep_def)
  have e: "entry h' a = entry (heap s) a" if "a \<in> set (?A @ ?B)" for a
    using that keys [of a] linkedD(2) [OF l, of a] by (auto simp: entry_def h0 nth_append)
  have "map (entry h') ?A = map (entry (heap s)) ?A" "map (entry h') ?B = map (entry (heap s)) ?B"
    using e by (auto simp del: set_below_above)
  moreover have "entry h' new = (k, v)" using keys [of new] nd by (simp add: entry_def new h0)
  ultimately have "entries ?s = map (entry (heap s)) ?A @ (k, v) # map (entry (heap s)) ?B"
    by (simp add: entries_rep [OF rep])
  also have "\<dots> = al_upsert k v (map (entry (heap s)) ?A @ map (entry (heap s)) ?B)"
    using miss(1) by (intro al_upsert_new [symmetric]) (auto simp: entry_def)
  finally show ?thesis using rep entries_cut [OF r, of k] by simp
qed

lemma Insert_first:
  assumes r: "skip_rep s [] ht" and k: "k \<noteq> NaN"
  shows "\<exists>s' L' ht'. Insert coins s k v = Some (s', True) \<and> skip_rep s' L' ht' \<and> entries s' = al_upsert k v (entries s)"
proof -
  have l: "linked (heap s) [] ht (level s)" using r by (simp add: skip_rep_def)
  define lvl where "lvl = randomLevel coins 1"
  define lev where "lev = (if lvl > level s then lvl else level s)"
  define nd where "nd = \<lparr>key = k, nvalue = v, forward = replicate lvl None, prev = None\<rparr>"
  let ?h0 = "heap s @ [nd]" and ?new = "length (heap s)"
  have lvl: "1 \<le> lvl" "lvl \<le> maxLevel" unfolding lvl_def by (simp_all add: randomLevel_ge randomLevel_le)
  have f0: "fwd ?h0 0 0 = Some None"
    using linked_level0 [OF l] linked_heap [OF l] by (auto simp: fwd_append)
  then have "fwd ?h0 0 0 \<noteq> None" by simp
  from set_fwd_ok [OF this, of "Some ?new"]
  obtain h1 where h1: "set_fwd ?h0 0 0 (Some ?new) = Some h1" "frame ?h0 h1"
    "fwd h1 0 = (fwd ?h0 0)(0 := Some (Some ?new))" "\<And>j. j \<noteq> 0 \<Longrightarrow> fwd h1 j = fwd ?h0 j" by blast
  have "?new < length h1" using h1(2) by (simp add: frame_def)
  from set_prev_ok [OF this, of "Some 0"]
  obtain h2 where h2: "set_prev h1 ?new (Some 0) = Some h2" "length h2 = length h1" "fwd h2 = fwd h1"
    "\<And>b. b < length h1 \<Longrightarrow> key (h2 ! b) = key (h1 ! b) \<and> nvalue (h2 ! b) = nvalue (h1 ! b)"
    "\<And>b. b < length h1 \<Longrightarrow> prev (h2 ! b) = (if b = ?new then Some 0 else prev (h1 ! b))" by blast
  let ?s = "\<lparr>heap = h2, tail = Some ?new, level = lev, size_of = size_of s + 1\<rparr>"
  have "skip_rep ?s (below (heap s) k [] @ ?new # from_on (heap s) k []) (ht(?new := 1)) \<and>
    entries ?s = al_upsert k v (entries s)"
  proof (rule insert_result [OF r k, where nd = nd and ?h0.0 = ?h0])
    show "fwd h2 i = (if i < 1 then (fwd ?h0 i)(?new := fwd ?h0 i (pred_at (heap s) [] ht k i),
        pred_at (heap s) [] ht k i := Some (Some ?new)) else fwd ?h0 i)" for i
      using h1(3,4) f0 lvl linked_heap [OF l]
      by (auto simp: h2(3) pred_at_def below_def fun_eq_iff fwd_append nd_def)
  qed (use h1(2) h2 lvl linkedD(8) [OF l] in \<open>auto simp: frame_def nd_def below_def from_on_def lev_def\<close>)
  moreover have "Insert coins s k v = Some (?s, True)"
    using rep_find [OF r k, of "Some (replicate maxLevel None)"] r h1(1) h2(1)
    by (simp add: Insert_def from_on_def skip_rep_def lvl_def lev_def nd_def Let_def)
  ultimately show ?thesis by blast
qed

lemma Insert_next:
  assumes r: "skip_rep s L ht" and k: "k \<noteq> NaN" and miss: "\<forall>b \<in> set (from_on (heap s) k L). k < key (heap s ! b)"
      "\<forall>a \<in> set L. key (heap s ! a) \<noteq> k" "k \<notin> fst ` set (entries s)" and ne: "L \<noteq> []"
  shows "\<exists>s' L' ht'. Insert coins s k v = Some (s', True) \<and> skip_rep s' L' ht' \<and> entries s' = al_upsert k v (entries s)"
proof -
  have l: "linked (heap s) L ht (level s)" using r by (simp add: skip_rep_def)
  define lvl where "lvl = randomLevel coins 1"
  define lev where "lev = (if lvl > level s then lvl else level s)"
  define nd where "nd = \<lparr>key = k, nvalue = v, forward = replicate lvl None, prev = None\<rparr>"
  let ?P = "pred_at (heap s) L ht k" and ?A = "below (heap s) k L" and ?B = "from_on (heap s) k L"
  define up where "up = upd_levels (level s) ?P (replicate maxLevel None)"
  define up' where "up' = (if level s < lvl then raise_update (level s) lvl up else up)"
  let ?h0 = "heap s @ [nd]" and ?new = "length (heap s)"
  have lvl: "1 \<le> lvl" "lvl \<le> maxLevel" unfolding lvl_def by (simp_all add: randomLevel_ge randomLevel_le)
  have upd: "upd_at up' i = Some (?P i)" if "i < lvl" for i
    using raised_update [OF l that lvl(2), of k] unfolding up'_def up_def .
  have Pn: "?P i \<noteq> ?new" "?P i < ?new" for i
    using pred_at_addr [OF l, of k i] linkedD(2) [OF l, of "?P i"] linked_heap [OF l] by auto
  have Pf: "fwd ?h0 i (?P i) = Some (case on_level ht i ?B of [] \<Rightarrow> None | b # _ \<Rightarrow> Some b)" if "i < maxLevel" for i
    using pred_at_fwd [OF l that, of k] Pn by (simp add: fwd_append)
  have P0: "?P 0 = last (0 # ?A)" "on_level ht 0 ?B = ?B"
    using below_ht [OF l, of k] linkedD(2) [OF l] by (auto simp: pred_at_def intro!: on_level_0)
  have "\<exists>h'. link_levels lvl 0 ?new up' ?h0 = Some h' \<and> frame ?h0 h' \<and>
    (\<forall>j. fwd h' j = (if 0 \<le> j \<and> j < 0 + lvl
                     then (fwd ?h0 j)(?new := fwd ?h0 j (?P j), ?P j := Some (Some ?new)) else fwd ?h0 j))"
    using upd Pn Pf lvl by (intro link_levels_ok) (auto simp: fwd_append nd_def)
  then obtain h1 where h1: "link_levels lvl 0 ?new up' ?h0 = Some h1" "frame ?h0 h1"
    "\<And>j. fwd h1 j = (if j < lvl then (fwd ?h0 j)(?new := fwd ?h0 j (?P j), ?P j := Some (Some ?new)) else fwd ?h0 j)"
    by auto
  define t where "t = (if ?B = [] then Some ?new else tail s)"
  have "\<exists>h2. (case ?B of [] \<Rightarrow> Some (h1, Some ?new)
                  | b # _ \<Rightarrow> do { h \<leftarrow> set_prev h1 b (Some ?new); Some (h, tail s) }) = Some (h2, t) \<and>
      length h2 = length h1 \<and> fwd h2 = fwd h1 \<and>
      (\<forall>b < length h1. key (h2 ! b) = key (h1 ! b) \<and> nvalue (h2 ! b) = nvalue (h1 ! b) \<and>
         prev (h2 ! b) = (if ?B \<noteq> [] \<and> b = hd ?B then Some ?new else prev (h1 ! b)))"
  proof (cases ?B)
    case Nil
    then show ?thesis by (simp add: t_def)
  next
    case (Cons b B)
    then have "b \<in> set L" using set_below_above(2) [of "heap s" k L] by auto
    then have "b < length h1" using linkedD(2) [OF l] h1(2) by (fastforce simp: frame_def)
    then show ?thesis using set_prev_ok [of b h1 "Some ?new"] Cons by (fastforce simp: t_def)
  qed
  then obtain h2 where h2: "(case ?B of [] \<Rightarrow> Some (h1, Some ?new)
                  | b # _ \<Rightarrow> do { h \<leftarrow> set_prev h1 b (Some ?new); Some (h, tail s) }) = Some (h2, t)"
      "length h2 = length h1" "fwd h2 = fwd h1"
      "\<And>b. b < length h1 \<Longrightarrow> key (h2 ! b) = key (h1 ! b) \<and> nvalue (h2 ! b) = nvalue (h1 ! b) \<and>
         prev (h2 ! b) = (if ?B \<noteq> [] \<and> b = hd ?B then Some ?new else prev (h1 ! b))" by blast
  have "?new < length h2" using h1(2) h2(2) by (simp add: frame_def)
  from set_prev_ok [OF this, of "Some (?P 0)"]
  obtain h3 where h3: "set_prev h2 ?new (Some (?P 0)) = Some h3" "length h3 = length h2" "fwd h3 = fwd h2"
    "\<And>b. b < length h2 \<Longrightarrow> key (h3 ! b) = key (h2 ! b) \<and> nvalue (h3 ! b) = nvalue (h2 ! b)"
    "\<And>b. b < length h2 \<Longrightarrow> prev (h3 ! b) = (if b = ?new then Some (?P 0) else prev (h2 ! b))" by blast
  let ?s = "\<lparr>heap = h3, tail = t, level = lev, size_of = size_of s + 1\<rparr>"
  have "skip_rep ?s (?A @ ?new # ?B) (ht(?new := lvl)) \<and> entries ?s = al_upsert k v (entries s)"
    by (rule insert_result [OF r k miss(1,2), where nd = nd and ?h0.0 = ?h0])
      (use h1(2,3) h2 h3 lvl linkedD(8) [OF l] in \<open>auto simp: frame_def nd_def lev_def t_def P0\<close>)
  moreover have "Insert coins s k v = Some (?s, True)"
  proof -
    have "size_of s \<noteq> 0" using r ne by (simp add: skip_rep_def)
    moreover have "(case (case ?B of [] \<Rightarrow> None | b # _ \<Rightarrow> Some b) of
        Some b \<Rightarrow> do { h \<leftarrow> set_prev h1 b (Some ?new); Some (h, tail s) } | None \<Rightarrow> Some (h1, Some ?new)) = Some (h2, t)"
      using h2(1) by (auto split: list.splits)
    ultimately show ?thesis
      using rep_find [OF r k, of "Some (replicate maxLevel None)"] found_test [OF r k] miss(3)
        upd [of 0] Pf [of 0] P0(2) lvl h1(1) h3(1)
      unfolding Insert_def Let_def lvl_def [symmetric] lev_def [symmetric] nd_def [symmetric]
      by (simp add: up_def [symmetric] up'_def [symmetric])
  qed
  ultimately show ?thesis by blast
qed

lemma Insert_refines:
  assumes "skip_inv s" and k: "k \<noteq> NaN"
  shows "\<exists>s'. Insert coins s k v = Some (s', k \<notin> fst ` set (entries s)) \<and> skip_inv s' \<and>
    entries s' = al_upsert k v (entries s)"
proof -
  obtain L ht where r: "skip_rep s L ht" using assms(1) by (auto simp: skip_inv_def)
  show ?thesis using r
  proof (cases rule: found_cases [where k = k])
    case (hit x B)
    obtain s' where "Insert coins s k v = Some (s', False)" "skip_rep s' L ht" "entries s' = al_upsert k v (entries s)"
      by (rule Insert_hit [OF r k hit(1,2,4,3)])
    then show ?thesis using hit(4) by (auto simp: skip_inv_def)
  next
    case miss
    then show ?thesis
      using Insert_next [OF r k miss(1,2,3), of coins v] Insert_first [of s ht k coins v] r k
      by (cases "L = []") (auto simp: skip_inv_def)
  qed
qed

lemma Delete_hit:
  assumes r: "skip_rep s L ht" and k: "k \<noteq> NaN" and hit: "from_on (heap s) k L = x # B" "key (heap s ! x) = k"
    "\<forall>b \<in> set B. k < key (heap s ! b)" "k \<in> fst ` set (entries s)"
  shows "\<exists>s'. Delete s k = Some (s', True) \<and> skip_rep s' (below (heap s) k L @ B) ht \<and> entries s' = al_delete k (entries s)"
proof -
  have l: "linked (heap s) L ht (level s)" using r by (simp add: skip_rep_def)
  let ?P = "pred_at (heap s) L ht k" and ?A = "below (heap s) k L"
  let ?up = "upd_levels (level s) ?P (replicate maxLevel None)"
  have L: "?A @ x # B = L" unfolding hit(1) [symmetric] by (rule below_above [OF l, symmetric])
  have d: "distinct (0 # ?A @ x # B)" using linkedD(1) [OF l] by (simp only: L)
  have xL: "x \<in> set L" using hit(1) set_below_above(2) [of "heap s" k L] by auto
  have hx: "1 \<le> ht x" "ht x \<le> level s" "level s \<le> maxLevel" "x < length (heap s)"
    using linkedD(2) [OF l xL] linkedD(8) [OF l] by auto
  have P: "?P i \<noteq> x" for i
    using pred_at_mem [of "heap s" L ht k i] hit(2) linkedD(1) [OF l] xL by force
  have Pf: "fwd (heap s) i (?P i) = Some (case on_level ht i (x # B) of [] \<Rightarrow> None | b # _ \<Rightarrow> Some b)" if "i < maxLevel" for i
    using pred_at_fwd [OF l that, of k] hit(1) by simp
  have fx: "fwd (heap s) i x \<noteq> None" if "i < ht x" for i
    using chain_mem [OF linkedD(4) [OF l], of i x] that hx xL by simp
  have up: "upd_at ?up i = Some (?P i)" if "i < level s" for i
    using that hx by (simp add: upd_at_def upd_levels_def)
  have P0: "?P 0 = last (0 # ?A)" using below_ht [OF l, of k] by (simp add: pred_at_def)
  have nx: "fwd (heap s) (ht x) (?P (ht x)) \<noteq> Some (Some x)" if "ht x < level s"
  proof -
    have "x \<notin> set (on_level ht (ht x) B)" by simp
    then show ?thesis using Pf [of "ht x"] that hx by (cases "on_level ht (ht x) B") auto
  qed
  have "\<exists>h'. unlink_levels (level s) 0 x ?up (heap s) = Some h' \<and> frame (heap s) h' \<and>
    (\<forall>j. fwd h' j = (if 0 \<le> j \<and> j < ht x then (fwd (heap s) j)(?P j := fwd (heap s) j x) else fwd (heap s) j))"
  proof (rule unlink_levels_ok)
    show "0 \<le> ht x" "ht x \<le> 0 + level s" using hx by simp_all
    show "upd_at ?up j = Some (?P j) \<and> fwd (heap s) j (?P j) = Some (Some x) \<and> fwd (heap s) j x \<noteq> None \<and> ?P j \<noteq> x"
      if "j < ht x" for j using up [of j] Pf [of j] fx [of j] P [of j] hx that by (auto simp del: not_None_eq)
    show "upd_at ?up (ht x) = Some (?P (ht x)) \<and> fwd (heap s) (ht x) (?P (ht x)) \<noteq> None \<and>
        fwd (heap s) (ht x) (?P (ht x)) \<noteq> Some (Some x)" if "ht x < 0 + level s"
      using up [of "ht x"] Pf [of "ht x"] nx hx that by simp
  qed
  then obtain h1 where h1: "unlink_levels (level s) 0 x ?up (heap s) = Some h1" "frame (heap s) h1"
    "\<And>j. fwd h1 j = (if j < ht x then (fwd (heap s) j)(?P j := fwd (heap s) j x) else fwd (heap s) j)"
    by auto
  have "chain (fwd (heap s) 0) 0 ((?A @ [x]) @ B)" using linked_level0 [OF l] L by simp
  from chain_append [OF this] have "fwd (heap s) 0 x = Some (case B of [] \<Rightarrow> None | b # _ \<Rightarrow> Some b)"
    by (auto dest: chain_head)
  then have fx1: "fwd h1 0 x = Some (case B of [] \<Rightarrow> None | b # _ \<Rightarrow> Some b)"
    using P [of 0] by (simp add: h1(3))
  define t where "t = (if B = [] then (if ?P 0 = 0 then None else Some (?P 0)) else tail s)"
  have "\<exists>h2. (case (case B of [] \<Rightarrow> None | b # _ \<Rightarrow> Some b) of
               Some b \<Rightarrow> do { h \<leftarrow> set_prev h1 b (Some (?P 0)); Some (h, tail s) }
             | None \<Rightarrow> Some (h1, if ?P 0 = 0 then None else Some (?P 0))) = Some (h2, t) \<and>
      length h2 = length h1 \<and> fwd h2 = fwd h1 \<and>
      (\<forall>b < length h1. key (h2 ! b) = key (h1 ! b) \<and> nvalue (h2 ! b) = nvalue (h1 ! b) \<and>
         prev (h2 ! b) = (if B \<noteq> [] \<and> b = hd B then Some (?P 0) else prev (h1 ! b)))"
  proof (cases B)
    case Nil
    then show ?thesis by (simp add: t_def)
  next
    case (Cons b B')
    then have "b \<in> set (?A @ x # B)" by simp
    then have "b \<in> set L" by (simp only: L)
    then have "b < length h1" using linkedD(2) [OF l] h1(2) by (fastforce simp: frame_def)
    from set_prev_ok [OF this, of "Some (?P 0)"] obtain h2 where "set_prev h1 b (Some (?P 0)) = Some h2"
      "length h2 = length h1" "fwd h2 = fwd h1"
      "\<And>a. a < length h1 \<Longrightarrow> key (h2 ! a) = key (h1 ! a) \<and> nvalue (h2 ! a) = nvalue (h1 ! a)"
      "\<And>a. a < length h1 \<Longrightarrow> prev (h2 ! a) = (if a = b then Some (?P 0) else prev (h1 ! a))" by metis
    then show ?thesis by (intro exI [of _ h2]) (simp add: Cons t_def)
  qed
  then obtain h2 where h2: "(case (case B of [] \<Rightarrow> None | b # _ \<Rightarrow> Some b) of
               Some b \<Rightarrow> do { h \<leftarrow> set_prev h1 b (Some (?P 0)); Some (h, tail s) }
             | None \<Rightarrow> Some (h1, if ?P 0 = 0 then None else Some (?P 0))) = Some (h2, t)"
      "length h2 = length h1" "fwd h2 = fwd h1"
      "\<And>b. b < length h1 \<Longrightarrow> key (h2 ! b) = key (h1 ! b) \<and> nvalue (h2 ! b) = nvalue (h1 ! b) \<and>
         prev (h2 ! b) = (if B \<noteq> [] \<and> b = hd B then Some (?P 0) else prev (h1 ! b))" by blast
  have lk: "linked h2 (?A @ B) ht (level s)"
  proof (rule linked_delete [OF l hit(1)])
    show "length h2 = length (heap s)" using h1(2) h2(2) by (simp add: frame_def)
    show "key (h2 ! a) = key (heap s ! a)"
        "prev (h2 ! a) = (if B \<noteq> [] \<and> a = hd B then Some (last (0 # ?A)) else prev (heap s ! a))"
      if "a < length (heap s)" for a
      using h2(4) [of a] h1(2) that unfolding P0 frame_def by simp_all
    show "fwd h2 i = (if i < ht x then (fwd (heap s) i)(?P i := fwd (heap s) i x) else fwd (heap s) i)" for i
      unfolding h2(3) h1(3) ..
  qed
  obtain lev where lev: "drop_level h2 (level s) = Some lev" "linked h2 (?A @ B) ht lev"
    by (rule linked_drop_level [OF lk])
  let ?s = "\<lparr>heap = h2, tail = t, level = lev, size_of = size_of s - 1\<rparr>"
  have "?A = [] \<or> last ?A \<noteq> 0" using d last_in_set [of ?A] by (metis Un_iff distinct.simps(2) set_append)
  moreover have "tail s = Some (last (x # B))" using r L by (metis append_is_Nil_conv last_appendR list.distinct(1) skip_rep_def)
  moreover have "length L = length ?A + Suc (length B)" by (subst L [symmetric]) simp
  ultimately have rep: "skip_rep ?s (?A @ B) ht"
    using lev(2) r P0 by (auto simp: skip_rep_def t_def)
  have e: "entry h2 a = entry (heap s) a" if "a \<in> set (?A @ B)" for a
  proof -
    have "a \<in> set L" using that by (subst L [symmetric]) auto
    then show ?thesis using h2(2,4) h1(2) linkedD(2) [OF l] by (auto simp: entry_def frame_def)
  qed
  then have "entries ?s = map (entry (heap s)) ?A @ map (entry (heap s)) B"
    by (simp add: entries_rep [OF rep] del: set_below_above)
  also have "\<dots> = al_delete k (map (entry (heap s)) ?A @ (k, nvalue (heap s ! x)) # map (entry (heap s)) B)"
    using hit(3) by (intro al_delete_hit [symmetric]) (auto simp: entry_def)
  also have "\<dots> = al_delete k (entries s)"
    using entries_cut [OF r, of k] hit by (simp add: entry_def)
  finally have "entries ?s = al_delete k (entries s)" .
  moreover have "Delete s k = Some (?s, True)"
    using rep_find [OF r k, of "Some (replicate maxLevel None)"] found_test [OF r k] hit(1,4)
      up [of 0] h1(1) fx1 h2(1) lev(1) linkedD(7) [OF l]
    unfolding Delete_def by simp
  ultimately show ?thesis using rep by blast
qed

lemma Delete_refines:
  assumes "skip_inv s" and k: "k \<noteq> NaN"
  shows "\<exists>s'. Delete s k = Some (s', k \<in> fst ` set (entries s)) \<and> skip_inv s' \<and>
    entries s' = al_delete k (entries s)"
proof -
  obtain L ht where r: "skip_rep s L ht" using assms(1) by (auto simp: skip_inv_def)
  show ?thesis using r
  proof (cases rule: found_cases [where k = k])
    case (hit x B)
    then show ?thesis using Delete_hit [OF r k hit(1,2,3,4)] by (auto simp: skip_inv_def)
  next
    case miss
    have "Delete s k = Some (s, False)"
      using rep_find [OF r k, of "Some (replicate maxLevel None)"] found_test [OF r k] miss(3)
      unfolding Delete_def by simp
    then show ?thesis using miss(3) assms(1) al_delete_miss [OF miss(3)] by auto
  qed
qed

section \<open>Iterators\<close>

text \<open>\<open>it_rest s it xs\<close>: iterating from \<open>it\<close> yields the entries \<open>xs\<close>.\<close>

fun it_rest :: "SkipList \<Rightarrow> Iterator \<Rightarrow> (f64 \<times> f64) list \<Rightarrow> bool" where
  "it_rest s (SkipListIterator c) xs \<longleftrightarrow>
     (\<exists>L ht A B. skip_rep s L ht \<and> L = A @ B \<and> xs = map (entry (heap s)) B \<and>
        c = (case B of [] \<Rightarrow> None | b # _ \<Rightarrow> Some b))"
| "it_rest s (SkipListReverseIterator c) xs \<longleftrightarrow>
     (\<exists>L ht A B. skip_rep s L ht \<and> L = A @ B \<and> xs = rev (map (entry (heap s)) A) \<and>
        (if L = [] then c = None else c = Some (last (0 # A))))"

lemma it_start:
  assumes "skip_inv s"
  shows "\<exists>it. mk_Iterator s = Some it \<and> it_rest s it (entries s)"
    and "\<exists>it. mk_ReverseIterator s = Some it \<and> it_rest s it (rev (entries s))"
proof -
  obtain L ht where r: "skip_rep s L ht" using assms by (auto simp: skip_inv_def)
  then have "fwd (heap s) 0 0 = Some (case L of [] \<Rightarrow> None | b # _ \<Rightarrow> Some b)"
    by (auto simp: skip_rep_def dest: linked_level0 chain_head)
  moreover have "it_rest s (SkipListIterator (case L of [] \<Rightarrow> None | b # _ \<Rightarrow> Some b)) (entries s)"
    unfolding it_rest.simps using r entries_rep [OF r] by (metis append_Nil)
  ultimately show "\<exists>it. mk_Iterator s = Some it \<and> it_rest s it (entries s)"
    by (simp add: mk_Iterator_def)
  have "it_rest s (SkipListReverseIterator (tail s)) (rev (entries s))"
    unfolding it_rest.simps using r entries_rep [OF r]
    by (intro exI [of _ L] exI [of _ ht] exI [of _ L] exI [of _ "[]"]) (simp add: skip_rep_def)
  then show "\<exists>it. mk_ReverseIterator s = Some it \<and> it_rest s it (rev (entries s))"
    by (simp add: mk_ReverseIterator_def)
qed

lemma prevs_last: "prevs g p (A @ [a] @ B) \<Longrightarrow> g a = Some (last (p # A))"
  by (simp add: prevs_append)

lemma it_nil: "it_rest s it [] \<Longrightarrow> Valid s it = Some False"
proof (cases it)
  case (SkipListReverseIterator c)
  assume "it_rest s it []"
  with SkipListReverseIterator obtain L ht where "skip_rep s L ht" "if L = [] then c = None else c = Some 0"
    by (auto split: if_splits)
  then have "c = None \<or> c = Some 0 \<and> deref (heap s) 0 = Some (heap s ! 0) \<and> prev (heap s ! 0) = None"
    using linked_heap linkedD(6) by (fastforce simp: skip_rep_def deref_def split: if_splits)
  then show ?thesis by (auto simp: SkipListReverseIterator)
qed auto

lemma it_cons:
  assumes "it_rest s it ((k, v) # xs)"
  shows "Valid s it = Some True \<and> it_Key s it = Some k \<and> it_Value s it = Some v \<and>
    (\<exists>it'. it_Iterate s it = Some it' \<and> it_rest s it' xs)"
proof (cases it)
  case (SkipListIterator c)
  with assms obtain L ht A a B where r: "skip_rep s L ht" and L: "L = A @ a # B" and e: "entry (heap s) a = (k, v)"
    and xs: "xs = map (entry (heap s)) B" and c: "c = Some a" by (auto simp: map_eq_Cons_conv Cons_eq_map_conv)
  have l: "linked (heap s) L ht (level s)" using r by (simp add: skip_rep_def)
  have "chain (fwd (heap s) 0) 0 ((A @ [a]) @ B)" using linked_level0 [OF l] L by simp
  from chain_append [OF this] have f: "fwd (heap s) 0 a = Some (case B of [] \<Rightarrow> None | b # _ \<Rightarrow> Some b)"
    by (auto dest: chain_head)
  have "a < length (heap s)" using linkedD(2) [OF l, of a] L by simp
  moreover have "it_rest s (SkipListIterator (case B of [] \<Rightarrow> None | b # _ \<Rightarrow> Some b)) xs"
    unfolding it_rest.simps xs using r L by (intro exI [of _ L] exI [of _ ht] exI [of _ "A @ [a]"] exI [of _ B]) simp
  ultimately show ?thesis using e f
    by (auto simp: SkipListIterator c it_Key_def it_Value_def deref_def entry_def simp del: it_rest.simps)
next
  case (SkipListReverseIterator c)
  with assms obtain L ht A' B where r: "skip_rep s L ht" and L': "L = A' @ B" and x: "(k, v) # xs = rev (map (entry (heap s)) A')"
    and c': "if L = [] then c = None else c = Some (last (0 # A'))" by auto
  from x have "A' \<noteq> []" by auto
  then obtain A a where A': "A' = A @ [a]" by (metis append_butlast_last_id)
  with x c' L' have L: "L = A @ a # B" and e: "entry (heap s) a = (k, v)" and xs: "xs = rev (map (entry (heap s)) A)" and c: "c = Some a"
    by auto
  have l: "linked (heap s) L ht (level s)" using r by (simp add: skip_rep_def)
  have p: "prev (heap s ! a) = Some (last (0 # A))"
    using prevs_last [of "\<lambda>a. prev (heap s ! a)" 0 A a B] linkedD(5) [OF l] L by simp
  have "a < length (heap s)" using linkedD(2) [OF l, of a] L by simp
  moreover have "it_rest s (SkipListReverseIterator (Some (last (0 # A)))) xs"
    unfolding it_rest.simps xs using r L by (intro exI [of _ L] exI [of _ ht] exI [of _ A] exI [of _ "a # B"]) simp
  ultimately show ?thesis using e p
    by (auto simp: SkipListReverseIterator c it_Key_def it_Value_def deref_def entry_def simp del: it_rest.simps)
qed

section \<open>The contract of an ordered tree\<close>

text \<open>
  What \<open>OrderedTree\<close> and \<open>Iterator\<close> promise to their clients: the operations act on a sorted
  association list, and an iterator walks it from either end.
\<close>

locale ordered_tree =
  fixes inv :: "'t \<Rightarrow> bool" and elems :: "'t \<Rightarrow> (f64 \<times> f64) list"
    and ins :: "bool list \<Rightarrow> 't \<Rightarrow> f64 \<Rightarrow> f64 \<Rightarrow> ('t \<times> bool) option" and del :: "'t \<Rightarrow> f64 \<Rightarrow> ('t \<times> bool) option"
    and get :: "'t \<Rightarrow> f64 \<Rightarrow> (f64 \<times> bool) option"
    and mn :: "'t \<Rightarrow> (f64 \<times> f64 \<times> bool) option" and mx :: "'t \<Rightarrow> (f64 \<times> f64 \<times> bool) option"
    and iter :: "'t \<Rightarrow> 'i option" and riter :: "'t \<Rightarrow> 'i option"
    and valid :: "'t \<Rightarrow> 'i \<Rightarrow> bool option" and ikey :: "'t \<Rightarrow> 'i \<Rightarrow> f64 option" and ival :: "'t \<Rightarrow> 'i \<Rightarrow> f64 option"
    and nxt :: "'t \<Rightarrow> 'i \<Rightarrow> 'i option" and rest :: "'t \<Rightarrow> 'i \<Rightarrow> (f64 \<times> f64) list \<Rightarrow> bool"
  assumes sorted: "inv t \<Longrightarrow> al_sorted (elems t)"
    and ins: "inv t \<Longrightarrow> k \<noteq> NaN \<Longrightarrow> \<exists>t'. ins cs t k v = Some (t', k \<notin> fst ` set (elems t)) \<and> inv t' \<and>
          elems t' = al_upsert k v (elems t)"
    and del: "inv t \<Longrightarrow> k \<noteq> NaN \<Longrightarrow> \<exists>t'. del t k = Some (t', k \<in> fst ` set (elems t)) \<and> inv t' \<and>
          elems t' = al_delete k (elems t)"
    and get: "inv t \<Longrightarrow> k \<noteq> NaN \<Longrightarrow>
          get t k = Some (case map_of (elems t) k of Some v \<Rightarrow> (v, True) | None \<Rightarrow> (Fin 0, False))"
    and mn: "inv t \<Longrightarrow> mn t = Some (case elems t of [] \<Rightarrow> (Fin 0, Fin 0, False) | (k, v) # _ \<Rightarrow> (k, v, True))"
    and mx: "inv t \<Longrightarrow> mx t = Some (if elems t = [] then (Fin 0, Fin 0, False) else let (k, v) = last (elems t) in (k, v, True))"
    and iter: "inv t \<Longrightarrow> \<exists>it. iter t = Some it \<and> rest t it (elems t)"
    and riter: "inv t \<Longrightarrow> \<exists>it. riter t = Some it \<and> rest t it (rev (elems t))"
    and it_end: "rest t it [] \<Longrightarrow> valid t it = Some False"
    and it_step: "rest t it ((k, v) # xs) \<Longrightarrow> valid t it = Some True \<and> ikey t it = Some k \<and> ival t it = Some v \<and>
          (\<exists>it'. nxt t it = Some it' \<and> rest t it' xs)"
begin

lemma get_after_ins:
  assumes "inv t" "k \<noteq> NaN" "k' \<noteq> NaN"
  shows "\<exists>t' b. ins cs t k v = Some (t', b) \<and> inv t' \<and> get t' k' = (if k' = k then Some (v, True) else get t k')"
  using ins [OF assms(1,2), of cs v] get assms sorted [OF assms(1)] by (force simp: map_of_al_upsert)

lemma get_after_del:
  assumes "inv t" "k \<noteq> NaN" "k' \<noteq> NaN"
  shows "\<exists>t' b. del t k = Some (t', b) \<and> inv t' \<and> get t' k' = (if k' = k then Some (Fin 0, False) else get t k')"
  using del [OF assms(1,2)] get assms by (force simp: map_of_al_delete)

text \<open>The smallest and the largest key bound every key present.\<close>

lemma mn_le:
  assumes "inv t" "k \<noteq> NaN" "get t k = Some (v, True)"
  obtains k0 v0 where "mn t = Some (k0, v0, True)" "k0 \<le> k"
proof -
  from assms get have "(k, v) \<in> set (elems t)" by (auto split: option.splits dest: map_of_SomeD)
  with mn [OF assms(1)] sorted [OF assms(1)] that show ?thesis
    by (cases "elems t") (fastforce simp: less_imp_le split: prod.splits)+
qed

lemma mx_ge:
  assumes "inv t" "k \<noteq> NaN" "get t k = Some (v, True)"
  obtains k1 v1 where "mx t = Some (k1, v1, True)" "k \<le> k1"
proof -
  from assms get have kv: "(k, v) \<in> set (elems t)" by (auto split: option.splits dest: map_of_SomeD)
  then obtain xs e where e: "elems t = xs @ [e]" by (metis append_butlast_last_id empty_iff list.set(1))
  obtain k1 v1 where k1: "e = (k1, v1)" by (cases e)
  from kv e k1 sorted [OF assms(1)] have "k \<le> k1" by (auto simp: sorted_wrt_append less_imp_le)
  with mx [OF assms(1)] e k1 that show ?thesis by simp
qed

end

interpretation ot: ordered_tree skip_inv entries Insert Delete Get Min Max mk_Iterator mk_ReverseIterator
    Valid it_Key it_Value it_Iterate it_rest
proof
  show "\<And>t. skip_inv t \<Longrightarrow> al_sorted (entries t)" by (rule entries_sorted)
qed (simp_all add: Insert_refines Delete_refines Get_refines Min_refines Max_refines it_start it_nil it_cons del: it_rest.simps)

section \<open>Histories of operations\<close>

datatype tree_op = Op_Insert "bool list" f64 f64 | Op_Delete f64

fun op_key :: "tree_op \<Rightarrow> f64" where
  "op_key (Op_Insert cs k v) = k"
| "op_key (Op_Delete k) = k"

fun run_op :: "SkipList \<Rightarrow> tree_op \<Rightarrow> SkipList option" where
  "run_op s (Op_Insert cs k v) = map_option fst (Insert cs s k v)"
| "run_op s (Op_Delete k) = map_option fst (Delete s k)"

fun run_ops :: "SkipList \<Rightarrow> tree_op list \<Rightarrow> SkipList option" where
  "run_ops s [] = Some s"
| "run_ops s (x # xs) = do { s' \<leftarrow> run_op s x; run_ops s' xs }"

fun map_op :: "tree_op \<Rightarrow> (f64 \<rightharpoonup> f64) \<Rightarrow> (f64 \<rightharpoonup> f64)" where
  "map_op (Op_Insert cs k v) m = m(k \<mapsto> v)"
| "map_op (Op_Delete k) m = m(k := None)"

lemma run_op_refines:
  assumes "skip_inv s" "op_key x \<noteq> NaN"
  shows "\<exists>s'. run_op s x = Some s' \<and> skip_inv s' \<and> map_of (entries s') = map_op x (map_of (entries s))"
proof (cases x)
  case (Op_Insert cs k v)
  with assms ot.ins [of s k cs v] ot.sorted [of s] show ?thesis by (force simp: map_of_al_upsert)
next
  case (Op_Delete k)
  with assms ot.del [of s k] show ?thesis by (force simp: map_of_al_delete)
qed

lemma run_ops_refines:
  assumes "skip_inv s" "\<forall>x \<in> set xs. op_key x \<noteq> NaN"
  shows "\<exists>s'. run_ops s xs = Some s' \<and> skip_inv s' \<and> map_of (entries s') = fold map_op xs (map_of (entries s))"
  using assms
proof (induction xs arbitrary: s)
  case (Cons x xs)
  then obtain s1 where "run_op s x = Some s1" "skip_inv s1" "map_of (entries s1) = map_op x (map_of (entries s))"
    using run_op_refines [of s x] by auto
  with Cons.IH [of s1] Cons.prems show ?case by simp
qed simp

text \<open>
  C8. From an empty list, every sequence of inserts and deletes with keys other than NaN runs to the end (no
  panic, no endless search) whatever the coin flips; the contents are strictly sorted by key and are
  the map that the same sequence of updates gives, \<open>Get\<close> reads that map, and \<open>Size\<close> counts its keys.
\<close>

theorem skip_list_is_ordered_map:
  assumes "\<forall>x \<in> set xs. op_key x \<noteq> NaN"
  shows "\<exists>s. run_ops NewSkipList xs = Some s \<and> al_sorted (entries s) \<and>
    map_of (entries s) = fold map_op xs Map.empty \<and> Size s = int (card (dom (fold map_op xs Map.empty))) \<and>
    (\<forall>k. k \<noteq> NaN \<longrightarrow> Get s k = Some (case fold map_op xs Map.empty k of Some v \<Rightarrow> (v, True) | None \<Rightarrow> (Fin 0, False)))"
proof -
  from run_ops_refines [OF NewSkipList_inv(1) assms] obtain s where
    s: "run_ops NewSkipList xs = Some s" "skip_inv s" "map_of (entries s) = fold map_op xs Map.empty"
    by (auto simp: NewSkipList_inv(2))
  have "card (dom (map_of (entries s))) = length (entries s)"
    using al_sorted_distinct [OF ot.sorted [OF s(2)]] by (metis dom_map_of_conv_image_fst distinct_card length_map set_map)
  with s ot.sorted [OF s(2)] ot.get [OF s(2)] Size_refines [OF s(2)] show ?thesis by auto
qed

theorem skip_list_is_ordered_map_witness:
  "\<exists>s. run_ops NewSkipList [Op_Insert [True, True] (Fin 101) (Fin 3), Op_Insert [True] (Fin 100) (Fin 7), Op_Delete (Fin 101)] = Some s \<and>
     Get s (Fin 100) = Some (Fin 7, True) \<and> Get s (Fin 101) = Some (Fin 0, False) \<and> Size s = (1 :: int)"
proof -
  let ?xs = "[Op_Insert [True, True] (Fin 101) (Fin 3), Op_Insert [True] (Fin 100) (Fin 7), Op_Delete (Fin 101)]"
  have "fold map_op ?xs Map.empty = [Fin 100 \<mapsto> Fin 7]" by (auto simp: fun_eq_iff)
  with skip_list_is_ordered_map [of ?xs] show ?thesis by auto
qed

end
