(* ===== verification/Order_Book.thy ===== *)
theory Order_Book
  imports Skip_List
begin

text \<open>
  The price-level book (\<open>orderbook/book\<close>): one ordered tree per side, \<open>Upsert\<close> with the rule that a
  quantity of zero or less removes the level, and the reads \<open>Best\<close>, \<open>TopN\<close>, \<open>Depth\<close> and \<open>Iterate\<close>. The
  lemmas rest on the contract \<open>ordered_tree\<close> only: a side behaves as the map from prices to
  quantities, and \<open>TopN\<close> is the prefix of the levels from the best price outwards.
\<close>

section \<open>The model\<close>

datatype Side = Bid | Ask

record PriceLevel =
  Price :: f64
  Quantity :: f64

record TreeBookSide =
  side :: Side
  orderedTree :: SkipList

record OrderBook =
  Bids :: TreeBookSide
  Asks :: TreeBookSide

definition NewTreeBookSide :: "Side \<Rightarrow> TreeBookSide" where
  "NewTreeBookSide sd = \<lparr>side = sd, orderedTree = NewSkipList\<rparr>"

definition NewOrderBook :: OrderBook where
  "NewOrderBook = \<lparr>Bids = NewTreeBookSide Bid, Asks = NewTreeBookSide Ask\<rparr>"

definition Upsert :: "bool list \<Rightarrow> TreeBookSide \<Rightarrow> f64 \<Rightarrow> f64 \<Rightarrow> TreeBookSide option" where
  "Upsert coins t price quantity =
     (if f_le quantity (Fin 0) then
        do { (tr, _) \<leftarrow> Skip_List.Delete (orderedTree t) price; Some (t\<lparr>orderedTree := tr\<rparr>) }
      else
        do { (tr, _) \<leftarrow> Insert coins (orderedTree t) price quantity; Some (t\<lparr>orderedTree := tr\<rparr>) })"

definition book_Delete :: "TreeBookSide \<Rightarrow> f64 \<Rightarrow> TreeBookSide option" where
  "book_Delete t price =
     do { (tr, _) \<leftarrow> Skip_List.Delete (orderedTree t) price; Some (t\<lparr>orderedTree := tr\<rparr>) }"

definition Best :: "TreeBookSide \<Rightarrow> (PriceLevel option \<times> bool) option" where
  "Best t =
     do { (price, sz, ok) \<leftarrow> (if side t = Bid then Skip_List.Max (orderedTree t) else Skip_List.Min (orderedTree t));
          if \<not> ok then Some (None, False)
          else Some (Some \<lparr>Price = price, Quantity = sz\<rparr>, True) }"

text \<open>The loop of \<open>TopN\<close>: \<open>n\<close> is the number of levels still wanted.\<close>

fun top_loop :: "SkipList \<Rightarrow> nat \<Rightarrow> Iterator \<Rightarrow> PriceLevel list \<Rightarrow> PriceLevel list option" where
  "top_loop s 0 it levels = Some levels"
| "top_loop s (Suc n) it levels =
     do { ok \<leftarrow> Valid s it;
          if \<not> ok then Some levels
          else do { k \<leftarrow> it_Key s it; v \<leftarrow> it_Value s it;
                    it' \<leftarrow> it_Iterate s it;
                    top_loop s n it' (levels @ [\<lparr>Price = k, Quantity = v\<rparr>]) } }"

text \<open>A negative \<open>n\<close> makes the allocation of the result slice panic.\<close>

definition TopN :: "TreeBookSide \<Rightarrow> int \<Rightarrow> PriceLevel list option" where
  "TopN t n =
     (if n < 0 then None
      else do { it \<leftarrow> (if side t = Ask then mk_Iterator (orderedTree t) else mk_ReverseIterator (orderedTree t));
                top_loop (orderedTree t) (nat n) it [] })"

definition Depth :: "TreeBookSide \<Rightarrow> int" where
  "Depth t = Size (orderedTree t)"

text \<open>
  \<open>Iterate\<close> calls \<open>fn\<close> on each level until it returns false; \<open>fn\<close> threads a state of its caller. The
  fuel is the number of nodes ever allocated.
\<close>

fun iterate_loop :: "nat \<Rightarrow> SkipList \<Rightarrow> Iterator \<Rightarrow> (f64 \<Rightarrow> f64 \<Rightarrow> 's \<Rightarrow> bool \<times> 's) \<Rightarrow> 's \<Rightarrow> 's option" where
  "iterate_loop 0 s it fn st = None"
| "iterate_loop (Suc n) s it fn st =
     do { ok \<leftarrow> Valid s it;
          if \<not> ok then Some st
          else do { k \<leftarrow> it_Key s it; v \<leftarrow> it_Value s it;
                    case fn k v st of
                      (False, st') \<Rightarrow> Some st'
                    | (True, st') \<Rightarrow> do { it' \<leftarrow> it_Iterate s it; iterate_loop n s it' fn st' } } }"

definition book_Iterate :: "TreeBookSide \<Rightarrow> (f64 \<Rightarrow> f64 \<Rightarrow> 's \<Rightarrow> bool \<times> 's) \<Rightarrow> 's \<Rightarrow> 's option" where
  "book_Iterate t fn st =
     do { it \<leftarrow> mk_Iterator (orderedTree t); iterate_loop (length (heap (orderedTree t))) (orderedTree t) it fn st }"

section \<open>A side as a map\<close>

definition side_inv :: "TreeBookSide \<Rightarrow> bool" where
  "side_inv t \<longleftrightarrow> skip_inv (orderedTree t)"

text \<open>The levels of a side from the best price outwards.\<close>

definition levels_of :: "TreeBookSide \<Rightarrow> (f64 \<times> f64) list" where
  "levels_of t = (if side t = Ask then entries (orderedTree t) else rev (entries (orderedTree t)))"

definition qty_map :: "TreeBookSide \<Rightarrow> f64 \<rightharpoonup> f64" where
  "qty_map t = map_of (entries (orderedTree t))"

definition to_level :: "f64 \<times> f64 \<Rightarrow> PriceLevel" where
  "to_level e = \<lparr>Price = fst e, Quantity = snd e\<rparr>"

lemma Upsert_refines:
  assumes "side_inv t" "p \<noteq> NaN"
  obtains t' where "Upsert coins t p q = Some t'" "side_inv t'" "side t' = side t"
    "qty_map t' = (qty_map t)(p := if f_le q (Fin 0) then None else Some q)"
proof (cases "f_le q (Fin 0)")
  case True
  from ot.del [of "orderedTree t" p] assms obtain s where
    "Skip_List.Delete (orderedTree t) p = Some (s, p \<in> fst ` set (entries (orderedTree t)))"
    "skip_inv s" "entries s = al_delete p (entries (orderedTree t))" by (auto simp: side_inv_def)
  with True that show ?thesis by (simp add: Upsert_def side_inv_def qty_map_def map_of_al_delete)
next
  case False
  from ot.ins [of "orderedTree t" p coins q] assms obtain s where
    "Insert coins (orderedTree t) p q = Some (s, p \<notin> fst ` set (entries (orderedTree t)))"
    "skip_inv s" "entries s = al_upsert p q (entries (orderedTree t))" by (auto simp: side_inv_def)
  with False that assms ot.sorted show ?thesis by (simp add: Upsert_def side_inv_def qty_map_def map_of_al_upsert)
qed

lemma book_Delete_refines:
  assumes "side_inv t" "p \<noteq> NaN"
  shows "\<exists>t'. book_Delete t p = Some t' \<and> side_inv t' \<and> side t' = side t \<and> qty_map t' = (qty_map t)(p := None)"
  using ot.del [of "orderedTree t" p] assms by (force simp: book_Delete_def side_inv_def qty_map_def map_of_al_delete)

lemma Best_refines:
  assumes "side_inv t"
  shows "Best t = Some (case levels_of t of [] \<Rightarrow> (None, False) | e # _ \<Rightarrow> (Some (to_level e), True))"
proof (cases "side t")
  case Bid
  let ?xs = "entries (orderedTree t)"
  have "Skip_List.Max (orderedTree t) = Some (if ?xs = [] then (Fin 0, Fin 0, False) else let (k, v) = last ?xs in (k, v, True))"
    using assms by (intro ot.mx) (simp add: side_inv_def)
  with Bid show ?thesis by (cases ?xs rule: rev_cases) (auto simp: Best_def levels_of_def to_level_def)
next
  case Ask
  have "Skip_List.Min (orderedTree t) =
      Some (case entries (orderedTree t) of [] \<Rightarrow> (Fin 0, Fin 0, False) | (k, v) # _ \<Rightarrow> (k, v, True))"
    using assms by (intro ot.mn) (simp add: side_inv_def)
  with Ask show ?thesis by (cases "entries (orderedTree t)") (auto simp: Best_def levels_of_def to_level_def)
qed

lemma top_loop_rest:
  "it_rest s it xs \<Longrightarrow> top_loop s n it acc = Some (acc @ map to_level (take n xs))"
proof (induction n arbitrary: it xs acc)
  case (Suc n)
  show ?case
  proof (cases xs)
    case Nil
    with Suc.prems ot.it_end show ?thesis by simp
  next
    case (Cons e ys)
    obtain k v where "e = (k, v)" by (cases e)
    with Suc.prems Cons ot.it_step [of s it k v ys] obtain it' where
      "Valid s it = Some True" "it_Key s it = Some k" "it_Value s it = Some v" "it_Iterate s it = Some it'" "it_rest s it' ys"
      by auto
    with Suc.IH [of it' ys] Cons \<open>e = (k, v)\<close> show ?thesis by (simp add: to_level_def)
  qed
qed simp

lemma TopN_refines:
  assumes "side_inv t" "0 \<le> n"
  shows "TopN t n = Some (map to_level (take (nat n) (levels_of t)))"
proof -
  have i: "skip_inv (orderedTree t)" using assms by (simp add: side_inv_def)
  show ?thesis
    using ot.iter [OF i] ot.riter [OF i] assms(2) top_loop_rest
    by (cases "side t") (fastforce simp: TopN_def levels_of_def)+
qed

text \<open>What \<open>Iterate\<close> computes: a fold over the levels in increasing price that \<open>fn\<close> can cut short.\<close>

fun cut_fold :: "(f64 \<Rightarrow> f64 \<Rightarrow> 's \<Rightarrow> bool \<times> 's) \<Rightarrow> (f64 \<times> f64) list \<Rightarrow> 's \<Rightarrow> 's" where
  "cut_fold fn [] st = st"
| "cut_fold fn ((k, v) # xs) st = (case fn k v st of (False, st') \<Rightarrow> st' | (True, st') \<Rightarrow> cut_fold fn xs st')"

lemma iterate_loop_rest:
  "it_rest s it xs \<Longrightarrow> length xs < n \<Longrightarrow> iterate_loop n s it fn st = Some (cut_fold fn xs st)"
proof (induction n arbitrary: it xs st)
  case (Suc n)
  show ?case
  proof (cases xs)
    case Nil
    with Suc.prems ot.it_end show ?thesis by simp
  next
    case (Cons e ys)
    obtain k v where "e = (k, v)" by (cases e)
    with Suc.prems Cons ot.it_step [of s it k v ys] obtain it' where
      "Valid s it = Some True" "it_Key s it = Some k" "it_Value s it = Some v" "it_Iterate s it = Some it'" "it_rest s it' ys"
      by auto
    with Suc.IH [of it' ys] Suc.prems Cons \<open>e = (k, v)\<close> show ?thesis by (auto split: prod.splits bool.splits)
  qed
qed simp

lemma book_Iterate_refines:
  assumes "side_inv t"
  shows "book_Iterate t fn st = Some (cut_fold fn (entries (orderedTree t)) st)"
proof -
  obtain L ht where r: "skip_rep (orderedTree t) L ht" using assms by (auto simp: side_inv_def skip_inv_def)
  have "length (entries (orderedTree t)) < length (heap (orderedTree t))"
    using linked_length [of "heap (orderedTree t)" L ht "level (orderedTree t)"] r by (simp add: entries_rep [OF r] skip_rep_def)
  with ot.iter [of "orderedTree t"] assms iterate_loop_rest show ?thesis
    by (fastforce simp: book_Iterate_def side_inv_def)
qed

section \<open>Histories of updates\<close>

text \<open>The updates a side receives: \<open>(coins, price, quantity)\<close>.\<close>

fun run_upserts :: "TreeBookSide \<Rightarrow> (bool list \<times> f64 \<times> f64) list \<Rightarrow> TreeBookSide option" where
  "run_upserts t [] = Some t"
| "run_upserts t ((cs, p, q) # us) = do { t' \<leftarrow> Upsert cs t p q; run_upserts t' us }"

fun last_qty :: "(bool list \<times> f64 \<times> f64) list \<Rightarrow> (f64 \<rightharpoonup> f64) \<Rightarrow> (f64 \<rightharpoonup> f64)" where
  "last_qty [] m = m"
| "last_qty ((cs, p, q) # us) m = last_qty us (m(p := if f_le q (Fin 0) then None else Some q))"

lemma run_upserts_refines:
  assumes "side_inv t" "\<forall>(cs, p, q) \<in> set us. p \<noteq> NaN"
  shows "\<exists>t'. run_upserts t us = Some t' \<and> side_inv t' \<and> side t' = side t \<and> qty_map t' = last_qty us (qty_map t)"
  using assms
proof (induction us arbitrary: t)
  case (Cons u us)
  obtain cs p q where u: "u = (cs, p, q)" by (cases u)
  with Cons.prems obtain t1 where t1: "Upsert cs t p q = Some t1" "side_inv t1" "side t1 = side t"
    "qty_map t1 = (qty_map t)(p := if f_le q (Fin 0) then None else Some q)"
    by (auto elim: Upsert_refines [of t p cs q])
  from Cons.IH [OF t1(2)] Cons.prems(2) t1 show ?case by (simp add: u del: fun_upd_apply)
qed simp

lemma NewTreeBookSide_inv: "side_inv (NewTreeBookSide sd)" "qty_map (NewTreeBookSide sd) = Map.empty" "side (NewTreeBookSide sd) = sd"
  by (simp_all add: NewTreeBookSide_def side_inv_def qty_map_def NewSkipList_inv)

lemma levels_sorted:
  assumes "side_inv t"
  shows "sorted_wrt (if side t = Ask then (<) else (>)) (map fst (levels_of t))" "set (levels_of t) = set (entries (orderedTree t))"
    "map_of (levels_of t) = qty_map t"
proof -
  have s: "al_sorted (entries (orderedTree t))" using assms ot.sorted by (simp add: side_inv_def)
  then show "sorted_wrt (if side t = Ask then (<) else (>)) (map fst (levels_of t))"
    by (simp add: levels_of_def sorted_wrt_rev rev_map [symmetric])
  show "set (levels_of t) = set (entries (orderedTree t))" by (simp add: levels_of_def)
  show "map_of (levels_of t) = qty_map t"
    using al_sorted_distinct [OF s] map_of_inject_set [of "rev (entries (orderedTree t))" "entries (orderedTree t)"]
    by (simp add: levels_of_def qty_map_def rev_map [symmetric])
qed

text \<open>
  C9. After any sequence of updates with prices other than NaN, a side of the book holds for each price the
  last quantity sent, if that was positive, and nothing else; \<open>TopN\<close> returns the first \<open>n\<close> of these
  levels from the best price outwards (ascending for asks, descending for bids, no price twice), \<open>Best\<close>
  returns the first of them, and \<open>Depth\<close> their number. No operation panics.
\<close>

theorem book_side_correct:
  assumes "\<forall>(cs, p, q) \<in> set us. p \<noteq> NaN"
  shows "\<exists>t xs. run_upserts (NewTreeBookSide sd) us = Some t \<and>
    sorted_wrt (if sd = Ask then (<) else (>)) (map fst xs) \<and> map_of xs = last_qty us Map.empty \<and>
    (\<forall>n \<ge> 0. TopN t n = Some (map to_level (take (nat n) xs))) \<and>
    Best t = Some (case xs of [] \<Rightarrow> (None, False) | e # _ \<Rightarrow> (Some (to_level e), True)) \<and>
    Depth t = int (length xs)"
proof -
  from run_upserts_refines [OF NewTreeBookSide_inv(1) assms, of sd] obtain t where
    t: "run_upserts (NewTreeBookSide sd) us = Some t" "side_inv t" "side t = sd" "qty_map t = last_qty us Map.empty"
    by (auto simp: NewTreeBookSide_inv)
  have "Depth t = int (length (levels_of t))"
    using Size_refines [of "orderedTree t"] t(2) by (simp add: Depth_def side_inv_def levels_of_def)
  with t levels_sorted [OF t(2)] TopN_refines [OF t(2)] Best_refines [OF t(2)] show ?thesis
    by (intro exI [of _ t] exI [of _ "levels_of t"]) simp
qed

theorem book_side_correct_witness:
  "\<exists>t xs. run_upserts (NewTreeBookSide Bid) [([True], Fin 100, Fin 2), ([], Fin 101, Fin 5), ([], Fin 100, Fin 0)] = Some t \<and>
     map_of xs = last_qty [([True], Fin 100, Fin 2), ([], Fin 101, Fin 5), ([], Fin 100, Fin 0)] Map.empty \<and>
     TopN t 1 = Some (map to_level (take 1 xs))"
  using book_side_correct [of "[([True], Fin 100, Fin 2), ([], Fin 101, Fin 5), ([], Fin 100, Fin 0)]" Bid] by auto

text \<open>
  \<open>Iterate\<close> visits the levels in increasing price and stops after the first level for which the callback
  returns false.
\<close>

theorem book_Iterate_correct:
  assumes "\<forall>(cs, p, q) \<in> set us. p \<noteq> NaN"
  shows "\<exists>t xs. run_upserts (NewTreeBookSide sd) us = Some t \<and> al_sorted xs \<and>
    map_of xs = last_qty us Map.empty \<and> (\<forall>fn st. book_Iterate t fn st = Some (cut_fold fn xs st))"
proof -
  from run_upserts_refines [OF NewTreeBookSide_inv(1) assms, of sd] obtain t where
    t: "run_upserts (NewTreeBookSide sd) us = Some t" "side_inv t" "qty_map t = last_qty us Map.empty"
    by (auto simp: NewTreeBookSide_inv)
  then show ?thesis
    using ot.sorted [of "orderedTree t"] book_Iterate_refines [OF t(2)] by (auto simp: side_inv_def qty_map_def)
qed

theorem book_Iterate_correct_witness:
  "\<exists>t xs. run_upserts (NewTreeBookSide Ask) [([], Fin 7, Fin 2), ([], Fin 5, Fin 1)] = Some t \<and> al_sorted xs \<and>
     book_Iterate t (\<lambda>k v n. (False, n + 1)) (0 :: nat) = Some (cut_fold (\<lambda>k v n. (False, n + 1)) xs 0)"
proof -
  have "\<forall>(cs, p, q) \<in> set [([] :: bool list, Fin 7, Fin 2), ([], Fin 5, Fin 1)]. p \<noteq> NaN" by simp
  from book_Iterate_correct [OF this, where sd = Ask and 'a = nat] show ?thesis by blast
qed

end
