(* ===== verification/Ob_Worker.thy ===== *)
theory Ob_Worker
  imports Order_Book Norm_Types
begin

text \<open>
  The order book's worker (\<open>orderbook/worker/worker.go\<close>), the dispatcher that feeds it
  (\<open>dispatcher/dispatcher.go\<close>) and the snapshot store (\<open>redis/redis.go\<close>). A worker owns the books of its symbols;
  its handlers are functions on the record \<open>ObWorker\<close>, one per event of its channel. What a handler sends to Kafka, to the
  coordinator or to the snapshot goroutine is part of its result. Protobuf encoding and decoding, the clock and the
  coin flips of the skip lists are arguments. A Go map of offsets is an association list; a nil map is \<open>None\<close>.

  A restored symbol state has one map under both of its names, \<open>LastCommittedOffset\<close> and
  \<open>LastProcessedOffset\<close>; the flag \<open>offsetsShared\<close> says so until the next commit replaces the first.
\<close>

section \<open>Offsets\<close>

text \<open>The loop that takes the larger offset for every entry of another map.\<close>

definition off_merge :: "offsets \<Rightarrow> offsets \<Rightarrow> offsets" where
  "off_merge m m' = fold (\<lambda>(p, n). off_max p n) m' m"

section \<open>State and messages\<close>

record OrderBookSnapshot =
  sn_Exchange :: string
  sn_Symbol :: string
  sn_PartitionOffsets :: offsets
  sn_TimestampMillis :: int
  sn_BidLevels :: "PriceLevel list"
  sn_AskLevels :: "PriceLevel list"

text \<open>The stored form of a snapshot; an empty map decodes to nil.\<close>

record SnapshotProto =
  sp_Exchange :: string
  sp_Symbol :: string
  sp_PartitionOffsets :: "offsets option"
  sp_SnapshotTsMs :: int
  sp_Bids :: "PriceLevel list"
  sp_Asks :: "PriceLevel list"

record BookState =
  bs_Exchange :: string
  bs_Symbol :: string
  bs_TimestampMillis :: int
  bs_NewestIngestMs :: int
  Orderbook :: OrderBook
  LastCommittedOffset :: offsets
  LastProcessedOffset :: "offsets option"
  offsetsShared :: bool
  Restored :: bool
  bs_SnapshotPending :: bool

definition committed :: "BookState \<Rightarrow> offsets" where
  "committed st = (if offsetsShared st then (case LastProcessedOffset st of None \<Rightarrow> [] | Some m \<Rightarrow> m) else LastCommittedOffset st)"

record ObWorker =
  ow_ID :: int
  FlushDepth :: int
  SnapshotStateMap :: "(string \<times> OrderBookSnapshot) list"
  OrderbookStateMap :: "(string \<times> BookState) list"

definition NewObWorker :: "int \<Rightarrow> int \<Rightarrow> ObWorker" where
  "NewObWorker wid flushDepth = \<lparr>ow_ID = wid, FlushDepth = flushDepth, SnapshotStateMap = [], OrderbookStateMap = []\<rparr>"

record OrderbookFlush =
  fl_Exchange :: string
  fl_Symbol :: string
  fl_EventTimeMillis :: int
  fl_Bids :: "PriceLevel list"
  fl_Asks :: "PriceLevel list"
  fl_BestBid :: PriceLevel
  fl_BestAsk :: PriceLevel
  fl_Spread :: f64

record FlushAck =
  ack_Epoch :: int
  ack_WorkerID :: int
  PartitionOffsets :: offsets

text \<open>The events of a worker's channel, with the fields of \<open>DispatchRecord\<close> that each carries.\<close>

record BookUpdate =
  bu_Partition :: int
  bu_Offset :: int
  bu_Headers :: "header list option"
  bu_Update :: NormalizedBook
  bu_Exchange :: string
  bu_Symbol :: string
  bu_TsMs :: int

datatype ob_event =
    ProcessEvent BookUpdate | FlushEvent int | SnapshotRequestEvent | SnapshotExecuteEvent | SnapshotPersistedEvent string

record ob_codec =
  unmarshal_NBook :: "bytes \<Rightarrow> NormalizedBook option"
  unmarshal_Snapshot :: "bytes \<Rightarrow> SnapshotProto"
  marshal_Snapshot :: "SnapshotProto \<Rightarrow> bytes option"
  marshal_Flush :: "OrderbookFlush \<Rightarrow> bytes option"
  ob_Downstream :: string

definition or_panic :: "'a option \<Rightarrow> 'a outcome" where
  "or_panic m = (case m of None \<Rightarrow> Panic | Some x \<Rightarrow> Done x)"

section \<open>Dispatch\<close>

text \<open>\<open>fnv.New32a\<close>\<close>

definition fnv32a :: "string \<Rightarrow> 32 word" where
  "fnv32a s = fold (\<lambda>b h. (h XOR ucast b) * 16777619) (bytes_of s) 2166136261"

text \<open>A record that does not decode is skipped; \<open>n\<close> is the number of workers. With none the remainder panics.\<close>

definition dispatch :: "ob_codec \<Rightarrow> nat \<Rightarrow> kgo_record \<Rightarrow> (nat \<times> BookUpdate) option outcome" where
  "dispatch cd n rec =
     (case unmarshal_NBook cd (RValue rec) of
        None \<Rightarrow> Done None
      | Some u \<Rightarrow>
          if n = 0 then Panic
          else Done (Some (unat (fnv32a (nb_Exchange u @ '':'' @ nb_Symbol u)) mod n,
            \<lparr>bu_Partition = RPartition rec, bu_Offset = ROffset rec, bu_Headers = Some (RHeaders rec), bu_Update = u,
             bu_Exchange = nb_Exchange u, bu_Symbol = nb_Symbol u, bu_TsMs = nb_EventTimeMillis u\<rparr>)))"

section \<open>Book updates\<close>

text \<open>The redis client: the bytes under a key, none when it is missing or cannot be read.\<close>

type_synonym redis = "string \<Rightarrow> bytes"

definition with_coins :: "(nat \<Rightarrow> bool list) \<Rightarrow> (f64 \<times> f64) list \<Rightarrow> (bool list \<times> f64 \<times> f64) list" where
  "with_coins coins lvls = map (\<lambda>(i, p, q). (coins i, p, q)) (enumerate 0 lvls)"

definition upsert_all :: "(Side \<Rightarrow> nat \<Rightarrow> bool list) \<Rightarrow> (f64 \<times> f64) list \<Rightarrow> (f64 \<times> f64) list \<Rightarrow> OrderBook \<Rightarrow> OrderBook option" where
  "upsert_all coins bids asks b =
     do { bs \<leftarrow> run_upserts (Bids b) (with_coins (coins Bid) bids);
          as \<leftarrow> run_upserts (Asks b) (with_coins (coins Ask) asks);
          Some \<lparr>Bids = bs, Asks = as\<rparr> }"

definition level_pair :: "PriceLevel \<Rightarrow> f64 \<times> f64" where
  "level_pair l = (Price l, Quantity l)"

definition RestoreOrCreateState ::
    "ob_codec \<Rightarrow> redis \<Rightarrow> (Side \<Rightarrow> nat \<Rightarrow> bool list) \<Rightarrow> string \<Rightarrow> string \<Rightarrow> BookState outcome" where
  "RestoreOrCreateState cd rdb coins exchange symbol =
     (let bytes = rdb (exchange @ '':'' @ symbol)
      in if bytes = [] then
           Done \<lparr>bs_Exchange = exchange, bs_Symbol = symbol, bs_TimestampMillis = 0, bs_NewestIngestMs = 0, Orderbook = NewOrderBook,
                 LastCommittedOffset = [], LastProcessedOffset = Some [], offsetsShared = False, Restored = False,
                 bs_SnapshotPending = False\<rparr>
         else
           let sp = unmarshal_Snapshot cd bytes
           in bind_out (or_panic (upsert_all coins (map level_pair (sp_Bids sp)) (map level_pair (sp_Asks sp)) NewOrderBook)) (\<lambda>b.
              Done \<lparr>bs_Exchange = exchange, bs_Symbol = symbol, bs_TimestampMillis = sp_SnapshotTsMs sp, bs_NewestIngestMs = 0,
                    Orderbook = b, LastCommittedOffset = [], LastProcessedOffset = sp_PartitionOffsets sp, offsetsShared = True,
                    Restored = True, bs_SnapshotPending = False\<rparr>))"

definition book_key :: "string \<Rightarrow> string \<Rightarrow> string" where
  "book_key exchange symbol = appendLowerASCII (appendLowerASCII [] exchange @ '':'') symbol"

definition book_pair :: "BookLevel \<Rightarrow> f64 \<times> f64" where
  "book_pair l = (bl_Price l, bl_Volume l)"

text \<open>A write to a nil map panics.\<close>

definition note_offset :: "int \<Rightarrow> int \<Rightarrow> BookState \<Rightarrow> BookState outcome" where
  "note_offset p n st = (case LastProcessedOffset st of
     None \<Rightarrow> Panic | Some m \<Rightarrow> Done (st\<lparr>LastProcessedOffset := Some (off_max p n m)\<rparr>))"

text \<open>
  The key of \<open>OrderbookStateMap\<close> is a string over the bytes of the worker's one \<open>bufferKeyBuf\<close>, which the next update
  overwrites; every key inserted before then reads as the new bytes, up to its length. Which entry a lookup
  ends at depends on the hashes the runtime has kept and on its growth of the map, so it is an argument: \<open>slot\<close> gives for
  the text of a lookup the name of the entry found, or a name that is not in the map when none is found. An entry
  is named when it is inserted and keeps its name. \<open>slot = id\<close> is a map whose keys keep their text.
\<close>

definition ProcessBookUpdate ::
    "ob_codec \<Rightarrow> redis \<Rightarrow> (string \<Rightarrow> string) \<Rightarrow> (Side \<Rightarrow> nat \<Rightarrow> bool list) \<Rightarrow> (Side \<Rightarrow> nat \<Rightarrow> bool list) \<Rightarrow> ObWorker \<Rightarrow> BookUpdate \<Rightarrow> ObWorker outcome" where
  "ProcessBookUpdate cd rdb slot coins0 coins w rec =
     (let bkey = slot (book_key (bu_Exchange rec) (bu_Symbol rec))
      in bind_out (case map_of (OrderbookStateMap w) bkey of
                     Some st \<Rightarrow> Done st
                   | None \<Rightarrow> RestoreOrCreateState cd rdb coins0 (bu_Exchange rec) (bu_Symbol rec)) (\<lambda>st.
         bind_out (or_panic (upsert_all coins (map book_pair (nb_Bids (bu_Update rec))) (map book_pair (nb_Asks (bu_Update rec))) (Orderbook st))) (\<lambda>b.
         let ingest = (case bu_Headers rec of None \<Rightarrow> None | Some hs \<Rightarrow> Find hs);
             st1 = st\<lparr>Orderbook := b, bs_TimestampMillis := bu_TsMs rec,
                      bs_NewestIngestMs := (case ingest of
                          None \<Rightarrow> bs_NewestIngestMs st
                        | Some ms \<Rightarrow> if ms > bs_NewestIngestMs st then ms else bs_NewestIngestMs st)\<rparr>
         in bind_out (note_offset (bu_Partition rec) (bu_Offset rec) st1) (\<lambda>st2.
            Done (w\<lparr>OrderbookStateMap := AList.update bkey st2 (OrderbookStateMap w)\<rparr>)))))"

section \<open>Flushes\<close>

text \<open>
  From here on the handlers range over the entries of the map and address an entry by its name. In the program the key
  they range over reads as the current bytes of the buffer; the name is what it read when the entry was inserted.
\<close>

definition bestLevelsForFlush :: "BookState \<Rightarrow> (PriceLevel \<times> PriceLevel) option outcome" where
  "bestLevelsForFlush st =
     bind_out (or_panic (Best (Bids (Orderbook st)))) (\<lambda>(bid, okBid).
     bind_out (or_panic (Best (Asks (Orderbook st)))) (\<lambda>(ask, okAsk).
     Done (case (bid, ask) of
             (Some b, Some a) \<Rightarrow> if \<not> okBid \<or> \<not> okAsk then None else Some (b, a)
           | _ \<Rightarrow> None)))"

text \<open>\<open>kafka.ProduceAsync\<close>\<close>

definition ob_ProduceAsync :: "string \<Rightarrow> string \<Rightarrow> bytes \<Rightarrow> int \<Rightarrow> kgo_record" where
  "ob_ProduceAsync topic bkey val ingestMs =
     \<lparr>RTopic = topic, RPartition = 0, ROffset = 0, RKey = bkey, RValue = val,
      RHeaders = (if ingestMs > 0 then [Header ingestMs] else []), RTimestamp = 0\<rparr>"

definition flush_book :: "BookState \<Rightarrow> PriceLevel list \<Rightarrow> PriceLevel list \<Rightarrow> PriceLevel \<Rightarrow> PriceLevel \<Rightarrow> OrderbookFlush" where
  "flush_book st bids asks bestBid bestAsk =
     \<lparr>fl_Exchange = bs_Exchange st, fl_Symbol = bs_Symbol st, fl_EventTimeMillis = bs_TimestampMillis st, fl_Bids = bids, fl_Asks = asks,
      fl_BestBid = bestBid, fl_BestAsk = bestAsk, fl_Spread = f_sub (Price bestAsk) (Price bestBid)\<rparr>"

definition flush_state :: "ob_codec \<Rightarrow> int \<Rightarrow> string \<Rightarrow> BookState \<Rightarrow> (BookState \<times> kgo_record option) outcome" where
  "flush_state cd flushDepth bkey st =
     bind_out (or_panic (TopN (Bids (Orderbook st)) flushDepth)) (\<lambda>bids.
     bind_out (or_panic (TopN (Asks (Orderbook st)) flushDepth)) (\<lambda>asks.
       if bids = [] \<or> asks = [] then Done (st, None)
       else bind_out (bestLevelsForFlush st) (\<lambda>best.
         case best of
           None \<Rightarrow> Done (st, None)
         | Some (bestBid, bestAsk) \<Rightarrow>
             (case marshal_Flush cd (flush_book st bids asks bestBid bestAsk) of
                None \<Rightarrow> Done (st, None)
              | Some val \<Rightarrow> Done (st\<lparr>bs_NewestIngestMs := 0\<rparr>, Some (ob_ProduceAsync (ob_Downstream cd) bkey val (bs_NewestIngestMs st)))))))"

fun flush_states :: "ob_codec \<Rightarrow> int \<Rightarrow> (string \<times> BookState) list \<Rightarrow> ((string \<times> BookState) list \<times> kgo_record list) outcome" where
  "flush_states cd flushDepth [] = Done ([], [])"
| "flush_states cd flushDepth ((bkey, st) # sts) =
     bind_out (flush_state cd flushDepth bkey st) (\<lambda>(st', out).
     bind_out (flush_states cd flushDepth sts) (\<lambda>(sts', outs).
       Done ((bkey, st') # sts', (case out of None \<Rightarrow> outs | Some r \<Rightarrow> r # outs))))"

definition processed_offsets :: "ObWorker \<Rightarrow> offsets" where
  "processed_offsets w =
     fold (\<lambda>(bkey, st) m. off_merge m (case LastProcessedOffset st of None \<Rightarrow> [] | Some m' \<Rightarrow> m')) (OrderbookStateMap w) []"

definition FlushBook :: "ob_codec \<Rightarrow> ObWorker \<Rightarrow> int \<Rightarrow> (ObWorker \<times> kgo_record list \<times> FlushAck) outcome" where
  "FlushBook cd w flushEpoch =
     bind_out (flush_states cd (FlushDepth w) (OrderbookStateMap w)) (\<lambda>(sts, recs).
       let w1 = w\<lparr>OrderbookStateMap := sts\<rparr>
       in Done (w1, recs, \<lparr>ack_Epoch = flushEpoch, ack_WorkerID = ow_ID w, PartitionOffsets = processed_offsets w1\<rparr>))"

section \<open>Snapshots\<close>

definition CloneLightWeight :: "ObWorker \<Rightarrow> int \<Rightarrow> BookState \<Rightarrow> OrderBookSnapshot outcome" where
  "CloneLightWeight w now st =
     bind_out (or_panic (TopN (Bids (Orderbook st)) (FlushDepth w))) (\<lambda>bids.
     bind_out (or_panic (TopN (Asks (Orderbook st)) (FlushDepth w))) (\<lambda>asks.
       Done \<lparr>sn_Exchange = bs_Exchange st, sn_Symbol = bs_Symbol st,
             sn_PartitionOffsets = (case LastProcessedOffset st of None \<Rightarrow> [] | Some m \<Rightarrow> m),
             sn_TimestampMillis = now, sn_BidLevels = bids, sn_AskLevels = asks\<rparr>))"

fun request_loop :: "ObWorker \<Rightarrow> int \<Rightarrow> (string \<times> BookState) list \<Rightarrow> ObWorker outcome" where
  "request_loop w now [] = Done w"
| "request_loop w now ((bkey, st) # sts) =
     (if bs_SnapshotPending st then request_loop w now sts
      else bind_out (CloneLightWeight w now st) (\<lambda>sn.
        request_loop (w\<lparr>SnapshotStateMap := AList.update bkey sn (SnapshotStateMap w),
          OrderbookStateMap := AList.update bkey (st\<lparr>bs_SnapshotPending := True\<rparr>) (OrderbookStateMap w)\<rparr>) now sts))"

definition HandleSnapshotRequest :: "ObWorker \<Rightarrow> int \<Rightarrow> ObWorker outcome" where
  "HandleSnapshotRequest w now = request_loop w now (OrderbookStateMap w)"

text \<open>The condition under which a clone may be stored, and the messages for the snapshot goroutine.\<close>

definition canSnapshot :: "offsets \<Rightarrow> offsets \<Rightarrow> bool" where
  "canSnapshot snap comm \<longleftrightarrow> (\<forall>(p, n) \<in> set snap. \<not> n > off_get comm p)"

fun evaluate_loop :: "(string \<rightharpoonup> BookState) \<Rightarrow> (string \<times> OrderBookSnapshot) list \<Rightarrow> (string \<times> OrderBookSnapshot) list outcome" where
  "evaluate_loop states [] = Done []"
| "evaluate_loop states ((bkey, sn) # sns) =
     (case states bkey of
        None \<Rightarrow> Panic
      | Some st \<Rightarrow>
          bind_out (evaluate_loop states sns) (\<lambda>rest.
            Done (if bs_SnapshotPending st \<and> canSnapshot (sn_PartitionOffsets sn) (committed st) then (bkey, sn) # rest else rest)))"

definition EvaluateAndDispatchSnapshot :: "ObWorker \<Rightarrow> (string \<times> OrderBookSnapshot) list outcome" where
  "EvaluateAndDispatchSnapshot w = evaluate_loop (map_of (OrderbookStateMap w)) (SnapshotStateMap w)"

definition HandleSnapshotPersisted :: "ObWorker \<Rightarrow> string \<Rightarrow> ObWorker outcome" where
  "HandleSnapshotPersisted w bkey =
     (case map_of (OrderbookStateMap w) bkey of
        None \<Rightarrow> Panic
      | Some st \<Rightarrow> Done (w\<lparr>OrderbookStateMap := AList.update bkey (st\<lparr>bs_SnapshotPending := False\<rparr>) (OrderbookStateMap w),
                          SnapshotStateMap := AList.delete bkey (SnapshotStateMap w)\<rparr>))"

text \<open>
  One message of \<open>SnapshotPersistLoop\<close>: the bytes to store under the key, or nothing for an empty or an
  unencodable snapshot. A map without entries encodes as no map.
\<close>

definition snapshot_proto :: "OrderBookSnapshot \<Rightarrow> SnapshotProto" where
  "snapshot_proto sn =
     \<lparr>sp_Exchange = sn_Exchange sn, sp_Symbol = sn_Symbol sn,
      sp_PartitionOffsets = (if sn_PartitionOffsets sn = [] then None else Some (sn_PartitionOffsets sn)),
      sp_SnapshotTsMs = sn_TimestampMillis sn, sp_Bids = sn_BidLevels sn, sp_Asks = sn_AskLevels sn\<rparr>"

definition persist_snapshot :: "ob_codec \<Rightarrow> OrderBookSnapshot \<Rightarrow> bytes option" where
  "persist_snapshot cd sn =
     (if sn_BidLevels sn = [] \<and> sn_AskLevels sn = [] then None else marshal_Snapshot cd (snapshot_proto sn))"

text \<open>One acknowledgement of \<open>ProcessUpdateAck\<close>; the loop then sends a \<open>SnapshotExecuteEvent\<close>.\<close>

definition ProcessUpdateAck :: "ObWorker \<Rightarrow> FlushAck \<Rightarrow> ObWorker" where
  "ProcessUpdateAck w a =
     w\<lparr>OrderbookStateMap := map (\<lambda>(bkey, st). (bkey, st\<lparr>LastCommittedOffset := PartitionOffsets a, offsetsShared := False\<rparr>)) (OrderbookStateMap w)\<rparr>"

section \<open>The event loop\<close>

datatype ob_output = Publish kgo_record | SendAck FlushAck | PersistSnapshot string OrderBookSnapshot

definition ob_handle ::
    "ob_codec \<Rightarrow> redis \<Rightarrow> (string \<Rightarrow> string) \<Rightarrow> (Side \<Rightarrow> nat \<Rightarrow> bool list) \<Rightarrow> (Side \<Rightarrow> nat \<Rightarrow> bool list) \<Rightarrow> int \<Rightarrow> ObWorker \<Rightarrow> ob_event \<Rightarrow> (ObWorker \<times> ob_output list) outcome" where
  "ob_handle cd rdb slot coins0 coins now w ev =
     (case ev of
        ProcessEvent rec \<Rightarrow> bind_out (ProcessBookUpdate cd rdb slot coins0 coins w rec) (\<lambda>w1. Done (w1, []))
      | SnapshotRequestEvent \<Rightarrow> bind_out (HandleSnapshotRequest w now) (\<lambda>w1. Done (w1, []))
      | FlushEvent epoch \<Rightarrow> bind_out (FlushBook cd w epoch) (\<lambda>(w1, recs, a). Done (w1, map Publish recs @ [SendAck a]))
      | SnapshotExecuteEvent \<Rightarrow> bind_out (EvaluateAndDispatchSnapshot w) (\<lambda>msgs. Done (w, map (\<lambda>(bkey, sn). PersistSnapshot bkey sn) msgs))
      | SnapshotPersistedEvent bkey \<Rightarrow> bind_out (HandleSnapshotPersisted w bkey) (\<lambda>w1. Done (w1, [])))"

end
