(* ===== verification/Ob_Props.thy ===== *)
theory Ob_Props
  imports Ob_Worker
begin

text \<open>
  What the order book's worker guarantees: its handlers do not panic on updates with real prices, a flush
  publishes the best levels of every book with two sides, a stored snapshot restores the levels it was taken from, and what
  goes wrong around snapshots.
\<close>

section \<open>Books\<close>

definition side_ok :: "Side \<Rightarrow> TreeBookSide \<Rightarrow> bool" where
  "side_ok sd t \<longleftrightarrow> side_inv t \<and> side t = sd \<and> (\<forall>p q. qty_map t p = Some q \<longrightarrow> p \<noteq> NaN \<and> \<not> f_le q (Fin 0))"

definition book_ok :: "OrderBook \<Rightarrow> bool" where
  "book_ok b \<longleftrightarrow> side_ok Bid (Bids b) \<and> side_ok Ask (Asks b)"

lemma NewOrderBook_empty: "qty_map (Bids NewOrderBook) = Map.empty" "qty_map (Asks NewOrderBook) = Map.empty"
  by (simp_all add: NewOrderBook_def NewTreeBookSide_inv)

lemma NewOrderBook_ok: "book_ok NewOrderBook"
  by (simp add: book_ok_def side_ok_def NewOrderBook_def NewTreeBookSide_inv)

text \<open>The map of a side after a list of updates.\<close>

definition apply_levels :: "(f64 \<times> f64) list \<Rightarrow> (f64 \<rightharpoonup> f64) \<Rightarrow> (f64 \<rightharpoonup> f64)" where
  "apply_levels xs m = fold (\<lambda>(p, q) m. m(p := if f_le q (Fin 0) then None else Some q)) xs m"

lemma last_qty_coins: "last_qty (with_coins coins xs) m = apply_levels xs m"
proof -
  have "last_qty (map (\<lambda>(i, p, q). (coins i, p, q)) (enumerate n xs)) m = apply_levels xs m" for n
    by (induction xs arbitrary: n m) (auto simp: apply_levels_def)
  then show ?thesis by (simp add: with_coins_def)
qed

lemma with_coins_prices: "(cs, p, q) \<in> set (with_coins coins xs) \<Longrightarrow> (p, q) \<in> set xs"
  by (auto simp: with_coins_def enumerate_eq_zip dest: set_zip_rightD)

lemma apply_levels_ok:
  assumes "\<forall>(p, q) \<in> set xs. p \<noteq> NaN" "\<forall>p q. m p = Some q \<longrightarrow> p \<noteq> NaN \<and> \<not> f_le q (Fin 0)" "apply_levels xs m p = Some q"
  shows "p \<noteq> NaN \<and> \<not> f_le q (Fin 0)"
  using assms
proof (induction xs arbitrary: m)
  case (Cons x xs)
  obtain p' q' where x: "x = (p', q')" by (cases x)
  define m1 where "m1 = m(p' := if f_le q' (Fin 0) then None else Some q')"
  have "\<forall>p q. m1 p = Some q \<longrightarrow> p \<noteq> NaN \<and> \<not> f_le q (Fin 0)" using Cons.prems(1,2) x by (auto simp: m1_def split: if_splits)
  moreover have "apply_levels xs m1 p = Some q" using Cons.prems(3) by (simp add: x apply_levels_def m1_def)
  ultimately show ?case using Cons.IH [of m1] Cons.prems(1) by simp
qed (simp add: apply_levels_def)

lemma upserts_ok:
  assumes "side_ok sd t" "\<forall>(p, q) \<in> set xs. p \<noteq> NaN"
  obtains t' where "run_upserts t (with_coins coins xs) = Some t'" "side_ok sd t'" "qty_map t' = apply_levels xs (qty_map t)"
proof -
  have "\<forall>(cs, p, q) \<in> set (with_coins coins xs). p \<noteq> NaN" using assms(2) with_coins_prices by fastforce
  moreover have t: "side_inv t" "side t = sd" "\<forall>p q. qty_map t p = Some q \<longrightarrow> p \<noteq> NaN \<and> \<not> f_le q (Fin 0)"
    using assms(1) unfolding side_ok_def by blast+
  ultimately obtain t' where t': "run_upserts t (with_coins coins xs) = Some t'" "side_inv t'" "side t' = sd"
    "qty_map t' = apply_levels xs (qty_map t)"
    using run_upserts_refines [of t "with_coins coins xs"] unfolding last_qty_coins by blast
  moreover have "side_ok sd t'"
    using t'(2,3) apply_levels_ok [OF assms(2) t(3)] unfolding side_ok_def t'(4) by blast
  ultimately show thesis using that by blast
qed

lemma upsert_all_ok:
  assumes "book_ok b" "\<forall>(p, q) \<in> set bids \<union> set asks. p \<noteq> NaN"
  obtains b' where "upsert_all coins bids asks b = Some b'" "book_ok b'"
    "qty_map (Bids b') = apply_levels bids (qty_map (Bids b))" "qty_map (Asks b') = apply_levels asks (qty_map (Asks b))"
proof -
  obtain bs where bs: "run_upserts (Bids b) (with_coins (coins Bid) bids) = Some bs" "side_ok Bid bs"
    "qty_map bs = apply_levels bids (qty_map (Bids b))"
    by (rule upserts_ok [of Bid "Bids b" bids "coins Bid"]) (use assms in \<open>auto simp: book_ok_def\<close>)
  obtain as where as: "run_upserts (Asks b) (with_coins (coins Ask) asks) = Some as" "side_ok Ask as"
    "qty_map as = apply_levels asks (qty_map (Asks b))"
    by (rule upserts_ok [of Ask "Asks b" asks "coins Ask"]) (use assms in \<open>auto simp: book_ok_def\<close>)
  from bs as that show thesis by (simp add: upsert_all_def book_ok_def)
qed

lemma TopN_ok: "side_ok sd t \<Longrightarrow> 0 \<le> n \<Longrightarrow> TopN t n = Some (map to_level (take (nat n) (levels_of t)))"
  by (simp add: side_ok_def TopN_refines)

lemma Best_ok: "side_ok sd t \<Longrightarrow> Best t = Some (case levels_of t of [] \<Rightarrow> (None, False) | e # _ \<Rightarrow> (Some (to_level e), True))"
  by (simp add: side_ok_def Best_refines)

text \<open>The levels are determined by the map.\<close>

lemma sorted_alist_unique:
  fixes xs ys :: "('k :: linorder \<times> 'v) list"
  assumes "sorted_wrt (<) (map fst xs)" "sorted_wrt (<) (map fst ys)" "map_of xs = map_of ys"
  shows "xs = ys"
proof -
  have keys: "map fst xs = map fst ys"
    using strict_sorted_equal [OF assms(1,2)] assms(3) by (metis dom_map_of_conv_image_fst set_map)
  have "map (\<lambda>k. (k, the (map_of zs k))) (map fst zs) = zs" if "sorted_wrt (<) (map fst zs)" for zs :: "('k \<times> 'v) list"
  proof -
    have "distinct (map fst zs)" using that strict_sorted_iff by blast
    then have "map (\<lambda>e. (fst e, the (map_of zs (fst e)))) zs = zs" by (intro map_idI) auto
    then show ?thesis by (simp add: comp_def)
  qed
  from this [OF assms(1)] this [OF assms(2)] keys assms(3) show ?thesis by metis
qed

lemma levels_unique:
  assumes "side_ok sd t" "sorted_wrt (if sd = Ask then (<) else (>)) (map fst xs)" "map_of xs = qty_map t"
  shows "levels_of t = xs"
proof -
  have s: "sorted_wrt (if sd = Ask then (<) else (>)) (map fst (levels_of t))" "map_of (levels_of t) = qty_map t"
    using levels_sorted [of t] assms(1) by (simp_all add: side_ok_def)
  show ?thesis
  proof (cases "sd = Ask")
    case True
    with s assms sorted_alist_unique show ?thesis by metis
  next
    case False
    have r: "sorted_wrt (<) (map fst (rev zs)) \<longleftrightarrow> sorted_wrt (>) (map fst zs)" for zs :: "(f64 \<times> f64) list"
      unfolding rev_map [symmetric] sorted_wrt_rev by simp
    have m: "map_of (rev zs) = map_of zs" if "sorted_wrt (>) (map fst zs)" for zs :: "(f64 \<times> f64) list"
    proof -
      have "distinct (map fst (rev zs))" using that r strict_sorted_iff by blast
      moreover then have "distinct (map fst zs)" by (simp add: rev_map [symmetric])
      ultimately show ?thesis using map_of_inject_set [of "rev zs" zs] by simp
    qed
    have "sorted_wrt (>) (map fst (levels_of t))" "sorted_wrt (>) (map fst xs)" using False s(1) assms(2) by simp_all
    then have "rev (levels_of t) = rev xs"
      using sorted_alist_unique [of "rev (levels_of t)" "rev xs"] r m s(2) assms(3) by simp
    then show ?thesis by simp
  qed
qed

section \<open>Offsets\<close>

lemma map_of_off_merge: "map_of (off_merge m xs) = fold (\<lambda>(p, n) m. max_upd m p n) xs (map_of m)"
  unfolding off_merge_def by (induction xs arbitrary: m) (auto simp: map_of_off_max)

definition noted_offsets :: "BookState \<Rightarrow> offsets" where
  "noted_offsets st = (case LastProcessedOffset st of None \<Rightarrow> [] | Some m \<Rightarrow> m)"

lemma noted_offsets_ingest [simp]: "noted_offsets (st\<lparr>bs_NewestIngestMs := t\<rparr>) = noted_offsets st"
  by (simp add: noted_offsets_def)

lemma map_of_processed:
  "map_of (processed_offsets w) = fold (\<lambda>(p, n) m. max_upd m p n) (concat (map (noted_offsets \<circ> snd) (OrderbookStateMap w))) Map.empty"
proof -
  have "map_of (fold (\<lambda>(k, st) m. off_merge m (noted_offsets st)) sts m) =
      fold (\<lambda>(p, n) m. max_upd m p n) (concat (map (noted_offsets \<circ> snd) sts)) (map_of m)" for sts :: "(string \<times> BookState) list" and m :: offsets
    by (induction sts arbitrary: m) (auto simp: map_of_off_merge)
  moreover have "processed_offsets w = fold (\<lambda>(k, st) m. off_merge m (noted_offsets st)) (OrderbookStateMap w) []"
    by (simp add: processed_offsets_def noted_offsets_def)
  ultimately show ?thesis by simp
qed

lemma fold_max_upd_mem:
  "fold (\<lambda>(k, v) m. max_upd m k v) xs m k = Some u \<Longrightarrow> m k = Some u \<or> u = 0 \<or> (k, u) \<in> set xs"
proof (induction xs arbitrary: m)
  case (Cons x xs)
  obtain k' v' where x: "x = (k', v')" by (cases x)
  define m1 where "m1 = max_upd m k' v'"
  have "m1 k = Some u \<or> u = 0 \<or> (k, u) \<in> set xs" using Cons.IH [of m1] Cons.prems by (simp add: x m1_def)
  then show ?case by (auto simp: x m1_def go_simps max_def split: if_splits option.splits)
qed simp

text \<open>The acknowledged offset of a partition is the largest one noted for any symbol.\<close>

lemma processed_ge:
  assumes "(k, st) \<in> set (OrderbookStateMap w)" "(p, n) \<in> set (noted_offsets st)"
  shows "\<exists>u. map_of (processed_offsets w) p = Some u \<and> n \<le> u"
  unfolding map_of_processed by (rule fold_max_upd_ge) (use assms in force)

lemma processed_mem:
  assumes "map_of (processed_offsets w) p = Some u"
  shows "u = 0 \<or> (\<exists>k st. (k, st) \<in> set (OrderbookStateMap w) \<and> (p, u) \<in> set (noted_offsets st))"
  using fold_max_upd_mem [OF assms [unfolded map_of_processed]] by force

section \<open>Updates\<close>

definition worker_ok :: "ObWorker \<Rightarrow> bool" where
  "worker_ok w \<longleftrightarrow> 0 \<le> FlushDepth w \<and> distinct (map fst (OrderbookStateMap w)) \<and>
     (\<forall>(k, st) \<in> set (OrderbookStateMap w). book_ok (Orderbook st) \<and> LastProcessedOffset st \<noteq> None)"

definition real_prices :: "BookLevel list \<Rightarrow> bool" where
  "real_prices ls \<longleftrightarrow> (\<forall>l \<in> set ls. bl_Price l \<noteq> NaN)"

lemma ProcessBookUpdate_state:
  assumes st: "(case map_of (OrderbookStateMap w) (slot (book_key (bu_Exchange rec) (bu_Symbol rec))) of
      Some st \<Rightarrow> Done st | None \<Rightarrow> RestoreOrCreateState cd rdb coins0 (bu_Exchange rec) (bu_Symbol rec)) = Done st"
    and ok: "book_ok (Orderbook st)" "LastProcessedOffset st = Some m"
    and prices: "real_prices (nb_Bids (bu_Update rec))" "real_prices (nb_Asks (bu_Update rec))"
  obtains st' where "ProcessBookUpdate cd rdb slot coins0 coins w rec =
      Done (w\<lparr>OrderbookStateMap := AList.update (slot (book_key (bu_Exchange rec) (bu_Symbol rec))) st' (OrderbookStateMap w)\<rparr>)"
    "book_ok (Orderbook st')"
    "qty_map (Bids (Orderbook st')) = apply_levels (map book_pair (nb_Bids (bu_Update rec))) (qty_map (Bids (Orderbook st)))"
    "qty_map (Asks (Orderbook st')) = apply_levels (map book_pair (nb_Asks (bu_Update rec))) (qty_map (Asks (Orderbook st)))"
    "LastProcessedOffset st' = Some (off_max (bu_Partition rec) (bu_Offset rec) m)" "bs_TimestampMillis st' = bu_TsMs rec"
    "bs_Exchange st' = bs_Exchange st" "bs_Symbol st' = bs_Symbol st"
proof -
  have "\<forall>(p, q) \<in> set (map book_pair (nb_Bids (bu_Update rec))) \<union> set (map book_pair (nb_Asks (bu_Update rec))). p \<noteq> NaN"
    using prices by (auto simp: real_prices_def book_pair_def)
  from upsert_all_ok [OF ok(1) this, of coins] obtain b' where b': "upsert_all coins (map book_pair (nb_Bids (bu_Update rec)))
      (map book_pair (nb_Asks (bu_Update rec))) (Orderbook st) = Some b'" "book_ok b'"
    "qty_map (Bids b') = apply_levels (map book_pair (nb_Bids (bu_Update rec))) (qty_map (Bids (Orderbook st)))"
    "qty_map (Asks b') = apply_levels (map book_pair (nb_Asks (bu_Update rec))) (qty_map (Asks (Orderbook st)))" by blast
  show thesis
    by (rule that, simp add: ProcessBookUpdate_def Let_def st or_panic_def b'(1) note_offset_def ok(2)) (simp_all add: b'(2-4))
qed

text \<open>What is stored for a symbol, if anything, is a snapshot with offsets and without NaN prices.\<close>

definition stored_ok :: "ob_codec \<Rightarrow> redis \<Rightarrow> string \<Rightarrow> string \<Rightarrow> bool" where
  "stored_ok cd rdb ex sy \<longleftrightarrow>
     (let b = rdb (ex @ '':'' @ sy); sp = unmarshal_Snapshot cd b
      in b = [] \<or> sp_PartitionOffsets sp \<noteq> None \<and> (\<forall>l \<in> set (sp_Bids sp) \<union> set (sp_Asks sp). Price l \<noteq> NaN))"

lemma RestoreOrCreateState_ok:
  assumes "stored_ok cd rdb ex sy"
  obtains st where "RestoreOrCreateState cd rdb coins ex sy = Done st" "book_ok (Orderbook st)" "LastProcessedOffset st \<noteq> None"
    "bs_Exchange st = ex" "bs_Symbol st = sy"
    "rdb (ex @ '':'' @ sy) = [] \<Longrightarrow> qty_map (Bids (Orderbook st)) = Map.empty \<and> qty_map (Asks (Orderbook st)) = Map.empty \<and>
       LastProcessedOffset st = Some []"
proof (cases "rdb (ex @ '':'' @ sy) = []")
  case True
  then show thesis by (intro that, simp add: RestoreOrCreateState_def) (simp_all add: NewOrderBook_ok NewOrderBook_empty)
next
  case False
  let ?sp = "unmarshal_Snapshot cd (rdb (ex @ '':'' @ sy))"
  have "\<forall>(p, q) \<in> set (map level_pair (sp_Bids ?sp)) \<union> set (map level_pair (sp_Asks ?sp)). p \<noteq> NaN"
    using assms False by (auto simp: stored_ok_def Let_def level_pair_def) (metis UnCI)+
  from upsert_all_ok [OF NewOrderBook_ok this, of coins] obtain b where
    "upsert_all coins (map level_pair (sp_Bids ?sp)) (map level_pair (sp_Asks ?sp)) NewOrderBook = Some b" "book_ok b" by blast
  then show thesis using False assms
    by (intro that, simp add: RestoreOrCreateState_def Let_def or_panic_def) (simp_all add: stored_ok_def Let_def)
qed

text \<open>
  C22. An update changes exactly one book of the worker: the one in the entry its lookup finds, or, when the lookup finds
  none, a book created for its exchange and symbol, empty when no snapshot is stored for them and else the restored one.
  In that book every price the update names is set to its quantity, or removed when the quantity is not positive, on
  both sides; every other level stays, whatever the type of the event (a snapshot does not clear the book); the
  larger of the offset noted for the partition and the offset of the record is noted. Every other entry
  keeps its book, and the worker stays well formed.
\<close>

theorem book_update_correct:
  assumes "worker_ok w" and "real_prices (nb_Bids (bu_Update rec))" and "real_prices (nb_Asks (bu_Update rec))"
    and "stored_ok cd rdb (bu_Exchange rec) (bu_Symbol rec)"
  shows "\<exists>w' st st'. ProcessBookUpdate cd rdb slot coins0 coins w rec = Done w' \<and>
    (case map_of (OrderbookStateMap w) (slot (book_key (bu_Exchange rec) (bu_Symbol rec))) of
       Some st0 \<Rightarrow> st = st0
     | None \<Rightarrow> RestoreOrCreateState cd rdb coins0 (bu_Exchange rec) (bu_Symbol rec) = Done st \<and>
         bs_Exchange st = bu_Exchange rec \<and> bs_Symbol st = bu_Symbol rec \<and>
         (rdb (bu_Exchange rec @ '':'' @ bu_Symbol rec) = [] \<longrightarrow>
            qty_map (Bids (Orderbook st)) = Map.empty \<and> qty_map (Asks (Orderbook st)) = Map.empty \<and> LastProcessedOffset st = Some [])) \<and>
    map_of (OrderbookStateMap w') = (map_of (OrderbookStateMap w))(slot (book_key (bu_Exchange rec) (bu_Symbol rec)) \<mapsto> st') \<and>
    worker_ok w' \<and> bs_Exchange st' = bs_Exchange st \<and> bs_Symbol st' = bs_Symbol st \<and> bs_TimestampMillis st' = bu_TsMs rec \<and>
    qty_map (Bids (Orderbook st')) = fold (\<lambda>l m. m(bl_Price l := if f_le (bl_Volume l) (Fin 0) then None else Some (bl_Volume l)))
      (nb_Bids (bu_Update rec)) (qty_map (Bids (Orderbook st))) \<and>
    qty_map (Asks (Orderbook st')) = fold (\<lambda>l m. m(bl_Price l := if f_le (bl_Volume l) (Fin 0) then None else Some (bl_Volume l)))
      (nb_Asks (bu_Update rec)) (qty_map (Asks (Orderbook st))) \<and>
    (\<exists>m m'. LastProcessedOffset st = Some m \<and> LastProcessedOffset st' = Some m' \<and>
       map_of m' = (map_of m)(bu_Partition rec \<mapsto> max (off_get m (bu_Partition rec)) (bu_Offset rec)))"
proof -
  let ?e = "slot (book_key (bu_Exchange rec) (bu_Symbol rec))"
  have u: "apply_levels (map book_pair ls) f = fold (\<lambda>l m. m(bl_Price l := if f_le (bl_Volume l) (Fin 0) then None else Some (bl_Volume l))) ls f" for ls f
    unfolding apply_levels_def by (induction ls arbitrary: f) (auto simp: book_pair_def)
  have off: "map_of (off_max p n m) = (map_of m)(p \<mapsto> max (off_get m p) n)" for p n m by (simp add: off_max_def update_conv')
  obtain st0 where r: "RestoreOrCreateState cd rdb coins0 (bu_Exchange rec) (bu_Symbol rec) = Done st0" "book_ok (Orderbook st0)"
    "LastProcessedOffset st0 \<noteq> None" "bs_Exchange st0 = bu_Exchange rec" "bs_Symbol st0 = bu_Symbol rec"
    "rdb (bu_Exchange rec @ '':'' @ bu_Symbol rec) = [] \<Longrightarrow> qty_map (Bids (Orderbook st0)) = Map.empty \<and>
       qty_map (Asks (Orderbook st0)) = Map.empty \<and> LastProcessedOffset st0 = Some []"
    using RestoreOrCreateState_ok [OF assms(4), of coins0] by blast
  define st where "st = (case map_of (OrderbookStateMap w) ?e of Some s \<Rightarrow> s | None \<Rightarrow> st0)"
  have ok: "book_ok (Orderbook st) \<and> LastProcessedOffset st \<noteq> None"
    using assms(1) r(2,3) by (auto simp: st_def worker_ok_def split: option.split dest!: map_of_SomeD)
  then obtain m where m: "book_ok (Orderbook st)" "LastProcessedOffset st = Some m" by blast
  have "(case map_of (OrderbookStateMap w) ?e of Some s \<Rightarrow> Done s
      | None \<Rightarrow> RestoreOrCreateState cd rdb coins0 (bu_Exchange rec) (bu_Symbol rec)) = Done st"
    using r(1) by (simp add: st_def split: option.split)
  from ProcessBookUpdate_state [where slot = slot and w = w and coins = coins, OF this m assms(2,3)] obtain st' where
    p: "ProcessBookUpdate cd rdb slot coins0 coins w rec = Done (w\<lparr>OrderbookStateMap := AList.update ?e st' (OrderbookStateMap w)\<rparr>)"
    and q: "book_ok (Orderbook st')"
    "qty_map (Bids (Orderbook st')) = apply_levels (map book_pair (nb_Bids (bu_Update rec))) (qty_map (Bids (Orderbook st)))"
    "qty_map (Asks (Orderbook st')) = apply_levels (map book_pair (nb_Asks (bu_Update rec))) (qty_map (Asks (Orderbook st)))"
    "LastProcessedOffset st' = Some (off_max (bu_Partition rec) (bu_Offset rec) m)" "bs_TimestampMillis st' = bu_TsMs rec"
    "bs_Exchange st' = bs_Exchange st" "bs_Symbol st' = bs_Symbol st" by blast
  have "worker_ok (w\<lparr>OrderbookStateMap := AList.update ?e st' (OrderbookStateMap w)\<rparr>)"
    using assms(1) q(1,4) set_update_le [of ?e st' "OrderbookStateMap w"]
    by (auto simp: worker_ok_def distinct_update)
  moreover have "(case map_of (OrderbookStateMap w) ?e of
       Some s \<Rightarrow> st = s
     | None \<Rightarrow> RestoreOrCreateState cd rdb coins0 (bu_Exchange rec) (bu_Symbol rec) = Done st \<and>
         bs_Exchange st = bu_Exchange rec \<and> bs_Symbol st = bu_Symbol rec \<and>
         (rdb (bu_Exchange rec @ '':'' @ bu_Symbol rec) = [] \<longrightarrow>
            qty_map (Bids (Orderbook st)) = Map.empty \<and> qty_map (Asks (Orderbook st)) = Map.empty \<and> LastProcessedOffset st = Some []))"
    using r by (simp add: st_def split: option.split)
  ultimately show ?thesis using q(5-7) m(2)
    by (intro exI [of _ "w\<lparr>OrderbookStateMap := AList.update ?e st' (OrderbookStateMap w)\<rparr>"] exI [of _ st] exI [of _ st'] conjI
        exI [of _ m] exI [of _ "off_max (bu_Partition rec) (bu_Offset rec) m"] p)
       (simp_all add: update_conv' off q(2-4) u)
qed

text \<open>
  Since the keys share one buffer, the lookup of one symbol may end at the entry of another: the levels of the
  update then go into a book that is published under the other symbol.
\<close>

lemma aliased_key_mixes_books:
  assumes "worker_ok w" and "real_prices (nb_Bids (bu_Update rec))" and "real_prices (nb_Asks (bu_Update rec))"
    and "slot (book_key (bu_Exchange rec) (bu_Symbol rec)) = k" and "map_of (OrderbookStateMap w) k = Some st" and "bs_Symbol st \<noteq> bu_Symbol rec"
    and "nb_Bids (bu_Update rec) = [l]" and "\<not> f_le (bl_Volume l) (Fin 0)"
  shows "\<exists>w' st'. ProcessBookUpdate cd rdb slot coins0 coins w rec = Done w' \<and> map_of (OrderbookStateMap w') k = Some st' \<and>
    bs_Symbol st' \<noteq> bu_Symbol rec \<and> qty_map (Bids (Orderbook st')) (bl_Price l) = Some (bl_Volume l)"
proof -
  obtain m where m: "book_ok (Orderbook st)" "LastProcessedOffset st = Some m"
    using assms(1,5) by (auto simp: worker_ok_def dest!: map_of_SomeD)
  show ?thesis
    by (rule ProcessBookUpdate_state [where w = w and slot = slot and rec = rec and cd = cd and rdb = rdb and ?coins0.0 = coins0 and st = st and m = m and coins = coins])
       (use assms m in \<open>auto simp: update_conv' apply_levels_def book_pair_def\<close>)
qed

section \<open>Flushes\<close>

text \<open>The record a flush publishes for one symbol.\<close>

definition flush_spec :: "ob_codec \<Rightarrow> int \<Rightarrow> string \<Rightarrow> BookState \<Rightarrow> kgo_record option" where
  "flush_spec cd n bkey st =
     (let bids = map to_level (take (nat n) (levels_of (Bids (Orderbook st))));
          asks = map to_level (take (nat n) (levels_of (Asks (Orderbook st))))
      in if bids = [] \<or> asks = [] then None
         else map_option (\<lambda>val. ob_ProduceAsync (ob_Downstream cd) bkey val (bs_NewestIngestMs st))
                (marshal_Flush cd (flush_book st bids asks (hd bids) (hd asks))))"

lemma flush_state_spec:
  assumes "book_ok (Orderbook st)" "0 \<le> n"
  shows "flush_state cd n bkey st = Done (if flush_spec cd n bkey st = None then st else st\<lparr>bs_NewestIngestMs := 0\<rparr>, flush_spec cd n bkey st)"
proof -
  let ?b = "levels_of (Bids (Orderbook st))" and ?a = "levels_of (Asks (Orderbook st))"
  have ok: "side_ok Bid (Bids (Orderbook st))" "side_ok Ask (Asks (Orderbook st))" using assms(1) by (simp_all add: book_ok_def)
  have e: "flush_state cd n bkey st =
     (if take (nat n) ?b = [] \<or> take (nat n) ?a = [] then Done (st, None)
      else bind_out (bestLevelsForFlush st) (\<lambda>best. case best of None \<Rightarrow> Done (st, None)
         | Some (bestBid, bestAsk) \<Rightarrow>
             (case marshal_Flush cd (flush_book st (map to_level (take (nat n) ?b)) (map to_level (take (nat n) ?a)) bestBid bestAsk) of
                None \<Rightarrow> Done (st, None)
              | Some val \<Rightarrow> Done (st\<lparr>bs_NewestIngestMs := 0\<rparr>, Some (ob_ProduceAsync (ob_Downstream cd) bkey val (bs_NewestIngestMs st))))))"
    using TopN_ok [OF ok(1) assms(2)] TopN_ok [OF ok(2) assms(2)] by (simp add: flush_state_def or_panic_def)
  show ?thesis
  proof (cases "take (nat n) ?b = [] \<or> take (nat n) ?a = []")
    case True
    then show ?thesis by (auto simp: e flush_spec_def Let_def)
  next
    case False
    then obtain x xs y ys where l: "?b = x # xs" "?a = y # ys" "0 < nat n" by (cases ?b; cases ?a) auto
    then have "bestLevelsForFlush st = Done (Some (to_level x, to_level y))"
      using Best_ok [OF ok(1)] Best_ok [OF ok(2)] by (simp add: bestLevelsForFlush_def or_panic_def)
    moreover have "hd (map to_level (take (nat n) ?b)) = to_level x" "hd (map to_level (take (nat n) ?a)) = to_level y"
      using l by (cases "nat n"; simp)+
    ultimately show ?thesis using False by (auto simp: e flush_spec_def Let_def split: option.splits)
  qed
qed

lemma flush_states_spec:
  assumes "\<forall>(k, st) \<in> set sts. book_ok (Orderbook st)" "0 \<le> n"
  shows "\<exists>sts'. flush_states cd n sts = Done (sts', List.map_filter (\<lambda>(k, st). flush_spec cd n k st) sts) \<and>
    map fst sts' = map fst sts \<and> map (noted_offsets \<circ> snd) sts' = map (noted_offsets \<circ> snd) sts"
  using assms(1)
proof (induction sts)
  case (Cons x sts)
  obtain k st where x: "x = (k, st)" by (cases x)
  have "\<forall>(k, st) \<in> set sts. book_ok (Orderbook st)" using Cons.prems by simp
  from Cons.IH [OF this] obtain sts' where i: "flush_states cd n sts = Done (sts', List.map_filter (\<lambda>(k, st). flush_spec cd n k st) sts)"
    "map fst sts' = map fst sts" "map (noted_offsets \<circ> snd) sts' = map (noted_offsets \<circ> snd) sts" by blast
  have "book_ok (Orderbook st)" using Cons.prems x by simp
  from flush_state_spec [OF this assms(2), of cd k] i show ?case
    by (cases "flush_spec cd n k st") (auto simp: x List.map_filter_simps comp_def)
qed (simp add: List.map_filter_simps)

text \<open>
  C23. A flush publishes, for every symbol whose book has levels on both sides, one message with the best levels of each
  side up to the configured depth, whose best bid and ask are the first of them, and nothing for the
  other symbols; it does not panic; and it acknowledges for every partition the largest offset noted for any symbol.
\<close>

theorem FlushBook_correct:
  assumes "worker_ok w"
  shows "\<exists>w' a. FlushBook cd w epoch = Done (w', List.map_filter (\<lambda>(k, st).
        let bids = map to_level (take (nat (FlushDepth w)) (levels_of (Bids (Orderbook st))));
            asks = map to_level (take (nat (FlushDepth w)) (levels_of (Asks (Orderbook st))))
        in if bids = [] \<or> asks = [] then None
           else map_option (\<lambda>val. ob_ProduceAsync (ob_Downstream cd) k val (bs_NewestIngestMs st))
                  (marshal_Flush cd \<lparr>fl_Exchange = bs_Exchange st, fl_Symbol = bs_Symbol st, fl_EventTimeMillis = bs_TimestampMillis st,
                     fl_Bids = bids, fl_Asks = asks, fl_BestBid = hd bids, fl_BestAsk = hd asks,
                     fl_Spread = f_sub (Price (hd asks)) (Price (hd bids))\<rparr>)) (OrderbookStateMap w), a) \<and>
    ack_Epoch a = epoch \<and> ack_WorkerID a = ow_ID w \<and>
    (\<forall>p n. (\<exists>k st. (k, st) \<in> set (OrderbookStateMap w) \<and> (p, n) \<in> set (noted_offsets st)) \<longrightarrow>
       (\<exists>u. map_of (PartitionOffsets a) p = Some u \<and> n \<le> u)) \<and>
    (\<forall>p u. map_of (PartitionOffsets a) p = Some u \<longrightarrow>
       u = 0 \<or> (\<exists>k st. (k, st) \<in> set (OrderbookStateMap w) \<and> (p, u) \<in> set (noted_offsets st)))"
proof -
  obtain sts' where f: "flush_states cd (FlushDepth w) (OrderbookStateMap w) =
      Done (sts', List.map_filter (\<lambda>(k, st). flush_spec cd (FlushDepth w) k st) (OrderbookStateMap w))"
    "map (noted_offsets \<circ> snd) sts' = map (noted_offsets \<circ> snd) (OrderbookStateMap w)"
    using flush_states_spec [of "OrderbookStateMap w" "FlushDepth w" cd] assms unfolding worker_ok_def by fast
  have p: "map_of (processed_offsets (w\<lparr>OrderbookStateMap := sts'\<rparr>)) = map_of (processed_offsets w)"
    by (simp add: map_of_processed f(2))
  have "FlushBook cd w epoch = Done (w\<lparr>OrderbookStateMap := sts'\<rparr>, List.map_filter (\<lambda>(k, st). flush_spec cd (FlushDepth w) k st) (OrderbookStateMap w),
      \<lparr>ack_Epoch = epoch, ack_WorkerID = ow_ID w, PartitionOffsets = processed_offsets (w\<lparr>OrderbookStateMap := sts'\<rparr>)\<rparr>)"
    by (simp add: FlushBook_def f(1) Let_def)
  then show ?thesis unfolding flush_spec_def flush_book_def
    by (intro exI [of _ "w\<lparr>OrderbookStateMap := sts'\<rparr>"]
        exI [of _ "\<lparr>ack_Epoch = epoch, ack_WorkerID = ow_ID w, PartitionOffsets = processed_offsets (w\<lparr>OrderbookStateMap := sts'\<rparr>)\<rparr>"] conjI)
       (simp_all only: FlushAck.simps p, (use processed_ge processed_mem in blast)+)
qed

section \<open>Snapshots\<close>

lemma apply_levels_map_of:
  assumes "distinct (map fst xs)" "\<forall>(p, q) \<in> set xs. \<not> f_le q (Fin 0)"
  shows "apply_levels xs m = m ++ map_of xs"
  using assms
proof (induction xs arbitrary: m)
  case (Cons x xs)
  obtain p q where x: "x = (p, q)" by (cases x)
  define m1 where "m1 = m(p \<mapsto> q)"
  have "apply_levels (x # xs) m = apply_levels xs m1" using Cons.prems(2) by (simp add: x apply_levels_def m1_def)
  also have "\<dots> = m1 ++ map_of xs" using Cons.IH [of m1] Cons.prems by simp
  also have "\<dots> = m ++ map_of (x # xs)"
    using Cons.prems(1) by (simp add: x m1_def map_add_upd_left dom_map_of_conv_image_fst)
  finally show ?case .
qed (simp add: apply_levels_def)

lemma levels_distinct: "side_ok sd t \<Longrightarrow> distinct (map fst (levels_of t))"
  using levels_sorted(1) [of t] by (auto simp: side_ok_def levels_of_def strict_sorted_iff rev_map [symmetric] sorted_wrt_rev split: if_splits)

lemma levels_ok: "side_ok sd t \<Longrightarrow> (p, q) \<in> set (levels_of t) \<Longrightarrow> p \<noteq> NaN \<and> \<not> f_le q (Fin 0)"
  using levels_sorted(3) [of t] levels_distinct [of sd t] by (metis map_of_eq_Some_iff side_ok_def)

lemma rebuilt_levels:
  assumes "side_ok sd t" "side_ok sd t'" "qty_map t' = apply_levels (take n (levels_of t)) Map.empty"
  shows "levels_of t' = take n (levels_of t)"
proof (rule levels_unique [OF assms(2)])
  have s: "sorted_wrt (if sd = Ask then (<) else (>)) (map fst (levels_of t))"
    using levels_sorted(1) [of t] assms(1) by (simp add: side_ok_def)
  then show "sorted_wrt (if sd = Ask then (<) else (>)) (map fst (take n (levels_of t)))"
    unfolding take_map [symmetric] by (metis append_take_drop_id sorted_wrt_append)
  have "apply_levels (take n (levels_of t)) Map.empty = Map.empty ++ map_of (take n (levels_of t))"
    using levels_distinct [OF assms(1)] levels_ok [OF assms(1)]
    by (intro apply_levels_map_of) (auto simp: take_map [symmetric] dest: in_set_takeD)
  then show "map_of (take n (levels_of t)) = qty_map t'" using assms(3) by simp
qed

lemma level_pair_to_level [simp]: "level_pair (to_level e) = e"
  by (simp add: level_pair_def to_level_def)

text \<open>A symbol in lower case is read back from the key it is stored under.\<close>

lemma lower_case_restored:
  assumes "book_ok (Orderbook st)" and "0 \<le> FlushDepth w" and "LastProcessedOffset st = Some m" and "m \<noteq> []"
    and "CloneLightWeight w now st = Done sn" and "persist_snapshot cd sn = Some b" and "b \<noteq> []"
    and "\<forall>p b. marshal_Snapshot cd p = Some b \<longrightarrow> unmarshal_Snapshot cd b = p"
    and "rdb (book_key ex sy) = b" and "map lower_ascii ex = ex" and "map lower_ascii sy = sy"
  shows "\<exists>st'. RestoreOrCreateState cd rdb coins ex sy = Done st' \<and> Restored st' \<and> book_ok (Orderbook st') \<and>
    levels_of (Bids (Orderbook st')) = take (nat (FlushDepth w)) (levels_of (Bids (Orderbook st))) \<and>
    levels_of (Asks (Orderbook st')) = take (nat (FlushDepth w)) (levels_of (Asks (Orderbook st))) \<and>
    LastProcessedOffset st' = LastProcessedOffset st"
proof -
  let ?b = "take (nat (FlushDepth w)) (levels_of (Bids (Orderbook st)))" and ?a = "take (nat (FlushDepth w)) (levels_of (Asks (Orderbook st)))"
  have ok: "side_ok Bid (Bids (Orderbook st))" "side_ok Ask (Asks (Orderbook st))" using assms(1) by (simp_all add: book_ok_def)
  have sn: "sn_BidLevels sn = map to_level ?b" "sn_AskLevels sn = map to_level ?a" "sn_PartitionOffsets sn = m"
    using assms(3,5) TopN_ok [OF ok(1) assms(2)] TopN_ok [OF ok(2) assms(2)] by (auto simp: CloneLightWeight_def or_panic_def)
  have "unmarshal_Snapshot cd b = snapshot_proto sn" using assms(6,8) by (auto simp: persist_snapshot_def split: if_splits)
  then have u: "sp_Bids (unmarshal_Snapshot cd b) = map to_level ?b" "sp_Asks (unmarshal_Snapshot cd b) = map to_level ?a"
    "sp_PartitionOffsets (unmarshal_Snapshot cd b) = Some m"
    using assms(4) by (simp_all add: snapshot_proto_def sn)
  have "\<forall>(p, q) \<in> set ?b \<union> set ?a. p \<noteq> NaN" by (auto dest!: in_set_takeD dest: levels_ok [OF ok(1)] levels_ok [OF ok(2)])
  from upsert_all_ok [OF NewOrderBook_ok this, of coins, unfolded NewOrderBook_empty] obtain b' where
    b': "upsert_all coins ?b ?a NewOrderBook = Some b'" "book_ok b'"
    "qty_map (Bids b') = apply_levels ?b Map.empty" "qty_map (Asks b') = apply_levels ?a Map.empty" by blast
  have k: "side_ok Bid (Bids b')" "side_ok Ask (Asks b')" using b'(2) by (simp_all add: book_ok_def)
  have "levels_of (Bids b') = ?b" "levels_of (Asks b') = ?a"
    using rebuilt_levels [OF ok(1) k(1) b'(3)] rebuilt_levels [OF ok(2) k(2) b'(4)] .
  moreover have "book_key ex sy = ex @ '':'' @ sy" using assms(10,11) by (simp add: book_key_def appendLowerASCII_def)
  ultimately show ?thesis
    using assms(3,7,9) b'(1,2) by (simp add: RestoreOrCreateState_def Let_def or_panic_def u comp_def)
qed

text \<open>
  A symbol with a capital letter is never restored. The snapshot goroutine stores under the lower-case key of the
  worker's map, but the restore asks for exchange and symbol as the update spells them; when nothing else is stored the
  worker starts from an empty book.
\<close>

lemma restore_misses_capitals:
  assumes "\<exists>c \<in> set (ex @ sy). lower_ascii c \<noteq> c" and "\<forall>k. k \<noteq> book_key ex sy \<longrightarrow> rdb k = []"
  shows "RestoreOrCreateState cd rdb coins ex sy = Done
    \<lparr>bs_Exchange = ex, bs_Symbol = sy, bs_TimestampMillis = 0, bs_NewestIngestMs = 0, Orderbook = NewOrderBook,
     LastCommittedOffset = [], LastProcessedOffset = Some [], offsetsShared = False, Restored = False, bs_SnapshotPending = False\<rparr>"
proof -
  have "ex @ '':'' @ sy \<noteq> book_key ex sy"
    using assms(1) by (auto simp: book_key_def appendLowerASCII_def append_eq_append_conv map_idI dest!: map_eq_imp_length_eq)
      (metis map_eq_conv map_ident)+
  with assms(2) show ?thesis by (simp add: RestoreOrCreateState_def Let_def)
qed

text \<open>
  C24. What a stored snapshot restores. The book of a symbol is cloned and stored under the key of the worker's map,
  which is in lower case, and the symbol is looked up again after a restart. When exchange and symbol are in lower
  case, the restored book has on each side the best levels of the original up to the configured depth, and the offsets
  noted at the time of the clone. When one of them has a capital letter nothing is restored, since every key
  of the store is in lower case: the symbol starts from an empty book with no offsets. The codec is assumed to decode
  what it encodes.
\<close>

theorem snapshot_restores:
  assumes "book_ok (Orderbook st)" and "0 \<le> FlushDepth w" and "LastProcessedOffset st = Some m" and "m \<noteq> []"
    and "CloneLightWeight w now st = Done sn" and "persist_snapshot cd sn = Some b" and "b \<noteq> []"
    and "\<forall>p b. marshal_Snapshot cd p = Some b \<longrightarrow> unmarshal_Snapshot cd b = p"
    and "rdb (book_key ex sy) = b" and "\<forall>k. map lower_ascii k \<noteq> k \<longrightarrow> rdb k = []"
  shows "\<exists>st'. RestoreOrCreateState cd rdb coins ex sy = Done st' \<and> book_ok (Orderbook st') \<and>
    (if map lower_ascii ex = ex \<and> map lower_ascii sy = sy
     then Restored st' \<and>
       levels_of (Bids (Orderbook st')) = take (nat (FlushDepth w)) (levels_of (Bids (Orderbook st))) \<and>
       levels_of (Asks (Orderbook st')) = take (nat (FlushDepth w)) (levels_of (Asks (Orderbook st))) \<and>
       LastProcessedOffset st' = LastProcessedOffset st
     else \<not> Restored st' \<and> Orderbook st' = NewOrderBook \<and> LastProcessedOffset st' = Some [])"
proof (cases "map lower_ascii ex = ex \<and> map lower_ascii sy = sy")
  case True
  with lower_case_restored [where rdb = rdb and coins = coins and ex = ex and sy = sy, OF assms(1-9)] show ?thesis by auto
next
  case False
  then have "rdb (ex @ '':'' @ sy) = []" using assms(10) by simp
  then show ?thesis using False by (auto simp: RestoreOrCreateState_def NewOrderBook_ok)
qed

section \<open>Examples\<close>

definition demo_proto :: SnapshotProto where
  "demo_proto = \<lparr>sp_Exchange = [], sp_Symbol = [], sp_PartitionOffsets = None, sp_SnapshotTsMs = 0, sp_Bids = [], sp_Asks = []\<rparr>"

definition demo_ob_codec :: "SnapshotProto \<Rightarrow> ob_codec" where
  "demo_ob_codec sp = \<lparr>unmarshal_NBook = (\<lambda>b. None), unmarshal_Snapshot = (\<lambda>b. sp),
     marshal_Snapshot = (\<lambda>p. if p = sp then Some [1] else None), marshal_Flush = (\<lambda>f. Some [2]), ob_Downstream = ''flushed''\<rparr>"

definition demo_sym :: "OrderBook \<Rightarrow> offsets \<Rightarrow> BookState" where
  "demo_sym b m = \<lparr>bs_Exchange = ''binance'', bs_Symbol = ''btcusdt'', bs_TimestampMillis = 0, bs_NewestIngestMs = 0, Orderbook = b,
     LastCommittedOffset = [], LastProcessedOffset = Some m, offsetsShared = False, Restored = False, bs_SnapshotPending = False\<rparr>"

definition demo_ob_worker :: "OrderBook \<Rightarrow> offsets \<Rightarrow> ObWorker" where
  "demo_ob_worker b m = \<lparr>ow_ID = 0, FlushDepth = 15, SnapshotStateMap = [], OrderbookStateMap = [(''binance:btcusdt'', demo_sym b m)]\<rparr>"

definition demo_update :: BookUpdate where
  "demo_update = \<lparr>bu_Partition = 3, bu_Offset = 7, bu_Headers = None,
     bu_Update = \<lparr>nb_Exchange = ''binance'', nb_Channel = ''depth'', nb_Symbol = ''btcusdt'',
       nb_Bids = [\<lparr>bl_Price = Fin 100, bl_Volume = Fin 2\<rparr>, \<lparr>bl_Price = Fin 99, bl_Volume = Fin 0\<rparr>], nb_Asks = [],
       nb_EventType = ''snapshot'', nb_EventTimeMillis = 5\<rparr>, bu_Exchange = ''binance'', bu_Symbol = ''btcusdt'', bu_TsMs = 5\<rparr>"

lemma demo_book_key: "book_key ''binance'' ''btcusdt'' = ''binance:btcusdt''"
  by (simp add: book_key_def appendLowerASCII_def lower_ascii_def)

lemma demo_book:
  obtains b where "book_ok b" "levels_of (Bids b) = [(Fin 100, Fin 2)]" "levels_of (Asks b) = [(Fin 101, Fin 3)]"
proof -
  have "\<forall>(p, q) \<in> set [(Fin 100, Fin 2)] \<union> set [(Fin 101, Fin 3)]. p \<noteq> NaN" by simp
  from upsert_all_ok [OF NewOrderBook_ok this, of "\<lambda>_ _. []", unfolded NewOrderBook_empty] obtain b where b: "book_ok b"
    "qty_map (Bids b) = apply_levels [(Fin 100, Fin 2)] Map.empty" "qty_map (Asks b) = apply_levels [(Fin 101, Fin 3)] Map.empty" by blast
  have "levels_of (Bids b) = [(Fin 100, Fin 2)]"
    by (rule levels_unique [of Bid]) (use b in \<open>simp_all add: book_ok_def apply_levels_def f_le_def f_eq_def\<close>)
  moreover have "levels_of (Asks b) = [(Fin 101, Fin 3)]"
    by (rule levels_unique [of Ask]) (use b in \<open>simp_all add: book_ok_def apply_levels_def f_le_def f_eq_def\<close>)
  ultimately show thesis using that b(1) by blast
qed

lemma demo_ob_worker_ok: "book_ok b \<Longrightarrow> worker_ok (demo_ob_worker b m)"
  by (simp add: worker_ok_def demo_ob_worker_def demo_sym_def)

theorem book_update_correct_witness:
  "\<exists>w' st'. ProcessBookUpdate (demo_ob_codec demo_proto) (\<lambda>k. []) id (\<lambda>_ _. []) (\<lambda>_ _. []) (demo_ob_worker NewOrderBook [(3, 4)]) demo_update = Done w' \<and>
     map_of (OrderbookStateMap w') ''binance:btcusdt'' = Some st' \<and> qty_map (Bids (Orderbook st')) (Fin 100) = Some (Fin 2) \<and>
     qty_map (Bids (Orderbook st')) (Fin 99) = None"
proof -
  let ?w = "demo_ob_worker NewOrderBook [(3, 4)]" and ?cd = "demo_ob_codec demo_proto"
  have k: "book_key (bu_Exchange demo_update) (bu_Symbol demo_update) = ''binance:btcusdt''" by (simp add: demo_update_def demo_book_key)
  have "real_prices (nb_Bids (bu_Update demo_update))" "real_prices (nb_Asks (bu_Update demo_update))"
    "stored_ok ?cd (\<lambda>k. []) (bu_Exchange demo_update) (bu_Symbol demo_update)"
    by (simp_all add: demo_update_def real_prices_def stored_ok_def)
  from book_update_correct [where slot = id and coins = "\<lambda>_ _. []" and ?coins0.0 = "\<lambda>_ _. []", OF demo_ob_worker_ok [OF NewOrderBook_ok, of "[(3, 4)]"] this]
  obtain w' st st' where "ProcessBookUpdate ?cd (\<lambda>k. []) id (\<lambda>_ _. []) (\<lambda>_ _. []) ?w demo_update = Done w'"
    and st: "case map_of (OrderbookStateMap ?w) ''binance:btcusdt'' of Some st0 \<Rightarrow> st = st0 | None \<Rightarrow> True"
    and "map_of (OrderbookStateMap w') ''binance:btcusdt'' = Some st'"
    and q: "qty_map (Bids (Orderbook st')) = fold (\<lambda>l m. m(bl_Price l := if f_le (bl_Volume l) (Fin 0) then None else Some (bl_Volume l)))
      (nb_Bids (bu_Update demo_update)) (qty_map (Bids (Orderbook st)))"
    unfolding id_apply k by (elim exE conjE) (simp add: demo_ob_worker_def)
  moreover have "st = demo_sym NewOrderBook [(3, 4)]" using st by (simp add: demo_ob_worker_def)
  ultimately show ?thesis by (simp add: demo_update_def demo_sym_def NewOrderBook_empty f_le_def f_eq_def)
qed

theorem FlushBook_correct_witness:
  "\<exists>b w' r a. FlushBook (demo_ob_codec demo_proto) (demo_ob_worker b [(3, 9)]) 1 = Done (w', [r], a) \<and> RKey r = ''binance:btcusdt'' \<and>
     map_of (PartitionOffsets a) 3 = Some 9"
proof -
  obtain b where b: "book_ok b" "levels_of (Bids b) = [(Fin 100, Fin 2)]" "levels_of (Asks b) = [(Fin 101, Fin 3)]" by (rule demo_book)
  from FlushBook_correct [OF demo_ob_worker_ok [OF b(1)], of "demo_ob_codec demo_proto" "[(3, 9)]" 1] obtain w' r a where
    r: "FlushBook (demo_ob_codec demo_proto) (demo_ob_worker b [(3, 9)]) 1 = Done (w', [r], a)" "RKey r = ''binance:btcusdt''"
    and o: "\<forall>p n. (\<exists>k st. (k, st) \<in> set (OrderbookStateMap (demo_ob_worker b [(3, 9)])) \<and> (p, n) \<in> set (noted_offsets st)) \<longrightarrow>
       (\<exists>u. map_of (PartitionOffsets a) p = Some u \<and> n \<le> u)"
      "\<forall>p u. map_of (PartitionOffsets a) p = Some u \<longrightarrow>
       u = 0 \<or> (\<exists>k st. (k, st) \<in> set (OrderbookStateMap (demo_ob_worker b [(3, 9)])) \<and> (p, u) \<in> set (noted_offsets st))"
    by (auto simp: demo_ob_worker_def demo_sym_def b demo_ob_codec_def List.map_filter_simps ob_ProduceAsync_def)
  have "noted_offsets (demo_sym b [(3, 9)]) = [(3, 9)]" by (simp add: noted_offsets_def demo_sym_def)
  with o(1) [rule_format, of 3 9] o(2) [rule_format, of 3] have "map_of (PartitionOffsets a) 3 = Some 9"
    by (fastforce simp: demo_ob_worker_def)
  with r show ?thesis by blast
qed

theorem snapshot_restores_witness:
  "\<exists>cd st' st2. RestoreOrCreateState cd (\<lambda>k. if k = ''binance:btcusdt'' then [1] else []) (\<lambda>_ _. []) ''binance'' ''btcusdt'' = Done st' \<and>
     levels_of (Bids (Orderbook st')) = [(Fin 100, Fin 2)] \<and> LastProcessedOffset st' = Some [(3, 9)] \<and>
     RestoreOrCreateState cd (\<lambda>k. if k = ''binance:btcusdt'' then [1] else []) (\<lambda>_ _. []) ''binance'' ''BTCUSDT'' = Done st2 \<and>
     Orderbook st2 = NewOrderBook"
proof -
  obtain b where b: "book_ok b" "levels_of (Bids b) = [(Fin 100, Fin 2)]" "levels_of (Asks b) = [(Fin 101, Fin 3)]" by (rule demo_book)
  let ?w = "demo_ob_worker b [(3, 9)]" and ?st = "demo_sym b [(3, 9)]"
  have d: "book_ok (Orderbook ?st)" "0 \<le> FlushDepth ?w" "LastProcessedOffset ?st = Some [(3, 9)]" "[(3 :: int, 9 :: int)] \<noteq> []"
    by (simp_all add: demo_sym_def demo_ob_worker_def b)
  have t: "TopN (Bids b) 15 = Some [to_level (Fin 100, Fin 2)]" "TopN (Asks b) 15 = Some [to_level (Fin 101, Fin 3)]"
    using b TopN_ok [of Bid "Bids b" 15] TopN_ok [of Ask "Asks b" 15] by (simp_all add: book_ok_def)
  obtain sn where sn: "CloneLightWeight ?w 0 ?st = Done sn" "sn_BidLevels sn \<noteq> []"
    by (simp add: CloneLightWeight_def demo_ob_worker_def demo_sym_def or_panic_def t)
  let ?cd = "demo_ob_codec (snapshot_proto sn)"
  have p: "persist_snapshot ?cd sn = Some [1]" "[1 :: byte] \<noteq> []" "\<forall>p b. marshal_Snapshot ?cd p = Some b \<longrightarrow> unmarshal_Snapshot ?cd b = p"
    using sn(2) by (simp_all add: persist_snapshot_def demo_ob_codec_def)
  let ?rdb = "\<lambda>k. if k = ''binance:btcusdt'' then [1 :: byte] else []"
  have l: "map lower_ascii ''binance:btcusdt'' = ''binance:btcusdt''" "map lower_ascii ''binance'' = ''binance''"
    "map lower_ascii ''btcusdt'' = ''btcusdt''" "map lower_ascii ''BTCUSDT'' \<noteq> ''BTCUSDT''" "book_key ''binance'' ''BTCUSDT'' = ''binance:btcusdt''"
    by code_simp+
  have q: "?rdb (book_key ''binance'' ''btcusdt'') = [1]" "?rdb (book_key ''binance'' ''BTCUSDT'') = [1]"
    "\<forall>k. map lower_ascii k \<noteq> k \<longrightarrow> ?rdb k = []"
    by (simp add: demo_book_key) (simp add: l(5), use l(1) in force)
  from snapshot_restores [where rdb = ?rdb and coins = "\<lambda>_ _. []", OF d sn(1) p q(1,3)] obtain st' where
    "RestoreOrCreateState ?cd ?rdb (\<lambda>_ _. []) ''binance'' ''btcusdt'' = Done st'"
    "levels_of (Bids (Orderbook st')) = [(Fin 100, Fin 2)]" "LastProcessedOffset st' = Some [(3, 9)]"
    unfolding if_P [OF conjI [OF l(2,3)]] by (auto simp: demo_ob_worker_def demo_sym_def b)
  moreover from snapshot_restores [where rdb = ?rdb and coins = "\<lambda>_ _. []", OF d sn(1) p q(2,3)] l(4) obtain st2 where
    "RestoreOrCreateState ?cd ?rdb (\<lambda>_ _. []) ''binance'' ''BTCUSDT'' = Done st2" "Orderbook st2 = NewOrderBook" by metis
  ultimately show ?thesis by blast
qed

lemma restore_misses_capitals_example:
  "\<exists>st. RestoreOrCreateState (demo_ob_codec demo_proto) (\<lambda>k. if k = ''binance:btcusdt'' then [1] else []) (\<lambda>_ _. []) ''binance'' ''BTCUSDT'' = Done st \<and>
     Restored st = False \<and> Orderbook st = NewOrderBook"
proof -
  have "book_key ''binance'' ''BTCUSDT'' = ''binance:btcusdt''" by code_simp
  moreover have "\<exists>c \<in> set (''binance'' @ ''BTCUSDT''). lower_ascii c \<noteq> c" by code_simp
  ultimately show ?thesis
    using restore_misses_capitals [of "''binance''" "''BTCUSDT''" "\<lambda>k. if k = ''binance:btcusdt'' then [1] else []" "demo_ob_codec demo_proto" "\<lambda>_ _. []"]
    by simp
qed

end
