(* ===== verification/Ob_Commit.thy ===== *)
theory Ob_Commit
  imports Ob_Props
begin

text \<open>
  The commit coordinator of the order book service (\<open>orderbook/kafka/commit_coordinator.go\<close>), the epoch
  scheduler (\<open>flush/scheduler.go\<close>) and their composition with the dispatcher and the workers. An epoch asks every
  worker to flush; each answers with the largest offset it has applied per partition; when all have answered, the
  least of these per partition is committed. The composition is a step relation in which the dispatcher,
  the scheduler, the workers and the coordinator interleave freely and every non-blocking send may be dropped.
\<close>

section \<open>The coordinator\<close>

record EpochState =
  CreatedAt :: int
  Participants :: "int list"
  Acks :: "(int \<times> offsets) list"

record CommitCoordinator =
  EpochMap :: "(int \<times> EpochState) list"
  LastCommittedEpoch :: int

definition NewCoordinator :: CommitCoordinator where
  "NewCoordinator = \<lparr>EpochMap = [], LastCommittedEpoch = 0\<rparr>"

text \<open>Two minutes, in milliseconds.\<close>

definition EpochTimeout :: int where
  "EpochTimeout = 120000"

datatype CoordinatorEventType = FlushAckEvent | CommitResultEvent | CheckEpochTimeoutsEvent

text \<open>A failed commit reports a nil map of offsets, which reads as the empty one.\<close>

record CommitResult =
  cr_Epoch :: int
  cr_Offsets :: offsets
  cr_Err :: bool
  cr_EventType :: CoordinatorEventType

definition StartEpoch :: "CommitCoordinator \<Rightarrow> int \<Rightarrow> int \<Rightarrow> int list \<Rightarrow> CommitCoordinator" where
  "StartEpoch c now epoch participants =
     (if map_of (EpochMap c) epoch \<noteq> None then c
      else c\<lparr>EpochMap := AList.update epoch \<lparr>CreatedAt = now, Participants = participants, Acks = []\<rparr> (EpochMap c)\<rparr>)"

text \<open>The least offset per partition over the acknowledgements.\<close>

definition off_min :: "int \<Rightarrow> int \<Rightarrow> offsets \<Rightarrow> offsets" where
  "off_min p n m = (case map_of m p of None \<Rightarrow> AList.update p n m | Some u \<Rightarrow> AList.update p (min u n) m)"

definition minOffsetPerPartition :: "(int \<times> offsets) list \<Rightarrow> offsets" where
  "minOffsetPerPartition acks = fold (\<lambda>(worker, m) acc. fold (\<lambda>(p, n). off_min p n) m acc) acks []"

text \<open>The request handed to the client: the offsets to read from next, and what its callback needs.\<close>

record CommitRequest =
  rq_Event :: CoordinatorEventType
  rq_Epoch :: int
  rq_Offsets :: offsets
  uncommitted :: offsets

definition commitEpochOffsets :: "CommitCoordinator \<Rightarrow> CoordinatorEventType \<Rightarrow> int \<Rightarrow> CommitRequest outcome" where
  "commitEpochOffsets c ev epoch =
     (case map_of (EpochMap c) epoch of
        None \<Rightarrow> Panic
      | Some st \<Rightarrow>
          let m = minOffsetPerPartition (Acks st)
          in Done \<lparr>rq_Event = ev, rq_Epoch = epoch, rq_Offsets = m, uncommitted = map (\<lambda>(p, n). (p, n + 1)) m\<rparr>)"

text \<open>The callback of the commit: a partition error is only logged.\<close>

datatype commit_response = CommitFailed | PartitionFailed | CommitOk

definition commit_callback :: "CommitRequest \<Rightarrow> commit_response \<Rightarrow> CommitResult option" where
  "commit_callback rq r =
     (case r of
        CommitFailed \<Rightarrow> Some \<lparr>cr_Epoch = rq_Epoch rq, cr_Offsets = [], cr_Err = True, cr_EventType = rq_Event rq\<rparr>
      | PartitionFailed \<Rightarrow> None
      | CommitOk \<Rightarrow> Some \<lparr>cr_Epoch = rq_Epoch rq, cr_Offsets = rq_Offsets rq, cr_Err = False, cr_EventType = rq_Event rq\<rparr>)"

text \<open>The second result is the acknowledgement broadcast to the workers.\<close>

definition PostCommitProcess :: "CommitCoordinator \<Rightarrow> CommitResult \<Rightarrow> CommitCoordinator \<times> FlushAck option" where
  "PostCommitProcess c res =
     (c\<lparr>LastCommittedEpoch := max (cr_Epoch res) (LastCommittedEpoch c), EpochMap := AList.delete (cr_Epoch res) (EpochMap c)\<rparr>,
      if cr_EventType res = FlushAckEvent
      then Some \<lparr>ack_Epoch = cr_Epoch res, ack_WorkerID = 0, PartitionOffsets = cr_Offsets res\<rparr> else None)"

definition HandleFlushAck :: "CommitCoordinator \<Rightarrow> FlushAck \<Rightarrow> (CommitCoordinator \<times> CommitRequest option) outcome" where
  "HandleFlushAck c a =
     (case map_of (EpochMap c) (ack_Epoch a) of
        None \<Rightarrow> Done (c, None)
      | Some st \<Rightarrow>
          if ack_WorkerID a \<notin> set (Participants st) then Done (c, None)
          else
            let st1 = st\<lparr>Participants := removeAll (ack_WorkerID a) (Participants st),
                         Acks := AList.update (ack_WorkerID a) (PartitionOffsets a) (Acks st)\<rparr>;
                c1 = c\<lparr>EpochMap := AList.update (ack_Epoch a) st1 (EpochMap c)\<rparr>
            in if Participants st1 = []
               then bind_out (commitEpochOffsets c1 FlushAckEvent (ack_Epoch a)) (\<lambda>rq. Done (c1, Some rq))
               else Done (c1, None))"

definition expired :: "int \<Rightarrow> EpochState \<Rightarrow> bool" where
  "expired now st \<longleftrightarrow> \<not> now - CreatedAt st < EpochTimeout"

fun timeout_loop :: "CommitCoordinator \<Rightarrow> int \<Rightarrow> (int \<times> EpochState) list \<Rightarrow> CommitRequest list outcome" where
  "timeout_loop c now [] = Done []"
| "timeout_loop c now ((epoch, st) # es) =
     (if \<not> expired now st \<or> Acks st = [] then timeout_loop c now es
      else bind_out (commitEpochOffsets c CheckEpochTimeoutsEvent epoch) (\<lambda>rq.
           bind_out (timeout_loop c now es) (\<lambda>rqs. Done (rq # rqs))))"

definition CheckEpochTimeouts :: "CommitCoordinator \<Rightarrow> int \<Rightarrow> (CommitCoordinator \<times> CommitRequest list) outcome" where
  "CheckEpochTimeouts c now =
     bind_out (timeout_loop c now (EpochMap c)) (\<lambda>rqs.
       Done (c\<lparr>EpochMap := filter (\<lambda>(epoch, st). \<not> expired now st) (EpochMap c)\<rparr>, rqs))"

section \<open>The composition\<close>

text \<open>
  \<open>nextOffset p\<close> is the offset the consumer fetches next from a partition. While the scheduler broadcasts an epoch,
  \<open>broadcast\<close> holds the workers still to be asked and those asked. \<open>requests\<close> holds every commit sent so far, with the
  acknowledgements it was computed from.
\<close>

record CSys =
  workers :: "int \<Rightarrow> ObWorker"
  queues :: "int \<Rightarrow> ob_event list"
  nextOffset :: "int \<Rightarrow> int"
  epochNo :: int
  broadcast :: "(int list \<times> int list) option"
  ackChannel :: "FlushAck list"
  coord :: CommitCoordinator
  requests :: "(CommitRequest \<times> (int \<times> offsets) list) list"

record oenv =
  o_codec :: ob_codec
  o_redis :: redis
  o_workers :: int
  o_start :: "int \<Rightarrow> int"
  o_depth :: int

definition CSys_init :: "oenv \<Rightarrow> CSys" where
  "CSys_init e = \<lparr>workers = (\<lambda>i. NewObWorker i (o_depth e)), queues = (\<lambda>i. []), nextOffset = o_start e, epochNo = 0, broadcast = None,
     ackChannel = [], coord = NewCoordinator, requests = []\<rparr>"

definition sent_acks :: "ob_output list \<Rightarrow> FlushAck list" where
  "sent_acks outs = List.map_filter (\<lambda>x. case x of SendAck a \<Rightarrow> Some a | _ \<Rightarrow> None) outs"

definition acks_of :: "CommitCoordinator \<Rightarrow> int \<Rightarrow> (int \<times> offsets) list" where
  "acks_of c epoch = (case map_of (EpochMap c) epoch of None \<Rightarrow> [] | Some st \<Rightarrow> Acks st)"

text \<open>
  The steps. A record is enqueued, or dropped when the channel of its worker is full; a worker handles its next
  event, and its acknowledgement may be dropped; the scheduler starts an epoch, asks the next worker or skips it
  when its channel is full, and registers the epoch; the entry an update finds in the worker's map of books is any; the coordinator takes an acknowledgement, checks for expired
  epochs or finishes a commit; a worker learns a commit result; a snapshot event reaches a worker's channel.
\<close>

inductive ostep :: "oenv \<Rightarrow> CSys \<Rightarrow> CSys \<Rightarrow> bool" for e where
  enqueue: "0 \<le> i \<Longrightarrow> i < o_workers e \<Longrightarrow> bu_Offset u = nextOffset s (bu_Partition u) \<Longrightarrow>
    ostep e s (s\<lparr>queues := (queues s)(i := queues s i @ [ProcessEvent u]),
      nextOffset := (nextOffset s)(bu_Partition u := nextOffset s (bu_Partition u) + 1)\<rparr>)"
| drop: "ostep e s (s\<lparr>nextOffset := (nextOffset s)(p := nextOffset s p + 1)\<rparr>)"
| work: "queues s i = ev # q \<Longrightarrow> ob_handle (o_codec e) (o_redis e) slot coins0 coins now (workers s i) ev = Done (w, outs) \<Longrightarrow>
    acks = sent_acks outs \<or> acks = [] \<Longrightarrow>
    ostep e s (s\<lparr>workers := (workers s)(i := w), queues := (queues s)(i := q), ackChannel := ackChannel s @ acks\<rparr>)"
| tick: "broadcast s = None \<Longrightarrow> ostep e s (s\<lparr>epochNo := epochNo s + 1, broadcast := Some ([0..o_workers e - 1], [])\<rparr>)"
| ask: "broadcast s = Some (i # rest, ps) \<Longrightarrow>
    ostep e s (s\<lparr>queues := (queues s)(i := queues s i @ [FlushEvent (epochNo s)]), broadcast := Some (rest, ps @ [i])\<rparr>)"
| skip: "broadcast s = Some (i # rest, ps) \<Longrightarrow> ostep e s (s\<lparr>broadcast := Some (rest, ps)\<rparr>)"
| register: "broadcast s = Some ([], ps) \<Longrightarrow>
    ostep e s (s\<lparr>broadcast := None, coord := StartEpoch (coord s) now (epochNo s) ps\<rparr>)"
| ack: "ackChannel s = a # as \<Longrightarrow> HandleFlushAck (coord s) a = Done (c, rq) \<Longrightarrow>
    ostep e s (s\<lparr>ackChannel := as, coord := c,
      requests := requests s @ (case rq of None \<Rightarrow> [] | Some r \<Rightarrow> [(r, acks_of c (rq_Epoch r))])\<rparr>)"
| expire: "CheckEpochTimeouts (coord s) now = Done (c, rqs) \<Longrightarrow>
    ostep e s (s\<lparr>coord := c, requests := requests s @ map (\<lambda>r. (r, acks_of (coord s) (rq_Epoch r))) rqs\<rparr>)"
| finish: "(rq, acks) \<in> set (requests s) \<Longrightarrow> commit_callback rq r = Some res \<Longrightarrow> PostCommitProcess (coord s) res = (c, out) \<Longrightarrow>
    ostep e s (s\<lparr>coord := c\<rparr>)"
| told: "(rq, acks) \<in> set (requests s) \<Longrightarrow> commit_callback rq r = Some res \<Longrightarrow> PostCommitProcess c0 res = (c, Some a) \<Longrightarrow>
    ostep e s (s\<lparr>workers := (workers s)(i := ProcessUpdateAck (workers s i) a),
      queues := (queues s)(i := queues s i @ [SnapshotExecuteEvent])\<rparr>)"
| snapshot: "ev = SnapshotRequestEvent \<or> ev = SnapshotPersistedEvent k \<Longrightarrow>
    ostep e s (s\<lparr>queues := (queues s)(i := queues s i @ [ev])\<rparr>)"

inductive oreach :: "oenv \<Rightarrow> CSys \<Rightarrow> bool" for e where
  oreach_init: "oreach e (CSys_init e)"
| oreach_step: "oreach e s \<Longrightarrow> ostep e s s' \<Longrightarrow> oreach e s'"

section \<open>What the handlers note\<close>

definition noted :: "ObWorker \<Rightarrow> (int \<times> int) set" where
  "noted w = (\<Union>(k, st) \<in> set (OrderbookStateMap w). set (noted_offsets st))"

definition restored :: "oenv \<Rightarrow> (int \<times> int) set" where
  "restored e = {x. \<exists>k m. o_redis e k \<noteq> [] \<and> sp_PartitionOffsets (unmarshal_Snapshot (o_codec e) (o_redis e k)) = Some m \<and> x \<in> set m}"

lemma noted_put: "noted (w\<lparr>OrderbookStateMap := AList.update k st (OrderbookStateMap w)\<rparr>) \<subseteq> set (noted_offsets st) \<union> noted w"
  using set_update_le [of k st "OrderbookStateMap w"] by (fastforce simp: noted_def)

lemma set_off_max: "0 \<le> n \<Longrightarrow> set (off_max p n m) \<subseteq> insert (p, n) (set m)"
  using set_update_le [of p "max (off_get m p) n" m]
  by (auto simp: off_max_def off_get_def max_def split: option.splits if_splits dest: map_of_SomeD)

lemma noted_process:
  assumes "ProcessBookUpdate (o_codec e) (o_redis e) slot coins0 coins w u = Done w'" "0 \<le> bu_Offset u"
  shows "noted w' \<subseteq> noted w \<union> restored e \<union> {(bu_Partition u, bu_Offset u)}" "ow_ID w' = ow_ID w"
proof -
  let ?k = "slot (book_key (bu_Exchange u) (bu_Symbol u))"
  from assms(1) [unfolded ProcessBookUpdate_def Let_def bind_out_Done] obtain st b st2 where
    st: "(case map_of (OrderbookStateMap w) ?k of Some st \<Rightarrow> Done st
      | None \<Rightarrow> RestoreOrCreateState (o_codec e) (o_redis e) coins0 (bu_Exchange u) (bu_Symbol u)) = Done st"
    and st2: "note_offset (bu_Partition u) (bu_Offset u) (st\<lparr>Orderbook := b, bs_TimestampMillis := bu_TsMs u,
        bs_NewestIngestMs := (case (case bu_Headers u of None \<Rightarrow> None | Some hs \<Rightarrow> Find hs) of
            None \<Rightarrow> bs_NewestIngestMs st
          | Some ms \<Rightarrow> if ms > bs_NewestIngestMs st then ms else bs_NewestIngestMs st)\<rparr>) = Done st2"
    and "Done (w\<lparr>OrderbookStateMap := AList.update ?k st2 (OrderbookStateMap w)\<rparr>) = Done w'" by blast
  then have w': "w' = w\<lparr>OrderbookStateMap := AList.update ?k st2 (OrderbookStateMap w)\<rparr>" by simp
  obtain m where m: "LastProcessedOffset st = Some m" "noted_offsets st2 = off_max (bu_Partition u) (bu_Offset u) m"
    using st2 by (auto simp: note_offset_def noted_offsets_def split: option.split_asm)
  have "set m \<subseteq> noted w \<union> restored e"
  proof (cases "map_of (OrderbookStateMap w) ?k")
    case None
    with st m show ?thesis
      by (auto simp: RestoreOrCreateState_def Let_def bind_out_Done restored_def split: if_splits)
  next
    case (Some st0)
    then have "(?k, st) \<in> set (OrderbookStateMap w)" using st by (auto dest: map_of_SomeD)
    then show ?thesis using m by (force simp: noted_def noted_offsets_def)
  qed
  then show "noted w' \<subseteq> noted w \<union> restored e \<union> {(bu_Partition u, bu_Offset u)}"
    using w' noted_put [of ?k st2 w] set_off_max [OF assms(2), of "bu_Partition u" m] m(2) by auto
  show "ow_ID w' = ow_ID w" using w' by auto
qed

lemma noted_eq:
  assumes "map (noted_offsets \<circ> snd) (OrderbookStateMap w') = map (noted_offsets \<circ> snd) (OrderbookStateMap w)"
  shows "noted w' = noted w"
proof -
  have h: "noted v = \<Union> (set ` set (map (noted_offsets \<circ> snd) (OrderbookStateMap v)))" for v by (force simp: noted_def)
  show ?thesis unfolding h assms ..
qed

lemma flush_states_noted:
  "flush_states cd n sts = Done (sts', recs) \<Longrightarrow> map (noted_offsets \<circ> snd) sts' = map (noted_offsets \<circ> snd) sts"
proof (induction sts arbitrary: sts' recs)
  case (Cons x sts)
  obtain k st where x: "x = (k, st)" by (cases x)
  from Cons.prems obtain st1 out sts1 outs where f: "flush_state cd n k st = Done (st1, out)" "flush_states cd n sts = Done (sts1, outs)"
    "sts' = (k, st1) # sts1" by (auto simp: x bind_out_Done)
  have "st1 = st \<or> st1 = st\<lparr>bs_NewestIngestMs := 0\<rparr>"
    using f(1) unfolding flush_state_def bind_out_Done by (cases "bestLevelsForFlush st") (auto split: if_splits option.split_asm)
  then have "noted_offsets st1 = noted_offsets st" by auto
  with Cons.IH [OF f(2)] f(3) show ?case by (simp add: x)
qed simp

lemma noted_flush:
  assumes "FlushBook cd w epoch = Done (w', recs, a)"
  shows "noted w' = noted w" "ow_ID w' = ow_ID w" "PartitionOffsets a = processed_offsets w'" "ack_WorkerID a = ow_ID w"
  using assms by (auto simp: FlushBook_def bind_out_Done Let_def intro!: noted_eq flush_states_noted)

lemma noted_update_same:
  "map_of (OrderbookStateMap w) k = Some st \<Longrightarrow> noted_offsets st' = noted_offsets st \<Longrightarrow>
    noted (w\<lparr>OrderbookStateMap := AList.update k st' (OrderbookStateMap w)\<rparr>) \<subseteq> noted w"
  using noted_put [of k st' w] by (force simp: noted_def dest: map_of_SomeD)

lemma noted_offsets_pending [simp]: "noted_offsets (st\<lparr>bs_SnapshotPending := x\<rparr>) = noted_offsets st"
  by (simp add: noted_offsets_def)

lemma noted_request_loop:
  "request_loop w now sts = Done w' \<Longrightarrow> (\<forall>(k, st) \<in> set sts. set (noted_offsets st) \<subseteq> A) \<Longrightarrow> noted w \<subseteq> A \<Longrightarrow>
    noted w' \<subseteq> A \<and> ow_ID w' = ow_ID w"
proof (induction sts arbitrary: w)
  case (Cons x sts)
  obtain k st where x: "x = (k, st)" by (cases x)
  show ?case
  proof (cases "bs_SnapshotPending st")
    case True
    then show ?thesis using Cons by (simp add: x)
  next
    case False
    then obtain sn where sn: "CloneLightWeight w now st = Done sn" "request_loop (w\<lparr>SnapshotStateMap := AList.update k sn (SnapshotStateMap w),
        OrderbookStateMap := AList.update k (st\<lparr>bs_SnapshotPending := True\<rparr>) (OrderbookStateMap w)\<rparr>) now sts = Done w'"
      using Cons.prems(1) by (auto simp: x bind_out_Done)
    have "noted (w\<lparr>SnapshotStateMap := AList.update k sn (SnapshotStateMap w),
        OrderbookStateMap := AList.update k (st\<lparr>bs_SnapshotPending := True\<rparr>) (OrderbookStateMap w)\<rparr>) \<subseteq> A"
      using noted_put [of k "st\<lparr>bs_SnapshotPending := True\<rparr>" w] Cons.prems(2,3) by (auto simp: noted_def x)
    from Cons.IH [OF sn(2) _ this] Cons.prems(2) show ?thesis by (simp add: x)
  qed
qed simp

lemma noted_handle:
  assumes "ob_handle (o_codec e) (o_redis e) slot coins0 coins now w ev = Done (w', outs)" "\<And>u. ev = ProcessEvent u \<Longrightarrow> 0 \<le> bu_Offset u"
  shows "noted w' \<subseteq> noted w \<union> restored e \<union> {(p, n). \<exists>u. ev = ProcessEvent u \<and> p = bu_Partition u \<and> n = bu_Offset u}"
    "ow_ID w' = ow_ID w" "a \<in> set (sent_acks outs) \<Longrightarrow> PartitionOffsets a = processed_offsets w' \<and> ack_WorkerID a = ow_ID w"
proof -
  have p: "sent_acks (map Publish recs @ [SendAck a]) = [a]" for recs a
    by (induction recs) (simp_all add: sent_acks_def List.map_filter_simps)
  have q: "sent_acks (map (\<lambda>(k, sn). PersistSnapshot k sn) msgs) = []" for msgs
    by (induction msgs) (auto simp: sent_acks_def List.map_filter_simps)
  have "noted w' \<subseteq> noted w \<union> restored e \<union> {(p, n). \<exists>u. ev = ProcessEvent u \<and> p = bu_Partition u \<and> n = bu_Offset u} \<and>
    ow_ID w' = ow_ID w \<and> (\<forall>a \<in> set (sent_acks outs). PartitionOffsets a = processed_offsets w' \<and> ack_WorkerID a = ow_ID w)"
  proof (cases ev)
    case (ProcessEvent u)
    then have "ProcessBookUpdate (o_codec e) (o_redis e) slot coins0 coins w u = Done w'" "outs = []"
      using assms(1) by (auto simp: ob_handle_def bind_out_Done)
    with noted_process [OF this(1)] assms(2) [OF ProcessEvent] ProcessEvent show ?thesis
      by (auto simp: sent_acks_def List.map_filter_simps)
  next
    case (FlushEvent epoch)
    then obtain recs a where "FlushBook (o_codec e) w epoch = Done (w', recs, a)" "outs = map Publish recs @ [SendAck a]"
      using assms(1) by (auto simp: ob_handle_def bind_out_Done)
    with noted_flush [OF this(1)] show ?thesis by (auto simp: p)
  next
    case SnapshotRequestEvent
    then have "request_loop w now (OrderbookStateMap w) = Done w'" "outs = []"
      using assms(1) by (auto simp: ob_handle_def bind_out_Done HandleSnapshotRequest_def)
    moreover have "\<forall>(k, st) \<in> set (OrderbookStateMap w). set (noted_offsets st) \<subseteq> noted w" by (force simp: noted_def)
    ultimately show ?thesis using noted_request_loop [of w now "OrderbookStateMap w" w' "noted w"]
      by (auto simp: sent_acks_def List.map_filter_simps)
  next
    case SnapshotExecuteEvent
    with assms show ?thesis by (auto simp: ob_handle_def bind_out_Done q)
  next
    case (SnapshotPersistedEvent k)
    then obtain st where "map_of (OrderbookStateMap w) k = Some st" "outs = []"
      "w' = w\<lparr>OrderbookStateMap := AList.update k (st\<lparr>bs_SnapshotPending := False\<rparr>) (OrderbookStateMap w),
         SnapshotStateMap := AList.delete k (SnapshotStateMap w)\<rparr>"
      using assms(1) by (auto simp: ob_handle_def bind_out_Done HandleSnapshotPersisted_def split: option.splits)
    then show ?thesis using noted_update_same [of w k st "st\<lparr>bs_SnapshotPending := False\<rparr>"]
      by (auto simp: noted_def sent_acks_def List.map_filter_simps)
  qed
  then show "noted w' \<subseteq> noted w \<union> restored e \<union> {(p, n). \<exists>u. ev = ProcessEvent u \<and> p = bu_Partition u \<and> n = bu_Offset u}"
    "ow_ID w' = ow_ID w" "a \<in> set (sent_acks outs) \<Longrightarrow> PartitionOffsets a = processed_offsets w' \<and> ack_WorkerID a = ow_ID w" by blast+
qed

section \<open>The invariant\<close>

text \<open>An offset of a partition that no later record of a worker's channel reaches down to.\<close>

definition behind :: "CSys \<Rightarrow> int \<Rightarrow> int \<times> int \<Rightarrow> bool" where
  "behind s i x \<longleftrightarrow> snd x < nextOffset s (fst x) \<and>
     (\<forall>u. ProcessEvent u \<in> set (queues s i) \<longrightarrow> bu_Partition u = fst x \<longrightarrow> snd x < bu_Offset u)"

definition ack_safe :: "CSys \<Rightarrow> int \<times> offsets \<Rightarrow> bool" where
  "ack_safe s a \<longleftrightarrow> (\<forall>p n. map_of (snd a) p = Some n \<longrightarrow> behind s (fst a) (p, n))"

definition in_order :: "ob_event \<Rightarrow> ob_event \<Rightarrow> bool" where
  "in_order a b \<longleftrightarrow> (\<forall>u v. a = ProcessEvent u \<longrightarrow> b = ProcessEvent v \<longrightarrow> bu_Partition u = bu_Partition v \<longrightarrow> bu_Offset u < bu_Offset v)"

definition queue_inv :: "oenv \<Rightarrow> CSys \<Rightarrow> bool" where
  "queue_inv e s \<longleftrightarrow> (\<forall>p. 0 \<le> o_start e p \<and> o_start e p \<le> nextOffset s p) \<and>
     (\<forall>i. sorted_wrt in_order (queues s i)) \<and>
     (\<forall>i u. ProcessEvent u \<in> set (queues s i) \<longrightarrow> o_start e (bu_Partition u) \<le> bu_Offset u \<and> bu_Offset u < nextOffset s (bu_Partition u))"

definition note_inv :: "CSys \<Rightarrow> bool" where
  "note_inv s \<longleftrightarrow> (\<forall>i. ow_ID (workers s i) = i) \<and> (\<forall>i. \<forall>x \<in> noted (workers s i). 0 \<le> snd x \<and> behind s i x)"

definition coord_acks :: "CommitCoordinator \<Rightarrow> (int \<times> offsets) set" where
  "coord_acks c = (\<Union>(ep, st) \<in> set (EpochMap c). set (Acks st))"

definition all_acks :: "CSys \<Rightarrow> (int \<times> offsets) set" where
  "all_acks s = (\<lambda>a. (ack_WorkerID a, PartitionOffsets a)) ` set (ackChannel s) \<union> coord_acks (coord s) \<union> (\<Union>(rq, acks) \<in> set (requests s). set acks)"

definition req_inv :: "CSys \<Rightarrow> bool" where
  "req_inv s \<longleftrightarrow> (\<forall>(rq, acks) \<in> set (requests s). rq_Offsets rq = minOffsetPerPartition acks \<and>
     uncommitted rq = map (\<lambda>(p, n). (p, n + 1)) (rq_Offsets rq))"

definition sys_inv :: "oenv \<Rightarrow> CSys \<Rightarrow> bool" where
  "sys_inv e s \<longleftrightarrow> queue_inv e s \<and> note_inv s \<and> (\<forall>a \<in> all_acks s. ack_safe s a) \<and> req_inv s"

text \<open>A later state: offsets grow, and what is new in a channel comes from beyond the offsets handed out.\<close>

definition later :: "CSys \<Rightarrow> CSys \<Rightarrow> bool" where
  "later s s' \<longleftrightarrow> (\<forall>p. nextOffset s p \<le> nextOffset s' p) \<and>
     (\<forall>i u. ProcessEvent u \<in> set (queues s' i) \<longrightarrow> ProcessEvent u \<in> set (queues s i) \<or> nextOffset s (bu_Partition u) \<le> bu_Offset u)"

lemma behind_later: "behind s i x \<Longrightarrow> later s s' \<Longrightarrow> behind s' i x"
  unfolding behind_def later_def by (metis order_less_le_trans)

lemma ack_safe_later: "ack_safe s a \<Longrightarrow> later s s' \<Longrightarrow> ack_safe s' a"
  unfolding ack_safe_def using behind_later by blast

lemma processed_noted:
  assumes "\<forall>x \<in> noted w. 0 \<le> snd x" "map_of (processed_offsets w) p = Some u"
  shows "(p, u) \<in> noted w"
proof -
  let ?xs = "concat (map (noted_offsets \<circ> snd) (OrderbookStateMap w))"
  have s: "set ?xs = noted w" by (force simp: noted_def)
  from fold_max_upd_nonneg [OF _ assms(2) [unfolded map_of_processed]] assms(1) s show ?thesis by fastforce
qed

lemma map_of_off_min: "map_of (off_min p n m) = min_upd (map_of m) p n"
  by (auto simp: off_min_def min_upd_def update_conv' split: option.splits)

lemma map_of_minOffset:
  "map_of (minOffsetPerPartition acks) = fold (\<lambda>(p, n) m. min_upd m p n) (concat (map snd acks)) Map.empty"
proof -
  have i: "map_of (fold (\<lambda>(p, n). off_min p n) xs acc) = fold (\<lambda>(p, n) m. min_upd m p n) xs (map_of acc)" for xs acc
    by (induction xs arbitrary: acc) (auto simp: map_of_off_min)
  have "map_of (fold (\<lambda>(w, m) acc. fold (\<lambda>(p, n). off_min p n) m acc) acks acc) =
      fold (\<lambda>(p, n) m. min_upd m p n) (concat (map snd acks)) (map_of acc)" for acc
    by (induction acks arbitrary: acc) (auto simp: i)
  from this [of "[]"] show ?thesis by (simp add: minOffsetPerPartition_def)
qed

lemma minOffset_le:
  assumes "(i, m) \<in> set acks" "map_of m p = Some k" "map_of (minOffsetPerPartition acks) p = Some n"
  shows "n \<le> k"
proof -
  have "(p, k) \<in> set (concat (map snd acks))" using assms(1,2) by (force dest: map_of_SomeD)
  with fold_min_upd_le [OF assms(3) [unfolded map_of_minOffset]] show ?thesis by blast
qed

lemma coord_acks_update: "coord_acks (c\<lparr>EpochMap := AList.update ep st (EpochMap c)\<rparr>) \<subseteq> set (Acks st) \<union> coord_acks c"
proof -
  have "coord_acks (c\<lparr>EpochMap := AList.update ep st (EpochMap c)\<rparr>) \<subseteq> (\<Union>(ep, st) \<in> insert (ep, st) (set (EpochMap c)). set (Acks st))"
    unfolding coord_acks_def by (rule UN_mono) (simp_all add: set_update_le)
  then show ?thesis by (simp add: coord_acks_def)
qed

lemma HandleFlushAck_acks:
  assumes "HandleFlushAck c a = Done (c', rq)"
  shows "coord_acks c' \<subseteq> insert (ack_WorkerID a, PartitionOffsets a) (coord_acks c)"
    "rq = Some r \<Longrightarrow> rq_Offsets r = minOffsetPerPartition (acks_of c' (rq_Epoch r)) \<and> uncommitted r = map (\<lambda>(p, n). (p, n + 1)) (rq_Offsets r)"
proof -
  show "coord_acks c' \<subseteq> insert (ack_WorkerID a, PartitionOffsets a) (coord_acks c)"
  proof (cases "map_of (EpochMap c) (ack_Epoch a)")
    case None
    then show ?thesis using assms by (auto simp: HandleFlushAck_def)
  next
    case (Some st)
    define st1 where "st1 = st\<lparr>Participants := removeAll (ack_WorkerID a) (Participants st),
      Acks := AList.update (ack_WorkerID a) (PartitionOffsets a) (Acks st)\<rparr>"
    have "c' = c \<or> c' = c\<lparr>EpochMap := AList.update (ack_Epoch a) st1 (EpochMap c)\<rparr>"
      using assms Some by (auto simp: HandleFlushAck_def Let_def bind_out_Done st1_def split: if_splits)
    moreover have "set (Acks st1) \<subseteq> insert (ack_WorkerID a, PartitionOffsets a) (set (Acks st))"
      using set_update_le by (fastforce simp: st1_def)
    ultimately show ?thesis
      using set_update_le [of "ack_Epoch a" st1 "EpochMap c"] map_of_SomeD [OF Some] by (fastforce simp: coord_acks_def)
  qed
  show "rq = Some r \<Longrightarrow> rq_Offsets r = minOffsetPerPartition (acks_of c' (rq_Epoch r)) \<and> uncommitted r = map (\<lambda>(p, n). (p, n + 1)) (rq_Offsets r)"
    using assms by (auto simp: HandleFlushAck_def Let_def bind_out_Done commitEpochOffsets_def acks_of_def split: if_splits option.splits)
qed

lemma acks_of_coord: "set (acks_of c ep) \<subseteq> coord_acks c"
proof (cases "map_of (EpochMap c) ep")
  case (Some st)
  from map_of_SomeD [OF this] Some show ?thesis by (force simp: acks_of_def coord_acks_def)
qed (simp add: acks_of_def)

lemma timeout_loop_requests:
  "timeout_loop c now es = Done rqs \<Longrightarrow> r \<in> set rqs \<Longrightarrow>
    rq_Offsets r = minOffsetPerPartition (acks_of c (rq_Epoch r)) \<and> uncommitted r = map (\<lambda>(p, n). (p, n + 1)) (rq_Offsets r)"
proof (induction es arbitrary: rqs)
  case (Cons x es)
  obtain ep st where x: "x = (ep, st)" by (cases x)
  show ?case
  proof (cases "\<not> expired now st \<or> Acks st = []")
    case True
    then show ?thesis using Cons by (simp add: x)
  next
    case False
    then obtain r1 rqs1 where "commitEpochOffsets c CheckEpochTimeoutsEvent ep = Done r1" "timeout_loop c now es = Done rqs1" "rqs = r1 # rqs1"
      using Cons.prems(1) by (auto simp: x bind_out_Done)
    moreover have "rq_Offsets r1 = minOffsetPerPartition (acks_of c (rq_Epoch r1)) \<and> uncommitted r1 = map (\<lambda>(p, n). (p, n + 1)) (rq_Offsets r1)"
      using calculation(1) by (auto simp: commitEpochOffsets_def acks_of_def Let_def split: option.splits)
    ultimately show ?thesis using Cons.IH [of rqs1] Cons.prems(2) by auto
  qed
qed simp

definition env_ok :: "oenv \<Rightarrow> bool" where
  "env_ok e \<longleftrightarrow> (\<forall>p. 0 \<le> o_start e p) \<and> (\<forall>x \<in> restored e. 0 \<le> snd x \<and> snd x < o_start e (fst x))"

lemma note_inv_later:
  assumes "note_inv s" "later s s'" "workers s' = workers s"
  shows "note_inv s'"
  using assms behind_later unfolding note_inv_def by metis

lemma acks_later:
  assumes "\<forall>a \<in> all_acks s. ack_safe s a" "later s s'" "all_acks s' \<subseteq> all_acks s"
  shows "\<forall>a \<in> all_acks s'. ack_safe s' a"
  using assms ack_safe_later by blast

lemma sys_inv_frame:
  assumes "sys_inv e s" "later s s'" "workers s' = workers s" "all_acks s' \<subseteq> all_acks s" "queue_inv e s'" "req_inv s'"
  shows "sys_inv e s'"
  using assms note_inv_later acks_later unfolding sys_inv_def by blast

lemma later_refl_queues:
  "nextOffset s' = nextOffset s \<Longrightarrow> (\<And>i u. ProcessEvent u \<in> set (queues s' i) \<Longrightarrow> ProcessEvent u \<in> set (queues s i)) \<Longrightarrow> later s s'"
  by (simp add: later_def)

lemma queue_inv_other:
  assumes "queue_inv e s" "\<And>u. ev \<noteq> ProcessEvent u"
  shows "queue_inv e (s\<lparr>queues := (queues s)(i := queues s i @ [ev])\<rparr>)"
  using assms by (auto simp: queue_inv_def sorted_wrt_append in_order_def)

lemma sys_inv_event:
  assumes "sys_inv e s" "\<And>u. ev \<noteq> ProcessEvent u"
  shows "sys_inv e (s\<lparr>queues := (queues s)(i := queues s i @ [ev])\<rparr>)"
proof (rule sys_inv_frame [OF assms(1)])
  show "queue_inv e (s\<lparr>queues := (queues s)(i := queues s i @ [ev])\<rparr>)"
    using queue_inv_other assms by (simp add: sys_inv_def)
  have "ProcessEvent u \<in> set (queues s i @ [ev]) \<Longrightarrow> ProcessEvent u \<in> set (queues s i)" for u using assms(2) [of u] by auto
  then show "later s (s\<lparr>queues := (queues s)(i := queues s i @ [ev])\<rparr>)" by (intro later_refl_queues) (simp_all split: if_splits)
qed (use assms(1) in \<open>auto simp: all_acks_def sys_inv_def req_inv_def\<close>)

lemma sys_inv_enqueue:
  assumes "sys_inv e s" "bu_Offset u = nextOffset s (bu_Partition u)"
  shows "sys_inv e (s\<lparr>queues := (queues s)(i := queues s i @ [ProcessEvent u]),
      nextOffset := (nextOffset s)(bu_Partition u := nextOffset s (bu_Partition u) + 1)\<rparr>)" (is "sys_inv e ?s'")
proof (rule sys_inv_frame [OF assms(1)])
  show "later s ?s'" using assms(2) by (auto simp: later_def split: if_splits)
  have q: "queue_inv e s" using assms(1) by (simp add: sys_inv_def)
  have less: "bu_Offset v < nextOffset s (bu_Partition v)" if "ProcessEvent v \<in> set (queues s j)" for v j
    using that q unfolding queue_inv_def by blast
  then have "in_order x (ProcessEvent u)" if "x \<in> set (queues s i)" for x
    using that assms(2) unfolding in_order_def by fastforce
  then have "sorted_wrt in_order (queues s i @ [ProcessEvent u])" using q by (simp add: queue_inv_def sorted_wrt_append)
  then show "queue_inv e ?s'"
    using q assms(2) unfolding queue_inv_def by (auto simp: add_increasing2 split: if_splits) (metis less order.strict_implies_order)+
qed (use assms in \<open>auto simp: all_acks_def sys_inv_def req_inv_def\<close>)

lemma sys_inv_work:
  assumes inv: "sys_inv e s" and e: "env_ok e" and q: "queues s i = ev # q"
    and h: "ob_handle (o_codec e) (o_redis e) slot coins0 coins now (workers s i) ev = Done (w, outs)" and a: "acks = sent_acks outs \<or> acks = []"
  shows "sys_inv e (s\<lparr>workers := (workers s)(i := w), queues := (queues s)(i := q), ackChannel := ackChannel s @ acks\<rparr>)" (is "sys_inv e ?s'")
proof -
  have qi: "queue_inv e s" and ni: "note_inv s" and ai: "\<forall>a \<in> all_acks s. ack_safe s a" and ri: "req_inv s"
    using inv by (simp_all add: sys_inv_def)
  have lt: "later s ?s'" by (rule later_refl_queues) (auto simp: q split: if_splits)
  have qi': "queue_inv e ?s'" using qi unfolding queue_inv_def by (auto simp: q dest: spec [of _ i] split: if_splits)
  have st: "o_start e p \<le> nextOffset s p" for p using qi by (simp add: queue_inv_def)
  have start: "o_start e (bu_Partition u) \<le> bu_Offset u \<and> bu_Offset u < nextOffset s (bu_Partition u)" if "ProcessEvent u \<in> set (queues s i)" for u
    using that qi unfolding queue_inv_def by blast
  have off: "0 \<le> bu_Offset u" if "ev = ProcessEvent u" for u
    using start [of u] that e by (auto simp: q env_ok_def intro: order_trans)
  have nh: "noted w \<subseteq> noted (workers s i) \<union> restored e \<union> {(p, n). \<exists>u. ev = ProcessEvent u \<and> p = bu_Partition u \<and> n = bu_Offset u}"
    "ow_ID w = ow_ID (workers s i)" "b \<in> set (sent_acks outs) \<Longrightarrow> PartitionOffsets b = processed_offsets w \<and> ack_WorkerID b = ow_ID (workers s i)" for b
    using noted_handle [OF h] off by blast+
  have head: "behind ?s' i (bu_Partition u, bu_Offset u)" if "ev = ProcessEvent u" for u
  proof -
    have "sorted_wrt in_order (ev # q)" using qi q unfolding queue_inv_def by metis
    then show ?thesis using that start [of u] by (auto simp: behind_def q in_order_def)
  qed
  have rest: "behind ?s' i x" if "x \<in> restored e" for x
  proof -
    have "snd x < o_start e (fst x)" using that e by (simp add: env_ok_def)
    then show ?thesis unfolding behind_def using st start q by (simp, metis insertCI list.set(2) order_less_le_trans)
  qed
  have wi: "0 \<le> snd x \<and> behind ?s' i x" if xw: "x \<in> noted w" for x
  proof -
    consider "x \<in> noted (workers s i)" | "x \<in> restored e" | u where "ev = ProcessEvent u" "x = (bu_Partition u, bu_Offset u)"
      using nh(1) xw by (cases x) blast
    then show ?thesis
    proof cases
      case 1
      then show ?thesis using ni behind_later [OF _ lt] unfolding note_inv_def by blast
    next
      case 2
      then show ?thesis using rest e by (auto simp: env_ok_def)
    next
      case (3 u)
      then show ?thesis using head off by simp
    qed
  qed
  have id: "ow_ID w = i" using nh(2) ni by (simp add: note_inv_def)
  have ni': "note_inv ?s'"
    unfolding note_inv_def using wi id ni behind_later [OF _ lt] by (auto simp: note_inv_def)
  have new: "ack_safe ?s' (ack_WorkerID b, PartitionOffsets b)" if "b \<in> set acks" for b
  proof -
    have b: "PartitionOffsets b = processed_offsets w" "ack_WorkerID b = i"
      using nh(3) [of b] nh(2) id that a by (auto split: if_splits)
    show ?thesis using processed_noted [of w] wi by (auto simp: ack_safe_def b)
  qed
  have "\<forall>a \<in> all_acks ?s'. ack_safe ?s' a"
    using ai ack_safe_later [OF _ lt] new by (auto simp: all_acks_def)
  with qi' ni' ri show ?thesis by (simp add: sys_inv_def req_inv_def)
qed

lemma noted_told: "noted (ProcessUpdateAck w a) = noted w" "ow_ID (ProcessUpdateAck w a) = ow_ID w"
proof -
  show "noted (ProcessUpdateAck w a) = noted w"
    by (rule noted_eq) (auto simp: ProcessUpdateAck_def noted_offsets_def)
qed (simp add: ProcessUpdateAck_def)

lemma sys_inv_step:
  assumes inv: "sys_inv e s" and e: "env_ok e" and "ostep e s s'"
  shows "sys_inv e s'"
  using assms(3)
proof cases
  case (enqueue i u)
  then show ?thesis using sys_inv_enqueue [OF inv] by simp
next
  case (drop p)
  have "queue_inv e s'" using inv unfolding sys_inv_def queue_inv_def drop by (auto simp: add_increasing2 less_imp_le zle_add1_eq_le)
  then show ?thesis using inv unfolding drop
    by (intro sys_inv_frame [OF inv]) (auto simp: later_def all_acks_def sys_inv_def req_inv_def)
next
  case (work i ev q coins0 coins now w outs acks)
  then show ?thesis using sys_inv_work [OF inv e] by simp
next
  case tick
  then show ?thesis using inv by (simp add: sys_inv_def queue_inv_def note_inv_def behind_def all_acks_def ack_safe_def req_inv_def)
next
  case (ask i rest ps)
  have "sys_inv e (s\<lparr>queues := (queues s)(i := queues s i @ [FlushEvent (epochNo s)])\<rparr>)" by (rule sys_inv_event [OF inv]) simp
  then show ?thesis unfolding ask by (simp add: sys_inv_def queue_inv_def note_inv_def behind_def all_acks_def ack_safe_def req_inv_def)
next
  case (skip i rest ps)
  then show ?thesis using inv by (simp add: sys_inv_def queue_inv_def note_inv_def behind_def all_acks_def ack_safe_def req_inv_def)
next
  case (register ps now)
  have "coord_acks (StartEpoch (coord s) now (epochNo s) ps) \<subseteq> coord_acks (coord s)"
    using coord_acks_update [of "epochNo s" "\<lparr>CreatedAt = now, Participants = ps, Acks = []\<rparr>" "coord s"] by (simp add: StartEpoch_def)
  then show ?thesis using inv unfolding register
    by (intro sys_inv_frame [OF inv]) (auto simp: later_def all_acks_def sys_inv_def req_inv_def queue_inv_def)
next
  case (ack a as c rq)
  have "(ack_WorkerID a, PartitionOffsets a) \<in> all_acks s" by (simp add: all_acks_def ack)
  then have sub: "all_acks s' \<subseteq> all_acks s"
    using HandleFlushAck_acks(1) [OF ack(3)] acks_of_coord [of c]
    unfolding ack all_acks_def by (cases rq) fastforce+
  have "req_inv s'" using inv HandleFlushAck_acks(2) [OF ack(3)] unfolding ack by (auto simp: sys_inv_def req_inv_def split: option.splits)
  then show ?thesis using sub inv by (intro sys_inv_frame [OF inv]) (auto simp: ack later_def sys_inv_def queue_inv_def)
next
  case (expire now c rqs)
  then obtain l: "timeout_loop (coord s) now (EpochMap (coord s)) = Done rqs" and
    c: "c = (coord s)\<lparr>EpochMap := filter (\<lambda>(epoch, st). \<not> expired now st) (EpochMap (coord s))\<rparr>"
    by (auto simp: CheckEpochTimeouts_def bind_out_Done)
  have "coord_acks c \<subseteq> coord_acks (coord s)" by (auto simp: c coord_acks_def)
  then have sub: "all_acks s' \<subseteq> all_acks s" using acks_of_coord [of "coord s"] unfolding expire all_acks_def by fastforce
  have "req_inv s'" using inv timeout_loop_requests [OF l] unfolding expire by (auto simp: sys_inv_def req_inv_def)
  then show ?thesis using sub inv by (intro sys_inv_frame [OF inv]) (auto simp: expire later_def sys_inv_def queue_inv_def)
next
  case (finish rq acks r res c out)
  have "coord_acks c \<subseteq> coord_acks (coord s)"
    using finish(4) by (auto simp: PostCommitProcess_def coord_acks_def set_alist_delete)
  then show ?thesis using inv unfolding finish
    by (intro sys_inv_frame [OF inv]) (auto simp: later_def all_acks_def sys_inv_def req_inv_def queue_inv_def)
next
  case (told rq acks r res c0 c a i)
  have "sys_inv e (s\<lparr>queues := (queues s)(i := queues s i @ [SnapshotExecuteEvent])\<rparr>)" by (rule sys_inv_event [OF inv]) simp
  then show ?thesis unfolding told
    by (auto simp: sys_inv_def queue_inv_def note_inv_def behind_def all_acks_def ack_safe_def req_inv_def noted_told)
next
  case (snapshot ev k i)
  then show ?thesis using sys_inv_event [OF inv, of ev i] by auto
qed

lemma oreach_inv: "oreach e s \<Longrightarrow> env_ok e \<Longrightarrow> sys_inv e s"
proof (induction rule: oreach.induct)
  case oreach_init
  then show ?case
    by (simp add: sys_inv_def queue_inv_def note_inv_def all_acks_def req_inv_def CSys_init_def NewObWorker_def noted_def
        coord_acks_def NewCoordinator_def env_ok_def)
qed (use sys_inv_step in blast)

text \<open>
  C4. A commit never passes a record still queued at a worker that acknowledged its partition, whatever the
  interleaving of dispatcher, scheduler, workers and coordinator and whichever sends were dropped: the offset committed
  for the partition is at most the offset of the record, so it is read again after a restart. The snapshots in the
  store are assumed to have been taken before the positions the consumer starts from.
\<close>

theorem commit_keeps_queued:
  assumes "oreach e s" and "\<forall>p. 0 \<le> o_start e p"
    and "\<forall>k m p n. o_redis e k \<noteq> [] \<longrightarrow> sp_PartitionOffsets (unmarshal_Snapshot (o_codec e) (o_redis e k)) = Some m \<longrightarrow>
      (p, n) \<in> set m \<longrightarrow> 0 \<le> n \<and> n < o_start e p"
    and "(rq, acks) \<in> set (requests s)" and "(i, m) \<in> set acks" and "map_of m (bu_Partition u) = Some k"
    and "map_of (uncommitted rq) (bu_Partition u) = Some n" and "ProcessEvent u \<in> set (queues s i)"
  shows "n \<le> bu_Offset u"
proof -
  have "env_ok e" using assms(2,3) by (fastforce simp: env_ok_def restored_def)
  from oreach_inv [OF assms(1) this] have inv: "sys_inv e s" .
  then have r: "rq_Offsets rq = minOffsetPerPartition acks" "uncommitted rq = map (\<lambda>(p, n). (p, n + 1)) (rq_Offsets rq)"
    using assms(4) by (auto simp: sys_inv_def req_inv_def)
  have "(i, m) \<in> all_acks s" using assms(4,5) by (force simp: all_acks_def)
  then have "behind s i (bu_Partition u, k)" using inv assms(6) by (force simp: sys_inv_def ack_safe_def)
  then have "k < bu_Offset u" using assms(8) by (simp add: behind_def)
  moreover obtain n' where "map_of (minOffsetPerPartition acks) (bu_Partition u) = Some n'" "n = n' + 1"
    using assms(7) unfolding r by (auto simp: map_of_map)
  ultimately show ?thesis using minOffset_le [OF assms(5,6)] by fastforce
qed

section \<open>Example runs\<close>

datatype oact = Enq int BookUpdate | Work int | Tick | AskNext | Reg int | TakeAck | Expire int

fun oexec :: "oenv \<Rightarrow> oact list \<Rightarrow> CSys \<Rightarrow> CSys outcome" where
  "oexec e [] s = Done s"
| "oexec e (Enq i u # as) s =
     (if 0 \<le> i \<and> i < o_workers e \<and> bu_Offset u = nextOffset s (bu_Partition u)
      then oexec e as (s\<lparr>queues := (queues s)(i := queues s i @ [ProcessEvent u]),
        nextOffset := (nextOffset s)(bu_Partition u := nextOffset s (bu_Partition u) + 1)\<rparr>) else Fail)"
| "oexec e (Work i # as) s =
     (case queues s i of
        [] \<Rightarrow> Fail
      | ev # q \<Rightarrow> bind_out (ob_handle (o_codec e) (o_redis e) id (\<lambda>_ _. []) (\<lambda>_ _. []) 0 (workers s i) ev) (\<lambda>(w, outs).
          oexec e as (s\<lparr>workers := (workers s)(i := w), queues := (queues s)(i := q), ackChannel := ackChannel s @ sent_acks outs\<rparr>)))"
| "oexec e (Tick # as) s =
     (if broadcast s = None then oexec e as (s\<lparr>epochNo := epochNo s + 1, broadcast := Some ([0..o_workers e - 1], [])\<rparr>) else Fail)"
| "oexec e (AskNext # as) s =
     (case broadcast s of
        Some (i # rest, ps) \<Rightarrow>
          oexec e as (s\<lparr>queues := (queues s)(i := queues s i @ [FlushEvent (epochNo s)]), broadcast := Some (rest, ps @ [i])\<rparr>)
      | _ \<Rightarrow> Fail)"
| "oexec e (Reg now # as) s =
     (case broadcast s of
        Some ([], ps) \<Rightarrow> oexec e as (s\<lparr>broadcast := None, coord := StartEpoch (coord s) now (epochNo s) ps\<rparr>)
      | _ \<Rightarrow> Fail)"
| "oexec e (TakeAck # as) s =
     (case ackChannel s of
        [] \<Rightarrow> Fail
      | a # rest \<Rightarrow> bind_out (HandleFlushAck (coord s) a) (\<lambda>(c, rq).
          oexec e as (s\<lparr>ackChannel := rest, coord := c,
            requests := requests s @ (case rq of None \<Rightarrow> [] | Some r \<Rightarrow> [(r, acks_of c (rq_Epoch r))])\<rparr>)))"
| "oexec e (Expire now # as) s =
     bind_out (CheckEpochTimeouts (coord s) now) (\<lambda>(c, rqs).
       oexec e as (s\<lparr>coord := c, requests := requests s @ map (\<lambda>r. (r, acks_of (coord s) (rq_Epoch r))) rqs\<rparr>))"

lemma oexec_reach: "oexec e as s = Done s' \<Longrightarrow> oreach e s \<Longrightarrow> oreach e s'"
proof (induction as arbitrary: s)
  case (Cons a as)
  show ?case
  proof (cases a)
    case (Enq i u)
    with Cons.prems show ?thesis using Cons.IH by (auto split: if_splits intro: oreach_step ostep.enqueue)
  next
    case (Work i)
    with Cons.prems obtain ev q w outs where "queues s i = ev # q"
      "ob_handle (o_codec e) (o_redis e) id (\<lambda>_ _. []) (\<lambda>_ _. []) 0 (workers s i) ev = Done (w, outs)"
      and r: "oexec e as (s\<lparr>workers := (workers s)(i := w), queues := (queues s)(i := q), ackChannel := ackChannel s @ sent_acks outs\<rparr>) = Done s'"
      by (auto simp: bind_out_Done split: list.splits)
    then show ?thesis using Cons.IH [OF r] oreach_step [OF Cons.prems(2)] ostep.work [of s i ev q e _ _ _ _ w outs "sent_acks outs"] by blast
  next
    case Tick
    with Cons.prems show ?thesis using Cons.IH by (auto split: if_splits intro: oreach_step ostep.tick)
  next
    case AskNext
    with Cons.prems obtain i rest ps where "broadcast s = Some (i # rest, ps)"
      and r: "oexec e as (s\<lparr>queues := (queues s)(i := queues s i @ [FlushEvent (epochNo s)]), broadcast := Some (rest, ps @ [i])\<rparr>) = Done s'"
      by (auto split: option.splits list.splits)
    then show ?thesis using Cons.IH [OF r] oreach_step [OF Cons.prems(2)] ostep.ask [of s i rest ps e] by blast
  next
    case (Reg now)
    with Cons.prems obtain ps where "broadcast s = Some ([], ps)"
      and r: "oexec e as (s\<lparr>broadcast := None, coord := StartEpoch (coord s) now (epochNo s) ps\<rparr>) = Done s'"
      by (auto split: option.splits list.splits)
    then show ?thesis using Cons.IH [OF r] oreach_step [OF Cons.prems(2)] ostep.register [of s ps e now] by blast
  next
    case TakeAck
    with Cons.prems obtain b rest c rq where "ackChannel s = b # rest" "HandleFlushAck (coord s) b = Done (c, rq)"
      and r: "oexec e as (s\<lparr>ackChannel := rest, coord := c,
            requests := requests s @ (case rq of None \<Rightarrow> [] | Some r \<Rightarrow> [(r, acks_of c (rq_Epoch r))])\<rparr>) = Done s'"
      by (auto simp: bind_out_Done split: list.splits)
    then show ?thesis using Cons.IH [OF r] oreach_step [OF Cons.prems(2)] ostep.ack [of s b rest c rq e] by blast
  next
    case (Expire now)
    with Cons.prems obtain c rqs where "CheckEpochTimeouts (coord s) now = Done (c, rqs)"
      and r: "oexec e as (s\<lparr>coord := c, requests := requests s @ map (\<lambda>r. (r, acks_of (coord s) (rq_Epoch r))) rqs\<rparr>) = Done s'"
      by (auto simp: bind_out_Done)
    then show ?thesis using Cons.IH [OF r] oreach_step [OF Cons.prems(2)] ostep.expire [of s now c rqs e] by blast
  qed
qed simp

text \<open>An update without levels, the worker after it, and its flush.\<close>

definition demo_upd :: "int \<Rightarrow> BookUpdate" where
  "demo_upd n = \<lparr>bu_Partition = 0, bu_Offset = n, bu_Headers = None,
     bu_Update = \<lparr>nb_Exchange = ''x'', nb_Channel = ''c'', nb_Symbol = ''s'', nb_Bids = [], nb_Asks = [], nb_EventType = ''update'',
       nb_EventTimeMillis = 0\<rparr>, bu_Exchange = ''x'', bu_Symbol = ''s'', bu_TsMs = 0\<rparr>"

definition demo_after :: "int \<Rightarrow> int \<Rightarrow> ObWorker" where
  "demo_after i n = \<lparr>ow_ID = i, FlushDepth = 15, SnapshotStateMap = [], OrderbookStateMap = [(book_key ''x'' ''s'',
     \<lparr>bs_Exchange = ''x'', bs_Symbol = ''s'', bs_TimestampMillis = 0, bs_NewestIngestMs = 0, Orderbook = NewOrderBook,
      LastCommittedOffset = [], LastProcessedOffset = Some [(0, n)], offsetsShared = False, Restored = False, bs_SnapshotPending = False\<rparr>)]\<rparr>"

lemma demo_upd_sel [simp]: "bu_Offset (demo_upd n) = n" "bu_Partition (demo_upd n) = 0"
  by (simp_all add: demo_upd_def)

definition demo_env :: "int \<Rightarrow> oenv" where
  "demo_env n = \<lparr>o_codec = demo_ob_codec demo_proto, o_redis = (\<lambda>k. []), o_workers = n, o_start = (\<lambda>p. 0), o_depth = 15\<rparr>"

lemma demo_env_sel [simp]: "o_codec (demo_env n) = demo_ob_codec demo_proto" "o_redis (demo_env n) = (\<lambda>k. [])" "o_workers (demo_env n) = n"
  "o_start (demo_env n) = (\<lambda>p. 0)" "o_depth (demo_env n) = 15"
  by (simp_all add: demo_env_def)

lemma demo_process:
  "0 \<le> n \<Longrightarrow> ob_handle cd (\<lambda>k. []) id coins0 coins now (NewObWorker i 15) (ProcessEvent (demo_upd n)) = Done (demo_after i n, [])"
  by (simp add: ob_handle_def ProcessBookUpdate_def NewObWorker_def demo_upd_def RestoreOrCreateState_def upsert_all_def with_coins_def
      or_panic_def note_offset_def off_max_def off_get_def demo_after_def NewOrderBook_def)

lemma demo_flush:
  assumes "0 \<le> n"
  shows "ob_handle cd rdb slot coins0 coins now (demo_after i n) (FlushEvent epoch) =
    Done (demo_after i n, [SendAck \<lparr>ack_Epoch = epoch, ack_WorkerID = i, PartitionOffsets = [(0, n)]\<rparr>])"
proof -
  have "levels_of (Bids NewOrderBook) = []" "levels_of (Asks NewOrderBook) = []"
    using levels_unique [of Bid "Bids NewOrderBook" "[]"] levels_unique [of Ask "Asks NewOrderBook" "[]"] NewOrderBook_ok
    by (simp_all add: book_ok_def NewOrderBook_empty)
  then have "TopN (Bids NewOrderBook) 15 = Some []" "TopN (Asks NewOrderBook) 15 = Some []"
    using TopN_ok [of Bid "Bids NewOrderBook" 15] TopN_ok [of Ask "Asks NewOrderBook" 15] NewOrderBook_ok by (simp_all add: book_ok_def)
  then show ?thesis
    using assms by (simp add: ob_handle_def FlushBook_def demo_after_def flush_state_def or_panic_def Let_def processed_offsets_def off_merge_def
      off_max_def off_get_def)
qed

lemmas oeval = CSys_init_def demo_process demo_flush sent_acks_def List.map_filter_simps NewCoordinator_def StartEpoch_def HandleFlushAck_def
  CheckEpochTimeouts_def expired_def EpochTimeout_def commitEpochOffsets_def acks_of_def minOffsetPerPartition_def off_min_def Let_def

lemma ob_demo_run:
  "\<exists>s rq. oexec (demo_env 1) [Enq 0 (demo_upd 0), Tick, AskNext, Reg 0, Enq 0 (demo_upd 1), Work 0, Work 0, TakeAck] (CSys_init (demo_env 1)) = Done s \<and>
     (rq, [(0, [(0, 0)])]) \<in> set (requests s) \<and> uncommitted rq = [(0, 1)] \<and> ProcessEvent (demo_upd 1) \<in> set (queues s 0)"
  by (simp add: oeval)

theorem commit_keeps_queued_witness:
  "\<exists>s rq acks n. oreach (demo_env 1) s \<and> (rq, acks) \<in> set (requests s) \<and> uncommitted rq = [(0, n)] \<and>
     ProcessEvent (demo_upd 1) \<in> set (queues s 0) \<and> n \<le> bu_Offset (demo_upd 1)"
proof -
  from ob_demo_run obtain s rq where x: "oexec (demo_env 1) [Enq 0 (demo_upd 0), Tick, AskNext, Reg 0, Enq 0 (demo_upd 1), Work 0, Work 0, TakeAck]
      (CSys_init (demo_env 1)) = Done s"
    and r: "(rq, [(0, [(0, 0)])]) \<in> set (requests s)" "uncommitted rq = [(0, 1)]" "ProcessEvent (demo_upd 1) \<in> set (queues s 0)" by blast
  have s: "oreach (demo_env 1) s" using oexec_reach [OF x oreach_init] .
  have "1 \<le> bu_Offset (demo_upd 1)"
    by (rule commit_keeps_queued [where k = 0 and m = "[(0, 0)]", OF s _ _ r(1) _ _ _ r(3)]) (simp_all add: r(2))
  with s r show ?thesis by blast
qed

text \<open>
  An epoch that expires commits past records that are still queued. Worker 0 has record 0 of a partition in its
  channel and has not answered the epoch; worker 1 has applied record 1 and has. After two minutes the coordinator commits
  what the answers give, position 2, and record 0 is lost if the process restarts.
\<close>

theorem expired_epoch_skips_queued:
  "\<exists>s rq acks. oreach (demo_env 2) s \<and> (rq, acks) \<in> set (requests s) \<and> uncommitted rq = [(0, 2)] \<and>
     ProcessEvent (demo_upd 0) \<in> set (queues s 0)"
proof -
  let ?as = "[Enq 0 (demo_upd 0), Enq 1 (demo_upd 1), Tick, AskNext, AskNext, Reg 0, Work 1, Work 1, TakeAck, Expire 120000]"
  have u: "[0..1 :: int] = [0, 1]" by code_simp
  have "\<exists>s rq acks. oexec (demo_env 2) ?as (CSys_init (demo_env 2)) = Done s \<and> (rq, acks) \<in> set (requests s) \<and> uncommitted rq = [(0, 2)] \<and>
     ProcessEvent (demo_upd 0) \<in> set (queues s 0)"
    by (simp add: oeval u)
  then show ?thesis using oexec_reach [OF _ oreach_init] by blast
qed

end
