(* ===== verification/Pers_Rows.thy ===== *)
theory Pers_Rows
  imports Agg_Metrics Order_Book "HOL-Library.Monad_Syntax"
begin

text \<open>
  From a record of the persistence service to rows of the database: the converters (\<open>persistence/converter\<close>), the row
  sources that feed \<open>COPY\<close> and the two flush functions (\<open>persistence/db/writer\<close>). The statements those functions
  send are translated as operations on tables; a table is the list of its rows under their primary key.
\<close>

section \<open>Converters\<close>

record pers_price = PriceMetrics +
  pm_Microprice :: f64

record pers_tick =
  pt_Exchange :: string
  pt_Symbol :: string
  pt_WindowId :: string
  pt_StartTsMs :: int
  pt_EndTsMs :: int
  pt_Price :: "pers_price option"
  pt_Volume :: "VolumeMetrics option"
  pt_Volatility :: "VolatilityMetrics option"
  pt_Trend :: "TrendMetrics option"

text \<open>\<open>model.AggregatedTick\<close>; a time is its Unix milliseconds.\<close>

record TickRow =
  tr_Exchange :: string
  tr_Symbol :: string
  tr_WindowId :: string
  tr_StartTsMs :: int
  tr_EndTsMs :: int
  tr_StartTs :: int
  tr_EndTs :: int
  tr_Open :: f64
  tr_Close :: f64
  tr_High :: f64
  tr_Low :: f64
  tr_VWAP :: f64
  tr_RollingVWAP :: f64
  tr_TWAP :: f64
  tr_Microprice :: f64
  tr_Volume :: f64
  tr_RollingVolume :: f64
  tr_VolumeAcceleration :: f64
  tr_Volatility :: f64
  tr_Atr :: f64
  tr_Ema :: f64
  tr_Sma :: f64
  tr_LogReturn :: f64
  tr_SimpleReturn :: f64

definition UnixMilli :: "int \<Rightarrow> int" where
  "UnixMilli ms = ms"

definition zero_pers_price :: pers_price where
  "zero_pers_price = \<lparr>pm_Ohlc = None, pm_Vwap = Fin 0, pm_RollingVwap = Fin 0, pm_Twap = Fin 0, pm_Microprice = Fin 0\<rparr>"

definition zero_ohlc :: OhlcProto where
  "zero_ohlc = \<lparr>oh_Open = Fin 0, oh_High = Fin 0, oh_Low = Fin 0, oh_Close = Fin 0\<rparr>"

definition TickConverter_Convert :: "(bytes \<Rightarrow> pers_tick option) \<Rightarrow> bytes \<Rightarrow> TickRow option" where
  "TickConverter_Convert unmarshal input =
     map_option (\<lambda>t.
       let p = or_new zero_pers_price (pt_Price t); c = or_new zero_ohlc (pm_Ohlc p); v = or_new zero_volume (pt_Volume t);
           y = or_new zero_volatility (pt_Volatility t); r = or_new zero_trend (pt_Trend t)
       in \<lparr>tr_Exchange = pt_Exchange t, tr_Symbol = pt_Symbol t, tr_WindowId = pt_WindowId t, tr_StartTsMs = pt_StartTsMs t,
           tr_EndTsMs = pt_EndTsMs t, tr_StartTs = UnixMilli (pt_StartTsMs t), tr_EndTs = UnixMilli (pt_EndTsMs t),
           tr_Open = oh_Open c, tr_Close = oh_Close c, tr_High = oh_High c, tr_Low = oh_Low c, tr_VWAP = pm_Vwap p,
           tr_RollingVWAP = pm_RollingVwap p, tr_TWAP = pm_Twap p, tr_Microprice = pm_Microprice p, tr_Volume = vm_Volume v,
           tr_RollingVolume = vm_RollingVolume v, tr_VolumeAcceleration = vm_VolumeAcceleration v, tr_Volatility = ym_Volatility y,
           tr_Atr = ym_Atr y, tr_Ema = tm_Ema r, tr_Sma = tm_Sma r, tr_LogReturn = tm_LogReturn r, tr_SimpleReturn = tm_SimpleReturn r\<rparr>)
       (unmarshal input)"

text \<open>\<open>generated.OrderbookFlush\<close>: the best levels may be nil.\<close>

record pers_flush =
  pf_Exchange :: string
  pf_Symbol :: string
  pf_EventTimeMillis :: int
  pf_Bids :: "PriceLevel list"
  pf_Asks :: "PriceLevel list"
  pf_BestBid :: "PriceLevel option"
  pf_BestAsk :: "PriceLevel option"
  pf_Spread :: f64

record OrderbookFlushLevelRow =
  LevelIndex :: nat
  lr_Side :: string
  lr_Price :: f64
  lr_Volume :: f64

record OrderbookFlushRow =
  fr_Exchange :: string
  fr_Symbol :: string
  fr_EventTimeMillis :: int
  fr_EventTime :: int
  fr_BestBidPrice :: f64
  fr_BestBidVolume :: f64
  fr_BestAskPrice :: f64
  fr_BestAskVolume :: f64
  fr_Spread :: f64

record book_flush =
  FlushRow :: OrderbookFlushRow
  LevelRows :: "OrderbookFlushLevelRow list"

definition side_rows :: "string \<Rightarrow> PriceLevel list \<Rightarrow> OrderbookFlushLevelRow list" where
  "side_rows sd ls = map (\<lambda>(i, l). \<lparr>LevelIndex = i, lr_Side = sd, lr_Price = Price l, lr_Volume = Quantity l\<rparr>) (enumerate 0 ls)"

definition zero_level :: PriceLevel where
  "zero_level = \<lparr>Price = Fin 0, Quantity = Fin 0\<rparr>"

definition BookConverter_Convert :: "(bytes \<Rightarrow> pers_flush option) \<Rightarrow> bytes \<Rightarrow> book_flush option" where
  "BookConverter_Convert unmarshal input =
     map_option (\<lambda>f.
       let b = or_new zero_level (pf_BestBid f); a = or_new zero_level (pf_BestAsk f)
       in \<lparr>FlushRow = \<lparr>fr_Exchange = pf_Exchange f, fr_Symbol = pf_Symbol f, fr_EventTimeMillis = pf_EventTimeMillis f,
             fr_EventTime = UnixMilli (pf_EventTimeMillis f), fr_BestBidPrice = Price b, fr_BestBidVolume = Quantity b,
             fr_BestAskPrice = Price a, fr_BestAskVolume = Quantity a, fr_Spread = pf_Spread f\<rparr>,
           LevelRows = side_rows ''B'' (pf_Bids f) @ side_rows ''A'' (pf_Asks f)\<rparr>)
       (unmarshal input)"

text \<open>The row checks of the two pipelines: true for an invalid row.\<close>

definition IsInvalidTick :: "TickRow \<Rightarrow> bool" where
  "IsInvalidTick t = False"

definition IsInvalidBookFlush :: "book_flush \<Rightarrow> bool" where
  "IsInvalidBookFlush f \<longleftrightarrow> fr_EventTimeMillis (FlushRow f) = 0"

section \<open>Row sources\<close>

text \<open>
  \<open>CopyFrom\<close> of the database driver calls \<open>Next\<close> until it is false and takes \<open>Values\<close> after each true. Whether
  that ever ends depends on the source.
\<close>

partial_function (option) copy_rows :: "('s \<Rightarrow> bool \<times> 's) \<Rightarrow> ('s \<Rightarrow> 'v outcome) \<Rightarrow> 's \<Rightarrow> 'v list outcome option" where
  "copy_rows nxt vals s =
     (if \<not> fst (nxt s) then Some (Done [])
      else case vals (snd (nxt s)) of
             Fail \<Rightarrow> Some Fail
           | Panic \<Rightarrow> Some Panic
           | Done v \<Rightarrow> do { vs \<leftarrow> copy_rows nxt vals (snd (nxt s)); Some (bind_out vs (\<lambda>vs. Done (v # vs))) })"

text \<open>\<open>aggregatedTickRowSource\<close> and \<open>orderbookFlushRowSource\<close>: an index into the batch.\<close>

record 'r row_source =
  rs_rows :: "'r list"
  rs_idx :: nat

definition row_Next :: "'r row_source \<Rightarrow> bool \<times> 'r row_source" where
  "row_Next s = (let s = s\<lparr>rs_idx := rs_idx s + 1\<rparr> in (rs_idx s \<le> length (rs_rows s), s))"

definition tick_Values :: "TickRow row_source \<Rightarrow> TickRow outcome" where
  "tick_Values s = (if rs_idx s = 0 then Panic else idx (rs_rows s) (rs_idx s - 1))"

definition flush_Values :: "book_flush row_source \<Rightarrow> OrderbookFlushRow outcome" where
  "flush_Values s = (if rs_idx s = 0 then Panic else bind_out (idx (rs_rows s) (rs_idx s - 1)) (\<lambda>f. Done (FlushRow f)))"

text \<open>\<open>orderbookLevelRowSource\<close>: two indices that walk the levels of every flush.\<close>

record level_source =
  ls_rows :: "book_flush list"
  outerIdx :: nat
  innerIdx :: int

definition newOrderbookLevelRowSource :: "book_flush list \<Rightarrow> level_source" where
  "newOrderbookLevelRowSource rows = \<lparr>ls_rows = rows, outerIdx = 0, innerIdx = - 1\<rparr>"

function level_Next :: "level_source \<Rightarrow> bool \<times> level_source" where
  "level_Next s =
     (if outerIdx s < length (ls_rows s) then
        let s = s\<lparr>innerIdx := innerIdx s + 1\<rparr>
        in if innerIdx s < int (length (LevelRows (ls_rows s ! outerIdx s))) then (True, s)
           else level_Next (s\<lparr>outerIdx := outerIdx s + 1, innerIdx := - 1\<rparr>)
      else (False, s))"
  by pat_completeness auto
termination
  by (relation "measure (\<lambda>s. length (ls_rows s) - outerIdx s)") auto

declare level_Next.simps [simp del]

record level_values =
  lv_Exchange :: string
  lv_Symbol :: string
  lv_EventTime :: int
  lv_Level :: OrderbookFlushLevelRow

definition level_row :: "book_flush \<Rightarrow> OrderbookFlushLevelRow \<Rightarrow> level_values" where
  "level_row f l = \<lparr>lv_Exchange = fr_Exchange (FlushRow f), lv_Symbol = fr_Symbol (FlushRow f),
     lv_EventTime = fr_EventTime (FlushRow f), lv_Level = l\<rparr>"

definition level_Values :: "level_source \<Rightarrow> level_values outcome" where
  "level_Values s =
     bind_out (idx (ls_rows s) (outerIdx s)) (\<lambda>f.
       if innerIdx s < 0 then Panic else bind_out (idx (LevelRows f) (nat (innerIdx s))) (\<lambda>l. Done (level_row f l)))"

section \<open>The contract of a row source\<close>

text \<open>The interface \<open>CopyRowSource\<close>: a source stands for the rows it still has to give.\<close>

locale copy_row_source =
  fixes nxt :: "'s \<Rightarrow> bool \<times> 's" and vals :: "'s \<Rightarrow> 'v outcome" and ok :: "'s \<Rightarrow> bool" and rows_left :: "'s \<Rightarrow> 'v list"
  assumes nxt_end: "ok s \<Longrightarrow> rows_left s = [] \<Longrightarrow> \<not> fst (nxt s)"
    and nxt_row: "ok s \<Longrightarrow> rows_left s = v # vs \<Longrightarrow>
      \<exists>s'. nxt s = (True, s') \<and> ok s' \<and> vals s' = Done v \<and> rows_left s' = vs"
begin

lemma copy_all: "ok s \<Longrightarrow> copy_rows nxt vals s = Some (Done (rows_left s))"
proof (induction "rows_left s" arbitrary: s)
  case Nil
  then have "\<not> fst (nxt s)" using nxt_end [of s] by simp
  then show ?case using Nil by (subst copy_rows.simps) simp
next
  case (Cons v vs)
  then obtain s' where s': "nxt s = (True, s')" "ok s'" "vals s' = Done v" "rows_left s' = vs" using nxt_row [of s v vs] by metis
  then have "copy_rows nxt vals s' = Some (Done vs)" using Cons(1) [of s'] by simp
  then show ?case using s' Cons(2) by (subst copy_rows.simps) simp
qed

end

lemma drop_Cons_nth: "drop n xs = v # vs \<Longrightarrow> n < length xs \<and> xs ! n = v \<and> drop (Suc n) xs = vs"
  by (metis Cons_nth_drop_Suc drop_eq_Nil list.discI list.inject not_le)

interpretation tk: copy_row_source row_Next tick_Values "\<lambda>_. True" "\<lambda>s. drop (rs_idx s) (rs_rows s)"
  by unfold_locales (auto simp: row_Next_def tick_Values_def idx_def dest: drop_Cons_nth)

interpretation fl: copy_row_source row_Next flush_Values "\<lambda>_. True" "\<lambda>s. map FlushRow (drop (rs_idx s) (rs_rows s))"
  by unfold_locales (auto simp: row_Next_def flush_Values_def idx_def map_eq_Cons_conv dest: drop_Cons_nth)

definition levels_left :: "level_source \<Rightarrow> level_values list" where
  "levels_left s =
     (case drop (outerIdx s) (ls_rows s) of
        [] \<Rightarrow> []
      | f # fs \<Rightarrow> map (level_row f) (drop (nat (innerIdx s + 1)) (LevelRows f)) @ concat (map (\<lambda>f. map (level_row f) (LevelRows f)) fs))"

definition source_ok :: "level_source \<Rightarrow> bool" where
  "source_ok s \<longleftrightarrow> - 1 \<le> innerIdx s"

lemma level_Next_spec:
  "source_ok s \<Longrightarrow> (case levels_left s of
       [] \<Rightarrow> \<not> fst (level_Next s)
     | v # vs \<Rightarrow> \<exists>s'. level_Next s = (True, s') \<and> source_ok s' \<and> level_Values s' = Done v \<and> levels_left s' = vs)"
proof (induction s rule: level_Next.induct)
  case (1 s)
  show ?case
  proof (cases "outerIdx s < length (ls_rows s)")
    case False
    then show ?thesis by (simp add: levels_left_def level_Next.simps [of s])
  next
    case True
    define f where "f = ls_rows s ! outerIdx s"
    define fs where "fs = drop (Suc (outerIdx s)) (ls_rows s)"
    have d: "drop (outerIdx s) (ls_rows s) = f # fs" using True by (simp add: f_def fs_def Cons_nth_drop_Suc)
    define s1 where "s1 = s\<lparr>innerIdx := innerIdx s + 1\<rparr>"
    show ?thesis
    proof (cases "innerIdx s + 1 < int (length (LevelRows f))")
      case in_levels: True
      define n where "n = nat (innerIdx s + 1)"
      have n: "int n = innerIdx s + 1" "n < length (LevelRows f)" using 1(2) in_levels by (auto simp: n_def source_ok_def)
      have "level_Next s = (True, s1)" using True in_levels by (simp add: level_Next.simps [of s] s1_def f_def)
      moreover have "source_ok s1" using 1(2) by (simp add: source_ok_def s1_def)
      moreover have "level_Values s1 = Done (level_row f (LevelRows f ! n))"
        using True n 1(2) by (auto simp: level_Values_def s1_def idx_def f_def n_def [symmetric] source_ok_def)
      moreover have "levels_left s = level_row f (LevelRows f ! n) # levels_left s1"
      proof -
        have "nat (2 + innerIdx s) = Suc n" using n by linarith
        then show ?thesis using n(2) by (simp add: levels_left_def d s1_def n_def [symmetric] Cons_nth_drop_Suc [symmetric])
      qed
      ultimately show ?thesis by auto
    next
      case False
      define s2 where "s2 = s1\<lparr>outerIdx := outerIdx s1 + 1, innerIdx := - 1\<rparr>"
      have nx: "level_Next s = level_Next s2" using True False by (simp add: level_Next.simps [of s] s1_def s2_def f_def)
      have left: "levels_left s = levels_left s2"
        using False by (simp add: levels_left_def d s2_def s1_def fs_def [symmetric] split: list.split)
      have "\<not> innerIdx s1 < int (length (LevelRows (ls_rows s1 ! outerIdx s1)))" using False by (simp add: s1_def f_def)
      note ih = 1(1) [OF True s1_def this, folded s2_def]
      have "source_ok s2" by (simp add: source_ok_def s2_def)
      then show ?thesis unfolding nx left by (rule ih)
    qed
  qed
qed

interpretation lv: copy_row_source level_Next level_Values source_ok levels_left
proof unfold_locales
  show "\<not> fst (level_Next s)" if "source_ok s" "levels_left s = []" for s
    using level_Next_spec [OF that(1)] that(2) by simp
  show "\<exists>s'. level_Next s = (True, s') \<and> source_ok s' \<and> level_Values s' = Done v \<and> levels_left s' = vs"
    if "source_ok s" "levels_left s = v # vs" for s v vs
    using level_Next_spec [OF that(1)] that(2) by simp
qed

section \<open>Tables\<close>

text \<open>
  \<open>INSERT INTO t SELECT ... FROM staging ON CONFLICT (key) DO NOTHING\<close>: a row whose key is taken, by the table or
  by an earlier row of the statement, is left out.
\<close>

definition insert_nothing :: "('r \<Rightarrow> 'k) \<Rightarrow> 'r list \<Rightarrow> ('k \<times> 'r) list \<Rightarrow> ('k \<times> 'r) list" where
  "insert_nothing key_of rows t = fold (\<lambda>r t. if map_of t (key_of r) = None then t @ [(key_of r, r)] else t) rows t"

type_synonym tick_row_key = "string \<times> string \<times> string \<times> int"
type_synonym book_flush_key = "string \<times> string \<times> int"

definition tick_pk :: "TickRow \<Rightarrow> tick_row_key" where
  "tick_pk r = (tr_Exchange r, tr_Symbol r, tr_WindowId r, tr_StartTs r)"

definition flush_pk :: "OrderbookFlushRow \<Rightarrow> book_flush_key" where
  "flush_pk r = (fr_Exchange r, fr_Symbol r, fr_EventTime r)"

definition level_pk :: "level_values \<Rightarrow> book_flush_key \<times> string \<times> nat" where
  "level_pk v = ((lv_Exchange v, lv_Symbol v, lv_EventTime v), lr_Side (lv_Level v), LevelIndex (lv_Level v))"

record database =
  aggregated_ticks :: "(tick_row_key \<times> TickRow) list"
  orderbook_flushes :: "(book_flush_key \<times> OrderbookFlushRow) list"
  orderbook_flush_levels :: "((book_flush_key \<times> string \<times> nat) \<times> level_values) list"

text \<open>
  The two flush functions within a transaction. \<open>err i\<close> says whether the \<open>i\<close>-th call of the transaction fails; the
  batcher rolls back then. The staging tables are created empty in each transaction.
\<close>

definition staged :: "'v list outcome option \<Rightarrow> 'v list outcome" where
  "staged r = (case r of None \<Rightarrow> Fail | Some res \<Rightarrow> res)"

definition FlushAggregateTicks :: "(nat \<Rightarrow> bool) \<Rightarrow> TickRow list \<Rightarrow> database \<Rightarrow> database outcome" where
  "FlushAggregateTicks err rows db =
     (if err 0 then Fail
      else if err 1 then Fail
      else bind_out (staged (copy_rows row_Next tick_Values \<lparr>rs_rows = rows, rs_idx = 0\<rparr>)) (\<lambda>staging.
        if err 2 then Fail
        else Done (db\<lparr>aggregated_ticks := insert_nothing tick_pk staging (aggregated_ticks db)\<rparr>)))"

definition FlushOrderbook :: "(nat \<Rightarrow> bool) \<Rightarrow> book_flush list \<Rightarrow> database \<Rightarrow> database outcome" where
  "FlushOrderbook err rows db =
     (if rows = [] then Done db
      else if err 0 then Fail
      else if err 1 then Fail
      else if err 2 then Fail
      else bind_out (staged (copy_rows row_Next flush_Values \<lparr>rs_rows = rows, rs_idx = 0\<rparr>)) (\<lambda>flushes.
        if err 3 then Fail
        else bind_out (staged (copy_rows level_Next level_Values (newOrderbookLevelRowSource rows))) (\<lambda>levels.
          if err 4 then Fail
          else let db = db\<lparr>orderbook_flushes := insert_nothing flush_pk flushes (orderbook_flushes db)\<rparr>
               in if err 5 then Fail
                  else Done (db\<lparr>orderbook_flush_levels := insert_nothing level_pk levels (orderbook_flush_levels db)\<rparr>))))"

lemma insert_nothing_simps [simp]:
  "insert_nothing k [] t = t"
  "insert_nothing k (r # rs) t = insert_nothing k rs (if map_of t (k r) = None then t @ [(k r, r)] else t)"
  by (simp_all add: insert_nothing_def)

lemma map_of_insert_nothing: "map_of (insert_nothing k rs t) = map_of (map (\<lambda>r. (k r, r)) rs) ++ map_of t"
proof (induction rs arbitrary: t)
  case (Cons r rs)
  show ?case using Cons.IH [of t] Cons.IH [of "t @ [(k r, r)]"] by (auto simp: map_add_def fun_eq_iff split: option.splits)
qed simp

lemma insert_nothing_known: "k ` set rs \<subseteq> dom (map_of t) \<Longrightarrow> insert_nothing k rs t = t"
proof (induction rs)
  case (Cons r rs)
  then obtain y where "map_of t (k r) = Some y" by auto
  with Cons show ?case by simp
qed simp

lemma insert_nothing_dom: "dom (map_of (insert_nothing k rs t)) = k ` set rs \<union> dom (map_of t)"
  by (auto simp: map_of_insert_nothing dom_map_of_conv_image_fst image_image)

definition level_rows :: "book_flush list \<Rightarrow> level_values list" where
  "level_rows rows = concat (map (\<lambda>f. map (level_row f) (LevelRows f)) rows)"

lemma copied_rows:
  "staged (copy_rows row_Next tick_Values \<lparr>rs_rows = ticks, rs_idx = 0\<rparr>) = Done ticks"
  "staged (copy_rows row_Next flush_Values \<lparr>rs_rows = rows, rs_idx = 0\<rparr>) = Done (map FlushRow rows)"
  "staged (copy_rows level_Next level_Values (newOrderbookLevelRowSource rows)) = Done (level_rows rows)"
  using lv.copy_all [of "newOrderbookLevelRowSource rows"]
  by (simp_all add: tk.copy_all fl.copy_all staged_def newOrderbookLevelRowSource_def source_ok_def levels_left_def level_rows_def split: list.split)

lemma FlushOrderbook_Done:
  "FlushOrderbook err rows db = Done db' \<longleftrightarrow>
     (rows = [] \<and> db' = db \<or> rows \<noteq> [] \<and> (\<forall>i \<in> {0, 1, 2, 3, 4, 5}. \<not> err i) \<and>
      db' = db\<lparr>orderbook_flushes := insert_nothing flush_pk (map FlushRow rows) (orderbook_flushes db),
               orderbook_flush_levels := insert_nothing level_pk (level_rows rows) (orderbook_flush_levels db)\<rparr>)"
  by (auto simp: FlushOrderbook_def copied_rows Let_def)

lemma FlushOrderbook_tables:
  assumes "FlushOrderbook err rows db = Done db'"
  shows "orderbook_flushes db' = insert_nothing flush_pk (map FlushRow rows) (orderbook_flushes db)"
    and "orderbook_flush_levels db' = insert_nothing level_pk (level_rows rows) (orderbook_flush_levels db)"
    and "aggregated_ticks db' = aggregated_ticks db"
  using assms by (auto simp: FlushOrderbook_Done level_rows_def)

lemma levels_have_flush:
  assumes "FlushOrderbook err rows db = Done db'"
    and "fst ` dom (map_of (orderbook_flush_levels db)) \<subseteq> dom (map_of (orderbook_flushes db))"
  shows "fst ` dom (map_of (orderbook_flush_levels db')) \<subseteq> dom (map_of (orderbook_flushes db'))"
proof -
  have keys: "fst ` level_pk ` set (level_rows rows) \<subseteq> flush_pk ` FlushRow ` set rows"
    by (auto simp: level_rows_def level_pk_def level_row_def flush_pk_def)
  show ?thesis unfolding FlushOrderbook_tables [OF assms(1)] insert_nothing_dom image_Un set_map by (rule Un_mono [OF keys assms(2)])
qed

section \<open>Properties\<close>

text \<open>
  C31. The driver reads the levels of a batch to the end: the walk with two indices terminates without an index out of
  range and gives, in order, every level of every flush together with the key of its flush.
\<close>

theorem level_source_exact:
  "copy_rows level_Next level_Values (newOrderbookLevelRowSource rows) =
     Some (Done (concat (map (\<lambda>f. map (level_row f) (LevelRows f)) rows)))"
  using lv.copy_all [of "newOrderbookLevelRowSource rows"]
  by (simp add: newOrderbookLevelRowSource_def source_ok_def levels_left_def split: list.split)

text \<open>
  C39. What a written batch of book flushes leaves in the database: for each key the row that was there before, otherwise the
  first row of the batch with that key, in both tables; every other row is unchanged, and every stored level has its flush, so
  the foreign key is never violated.
\<close>

theorem FlushOrderbook_stores:
  assumes "FlushOrderbook err rows db = Done db'"
  shows "map_of (orderbook_flushes db') = map_of (map (\<lambda>r. (flush_pk (FlushRow r), FlushRow r)) rows) ++ map_of (orderbook_flushes db) \<and>
    map_of (orderbook_flush_levels db') =
      map_of (concat (map (\<lambda>f. map (\<lambda>l. (level_pk (level_row f l), level_row f l)) (LevelRows f)) rows)) ++ map_of (orderbook_flush_levels db) \<and>
    aggregated_ticks db' = aggregated_ticks db \<and>
    (fst ` dom (map_of (orderbook_flush_levels db)) \<subseteq> dom (map_of (orderbook_flushes db)) \<longrightarrow>
     fst ` dom (map_of (orderbook_flush_levels db')) \<subseteq> dom (map_of (orderbook_flushes db')))"
proof -
  have lv: "map (\<lambda>v. (level_pk v, v)) (level_rows rows) =
      concat (map (\<lambda>f. map (\<lambda>l. (level_pk (level_row f l), level_row f l)) (LevelRows f)) rows)"
    by (simp add: level_rows_def map_concat comp_def)
  note db' = FlushOrderbook_tables [OF assms]
  show ?thesis using levels_have_flush [OF assms] unfolding db' map_of_insert_nothing lv by (simp add: comp_def)
qed

definition demo_flush :: "f64 \<Rightarrow> PriceLevel list \<Rightarrow> pers_flush" where
  "demo_flush bid ls = \<lparr>pf_Exchange = ''kraken'', pf_Symbol = ''A'', pf_EventTimeMillis = 5, pf_Bids = ls,
     pf_Asks = [\<lparr>Price = Fin 9, Quantity = Fin 1\<rparr>], pf_BestBid = Some \<lparr>Price = bid, Quantity = Fin 1\<rparr>,
     pf_BestAsk = None, pf_Spread = Fin 1\<rparr>"

definition demo_book :: "f64 \<Rightarrow> PriceLevel list \<Rightarrow> book_flush" where
  "demo_book bid ls = the (BookConverter_Convert (\<lambda>_. Some (demo_flush bid ls)) [])"

definition empty_db :: database where
  "empty_db = \<lparr>aggregated_ticks = [], orderbook_flushes = [], orderbook_flush_levels = []\<rparr>"

lemma demo_written: "rows \<noteq> [] \<Longrightarrow> FlushOrderbook (\<lambda>_. False) rows db =
    Done (db\<lparr>orderbook_flushes := insert_nothing flush_pk (map FlushRow rows) (orderbook_flushes db),
             orderbook_flush_levels := insert_nothing level_pk (level_rows rows) (orderbook_flush_levels db)\<rparr>)"
  by (simp add: FlushOrderbook_Done)

theorem FlushOrderbook_stores_witness:
  "\<exists>db'. FlushOrderbook (\<lambda>_. False) [demo_book (Fin 8) []] empty_db = Done db' \<and>
     map_of (orderbook_flushes db') (''kraken'', ''A'', 5) = Some (FlushRow (demo_book (Fin 8) []))"
proof -
  obtain db' where w: "FlushOrderbook (\<lambda>_. False) [demo_book (Fin 8) []] empty_db = Done db'" by (simp add: demo_written)
  from FlushOrderbook_stores [OF w] have "map_of (orderbook_flushes db') (''kraken'', ''A'', 5) = Some (FlushRow (demo_book (Fin 8) []))"
    by (simp add: empty_db_def demo_book_def demo_flush_def BookConverter_Convert_def flush_pk_def UnixMilli_def or_new_def)
  with w show ?thesis by blast
qed

text \<open>
  C14. A batch that is delivered again, whole or in part and in any order, after it was written changes nothing: the comment
  that the write is idempotent holds.
\<close>

theorem replayed_flushes_change_nothing:
  assumes "FlushOrderbook err rows db = Done db1" and "FlushOrderbook err' later db1 = Done db2" and "set again \<subseteq> set rows"
    and "\<forall>i. \<not> err'' i"
  shows "FlushOrderbook err'' again db2 = Done db2"
proof -
  have grow: "dom (map_of (orderbook_flushes d)) \<subseteq> dom (map_of (orderbook_flushes d')) \<and>
      dom (map_of (orderbook_flush_levels d)) \<subseteq> dom (map_of (orderbook_flush_levels d'))"
    if "FlushOrderbook e rs d = Done d'" for e rs d d'
    unfolding FlushOrderbook_tables [OF that] insert_nothing_dom by blast
  note g = grow [OF assms(2)]
  have lr: "set (level_rows again) \<subseteq> set (level_rows rows)" using assms(3) by (auto simp: level_rows_def)
  have f1: "flush_pk ` FlushRow ` set rows \<subseteq> dom (map_of (orderbook_flushes db1))"
    unfolding FlushOrderbook_tables [OF assms(1)] insert_nothing_dom set_map by (rule Un_upper1)
  have l1: "level_pk ` set (level_rows rows) \<subseteq> dom (map_of (orderbook_flush_levels db1))"
    unfolding FlushOrderbook_tables [OF assms(1)] insert_nothing_dom by (rule Un_upper1)
  have "flush_pk ` FlushRow ` set again \<subseteq> dom (map_of (orderbook_flushes db2))"
    using order_trans [OF image_mono [OF image_mono [OF assms(3)]] f1] g by (meson order_trans)
  moreover have "level_pk ` set (level_rows again) \<subseteq> dom (map_of (orderbook_flush_levels db2))"
    using order_trans [OF image_mono [OF lr] l1] g by (meson order_trans)
  ultimately have "insert_nothing flush_pk (map FlushRow again) (orderbook_flushes db2) = orderbook_flushes db2"
    "insert_nothing level_pk (level_rows again) (orderbook_flush_levels db2) = orderbook_flush_levels db2"
    using insert_nothing_known [of flush_pk "map FlushRow again"] insert_nothing_known [of level_pk "level_rows again"] by (simp_all only: set_map)
  then show ?thesis using assms(4) by (simp add: FlushOrderbook_Done)
qed

theorem replayed_flushes_change_nothing_witness:
  "\<exists>db1 db2. FlushOrderbook (\<lambda>_. False) [demo_book (Fin 8) []] empty_db = Done db1 \<and>
     FlushOrderbook (\<lambda>_. False) [demo_book (Fin 7) []] db1 = Done db2 \<and>
     FlushOrderbook (\<lambda>_. False) [demo_book (Fin 8) []] db2 = Done db2"
proof -
  obtain db1 where w1: "FlushOrderbook (\<lambda>_. False) [demo_book (Fin 8) []] empty_db = Done db1" by (simp add: demo_written)
  obtain db2 where w2: "FlushOrderbook (\<lambda>_. False) [demo_book (Fin 7) []] db1 = Done db2" by (simp add: demo_written)
  from w1 w2 replayed_flushes_change_nothing [OF w1 w2, of "[demo_book (Fin 8) []]" "\<lambda>_. False"] show ?thesis by auto
qed

lemma FlushAggregateTicks_stores:
  assumes "FlushAggregateTicks err rows db = Done db'"
  shows "db' = db\<lparr>aggregated_ticks := insert_nothing tick_pk rows (aggregated_ticks db)\<rparr>"
  using assms by (auto simp: FlushAggregateTicks_def copied_rows split: if_splits)

lemma replayed_ticks_change_nothing:
  assumes "FlushAggregateTicks err rows db = Done db1" and "set again \<subseteq> set rows" and "\<forall>i. \<not> err' i"
  shows "FlushAggregateTicks err' again db1 = Done db1"
proof -
  have "tick_pk ` set rows \<subseteq> dom (map_of (aggregated_ticks db1))"
    using FlushAggregateTicks_stores [OF assms(1)] by (simp add: insert_nothing_dom)
  then have "insert_nothing tick_pk again (aggregated_ticks db1) = aggregated_ticks db1"
    using order_trans [OF image_mono [OF assms(2)]] by (intro insert_nothing_known) blast
  then show ?thesis using assms(3) by (simp add: FlushAggregateTicks_def copied_rows)
qed

text \<open>
  The two tables are filled row by row, not flush by flush. Two flushes of one symbol with the same event time leave the
  first flush in the one table and, when the second has more levels, the levels of both mixed in the other.
\<close>

theorem levels_of_two_flushes_mix:
  "\<exists>db. FlushOrderbook (\<lambda>_. False)
      [demo_book (Fin 8) [\<lparr>Price = Fin 8, Quantity = Fin 1\<rparr>],
       demo_book (Fin 7) [\<lparr>Price = Fin 7, Quantity = Fin 1\<rparr>, \<lparr>Price = Fin 6, Quantity = Fin 1\<rparr>]] empty_db = Done db \<and>
    map (fr_BestBidPrice \<circ> snd) (orderbook_flushes db) = [Fin 8] \<and>
    map (lr_Price \<circ> lv_Level \<circ> snd) (filter (\<lambda>(k, v). lr_Side (lv_Level v) = ''B'') (orderbook_flush_levels db)) = [Fin 8, Fin 6]"
  by (simp add: demo_written level_rows_def level_row_def level_pk_def flush_pk_def empty_db_def demo_book_def demo_flush_def
      BookConverter_Convert_def side_rows_def UnixMilli_def or_new_def enumerate_Suc_eq)

end
