(* ===== verification/Ui_Backend.thy ===== *)
theory Ui_Backend
  imports Pers_Rows "HOL-Library.AList"
begin

text \<open>
  The read side (\<open>ui-backend\<close>): the stream manager that hands live messages to websocket clients
  (\<open>stream/stream_manager.go\<close>), the metric selection of the service (\<open>service/market_service.go\<close>) and the
  query of the latest book (\<open>repository/market_repository.go\<close>) on the tables that the persistence service writes.
\<close>

section \<open>The stream manager\<close>

text \<open>A client is its address. \<open>Clients\<close> maps a message type and a key to the clients registered for them.\<close>

type_synonym stream_clients = "(string \<times> (string \<times> nat list) list) list"

definition lookup_default :: "'b \<Rightarrow> ('a \<times> 'b) list \<Rightarrow> 'a \<Rightarrow> 'b" where
  "lookup_default z m k = (case map_of m k of None \<Rightarrow> z | Some v \<Rightarrow> v)"

definition sm_Register :: "string \<Rightarrow> string \<Rightarrow> nat \<Rightarrow> stream_clients \<Rightarrow> stream_clients" where
  "sm_Register msgType k client clients =
     (let cm = lookup_default [] clients msgType; cs = lookup_default [] cm k
      in AList.update msgType (AList.update k (List.insert client cs) cm) clients)"

definition sm_Unregister :: "nat \<Rightarrow> stream_clients \<Rightarrow> stream_clients" where
  "sm_Unregister client clients =
     filter (\<lambda>(typ, cm). cm \<noteq> [])
       (map (\<lambda>(typ, cm). (typ, filter (\<lambda>(k, cs). cs \<noteq> []) (map (\<lambda>(k, cs). (k, removeAll client cs)) cm))) clients)"

text \<open>A client's channel holds 256 messages; a message for a full channel is dropped.\<close>

definition ClientBuffer :: nat where
  "ClientBuffer = 256"

definition deliver :: "'m \<Rightarrow> nat \<Rightarrow> (nat \<Rightarrow> 'm list) \<Rightarrow> nat \<Rightarrow> 'm list" where
  "deliver msg cl chans = (if length (chans cl) < ClientBuffer then chans(cl := chans cl @ [msg]) else chans)"

definition sm_Broadcast :: "stream_clients \<Rightarrow> string \<Rightarrow> string \<Rightarrow> 'm \<Rightarrow> (nat \<Rightarrow> 'm list) \<Rightarrow> nat \<Rightarrow> 'm list" where
  "sm_Broadcast clients msgType k msg chans =
     fold (deliver msg) (lookup_default [] (lookup_default [] clients msgType) k) chans"

text \<open>A history of the manager, and what it stands for: the set of subscriptions.\<close>

datatype sm_op = SmRegister string string nat | SmUnregister nat

fun sm_apply :: "sm_op \<Rightarrow> stream_clients \<Rightarrow> stream_clients" where
  "sm_apply (SmRegister t k c) clients = sm_Register t k c clients"
| "sm_apply (SmUnregister c) clients = sm_Unregister c clients"

fun subs_apply :: "sm_op \<Rightarrow> (string \<times> string \<times> nat) set \<Rightarrow> (string \<times> string \<times> nat) set" where
  "subs_apply (SmRegister t k c) s = insert (t, k, c) s"
| "subs_apply (SmUnregister c) s = {(t, k, c') \<in> s. c' \<noteq> c}"

definition subs :: "stream_clients \<Rightarrow> (string \<times> string \<times> nat) set" where
  "subs clients = {(t, k, c). c \<in> set (lookup_default [] (lookup_default [] clients t) k)}"

definition keys_ok :: "(string \<times> nat list) list \<Rightarrow> bool" where
  "keys_ok cm \<longleftrightarrow> distinct (map fst cm) \<and> (\<forall>e \<in> set cm. snd e \<noteq> [] \<and> distinct (snd e))"

definition clients_ok :: "stream_clients \<Rightarrow> bool" where
  "clients_ok clients \<longleftrightarrow> distinct (map fst clients) \<and> (\<forall>e \<in> set clients. snd e \<noteq> [] \<and> keys_ok (snd e))"

lemma lookup_default_in: "lookup_default z m k = z \<or> (\<exists>e \<in> set m. lookup_default z m k = snd e)"
  by (force simp: lookup_default_def dest: map_of_SomeD split: option.splits)

lemma clients_ok_lookup: "clients_ok clients \<Longrightarrow> keys_ok (lookup_default [] clients t)"
  using lookup_default_in [of "[]" clients t] keys_ok_def [of "[]"] unfolding clients_ok_def by auto

lemma keys_ok_lookup: "keys_ok cm \<Longrightarrow> distinct (lookup_default [] cm k)"
  using lookup_default_in [of "[]" cm k] by (auto simp: keys_ok_def)

lemma lookup_default_update: "lookup_default z (AList.update k v m) k' = (if k' = k then v else lookup_default z m k')"
  by (simp add: lookup_default_def update_conv')

lemma lookup_default_filter_map:
  assumes "distinct (map fst m)" and "\<not> P (f z)" and "\<And>v. \<not> P v \<Longrightarrow> v = z'"
  shows "lookup_default z' (filter (\<lambda>(k, v). P v) (map (\<lambda>(k, v). (k, f v)) m)) k = f (lookup_default z m k)"
  using assms(1)
proof (induction m)
  case Nil
  then show ?case using assms(2,3) by (auto simp: lookup_default_def)
next
  case (Cons e m)
  obtain k' v where e: "e = (k', v)" by fastforce
  have "map_of (filter (\<lambda>(k, v). P v) (map (\<lambda>(k, v). (k, f v)) m)) k' = None"
    using Cons.prems e by (force simp: map_of_eq_None_iff)
  then show ?case using Cons e assms(3) by (auto simp: lookup_default_def split: option.splits)
qed

lemma subs_Register: "subs (sm_Register t k c clients) = insert (t, k, c) (subs clients)"
  by (auto simp: subs_def sm_Register_def Let_def lookup_default_update split: if_splits)

lemma subs_Unregister:
  assumes "clients_ok clients"
  shows "subs (sm_Unregister c clients) = {(t, k, c') \<in> subs clients. c' \<noteq> c}"
proof -
  define g where "g = (\<lambda>cm. filter (\<lambda>(k :: string, cs). cs \<noteq> []) (map (\<lambda>(k, cs). (k, removeAll c cs)) cm))"
  have un: "sm_Unregister c clients = filter (\<lambda>(t, cm). cm \<noteq> []) (map (\<lambda>(t, cm). (t, g cm)) clients)"
    by (simp add: sm_Unregister_def g_def)
  have "lookup_default [] (sm_Unregister c clients) t = g (lookup_default [] clients t)" for t
    unfolding un by (rule lookup_default_filter_map) (use assms in \<open>auto simp: clients_ok_def g_def\<close>)
  moreover have "lookup_default [] (g (lookup_default [] clients t)) k = removeAll c (lookup_default [] (lookup_default [] clients t) k)" for t k
    unfolding g_def by (rule lookup_default_filter_map)
      (use clients_ok_lookup [OF assms] in \<open>auto simp: keys_ok_def\<close>)
  ultimately show ?thesis by (auto simp: subs_def)
qed

lemma ball_update: "Q v \<Longrightarrow> \<forall>e \<in> set m. Q (snd e) \<Longrightarrow> \<forall>e \<in> set (AList.update k v m). Q (snd e)"
  by (induction m) auto

lemma update_not_Nil: "AList.update k v m \<noteq> []"
  by (cases m) auto

lemma clients_ok_Register:
  assumes "clients_ok clients"
  shows "clients_ok (sm_Register t k c clients)"
proof -
  define cm where "cm = lookup_default [] clients t"
  have cm: "keys_ok cm" unfolding cm_def by (rule clients_ok_lookup [OF assms])
  define cs where "cs = List.insert c (lookup_default [] cm k)"
  have "cs \<noteq> [] \<and> distinct cs" unfolding cs_def using keys_ok_lookup [OF cm, of k] by (auto simp: List.insert_def)
  then have ks: "keys_ok (AList.update k cs cm)"
    using cm ball_update [where Q = "\<lambda>cs. cs \<noteq> [] \<and> distinct cs", of cs cm k] by (simp add: keys_ok_def distinct_update)
  have "AList.update k cs cm \<noteq> [] \<and> keys_ok (AList.update k cs cm)" using ks update_not_Nil [of k cs cm] by simp
  then show ?thesis
    using assms ball_update [where Q = "\<lambda>cm. cm \<noteq> [] \<and> keys_ok cm", of "AList.update k cs cm" clients t]
    by (simp add: clients_ok_def sm_Register_def Let_def cm_def [symmetric] cs_def [symmetric] distinct_update)
qed

lemma map_fst_rename: "map fst (map (\<lambda>(k, v). (k, f v)) m) = map fst m"
  by (induction m) auto

lemma distinct_kept: "distinct (map fst m) \<Longrightarrow> distinct (map fst (filter P (map (\<lambda>(k, v). (k, f v)) m)))"
  by (rule distinct_map_filter) (simp only: map_fst_rename)

lemma clients_ok_Unregister:
  assumes "clients_ok clients"
  shows "clients_ok (sm_Unregister c clients)"
proof -
  have keys: "keys_ok (filter (\<lambda>(k, cs). cs \<noteq> []) (map (\<lambda>(k, cs). (k, removeAll c cs)) cm))" if "keys_ok cm" for cm
    using that distinct_kept [of cm] by (auto simp: keys_ok_def distinct_removeAll)
  show ?thesis using assms keys distinct_kept [of clients] by (auto simp: clients_ok_def sm_Unregister_def)
qed

lemma clients_ok_run: "clients_ok (fold sm_apply ops []) \<and> subs (fold sm_apply ops []) = fold subs_apply ops {}"
proof (induction ops rule: rev_induct)
  case Nil
  then show ?case by (simp add: clients_ok_def subs_def lookup_default_def)
next
  case (snoc op ops)
  then show ?case by (cases op) (simp_all add: clients_ok_Register clients_ok_Unregister subs_Register subs_Unregister)
qed

lemma fold_deliver: "distinct cs \<Longrightarrow> fold (deliver msg) cs chans c =
    (if c \<in> set cs \<and> length (chans c) < ClientBuffer then chans c @ [msg] else chans c)"
  by (induction cs arbitrary: chans) (auto simp: deliver_def)

text \<open>
  After every history of registrations and disconnects a broadcast reaches exactly the clients subscribed to that type and
  key, each once, and skips those whose channel is full; the nested maps hold no empty entry.
\<close>

theorem broadcast_reaches_subscribers:
  "clients_ok (fold sm_apply ops []) \<and>
   sm_Broadcast (fold sm_apply ops []) mt k msg chans c =
     (if (mt, k, c) \<in> fold subs_apply ops {} \<and> length (chans c) < ClientBuffer then chans c @ [msg] else chans c)"
proof -
  define clients where "clients = fold sm_apply ops []"
  note run = clients_ok_run [of ops, folded clients_def]
  have "distinct (lookup_default [] (lookup_default [] clients mt) k)"
    using run by (auto intro: keys_ok_lookup clients_ok_lookup)
  moreover have "(mt, k, c) \<in> fold subs_apply ops {} \<longleftrightarrow> c \<in> set (lookup_default [] (lookup_default [] clients mt) k)"
    using run by (auto simp: subs_def simp flip: conjunct2 [OF run])
  ultimately show ?thesis using run unfolding clients_def [symmetric] by (simp add: sm_Broadcast_def fold_deliver)
qed

section \<open>The metrics of the service\<close>

record MetricDTO =
  md_Window :: string
  md_StartTs :: int
  md_EndTs :: int
  md_Name :: string
  md_Value :: f64

definition metric_value :: "TickRow \<Rightarrow> string \<Rightarrow> f64 outcome" where
  "metric_value row metric =
     of_opt (map_of [(''microprice'', tr_Microprice row), (''volume'', tr_Volume row), (''rolling_volume'', tr_RollingVolume row),
       (''volume_acceleration'', tr_VolumeAcceleration row), (''volatility'', tr_Volatility row), (''atr'', tr_Atr row),
       (''ema'', tr_Ema row), (''sma'', tr_Sma row), (''log_return'', tr_LogReturn row), (''simple_return'', tr_SimpleReturn row),
       (''twap'', tr_TWAP row), (''vwap'', tr_VWAP row), (''rolling_vwap'', tr_RollingVWAP row)] metric)"

fun is_finite :: "f64 \<Rightarrow> bool" where
  "is_finite (Fin _) = True"
| "is_finite _ = False"

fun row_metrics :: "TickRow \<Rightarrow> string list \<Rightarrow> MetricDTO list outcome" where
  "row_metrics row [] = Done []"
| "row_metrics row (m # ms) =
     bind_out (metric_value row m) (\<lambda>v.
     bind_out (row_metrics row ms) (\<lambda>dtos.
       Done (if is_finite v
             then \<lparr>md_Window = tr_WindowId row, md_StartTs = tr_StartTs row, md_EndTs = tr_EndTs row, md_Name = m, md_Value = v\<rparr> # dtos
             else dtos)))"

fun GetMetrics :: "TickRow list \<Rightarrow> string list \<Rightarrow> (string \<times> MetricDTO list) list \<Rightarrow> (string \<times> MetricDTO list) list outcome" where
  "GetMetrics [] metrics res = Done res"
| "GetMetrics (row # rows) metrics res =
     bind_out (row_metrics row metrics) (\<lambda>dtos.
       GetMetrics rows metrics (AList.update (tr_WindowId row) (lookup_default [] res (tr_WindowId row) @ dtos) res))"

lemma GetMetrics_windows:
  assumes "GetMetrics rows metrics res = Done res'"
  shows "lookup_default [] res' w = lookup_default [] res w @
    concat (map (\<lambda>row. case row_metrics row metrics of Done ds \<Rightarrow> ds | _ \<Rightarrow> []) (filter (\<lambda>row. tr_WindowId row = w) rows))"
  using assms
proof (induction rows arbitrary: res)
  case (Cons row rows)
  then obtain dtos where d: "row_metrics row metrics = Done dtos"
    "GetMetrics rows metrics (AList.update (tr_WindowId row) (lookup_default [] res (tr_WindowId row) @ dtos) res) = Done res'"
    by (auto simp: bind_out_Done)
  from Cons.IH [OF d(2)] d(1) show ?case by (simp add: lookup_default_update)
qed simp

section \<open>The latest book\<close>

record book_view =
  bv_Row :: OrderbookFlushRow
  bv_Levels :: "string \<Rightarrow> OrderbookFlushLevelRow list"

text \<open>
  \<open>GetLatestBook\<close>: the flush of the symbol with the latest event time (\<open>ORDER BY event_time DESC LIMIT 1\<close>; \<^const>\<open>Fail\<close> when there
  is none), and per side its first \<open>depth\<close> levels by index (\<open>ROW_NUMBER ... rn <= depth ORDER BY side, level_index\<close>). A side without
  levels is absent from the map of the code and the empty list here.
\<close>

fun latest :: "OrderbookFlushRow list \<Rightarrow> OrderbookFlushRow option" where
  "latest [] = None"
| "latest (r # rs) = (case latest rs of None \<Rightarrow> Some r | Some b \<Rightarrow> Some (if fr_EventTime b \<le> fr_EventTime r then r else b))"

definition GetLatestBook :: "database \<Rightarrow> string \<Rightarrow> string \<Rightarrow> nat \<Rightarrow> book_view outcome" where
  "GetLatestBook db exchange symbol depth =
     bind_out (of_opt (latest (filter (\<lambda>r. fr_Exchange r = exchange \<and> fr_Symbol r = symbol) (map snd (orderbook_flushes db))))) (\<lambda>r.
       Done \<lparr>bv_Row = r,
             bv_Levels = (\<lambda>sd. take depth (sort_key LevelIndex (filter (\<lambda>l. lr_Side l = sd)
               (map (lv_Level \<circ> snd) (filter (\<lambda>(k, _). fst k = (exchange, symbol, fr_EventTime r)) (orderbook_flush_levels db))))))\<rparr>)"

lemma latest_None: "latest rs = None \<longleftrightarrow> rs = []"
  by (cases rs) (auto split: option.splits)

lemma latest_spec: "latest rs = Some r \<Longrightarrow> r \<in> set rs \<and> (\<forall>x \<in> set rs. fr_EventTime x \<le> fr_EventTime r)"
proof (induction rs arbitrary: r)
  case (Cons a rs)
  show ?case
  proof (cases "latest rs")
    case None
    then show ?thesis using Cons.prems by (simp add: latest_None)
  next
    case (Some x)
    then show ?thesis using Cons.prems Cons.IH [OF Some] by (auto split: if_splits)
  qed
qed simp

lemma map_of_filter_key: "map_of (filter (\<lambda>(k, _). P k) t) k = (if P k then map_of t k else None)"
  by (induction t) auto

lemma filter_insert_nothing:
  "filter (\<lambda>(k, _). P k) (insert_nothing key_of rs t) = insert_nothing key_of (filter (\<lambda>r. P (key_of r)) rs) (filter (\<lambda>(k, _). P k) t)"
  by (induction rs arbitrary: t) (auto simp: map_of_filter_key)

lemma insert_nothing_fresh:
  "distinct (map key_of rs) \<Longrightarrow> key_of ` set rs \<inter> dom (map_of t) = {} \<Longrightarrow> insert_nothing key_of rs t = t @ map (\<lambda>r. (key_of r, r)) rs"
proof (induction rs arbitrary: t)
  case (Cons r rs)
  have "map_of t (key_of r) = None" using Cons.prems by auto
  moreover have "key_of ` set rs \<inter> dom (map_of (t @ [(key_of r, r)])) = {}"
    using Cons.prems by (auto simp: dom_map_of_conv_image_fst)
  ultimately show ?case using Cons.IH [of "t @ [(key_of r, r)]"] Cons.prems by simp
qed simp

section \<open>What was written is read back\<close>

text \<open>The databases the persistence service can produce.\<close>

inductive db_reach :: "database \<Rightarrow> bool" where
  empty: "db_reach empty_db"
| book: "db_reach db \<Longrightarrow> FlushOrderbook err rows db = Done db' \<Longrightarrow> db_reach db'"
| tick: "db_reach db \<Longrightarrow> FlushAggregateTicks err ticks db = Done db' \<Longrightarrow> db_reach db'"

definition keyed :: "('r \<Rightarrow> 'k) \<Rightarrow> ('k \<times> 'r) list \<Rightarrow> bool" where
  "keyed key_of t \<longleftrightarrow> distinct (map fst t) \<and> (\<forall>(k, r) \<in> set t. k = key_of r)"

lemma keyed_insert: "keyed key_of t \<Longrightarrow> keyed key_of (insert_nothing key_of rs t)"
proof (induction rs arbitrary: t)
  case (Cons r rs)
  have "keyed key_of (t @ [(key_of r, r)])" if "map_of t (key_of r) = None"
    using Cons.prems that by (auto simp: keyed_def map_of_eq_None_iff)
  then show ?case using Cons by simp
qed simp

lemma set_insert_nothing: "set (insert_nothing key_of rs t) \<subseteq> set t \<union> (\<lambda>r. (key_of r, r)) ` set rs"
proof (induction rs arbitrary: t)
  case (Cons r rs)
  from Cons.IH [of t] Cons.IH [of "t @ [(key_of r, r)]"] show ?case by auto
qed simp

lemma db_inv:
  assumes "db_reach db"
  shows "keyed flush_pk (orderbook_flushes db) \<and> fst ` dom (map_of (orderbook_flush_levels db)) \<subseteq> dom (map_of (orderbook_flushes db))"
  using assms
proof induction
  case empty
  then show ?case by (simp add: empty_db_def keyed_def)
next
  case (book db err rows db')
  then show ?case using levels_have_flush [OF book(2)] by (simp add: FlushOrderbook_tables [OF book(2)] keyed_insert)
next
  case (tick db err ticks db')
  then show ?case using FlushAggregateTicks_stores [OF tick(2)] by simp
qed

lemma level_rows_of_flush:
  assumes "distinct (map (flush_pk \<circ> FlushRow) rows)" and "f \<in> set rows"
  shows "filter (\<lambda>v. fst (level_pk v) = flush_pk (FlushRow f)) (level_rows rows) = map (level_row f) (LevelRows f)"
  using assms
proof (induction rows)
  case (Cons g rows)
  have pk: "fst (level_pk (level_row h l)) = flush_pk (FlushRow h)" for h l
    by (simp add: level_pk_def level_row_def flush_pk_def)
  have none: "filter (\<lambda>v. fst (level_pk v) = flush_pk (FlushRow f)) (level_rows rs) = []"
    if "flush_pk (FlushRow f) \<notin> (flush_pk \<circ> FlushRow) ` set rs" for rs
  proof -
    have in_rs: "fst (level_pk v) \<in> (flush_pk \<circ> FlushRow) ` set rs" if "v \<in> set (level_rows rs)" for v
      using that pk by (force simp: level_rows_def)
    show ?thesis unfolding filter_empty_conv using that in_rs by metis
  qed
  have eq: "level_rows (g # rows) = map (level_row g) (LevelRows g) @ level_rows rows" by (simp add: level_rows_def)
  show ?case
  proof (cases "f = g")
    case True
    then show ?thesis using Cons.prems none [of rows] by (simp add: eq filter_map comp_def pk)
  next
    case False
    then have "flush_pk (FlushRow g) \<noteq> flush_pk (FlushRow f)" using Cons.prems by auto
    then show ?thesis using False Cons by (simp add: eq filter_map comp_def pk)
  qed
qed simp

lemma side_rows_facts:
  "map LevelIndex (side_rows sd ls) = [0..<length ls]" "\<forall>l \<in> set (side_rows sd ls). lr_Side l = sd"
  "map (\<lambda>l. (lr_Price l, lr_Volume l)) (take n (side_rows sd ls)) = map (\<lambda>l. (Price l, Quantity l)) (take n ls)"
proof -
  show "map LevelIndex (side_rows sd ls) = [0..<length ls]"
    by (simp add: side_rows_def comp_def case_prod_beta enumerate_eq_zip)
  show "\<forall>l \<in> set (side_rows sd ls). lr_Side l = sd" by (auto simp: side_rows_def)
  have "map (\<lambda>l. (lr_Price l, lr_Volume l)) (side_rows sd ls) = map ((\<lambda>l. (Price l, Quantity l)) \<circ> snd) (enumerate 0 ls)"
    by (simp add: side_rows_def comp_def case_prod_beta)
  also have "\<dots> = map (\<lambda>l. (Price l, Quantity l)) (map snd (enumerate 0 ls))" by (simp only: map_map)
  also have "\<dots> = map (\<lambda>l. (Price l, Quantity l)) ls" by (simp only: map_snd_enumerate)
  finally have "map (\<lambda>l. (lr_Price l, lr_Volume l)) (side_rows sd ls) = map (\<lambda>l. (Price l, Quantity l)) ls" .
  then show "map (\<lambda>l. (lr_Price l, lr_Volume l)) (take n (side_rows sd ls)) = map (\<lambda>l. (Price l, Quantity l)) (take n ls)"
    by (simp add: take_map [symmetric])
qed

lemma side_rows_sorted: "sort_key LevelIndex (side_rows sd ls) = side_rows sd ls"
  by (rule sort_key_id_if_sorted) (simp add: side_rows_facts)

lemma side_of_book:
  assumes "LevelRows f = side_rows ''B'' bids @ side_rows ''A'' asks"
  shows "sort_key LevelIndex (filter (\<lambda>l. lr_Side l = ''B'') (LevelRows f)) = side_rows ''B'' bids"
    and "sort_key LevelIndex (filter (\<lambda>l. lr_Side l = ''A'') (LevelRows f)) = side_rows ''A'' asks"
    and "distinct (map (\<lambda>l. level_pk (level_row f l)) (LevelRows f))"
proof -
  have all: "filter (\<lambda>l. lr_Side l = sd) (side_rows sd ls) = side_rows sd ls" for sd ls
    using side_rows_facts(2) by (simp add: filter_id_conv)
  have none: "filter (\<lambda>l. lr_Side l = sd) (side_rows sd' ls) = []" if "sd' \<noteq> sd" for sd sd' ls
    using side_rows_facts(2) [of sd' ls] that by (auto simp: filter_empty_conv)
  show "sort_key LevelIndex (filter (\<lambda>l. lr_Side l = ''B'') (LevelRows f)) = side_rows ''B'' bids"
    "sort_key LevelIndex (filter (\<lambda>l. lr_Side l = ''A'') (LevelRows f)) = side_rows ''A'' asks"
    by (simp_all add: assms all none side_rows_sorted)
  have "distinct (map (\<lambda>l. (lr_Side l, LevelIndex l)) (side_rows sd ls))" for sd ls
  proof -
    have "map snd (map (\<lambda>l. (lr_Side l, LevelIndex l)) (side_rows sd ls)) = [0..<length ls]"
      using side_rows_facts(1) [of sd ls] by (simp add: comp_def)
    then show ?thesis by (metis distinct_upt distinct_map)
  qed
  then have "distinct (map (\<lambda>l. (lr_Side l, LevelIndex l)) (LevelRows f))"
    unfolding assms using side_rows_facts(2) by (fastforce simp: distinct_append)
  moreover have "(\<lambda>l. level_pk (level_row f l)) = Pair (flush_pk (FlushRow f)) \<circ> (\<lambda>l. (lr_Side l, LevelIndex l))"
    by (simp add: fun_eq_iff level_pk_def level_row_def flush_pk_def)
  ultimately show "distinct (map (\<lambda>l. level_pk (level_row f l)) (LevelRows f))"
    by (simp only: map_map [symmetric]) (simp add: distinct_map inj_on_def)
qed

lemma latest_row_written:
  assumes "db_reach db" and "FlushOrderbook err rows db = Done db'" and "f \<in> set rows" and "distinct (map (flush_pk \<circ> FlushRow) rows)"
    and "flush_pk (FlushRow f) \<notin> dom (map_of (orderbook_flushes db))"
    and "\<forall>r \<in> set (map snd (orderbook_flushes db)) \<union> FlushRow ` set rows.
      fr_Exchange r = fr_Exchange (FlushRow f) \<longrightarrow> fr_Symbol r = fr_Symbol (FlushRow f) \<longrightarrow> fr_EventTime r \<le> fr_EventTime (FlushRow f)"
  shows "latest (filter (\<lambda>r. fr_Exchange r = fr_Exchange (FlushRow f) \<and> fr_Symbol r = fr_Symbol (FlushRow f)) (map snd (orderbook_flushes db'))) =
    Some (FlushRow f)"
proof -
  define t where "t = orderbook_flushes db'"
  define cand where "cand = filter (\<lambda>r. fr_Exchange r = fr_Exchange (FlushRow f) \<and> fr_Symbol r = fr_Symbol (FlushRow f)) (map snd t)"
  have t: "t = insert_nothing flush_pk (map FlushRow rows) (orderbook_flushes db)"
    unfolding t_def by (rule FlushOrderbook_tables(1) [OF assms(2)])
  have kt: "keyed flush_pk t" unfolding t using db_inv [OF assms(1)] by (simp add: keyed_insert)
  have "map_of (map (\<lambda>r. (flush_pk r, r)) (map FlushRow rows)) (flush_pk (FlushRow f)) = Some (FlushRow f)"
    using assms(3,4) by (intro map_of_is_SomeI) (auto simp: comp_def)
  then have "map_of t (flush_pk (FlushRow f)) = Some (FlushRow f)"
    using assms(5) by (simp add: t map_of_insert_nothing map_add_def domIff split: option.split)
  then have mem: "(flush_pk (FlushRow f), FlushRow f) \<in> set t" by (rule map_of_SomeD)
  then have "FlushRow f \<in> set cand" by (force simp: cand_def)
  then obtain r where r: "latest cand = Some r" using latest_None [of cand] by (cases "latest cand") auto
  have rc: "r \<in> set cand" "fr_EventTime (FlushRow f) \<le> fr_EventTime r" using latest_spec [OF r] \<open>FlushRow f \<in> set cand\<close> by auto
  obtain k where k: "(k, r) \<in> set t" "fr_Exchange r = fr_Exchange (FlushRow f)" "fr_Symbol r = fr_Symbol (FlushRow f)"
    using rc(1) by (auto simp: cand_def)
  have "r \<in> set (map snd (orderbook_flushes db)) \<union> FlushRow ` set rows"
    using k(1) set_insert_nothing [of flush_pk "map FlushRow rows" "orderbook_flushes db"] unfolding t by force
  then have "fr_EventTime r = fr_EventTime (FlushRow f)" using assms(6) k rc(2) by force
  then have "k = flush_pk (FlushRow f)" using kt k by (auto simp: keyed_def flush_pk_def)
  then have "r = FlushRow f" using kt k(1) mem by (auto simp: keyed_def dest: eq_key_imp_eq_value)
  then show ?thesis using r by (simp add: cand_def t_def)
qed

lemma levels_written:
  assumes "db_reach db" and "FlushOrderbook err rows db = Done db'" and "f \<in> set rows" and "distinct (map (flush_pk \<circ> FlushRow) rows)"
    and "flush_pk (FlushRow f) \<notin> dom (map_of (orderbook_flushes db))"
    and "distinct (map (\<lambda>l. level_pk (level_row f l)) (LevelRows f))"
  shows "map (lv_Level \<circ> snd) (filter (\<lambda>(k, _). fst k = flush_pk (FlushRow f)) (orderbook_flush_levels db')) = LevelRows f"
proof -
  have "filter (\<lambda>(k, _). fst k = flush_pk (FlushRow f)) (orderbook_flush_levels db) = []"
  proof -
    have fk: "fst ` dom (map_of (orderbook_flush_levels db)) \<subseteq> dom (map_of (orderbook_flushes db))"
      using db_inv [OF assms(1)] by blast
    have "fst (fst e) \<noteq> flush_pk (FlushRow f)" if "e \<in> set (orderbook_flush_levels db)" for e
    proof -
      have "fst e \<in> dom (map_of (orderbook_flush_levels db))" using that by (simp add: dom_map_of_conv_image_fst)
      then have "fst (fst e) \<in> dom (map_of (orderbook_flushes db))" using fk by (intro subsetD [OF fk] imageI)
      then show ?thesis using assms(5) by metis
    qed
    then show ?thesis by (simp add: filter_empty_conv case_prod_beta)
  qed
  then have "filter (\<lambda>(k, _). fst k = flush_pk (FlushRow f)) (orderbook_flush_levels db') =
      insert_nothing level_pk (map (level_row f) (LevelRows f)) []"
    unfolding FlushOrderbook_tables(2) [OF assms(2)] filter_insert_nothing [where P = "\<lambda>k. fst k = flush_pk (FlushRow f)"]
      level_rows_of_flush [OF assms(4,3)] by (simp only:)
  also have "\<dots> = map (\<lambda>l. (level_pk (level_row f l), level_row f l)) (LevelRows f)"
    using assms(6) by (subst insert_nothing_fresh) (simp_all add: comp_def)
  finally show ?thesis by (simp add: comp_def level_row_def)
qed

text \<open>
  C12. From the order book's record to the screen. When a batch with a flush for a new event time of its symbol, not older than
  any other and the only one of the batch with its key, has been written to a database the service produced, the query of the
  latest book returns that flush: exchange, symbol, event time and spread of the message, price and volume of its best bid and of
  its best ask (zero where the message has none) and, per side, the first \<open>depth\<close> levels of the message in their order.
\<close>

theorem written_book_is_read_back:
  assumes "db_reach db" and "FlushOrderbook err rows db = Done db'" and "f \<in> set rows" and "distinct (map (flush_pk \<circ> FlushRow) rows)"
    and "flush_pk (FlushRow f) \<notin> dom (map_of (orderbook_flushes db))"
    and "\<forall>r \<in> set (map snd (orderbook_flushes db)) \<union> FlushRow ` set rows.
      fr_Exchange r = fr_Exchange (FlushRow f) \<longrightarrow> fr_Symbol r = fr_Symbol (FlushRow f) \<longrightarrow> fr_EventTime r \<le> fr_EventTime (FlushRow f)"
    and "BookConverter_Convert unmarshal input = Some f" and "unmarshal input = Some p"
  shows "\<exists>v. GetLatestBook db' (pf_Exchange p) (pf_Symbol p) depth = Done v \<and>
    bv_Row v = \<lparr>fr_Exchange = pf_Exchange p, fr_Symbol = pf_Symbol p, fr_EventTimeMillis = pf_EventTimeMillis p,
      fr_EventTime = pf_EventTimeMillis p,
      fr_BestBidPrice = (case pf_BestBid p of None \<Rightarrow> Fin 0 | Some l \<Rightarrow> Price l),
      fr_BestBidVolume = (case pf_BestBid p of None \<Rightarrow> Fin 0 | Some l \<Rightarrow> Quantity l),
      fr_BestAskPrice = (case pf_BestAsk p of None \<Rightarrow> Fin 0 | Some l \<Rightarrow> Price l),
      fr_BestAskVolume = (case pf_BestAsk p of None \<Rightarrow> Fin 0 | Some l \<Rightarrow> Quantity l), fr_Spread = pf_Spread p\<rparr> \<and>
    map (\<lambda>l. (lr_Price l, lr_Volume l)) (bv_Levels v ''B'') = map (\<lambda>l. (Price l, Quantity l)) (take depth (pf_Bids p)) \<and>
    map (\<lambda>l. (lr_Price l, lr_Volume l)) (bv_Levels v ''A'') = map (\<lambda>l. (Price l, Quantity l)) (take depth (pf_Asks p))"
proof -
  have f: "fr_Exchange (FlushRow f) = pf_Exchange p" "fr_Symbol (FlushRow f) = pf_Symbol p"
    "fr_EventTimeMillis (FlushRow f) = pf_EventTimeMillis p" "fr_Spread (FlushRow f) = pf_Spread p"
    "LevelRows f = side_rows ''B'' (pf_Bids p) @ side_rows ''A'' (pf_Asks p)"
    and fr: "FlushRow f = \<lparr>fr_Exchange = pf_Exchange p, fr_Symbol = pf_Symbol p, fr_EventTimeMillis = pf_EventTimeMillis p,
      fr_EventTime = pf_EventTimeMillis p,
      fr_BestBidPrice = (case pf_BestBid p of None \<Rightarrow> Fin 0 | Some l \<Rightarrow> Price l),
      fr_BestBidVolume = (case pf_BestBid p of None \<Rightarrow> Fin 0 | Some l \<Rightarrow> Quantity l),
      fr_BestAskPrice = (case pf_BestAsk p of None \<Rightarrow> Fin 0 | Some l \<Rightarrow> Price l),
      fr_BestAskVolume = (case pf_BestAsk p of None \<Rightarrow> Fin 0 | Some l \<Rightarrow> Quantity l), fr_Spread = pf_Spread p\<rparr>"
    using assms(7,8) by (auto simp: BookConverter_Convert_def Let_def UnixMilli_def or_new_def zero_level_def split: option.splits)
  note row = latest_row_written [OF assms(1-6)] and sides = side_of_book [OF f(5)]
  note lv = levels_written [OF assms(1-5) sides(3)]
  have pk: "(pf_Exchange p, pf_Symbol p, fr_EventTime (FlushRow f)) = flush_pk (FlushRow f)" by (simp add: flush_pk_def f)
  show ?thesis unfolding GetLatestBook_def using row unfolding f(1,2)
    by (simp add: of_opt_def pk lv sides(1,2) [unfolded f(5)] side_rows_facts f side_rows_sorted) (simp add: fr)
qed

theorem written_book_is_read_back_witness:
  "\<exists>db' v. FlushOrderbook (\<lambda>_. False) [demo_book (Fin 8) [\<lparr>Price = Fin 8, Quantity = Fin 2\<rparr>]] empty_db = Done db' \<and>
     GetLatestBook db' ''kraken'' ''A'' 10 = Done v \<and> fr_BestBidPrice (bv_Row v) = Fin 8 \<and> fr_BestAskPrice (bv_Row v) = Fin 0 \<and>
     map (\<lambda>l. (lr_Price l, lr_Volume l)) (bv_Levels v ''B'') = [(Fin 8, Fin 2)]"
proof -
  define ls where "ls = [\<lparr>Price = Fin 8, Quantity = Fin 2\<rparr>]"
  obtain db' where w: "FlushOrderbook (\<lambda>_. False) [demo_book (Fin 8) ls] empty_db = Done db'" by (simp add: demo_written)
  have c: "BookConverter_Convert (\<lambda>_. Some (demo_flush (Fin 8) ls)) [] = Some (demo_book (Fin 8) ls)"
    by (simp add: demo_book_def BookConverter_Convert_def)
  have "\<exists>v. GetLatestBook db' (pf_Exchange (demo_flush (Fin 8) ls)) (pf_Symbol (demo_flush (Fin 8) ls)) 10 = Done v \<and>
    fr_BestBidPrice (bv_Row v) = Fin 8 \<and> fr_BestAskPrice (bv_Row v) = Fin 0 \<and>
    map (\<lambda>l. (lr_Price l, lr_Volume l)) (bv_Levels v ''B'') = map (\<lambda>l. (Price l, Quantity l)) (take 10 (pf_Bids (demo_flush (Fin 8) ls)))"
    using written_book_is_read_back [OF db_reach.empty w _ _ _ _ c refl, of 10] by (fastforce simp: empty_db_def demo_flush_def)
  then show ?thesis using w by (auto simp: demo_flush_def ls_def)
qed

end
