(* ===== verification/Pers_Batcher.thy ===== *)
theory Pers_Batcher
  imports Src_Offset
begin

text \<open>
  The batcher of the persistence service (\<open>persistence/batcher/batcher.go\<close>) with the pipeline that feeds it
  (\<open>pipeline/pipeline.go\<close>) and the commit it ends in (\<open>kafka/consumer.go\<close>, \<open>batcher/util\<close>). The batch, its wait clock
  and its channel are a record; a flush returns what it sent to the dead letter queue, the rows its transaction
  committed and the offsets it marked. The database, the queue and the row check are arguments.
\<close>

section \<open>The batcher\<close>

record 'a BatchItem =
  Item :: 'a
  Record :: kgo_record

text \<open>
  \<open>linger\<close> is the timer: it is set from \<open>Reset\<close> until \<open>Stop\<close> or until the loop receives its value. After \<open>Stop\<close> no
  value of an earlier \<open>Reset\<close> is received, as the timers of this Go version guarantee.
\<close>

record 'a Batcher =
  batchCh :: "'a BatchItem list"
  items :: "'a BatchItem list"
  linger :: bool
  lingerArmed :: bool
  batchSize :: nat

definition NewBatcher :: "nat \<Rightarrow> 'a Batcher" where
  "NewBatcher bsz = \<lparr>batchCh = [], items = [], linger = False, lingerArmed = False, batchSize = bsz\<rparr>"

definition armLinger :: "'a Batcher \<Rightarrow> 'a Batcher" where
  "armLinger b = (if lingerArmed b then b else b\<lparr>linger := True, lingerArmed := True\<rparr>)"

definition stopLinger :: "'a Batcher \<Rightarrow> 'a Batcher" where
  "stopLinger b = b\<lparr>linger := False, lingerArmed := False\<rparr>"

text \<open>The channel has room for three batches; a row that does not fit is dropped.\<close>

definition Add :: "'a BatchItem \<Rightarrow> 'a Batcher \<Rightarrow> 'a Batcher" where
  "Add x b = (if length (batchCh b) < 3 * batchSize b then b\<lparr>batchCh := batchCh b @ [x]\<rparr> else b)"

text \<open>\<open>Pipeline.Process\<close>: a record that does not convert is skipped.\<close>

definition Process :: "(bytes \<Rightarrow> 'a option) \<Rightarrow> kgo_record \<Rightarrow> 'a Batcher \<Rightarrow> 'a Batcher" where
  "Process conv rec b = (case conv (RValue rec) of None \<Rightarrow> b | Some u \<Rightarrow> Add \<lparr>Item = u, Record = rec\<rparr> b)"

text \<open>
  The first loop of \<open>Flush\<close>: invalid rows go to the queue and their offsets are noted, the others are kept. A
  queue error ends the flush.
\<close>

fun check_loop ::
    "('a \<Rightarrow> bool) \<Rightarrow> ('a BatchItem \<Rightarrow> bool) \<Rightarrow> 'a BatchItem list \<Rightarrow> 'a BatchItem list \<Rightarrow> 'a BatchItem list \<Rightarrow> offsets \<Rightarrow>
     'a BatchItem list \<times> 'a BatchItem list \<times> offsets \<times> bool" where
  "check_loop invalid dlq [] valid sent m = (valid, sent, m, True)"
| "check_loop invalid dlq (x # xs) valid sent m =
     (if invalid (Item x) then
        if dlq x then check_loop invalid dlq xs valid (sent @ [x]) (off_max (RPartition (Record x)) (ROffset (Record x)) m)
        else (valid, sent, m, False)
      else check_loop invalid dlq xs (valid @ [x]) sent m)"

text \<open>How far the transaction of a flush gets.\<close>

datatype sink_result = BeginFails | FlushFails | CommitFails | Committed

record 'a flushed =
  fl_dlq :: "'a BatchItem list"
  fl_rows :: "'a BatchItem list"
  fl_marked :: "offsets option"
  fl_ok :: bool

definition note_items :: "'a BatchItem list \<Rightarrow> offsets \<Rightarrow> offsets" where
  "note_items xs m = fold (\<lambda>x. off_max (RPartition (Record x)) (ROffset (Record x))) xs m"

definition Flush :: "('a \<Rightarrow> bool) \<Rightarrow> ('a BatchItem \<Rightarrow> bool) \<Rightarrow> sink_result \<Rightarrow> 'a Batcher \<Rightarrow> 'a Batcher \<times> 'a flushed" where
  "Flush invalid dlq sink b =
     (case check_loop invalid dlq (items b) [] [] [] of
        (valid, sent, m, ok) \<Rightarrow>
          if \<not> ok then (b, \<lparr>fl_dlq = sent, fl_rows = [], fl_marked = None, fl_ok = False\<rparr>)
          else if valid = [] then
            (stopLinger (b\<lparr>items := []\<rparr>), \<lparr>fl_dlq = sent, fl_rows = [], fl_marked = Some m, fl_ok = True\<rparr>)
          else if sink \<noteq> Committed then (b, \<lparr>fl_dlq = sent, fl_rows = [], fl_marked = None, fl_ok = False\<rparr>)
          else (stopLinger (b\<lparr>items := []\<rparr>),
                \<lparr>fl_dlq = sent, fl_rows = valid, fl_marked = Some (note_items (items b) m), fl_ok = True\<rparr>))"

definition no_flush :: "'a flushed" where
  "no_flush = \<lparr>fl_dlq = [], fl_rows = [], fl_marked = None, fl_ok = True\<rparr>"

definition HandleBatchAndFlush ::
    "('a \<Rightarrow> bool) \<Rightarrow> ('a BatchItem \<Rightarrow> bool) \<Rightarrow> sink_result \<Rightarrow> 'a BatchItem \<Rightarrow> 'a Batcher \<Rightarrow> 'a Batcher \<times> 'a flushed" where
  "HandleBatchAndFlush invalid dlq sink x b =
     (let b1 = armLinger (b\<lparr>items := items b @ [x]\<rparr>)
      in if length (items b1) \<ge> batchSize b1 then Flush invalid dlq sink b1 else (b1, no_flush))"

definition FlushIfNeeded :: "('a \<Rightarrow> bool) \<Rightarrow> ('a BatchItem \<Rightarrow> bool) \<Rightarrow> sink_result \<Rightarrow> 'a Batcher \<Rightarrow> 'a Batcher \<times> 'a flushed" where
  "FlushIfNeeded invalid dlq sink b = (if items b = [] then (b, no_flush) else Flush invalid dlq sink b)"

text \<open>The case of \<open>Run\<close> for the timer, and for the end of the context.\<close>

definition linger_fired :: "('a \<Rightarrow> bool) \<Rightarrow> ('a BatchItem \<Rightarrow> bool) \<Rightarrow> sink_result \<Rightarrow> 'a Batcher \<Rightarrow> 'a Batcher \<times> 'a flushed" where
  "linger_fired invalid dlq sink b =
     (case FlushIfNeeded invalid dlq sink (b\<lparr>linger := False, lingerArmed := False\<rparr>) of (b1, f) \<Rightarrow> (if fl_ok f then b1 else armLinger b1, f))"

definition shut_down :: "('a \<Rightarrow> bool) \<Rightarrow> ('a BatchItem \<Rightarrow> bool) \<Rightarrow> sink_result \<Rightarrow> 'a Batcher \<Rightarrow> 'a Batcher \<times> 'a flushed" where
  "shut_down invalid dlq sink b =
     (let b1 = stopLinger b in if items b1 \<noteq> [] then Flush invalid dlq sink b1 else (b1, no_flush))"

text \<open>\<open>buildOffsetCommitMap\<close>: the offsets to read next.\<close>

definition buildOffsetCommitMap :: "offsets \<Rightarrow> offsets" where
  "buildOffsetCommitMap m = map (\<lambda>(p, n). (p, n + 1)) m"

section \<open>Runs\<close>

text \<open>
  \<open>accepted\<close> lists the rows that entered the channel, \<open>written\<close> and \<open>dead\<close> those committed to the database and
  sent to the dead letter queue, \<open>broker\<close> the committed offsets.
\<close>

record 'a PSys =
  bt :: "'a Batcher"
  accepted :: "'a BatchItem list"
  written :: "'a BatchItem set"
  dead :: "'a BatchItem set"
  broker :: "int \<rightharpoonup> int"

definition item_part :: "'a BatchItem \<Rightarrow> int" where "item_part x = RPartition (Record x)"
definition item_off :: "'a BatchItem \<Rightarrow> int" where "item_off x = ROffset (Record x)"

text \<open>The effect of a flush outside; the commit of the offsets may be lost.\<close>

definition effects :: "bool \<Rightarrow> 'a flushed \<Rightarrow> 'a PSys \<Rightarrow> 'a PSys" where
  "effects lost f s = s\<lparr>written := written s \<union> set (fl_rows f), dead := dead s \<union> set (fl_dlq f),
     broker := (case fl_marked f of None \<Rightarrow> broker s | Some m \<Rightarrow> if lost then broker s else broker s ++ map_of (buildOffsetCommitMap m))\<rparr>"

inductive pstep :: "('a \<Rightarrow> bool) \<Rightarrow> 'a PSys \<Rightarrow> 'a PSys \<Rightarrow> bool" for invalid where
  added: "length (batchCh (bt s)) < 3 * batchSize (bt s) \<Longrightarrow> 0 \<le> item_off x \<Longrightarrow>
    \<forall>y \<in> set (accepted s). item_part y = item_part x \<longrightarrow> item_off y < item_off x \<Longrightarrow>
    pstep invalid s (s\<lparr>bt := Add x (bt s), accepted := accepted s @ [x]\<rparr>)"
| dropped: "\<not> length (batchCh (bt s)) < 3 * batchSize (bt s) \<Longrightarrow> pstep invalid s (s\<lparr>bt := Add x (bt s)\<rparr>)"
| received: "batchCh (bt s) = x # rest \<Longrightarrow>
    HandleBatchAndFlush invalid dlq sink x ((bt s)\<lparr>batchCh := rest\<rparr>) = (b, f) \<Longrightarrow>
    pstep invalid s (effects lost f (s\<lparr>bt := b\<rparr>))"
| fired: "linger (bt s) \<Longrightarrow> linger_fired invalid dlq sink (bt s) = (b, f) \<Longrightarrow> pstep invalid s (effects lost f (s\<lparr>bt := b\<rparr>))"

definition PSys_init :: "nat \<Rightarrow> 'a PSys" where
  "PSys_init bsz = \<lparr>bt = NewBatcher bsz, accepted = [], written = {}, dead = {}, broker = Map.empty\<rparr>"

inductive preach :: "('a \<Rightarrow> bool) \<Rightarrow> nat \<Rightarrow> 'a PSys \<Rightarrow> bool" for invalid bsz where
  preach_init: "preach invalid bsz (PSys_init bsz)"
| preach_step: "preach invalid bsz s \<Longrightarrow> pstep invalid s s' \<Longrightarrow> preach invalid bsz s'"

section \<open>A flush\<close>

lemma check_loop_facts:
  assumes "check_loop invalid dlq xs v d m = (v', d', m', ok)"
  shows "ok \<Longrightarrow> set v' \<union> set d' = set v \<union> set d \<union> set xs" "set d' \<subseteq> set d \<union> set xs" "set v' \<subseteq> set v \<union> set xs"
    "ok \<Longrightarrow> v = [] \<Longrightarrow> v' = [] \<Longrightarrow> m' = note_items xs m" "\<exists>ys. set ys \<subseteq> set xs \<and> m' = note_items ys m"
proof -
  have "(ok \<longrightarrow> set v' \<union> set d' = set v \<union> set d \<union> set xs) \<and> set d' \<subseteq> set d \<union> set xs \<and> set v' \<subseteq> set v \<union> set xs \<and>
    (\<exists>ys. set ys \<subseteq> set xs \<and> m' = note_items ys m) \<and> (v \<noteq> [] \<longrightarrow> v' \<noteq> []) \<and> (ok \<longrightarrow> v' = [] \<longrightarrow> m' = note_items xs m)"
    using assms
  proof (induction xs arbitrary: v d m)
    case (Cons x xs)
    show ?case
    proof (cases "invalid (Item x)")
      case True
      show ?thesis
      proof (cases "dlq x")
        case True
        with \<open>invalid (Item x)\<close> Cons.prems have "check_loop invalid dlq xs v (d @ [x]) (off_max (RPartition (Record x)) (ROffset (Record x)) m) = (v', d', m', ok)"
          by simp
        note i = Cons.IH [OF this]
        then obtain ys where "set ys \<subseteq> set xs" "m' = note_items ys (off_max (RPartition (Record x)) (ROffset (Record x)) m)" by blast
        then have "set (x # ys) \<subseteq> set (x # xs)" "m' = note_items (x # ys) m" by (auto simp: note_items_def)
        then have "\<exists>ys. set ys \<subseteq> set (x # xs) \<and> m' = note_items ys m" by blast
        with i show ?thesis by (auto simp: note_items_def)
      next
        case False
        with \<open>invalid (Item x)\<close> Cons.prems show ?thesis by (auto simp: note_items_def intro!: exI [of _ "[]"])
      qed
    next
      case False
      with Cons.prems have "check_loop invalid dlq xs (v @ [x]) d m = (v', d', m', ok)" by simp
      from Cons.IH [OF this] show ?thesis by auto
    qed
  qed (auto simp: note_items_def intro!: exI [of _ "[]"])
  then show "ok \<Longrightarrow> set v' \<union> set d' = set v \<union> set d \<union> set xs" "set d' \<subseteq> set d \<union> set xs" "set v' \<subseteq> set v \<union> set xs"
    "ok \<Longrightarrow> v = [] \<Longrightarrow> v' = [] \<Longrightarrow> m' = note_items xs m" "\<exists>ys. set ys \<subseteq> set xs \<and> m' = note_items ys m" by blast+
qed

lemma note_items_mem:
  assumes "\<forall>x \<in> set xs. 0 \<le> item_off x" "map_of (note_items xs []) p = Some n"
  shows "\<exists>x \<in> set xs. item_part x = p \<and> item_off x = n"
proof -
  have "map_of (note_items xs m) = fold (\<lambda>(k, v) m. max_upd m k v) (map (\<lambda>x. (item_part x, item_off x)) xs) (map_of m)" for m
    unfolding note_items_def by (induction xs arbitrary: m) (simp_all add: map_of_off_max item_part_def item_off_def)
  from this [of "[]"] assms(2) have "fold (\<lambda>(k, v) m. max_upd m k v) (map (\<lambda>x. (item_part x, item_off x)) xs) Map.empty p = Some n" by simp
  from fold_max_upd_nonneg [OF _ this] assms(1) show ?thesis by fastforce
qed

lemma note_items_append: "note_items ys (note_items xs m) = note_items (xs @ ys) m"
  by (simp add: note_items_def)

text \<open>A flush either changes nothing and marks nothing, or empties the batch, having disposed of every row in it.\<close>

lemma Flush_cases:
  assumes "Flush invalid dlq sink b = (b', f)" "\<forall>x \<in> set (items b). 0 \<le> item_off x"
  obtains (failed) "b' = b" "fl_rows f = []" "fl_marked f = None" "\<not> fl_ok f"
  | (cleared) m where "b' = b\<lparr>items := [], linger := False, lingerArmed := False\<rparr>" "fl_marked f = Some m" "fl_ok f"
      "set (items b) \<subseteq> set (fl_rows f) \<union> set (fl_dlq f)"
      "\<forall>p n. map_of m p = Some n \<longrightarrow> (\<exists>x \<in> set (items b). item_part x = p \<and> item_off x = n)"
proof -
  obtain v d m ok where c: "check_loop invalid dlq (items b) [] [] [] = (v, d, m, ok)" by (cases "check_loop invalid dlq (items b) [] [] []")
  note k = check_loop_facts [OF c]
  obtain ys where ys: "set ys \<subseteq> set (items b)" "m = note_items ys []" using k(5) by blast
  have mem: "\<exists>x \<in> set (items b). item_part x = p \<and> item_off x = n" if "map_of (note_items zs []) p = Some n" "set zs \<subseteq> set (items b)" for p n zs
    using note_items_mem [OF _ that(1)] that(2) assms(2) by blast
  show thesis
  proof (cases "\<not> ok \<or> (v \<noteq> [] \<and> sink \<noteq> Committed)")
    case True
    then show thesis using assms(1) by (intro failed) (auto simp: Flush_def c split: if_splits)
  next
    case False
    show thesis
    proof (rule cleared)
      show "b' = b\<lparr>items := [], linger := False, lingerArmed := False\<rparr>" using False assms(1) by (auto simp: Flush_def c stopLinger_def split: if_splits)
      show "fl_ok f" using False assms(1) by (auto simp: Flush_def c split: if_splits)
      show "set (items b) \<subseteq> set (fl_rows f) \<union> set (fl_dlq f)" using False assms(1) k(1) by (auto simp: Flush_def c split: if_splits)
      show "fl_marked f = Some (if v = [] then m else note_items (items b) m)" using False assms(1) by (auto simp: Flush_def c split: if_splits)
      show "\<forall>p n. map_of (if v = [] then m else note_items (items b) m) p = Some n \<longrightarrow> (\<exists>x \<in> set (items b). item_part x = p \<and> item_off x = n)"
        using mem ys by (auto simp: note_items_append split: if_splits)
    qed
  qed
qed

lemma Flush_armed: "Flush invalid dlq sink b = (b', f) \<Longrightarrow> lingerArmed b \<Longrightarrow> fl_ok f \<or> lingerArmed b'"
  by (auto simp: Flush_def split: prod.splits if_splits)

section \<open>The invariant\<close>

definition before :: "'a BatchItem list \<Rightarrow> bool" where
  "before xs \<longleftrightarrow> sorted_wrt (\<lambda>x y. item_part x = item_part y \<longrightarrow> item_off x < item_off y) xs"

definition p_inv :: "'a PSys \<Rightarrow> bool" where
  "p_inv s \<longleftrightarrow> (\<exists>gone. accepted s = gone @ items (bt s) @ batchCh (bt s) \<and> set gone \<subseteq> written s \<union> dead s \<and>
     (\<forall>p c. broker s p = Some c \<longrightarrow> (\<exists>x \<in> set gone. item_part x = p \<and> item_off x + 1 = c))) \<and>
     before (accepted s) \<and> (\<forall>x \<in> set (accepted s). 0 \<le> item_off x) \<and> linger (bt s) = lingerArmed (bt s) \<and>
     (items (bt s) \<noteq> [] \<longrightarrow> lingerArmed (bt s))"

text \<open>A step that moves rows between channel and batch and then flushes, or does not.\<close>

lemma p_inv_flush:
  assumes inv: "accepted s = gone @ items b @ batchCh b" "set gone \<subseteq> written s \<union> dead s"
      "\<forall>p c. broker s p = Some c \<longrightarrow> (\<exists>x \<in> set gone. item_part x = p \<and> item_off x + 1 = c)"
      "before (accepted s)" "\<forall>x \<in> set (accepted s). 0 \<le> item_off x"
    and f: "Flush invalid dlq sink b = (b', f)" and b'': "b'' = b' \<or> b'' = armLinger b'" and armed: "fl_ok f \<or> lingerArmed b''"
    and timer: "linger b = lingerArmed b"
    and calm: "fl_ok f \<Longrightarrow> b'' = b'"
  shows "p_inv (effects lost f (s\<lparr>bt := b''\<rparr>))"
proof -
  have same: "items b'' = items b'" "batchCh b'' = batchCh b'" using b'' by (auto simp: armLinger_def)
  have "\<forall>x \<in> set (items b). 0 \<le> item_off x" using inv(1,5) by simp
  from f this show ?thesis
  proof (cases rule: Flush_cases)
    case failed
    then have "linger b'' = lingerArmed b''" using b'' timer by (auto simp: armLinger_def)
    with failed show ?thesis unfolding p_inv_def effects_def using inv same armed by (auto intro!: exI [of _ gone])
  next
    case (cleared m)
    let ?gone = "gone @ items b"
    have c: "map_of (buildOffsetCommitMap m) p = Some c \<Longrightarrow> \<exists>x \<in> set ?gone. item_part x = p \<and> item_off x + 1 = c" for p c
      using cleared(5) by (auto simp: buildOffsetCommitMap_def map_of_map)
    have br: "\<exists>x \<in> set ?gone. item_part x = p \<and> item_off x + 1 = c"
      if "(broker s ++ map_of (buildOffsetCommitMap m)) p = Some c \<or> broker s p = Some c" for p c
      using that c inv(3) by (fastforce simp: map_add_Some_iff)
    show ?thesis unfolding p_inv_def effects_def
      using inv cleared(1-4) same br calm by (auto intro!: exI [of _ ?gone] split: if_splits)
  qed
qed

lemma p_inv_step:
  assumes "p_inv s" "pstep invalid s s'"
  shows "p_inv s'"
proof -
  obtain gone where inv: "accepted s = gone @ items (bt s) @ batchCh (bt s)" "set gone \<subseteq> written s \<union> dead s"
      "\<forall>p c. broker s p = Some c \<longrightarrow> (\<exists>x \<in> set gone. item_part x = p \<and> item_off x + 1 = c)"
      "before (accepted s)" "\<forall>x \<in> set (accepted s). 0 \<le> item_off x" "items (bt s) \<noteq> [] \<longrightarrow> lingerArmed (bt s)"
      "linger (bt s) = lingerArmed (bt s)"
    using assms(1) by (auto simp: p_inv_def)
  show ?thesis using assms(2)
  proof cases
    case (added x)
    then show ?thesis using inv unfolding p_inv_def
      by (auto simp: Add_def before_def sorted_wrt_append intro!: exI [of _ gone])
  next
    case (dropped x)
    then show ?thesis using assms(1) by (simp add: Add_def)
  next
    case (received x rest dlq sink b f lost)
    let ?b1 = "armLinger ((bt s)\<lparr>batchCh := rest, items := items (bt s) @ [x]\<rparr>)"
    have b1: "items ?b1 = items (bt s) @ [x]" "batchCh ?b1 = rest" "lingerArmed ?b1" "linger ?b1" using inv(7) by (simp_all add: armLinger_def)
    show ?thesis
    proof (cases "length (items ?b1) \<ge> batchSize ?b1")
      case True
      then have "Flush invalid dlq sink ?b1 = (b, f)" using received(3) by (simp add: HandleBatchAndFlush_def Let_def)
      moreover have "accepted s = gone @ items ?b1 @ batchCh ?b1" unfolding b1 using inv(1) received(2) by simp
      ultimately show ?thesis unfolding received
        using p_inv_flush [OF _ inv(2-5), of ?b1 invalid dlq sink b f b lost] Flush_armed [of invalid dlq sink ?b1 b f] b1(3,4) by blast
    next
      case False
      then have "b = ?b1" "f = no_flush" using received(3) by (auto simp: HandleBatchAndFlush_def Let_def)
      then show ?thesis unfolding received p_inv_def effects_def no_flush_def
        using inv b1 received(2) by (auto intro!: exI [of _ gone])
    qed
  next
    case (fired dlq sink b f lost)
    show ?thesis
    proof (cases "items (bt s) = []")
      case True
      then have "b = (bt s)\<lparr>linger := False, lingerArmed := False\<rparr>" "f = no_flush" using fired(3) by (auto simp: linger_fired_def FlushIfNeeded_def no_flush_def)
      then show ?thesis unfolding fired p_inv_def effects_def no_flush_def using inv True by (auto intro!: exI [of _ gone])
    next
      case False
      let ?b1 = "(bt s)\<lparr>linger := False, lingerArmed := False\<rparr>"
      obtain b1 where b1: "Flush invalid dlq sink ?b1 = (b1, f)" "b = (if fl_ok f then b1 else armLinger b1)"
        using fired(3) False by (auto simp: linger_fired_def FlushIfNeeded_def split: prod.splits)
      have "fl_ok f \<or> lingerArmed b" using b1(2) by (simp add: armLinger_def)
      moreover have "accepted s = gone @ items ?b1 @ batchCh ?b1" using inv(1) by simp
      moreover have "b = b1 \<or> b = armLinger b1" "fl_ok f \<Longrightarrow> b = b1" using b1(2) by auto
      ultimately show ?thesis unfolding fired
        using p_inv_flush [OF _ inv(2-5), of ?b1 invalid dlq sink b1 f b lost] b1(1) by simp
    qed
  qed
qed

lemma preach_inv: "preach invalid bsz s \<Longrightarrow> p_inv s"
proof (induction rule: preach.induct)
  case preach_init
  then show ?case by (simp add: p_inv_def PSys_init_def NewBatcher_def before_def)
qed (use p_inv_step in blast)

text \<open>
  The offsets the batcher commits never pass a row it has accepted and not yet disposed of: a row below the committed
  offset of its partition is in the database or in the dead letter queue, whatever failed in between.
\<close>

theorem batcher_commits_disposed:
  assumes "preach invalid bsz s" and "x \<in> set (accepted s)" and "broker s (item_part x) = Some c" and "item_off x < c"
  shows "x \<in> written s \<or> x \<in> dead s"
proof -
  obtain gone y where g: "accepted s = gone @ items (bt s) @ batchCh (bt s)" "set gone \<subseteq> written s \<union> dead s"
    "y \<in> set gone" "item_part y = item_part x" "item_off y + 1 = c" "before (accepted s)"
    using preach_inv [OF assms(1)] assms(3) unfolding p_inv_def by metis
  have "x \<notin> set (items (bt s) @ batchCh (bt s))"
  proof
    assume "x \<in> set (items (bt s) @ batchCh (bt s))"
    then have "item_off y < item_off x" using g unfolding before_def g(1) sorted_wrt_append by blast
    then show False using assms(4) g(5) by simp
  qed
  then show ?thesis using assms(2) g(1,2) by auto
qed

text \<open>
  C36. A batch that holds rows always has its timer set and marked as armed, also after a flush that failed: no row waits
  for another one to arrive.
\<close>

theorem batch_clock_runs:
  assumes "preach invalid bsz s" and "items (bt s) \<noteq> []"
  shows "linger (bt s) \<and> lingerArmed (bt s)"
  using preach_inv [OF assms(1)] assms(2) by (simp add: p_inv_def)

section \<open>Example runs\<close>

definition demo_row :: "int \<Rightarrow> unit BatchItem" where
  "demo_row n = \<lparr>Item = (), Record = \<lparr>RTopic = ''t'', RPartition = 0, ROffset = n, RKey = [], RValue = [], RHeaders = [], RTimestamp = 0\<rparr>\<rparr>"

lemma demo_row_sel [simp]: "item_part (demo_row n) = 0" "item_off (demo_row n) = n" "RPartition (Record (demo_row n)) = 0" "ROffset (Record (demo_row n)) = n"
  by (simp_all add: demo_row_def item_part_def item_off_def)

definition demo_psys :: "nat \<Rightarrow> unit PSys" where
  "demo_psys bsz = \<lparr>bt = \<lparr>batchCh = [demo_row 7], items = [], linger = False, lingerArmed = False, batchSize = bsz\<rparr>, accepted = [demo_row 7], written = {}, dead = {},
     broker = Map.empty\<rparr>"

lemma demo_added: "0 < bsz \<Longrightarrow> preach (\<lambda>x. False) bsz (demo_psys bsz)"
  using preach_step [OF preach_init pstep.added [of "PSys_init bsz" "demo_row 7" "\<lambda>x. False"]]
  by (simp add: PSys_init_def NewBatcher_def Add_def demo_psys_def)

lemma demo_received:
  assumes "HandleBatchAndFlush (\<lambda>x. False) (\<lambda>x. True) Committed (demo_row 7) ((bt (demo_psys bsz))\<lparr>batchCh := []\<rparr>) = (b, f)" "0 < bsz"
  shows "preach (\<lambda>x. False) bsz (effects False f ((demo_psys bsz)\<lparr>bt := b\<rparr>))"
  by (rule preach_step [OF demo_added [OF assms(2)] pstep.received [OF _ assms(1)]]) (simp add: demo_psys_def)

theorem batcher_commits_disposed_witness:
  "\<exists>s. preach (\<lambda>x. False) 1 s \<and> accepted s = [demo_row 7] \<and> broker s 0 = Some 8 \<and> (demo_row 7 \<in> written s \<or> demo_row 7 \<in> dead s)"
proof -
  let ?b = "\<lparr>batchCh = [], items = [], linger = False, lingerArmed = False, batchSize = 1\<rparr>" and
    ?f = "\<lparr>fl_dlq = [], fl_rows = [demo_row 7], fl_marked = Some [(0, 7)], fl_ok = True\<rparr>"
  have "HandleBatchAndFlush (\<lambda>x. False) (\<lambda>x. True) Committed (demo_row 7) ((bt (demo_psys 1))\<lparr>batchCh := []\<rparr>) = (?b, ?f)"
    by (simp add: demo_psys_def HandleBatchAndFlush_def Flush_def armLinger_def stopLinger_def note_items_def off_max_def off_get_def Let_def)
  from demo_received [OF this] have r: "preach (\<lambda>x. False) 1 (effects False ?f ((demo_psys 1)\<lparr>bt := ?b\<rparr>))" by simp
  have f: "accepted (effects False ?f ((demo_psys 1)\<lparr>bt := ?b\<rparr>)) = [demo_row 7]" "broker (effects False ?f ((demo_psys 1)\<lparr>bt := ?b\<rparr>)) 0 = Some 8"
    by (simp_all add: effects_def demo_psys_def buildOffsetCommitMap_def)
  with batcher_commits_disposed [OF r, of "demo_row 7" 8] r show ?thesis by (intro exI conjI) simp_all
qed

theorem batch_clock_runs_witness:
  "\<exists>s. preach (\<lambda>x. False) 2 s \<and> items (bt s) = [demo_row 7] \<and> linger (bt s) \<and> lingerArmed (bt s)"
proof -
  let ?b = "\<lparr>batchCh = [], items = [demo_row 7], linger = True, lingerArmed = True, batchSize = 2\<rparr>"
  have "HandleBatchAndFlush (\<lambda>x. False) (\<lambda>x. True) Committed (demo_row 7) ((bt (demo_psys 2))\<lparr>batchCh := []\<rparr>) = (?b, no_flush)"
    by (simp add: demo_psys_def HandleBatchAndFlush_def armLinger_def Let_def)
  from demo_received [OF this] have r: "preach (\<lambda>x. False) 2 (effects False no_flush ((demo_psys 2)\<lparr>bt := ?b\<rparr>))" by simp
  have i: "items (bt (effects False no_flush ((demo_psys 2)\<lparr>bt := ?b\<rparr>))) = [demo_row 7]" by (simp add: effects_def)
  then have "items (bt (effects False no_flush ((demo_psys 2)\<lparr>bt := ?b\<rparr>))) \<noteq> []" by simp
  from batch_clock_runs [OF r this] r i show ?thesis by blast
qed

end
