(* ===== verification/Pers_Service.thy ===== *)
theory Pers_Service
  imports Pers_Batcher Pers_Rows Decimal
begin

text \<open>
  The persistence service as a whole: its configuration (\<open>persistence/config/config.go\<close>), the dead letter queue
  (\<open>kafka/dlq.go\<close>), the consumer loop and the commits (\<open>kafka/consumer.go\<close>), the transactions of \<open>batcher/util\<close>, and the
  two pipelines that \<open>main.go\<close> puts together. Locale \<open>tx_writer\<close> is what the batcher relies on in a flush function;
  \<open>tw\<close> and \<open>bw\<close> interpret it on the two flush functions of \<open>Pers_Rows\<close>. The relation \<open>sstep\<close> interleaves consumer and
  batchers over one database.
\<close>

section \<open>Configuration\<close>

record PipelineBatcherConfig =
  BatchSize :: int
  MaxWaitMs :: int

record BatcherConfig =
  TickBatchConfig :: "PipelineBatcherConfig option"
  BookBatchConfig :: "PipelineBatcherConfig option"

record TopicConfig =
  Tick :: string
  Book :: string

record BackpressureConfig =
  QueueUsageHighThreshold :: f64
  QueueUsageLowThreshold :: f64
  ConfirmSeconds :: int
  PollIntervalMs :: int

record pers_KafkaConfig =
  BootstrapServers :: "string list"
  cfg_TopicConfig :: "TopicConfig option"
  ConsumerGroup :: string
  cfg_Backpressure :: "BackpressureConfig option"
  MaxBufferRecords :: int

record pers_Config =
  cfg_Batcher :: "BatcherConfig option"
  cfg_Kafka :: "pers_KafkaConfig option"

definition AggregatedTicksTopic :: string where "AggregatedTicksTopic = ''aggregated.ticks''"
definition OrderbookFlushesTopic :: string where "OrderbookFlushesTopic = ''aggregated.book''"
definition DlqTopic :: string where "DlqTopic = ''persistence.dlq''"
definition TickPipelineName :: string where "TickPipelineName = ''tickPipeline''"
definition BookPipelineName :: string where "BookPipelineName = ''bookPipeline''"

text \<open>A field of a nil pointer panics.\<close>

definition deref :: "'a option \<Rightarrow> ('a \<Rightarrow> 'b outcome) \<Rightarrow> 'b outcome" where
  "deref p f = (case p of None \<Rightarrow> Panic | Some x \<Rightarrow> f x)"

text \<open>\<open>unicode.IsSpace\<close> on ASCII, which is what \<open>strings.TrimSpace\<close> removes there.\<close>

definition is_space :: "char \<Rightarrow> bool" where
  "is_space c \<longleftrightarrow> (of_char c :: nat) \<in> {9, 10, 11, 12, 13, 32}"

definition blank :: "string \<Rightarrow> bool" where
  "blank s \<longleftrightarrow> list_all is_space s"

text \<open>\<open>Validate\<close>, check by check in the order of the code.\<close>

definition check_pipeline :: "PipelineBatcherConfig \<Rightarrow> unit outcome" where
  "check_pipeline c = (if BatchSize c < 10 then Fail else if MaxWaitMs c < 1 then Fail else Done ())"

definition check_backpressure :: "BackpressureConfig \<Rightarrow> unit outcome" where
  "check_backpressure c =
     (if f_le (QueueUsageHighThreshold c) (Fin 0) \<or> f_lt (Fin 1) (QueueUsageHighThreshold c) then Fail
      else if f_lt (QueueUsageLowThreshold c) (Fin 0) \<or> f_le (Fin 1) (QueueUsageLowThreshold c) \<or>
        f_lt (QueueUsageHighThreshold c) (QueueUsageLowThreshold c) then Fail
      else if ConfirmSeconds c \<le> 0 then Fail
      else if PollIntervalMs c \<le> 0 then Fail
      else Done ())"

definition check_kafka :: "pers_KafkaConfig \<Rightarrow> unit outcome" where
  "check_kafka k =
     (if BootstrapServers k = [] then Fail
      else deref (cfg_TopicConfig k) (\<lambda>t.
        if blank (Tick t) then Fail
        else if blank (Book t) then Fail
        else if blank (ConsumerGroup k) then Fail
        else deref (cfg_Backpressure k) check_backpressure))"

definition pers_Validate :: "pers_Config \<Rightarrow> unit outcome" where
  "pers_Validate cfg =
     deref (cfg_Batcher cfg) (\<lambda>b.
     deref (TickBatchConfig b) (\<lambda>t.
     bind_out (check_pipeline t) (\<lambda>_.
     deref (BookBatchConfig b) (\<lambda>k.
     bind_out (check_pipeline k) (\<lambda>_.
     deref (cfg_Kafka cfg) check_kafka)))))"

text \<open>\<open>strings.Split(s, ",")\<close>.\<close>

fun split_commas :: "string \<Rightarrow> string \<Rightarrow> string list" where
  "split_commas [] acc = [acc]"
| "split_commas (c # cs) acc = (if c = CHR '','' then acc # split_commas cs [] else split_commas cs (acc @ [c]))"

text \<open>
  \<open>GetConfig\<close>: \<open>file\<close> is the decoded configuration file, or nothing when it cannot be read or decoded, \<open>env\<close> the
  process environment.
\<close>

definition GetConfig :: "pers_Config option \<Rightarrow> (string \<Rightarrow> string) \<Rightarrow> pers_Config outcome" where
  "GetConfig file env =
     (case file of
        None \<Rightarrow> Fail
      | Some c \<Rightarrow>
          let brokers = env ''KAFKA_BOOTSTRAP_SERVERS'' in
          bind_out (if brokers \<noteq> []
                    then deref (cfg_Kafka c) (\<lambda>k. Done (c\<lparr>cfg_Kafka := Some (k\<lparr>BootstrapServers := split_commas brokers []\<rparr>)\<rparr>))
                    else Done c) (\<lambda>c.
          bind_out (pers_Validate c) (\<lambda>_. Done c)))"

record PostgresConfig =
  pg_Host :: string
  pg_Port :: int
  pg_User :: string
  pg_Password :: string
  pg_Database :: string
  pg_MaxConns :: int

text \<open>\<open>strconv.Atoi\<close>: an optional sign, digits, and the range of an \<open>int64\<close>.\<close>

definition Atoi :: "string \<Rightarrow> int option" where
  "Atoi s =
     (let neg = (s \<noteq> [] \<and> hd s = CHR ''-'');
          ds = (if s \<noteq> [] \<and> (hd s = CHR ''-'' \<or> hd s = CHR ''+'') then tl s else s)
      in if ds = [] \<or> \<not> list_all is_digit ds then None
         else let n = (if neg then - int (digits_val ds) else int (digits_val ds))
              in if - (2 ^ 63) \<le> n \<and> n < 2 ^ 63 then Some n else None)"

definition getEnv :: "(string \<Rightarrow> string) \<Rightarrow> string \<Rightarrow> string \<Rightarrow> string" where
  "getEnv env k d = (if env k = [] then d else env k)"

definition getEnvInt :: "(string \<Rightarrow> string) \<Rightarrow> string \<Rightarrow> int \<Rightarrow> int" where
  "getEnvInt env k d = (if env k = [] then d else case Atoi (env k) of None \<Rightarrow> d | Some i \<Rightarrow> i)"

definition mustEnv :: "(string \<Rightarrow> string) \<Rightarrow> string \<Rightarrow> string outcome" where
  "mustEnv env k = (if env k = [] then Fail else Done (env k))"

definition LoadPostgresConfig :: "(string \<Rightarrow> string) \<Rightarrow> PostgresConfig outcome" where
  "LoadPostgresConfig env =
     bind_out (mustEnv env ''POSTGRES_USER'') (\<lambda>u.
     bind_out (mustEnv env ''POSTGRES_PASSWORD'') (\<lambda>p.
     bind_out (mustEnv env ''POSTGRES_DB'') (\<lambda>d.
     Done \<lparr>pg_Host = getEnv env ''POSTGRES_HOST'' ''localhost'', pg_Port = getEnvInt env ''POSTGRES_PORT'' 5432,
       pg_User = u, pg_Password = p, pg_Database = d, pg_MaxConns = getEnvInt env ''POSTGRES_MAX_CONNS'' 10\<rparr>)))"

section \<open>Dead letters\<close>

record DLQMessage =
  dm_Topic :: string
  dm_Partition :: int
  dm_Offset :: int
  dm_Payload :: bytes
  dm_ErrorMsg :: string
  dm_Timestamp :: int

text \<open>The message that \<open>Flush\<close> builds; the fields it does not set are zero.\<close>

definition dlqMessage :: "string \<Rightarrow> bytes \<Rightarrow> string \<Rightarrow> int \<Rightarrow> DLQMessage" where
  "dlqMessage pl payload errorMsg now =
     \<lparr>dm_Topic = pl, dm_Partition = 0, dm_Offset = 0, dm_Payload = payload, dm_ErrorMsg = errorMsg, dm_Timestamp = now\<rparr>"

text \<open>
  \<open>PublishToDlq\<close>: \<open>marshal\<close> is \<open>json.Marshal\<close>, \<open>client\<close> whether the Kafka client is there, \<open>produce\<close> the outcome of
  the synchronous send. On success the record that was sent.
\<close>

definition dlq_key :: "DLQMessage \<Rightarrow> string" where
  "dlq_key m = dm_Topic m @ '':'' @ FormatInt (dm_Partition m) @ '':'' @ FormatInt (dm_Offset m)"

definition PublishToDlq :: "(DLQMessage \<Rightarrow> bytes option) \<Rightarrow> bool \<Rightarrow> (kgo_record \<Rightarrow> bool) \<Rightarrow> DLQMessage \<Rightarrow> kgo_record outcome" where
  "PublishToDlq marshal client produce m =
     (case marshal m of
        None \<Rightarrow> Fail
      | Some v \<Rightarrow>
          let rec = \<lparr>RTopic = DlqTopic, RPartition = 0, ROffset = 0, RKey = dlq_key m, RValue = v, RHeaders = [], RTimestamp = 0\<rparr>
          in if \<not> client then Fail else if produce rec then Done rec else Fail)"

section \<open>Commits and lag\<close>

text \<open>\<open>getCommittedOffset\<close> on the partitions of the first topic of the request.\<close>

definition getCommittedOffset :: "(string \<times> offsets) list option \<Rightarrow> int \<Rightarrow> int" where
  "getCommittedOffset req p =
     (case req of
        None \<Rightarrow> 0
      | Some [] \<Rightarrow> 0
      | Some ((_, ps) # _) \<Rightarrow> (case map_of ps p of None \<Rightarrow> 0 | Some n \<Rightarrow> n - 1))"

text \<open>
  The callback of \<open>CommitOffsetsPostWrite\<close>: the gauge per topic and partition, and whether success is counted. A
  response lists an error code per partition; the first that is not zero ends the callback.
\<close>

fun commit_parts ::
    "(string \<times> offsets) list option \<Rightarrow> string \<Rightarrow> (int \<times> int) list \<Rightarrow> (string \<times> int \<Rightarrow> int) \<Rightarrow> (string \<times> int \<Rightarrow> int) \<times> bool" where
  "commit_parts req t [] g = (g, True)"
| "commit_parts req t ((p, code) # ps) g =
     (if code \<noteq> 0 then (g, False) else commit_parts req t ps (g((t, p) := getCommittedOffset req p)))"

fun commit_topics ::
    "(string \<times> offsets) list option \<Rightarrow> (string \<times> (int \<times> int) list) list \<Rightarrow> (string \<times> int \<Rightarrow> int) \<Rightarrow> (string \<times> int \<Rightarrow> int) \<times> bool" where
  "commit_topics req [] g = (g, True)"
| "commit_topics req ((t, ps) # ts) g =
     (case commit_parts req t ps g of (g, ok) \<Rightarrow> if ok then commit_topics req ts g else (g, False))"

definition CommitOffsetsPostWrite ::
    "string \<Rightarrow> offsets \<Rightarrow> (string \<times> (int \<times> int) list) list option \<Rightarrow> (string \<times> int \<Rightarrow> int) \<Rightarrow> (string \<times> int \<Rightarrow> int) \<times> bool" where
  "CommitOffsetsPostWrite topic m resp g =
     (case resp of
        None \<Rightarrow> (g, False)
      | Some ts \<Rightarrow> commit_topics (Some [(topic, buildOffsetCommitMap m)]) ts g)"

definition calculateLag :: "int \<Rightarrow> int \<Rightarrow> bool \<Rightarrow> int" where
  "calculateLag newest committedOffset exists =
     (let newest = (if newest = -1 then 0 else newest);
          committedOffset = (if \<not> exists \<or> committedOffset < 0 then 0 else committedOffset)
      in newest - committedOffset)"

text \<open>One tick of \<open>RecordConsumerLag\<close> with the answers of the two requests; a failed request skips the tick.\<close>

definition record_lag :: "(tp \<times> int) list option \<Rightarrow> (tp \<times> int) list option \<Rightarrow> (tp \<Rightarrow> int) \<Rightarrow> tp \<Rightarrow> int" where
  "record_lag ends committed g =
     (case ends of
        None \<Rightarrow> g
      | Some es \<Rightarrow> (case committed of
          None \<Rightarrow> g
        | Some cs \<Rightarrow> fold (\<lambda>(k, n) g. g(k := calculateLag n (case map_of cs k of None \<Rightarrow> 0 | Some c \<Rightarrow> c) (map_of cs k \<noteq> None))) es g))"

section \<open>Transactions\<close>

text \<open>
  The outcomes of the calls that a flush makes outside: the answers of the database (\<open>InitTx\<close>, the calls within the
  transaction, \<open>Commit\<close>), of the queue, and whether the commit of the offsets gets through. An error of \<open>Commit\<close> leaves
  open whether the database applied the transaction.
\<close>

datatype commit_result = CommitOk | CommitRejected | CommitUnknown

record 'a flush_io =
  io_begin :: bool
  io_err :: "nat \<Rightarrow> bool"
  io_commit :: commit_result
  io_marshal :: "DLQMessage \<Rightarrow> bytes option"
  io_client :: bool
  io_produce :: "kgo_record \<Rightarrow> bool"
  io_payload :: "'a \<Rightarrow> bytes"
  io_error :: "'a \<Rightarrow> string"
  io_now :: int
  io_lost :: bool

text \<open>\<open>InitTx\<close>, the flush function, \<open>Commit\<close>, and the deferred \<open>Rollback\<close>.\<close>

definition run_tx :: "((nat \<Rightarrow> bool) \<Rightarrow> database \<Rightarrow> database outcome) \<Rightarrow> 'a flush_io \<Rightarrow> database \<Rightarrow> sink_result \<times> database" where
  "run_tx fn io db =
     (if \<not> io_begin io then (BeginFails, db)
      else case fn (io_err io) db of
             Done db' \<Rightarrow> (case io_commit io of
                 CommitOk \<Rightarrow> (Committed, db')
               | CommitRejected \<Rightarrow> (CommitFails, db)
               | CommitUnknown \<Rightarrow> (CommitFails, db'))
           | _ \<Rightarrow> (FlushFails, db))"

definition dead_letter :: "string \<Rightarrow> 'a flush_io \<Rightarrow> 'a BatchItem \<Rightarrow> kgo_record outcome" where
  "dead_letter pl io x = PublishToDlq (io_marshal io) (io_client io) (io_produce io)
     (dlqMessage pl (io_payload io (Item x)) (io_error io (Item x)) (io_now io))"

definition dlq_ok :: "string \<Rightarrow> 'a flush_io \<Rightarrow> 'a BatchItem \<Rightarrow> bool" where
  "dlq_ok pl io x = (case dead_letter pl io x of Done _ \<Rightarrow> True | _ \<Rightarrow> False)"

definition letters :: "string \<Rightarrow> 'a flush_io \<Rightarrow> 'a flushed \<Rightarrow> kgo_record list" where
  "letters pl io f = concat (map (\<lambda>x. case dead_letter pl io x of Done r \<Rightarrow> [r] | _ \<Rightarrow> []) (fl_dlq f))"

text \<open>\<open>Flush\<close> and its callers on a database: the transaction runs on the rows the first loop kept, if there are any.\<close>

definition Flush_tx ::
    "((nat \<Rightarrow> bool) \<Rightarrow> 'a list \<Rightarrow> database \<Rightarrow> database outcome) \<Rightarrow> ('a \<Rightarrow> bool) \<Rightarrow> string \<Rightarrow> 'a flush_io \<Rightarrow> 'a Batcher \<Rightarrow> database \<Rightarrow>
     'a Batcher \<times> 'a flushed \<times> database" where
  "Flush_tx fn invalid pl io b db =
     (case check_loop invalid (dlq_ok pl io) (items b) [] [] [] of
        (valid, _, _, ok) \<Rightarrow>
          case (if ok \<and> valid \<noteq> [] then run_tx (\<lambda>e. fn e (map Item valid)) io db else (Committed, db)) of
            (r, db') \<Rightarrow> case Flush invalid (dlq_ok pl io) r b of (b', f) \<Rightarrow> (b', f, db'))"

definition HandleBatchAndFlush_tx ::
    "((nat \<Rightarrow> bool) \<Rightarrow> 'a list \<Rightarrow> database \<Rightarrow> database outcome) \<Rightarrow> ('a \<Rightarrow> bool) \<Rightarrow> string \<Rightarrow> 'a flush_io \<Rightarrow> 'a BatchItem \<Rightarrow>
     'a Batcher \<Rightarrow> database \<Rightarrow> 'a Batcher \<times> 'a flushed \<times> database" where
  "HandleBatchAndFlush_tx fn invalid pl io x b db =
     (let b1 = armLinger (b\<lparr>items := items b @ [x]\<rparr>)
      in if length (items b1) \<ge> batchSize b1 then Flush_tx fn invalid pl io b1 db else (b1, no_flush, db))"

definition linger_fired_tx ::
    "((nat \<Rightarrow> bool) \<Rightarrow> 'a list \<Rightarrow> database \<Rightarrow> database outcome) \<Rightarrow> ('a \<Rightarrow> bool) \<Rightarrow> string \<Rightarrow> 'a flush_io \<Rightarrow> 'a Batcher \<Rightarrow>
     database \<Rightarrow> 'a Batcher \<times> 'a flushed \<times> database" where
  "linger_fired_tx fn invalid pl io b db =
     (let b0 = b\<lparr>linger := False, lingerArmed := False\<rparr>
      in if items b0 = [] then (b0, no_flush, db)
         else case Flush_tx fn invalid pl io b0 db of (b1, f, db') \<Rightarrow> (if fl_ok f then b1 else armLinger b1, f, db'))"

definition shut_down_tx ::
    "((nat \<Rightarrow> bool) \<Rightarrow> 'a list \<Rightarrow> database \<Rightarrow> database outcome) \<Rightarrow> ('a \<Rightarrow> bool) \<Rightarrow> string \<Rightarrow> 'a flush_io \<Rightarrow> 'a Batcher \<Rightarrow>
     database \<Rightarrow> 'a Batcher \<times> 'a flushed \<times> database" where
  "shut_down_tx fn invalid pl io b db =
     (let b1 = stopLinger b in if items b1 \<noteq> [] then Flush_tx fn invalid pl io b1 db else (b1, no_flush, db))"

section \<open>The service\<close>

text \<open>One pipeline each for ticks and books (\<open>main.go\<close>), the database and the records on the dead letter topic.\<close>

record Service =
  tickP :: "TickRow PSys"
  bookP :: "book_flush PSys"
  sdb :: database
  dlqOut :: "kgo_record list"

text \<open>\<open>Pipeline.Process\<close> with the row that entered the channel, if any, noted as accepted.\<close>

definition feed_pipeline :: "(bytes \<Rightarrow> 'a option) \<Rightarrow> kgo_record \<Rightarrow> 'a PSys \<Rightarrow> 'a PSys" where
  "feed_pipeline conv rec p =
     (let b = Process conv rec (bt p)
      in p\<lparr>bt := b, accepted := accepted p @ drop (length (batchCh (bt p))) (batchCh b)\<rparr>)"

text \<open>The body of \<open>StartConsumer\<close> for a record.\<close>

definition consume :: "(bytes \<Rightarrow> pers_tick option) \<Rightarrow> (bytes \<Rightarrow> pers_flush option) \<Rightarrow> kgo_record \<Rightarrow> Service \<Rightarrow> Service" where
  "consume ut ub rec s =
     (if RTopic rec = AggregatedTicksTopic then s\<lparr>tickP := feed_pipeline (TickConverter_Convert ut) rec (tickP s)\<rparr>
      else if RTopic rec = OrderbookFlushesTopic then s\<lparr>bookP := feed_pipeline (BookConverter_Convert ub) rec (bookP s)\<rparr>
      else s)"

text \<open>A partition delivers its records in the order of their offsets.\<close>

definition in_order :: "kgo_record \<Rightarrow> 'a PSys \<Rightarrow> bool" where
  "in_order rec p \<longleftrightarrow> 0 \<le> ROffset rec \<and> (\<forall>y \<in> set (accepted p). item_part y = RPartition rec \<longrightarrow> item_off y < ROffset rec)"

inductive sstep :: "(bytes \<Rightarrow> pers_tick option) \<Rightarrow> (bytes \<Rightarrow> pers_flush option) \<Rightarrow> Service \<Rightarrow> Service \<Rightarrow> bool" for ut ub where
  consumed: "(RTopic rec = AggregatedTicksTopic \<longrightarrow> in_order rec (tickP s)) \<Longrightarrow>
    (RTopic rec = OrderbookFlushesTopic \<longrightarrow> in_order rec (bookP s)) \<Longrightarrow> sstep ut ub s (consume ut ub rec s)"
| tick_received: "batchCh (bt (tickP s)) = x # rest \<Longrightarrow>
    HandleBatchAndFlush_tx FlushAggregateTicks IsInvalidTick TickPipelineName io x ((bt (tickP s))\<lparr>batchCh := rest\<rparr>) (sdb s) = (b, f, db) \<Longrightarrow>
    sstep ut ub s (s\<lparr>tickP := effects (io_lost io) f ((tickP s)\<lparr>bt := b\<rparr>), sdb := db, dlqOut := dlqOut s @ letters TickPipelineName io f\<rparr>)"
| tick_fired: "linger (bt (tickP s)) \<Longrightarrow>
    linger_fired_tx FlushAggregateTicks IsInvalidTick TickPipelineName io (bt (tickP s)) (sdb s) = (b, f, db) \<Longrightarrow>
    sstep ut ub s (s\<lparr>tickP := effects (io_lost io) f ((tickP s)\<lparr>bt := b\<rparr>), sdb := db, dlqOut := dlqOut s @ letters TickPipelineName io f\<rparr>)"
| book_received: "batchCh (bt (bookP s)) = y # rest \<Longrightarrow>
    HandleBatchAndFlush_tx FlushOrderbook IsInvalidBookFlush BookPipelineName jo y ((bt (bookP s))\<lparr>batchCh := rest\<rparr>) (sdb s) = (c, g, db) \<Longrightarrow>
    sstep ut ub s (s\<lparr>bookP := effects (io_lost jo) g ((bookP s)\<lparr>bt := c\<rparr>), sdb := db, dlqOut := dlqOut s @ letters BookPipelineName jo g\<rparr>)"
| book_fired: "linger (bt (bookP s)) \<Longrightarrow>
    linger_fired_tx FlushOrderbook IsInvalidBookFlush BookPipelineName jo (bt (bookP s)) (sdb s) = (c, g, db) \<Longrightarrow>
    sstep ut ub s (s\<lparr>bookP := effects (io_lost jo) g ((bookP s)\<lparr>bt := c\<rparr>), sdb := db, dlqOut := dlqOut s @ letters BookPipelineName jo g\<rparr>)"

definition Service_init :: "nat \<Rightarrow> nat \<Rightarrow> database \<Rightarrow> Service" where
  "Service_init nt nb db = \<lparr>tickP = PSys_init nt, bookP = PSys_init nb, sdb = db, dlqOut = []\<rparr>"

inductive sreach ::
    "(bytes \<Rightarrow> pers_tick option) \<Rightarrow> (bytes \<Rightarrow> pers_flush option) \<Rightarrow> nat \<Rightarrow> nat \<Rightarrow> database \<Rightarrow> Service \<Rightarrow> bool" for ut ub nt nb db where
  sreach_init: "sreach ut ub nt nb db (Service_init nt nb db)"
| sreach_step: "sreach ut ub nt nb db s \<Longrightarrow> sstep ut ub s s' \<Longrightarrow> sreach ut ub nt nb db s'"

section \<open>What the batcher relies on\<close>

definition db_grows :: "database \<Rightarrow> database \<Rightarrow> bool" where
  "db_grows d d' \<longleftrightarrow> dom (map_of (aggregated_ticks d)) \<subseteq> dom (map_of (aggregated_ticks d')) \<and>
     dom (map_of (orderbook_flushes d)) \<subseteq> dom (map_of (orderbook_flushes d')) \<and>
     dom (map_of (orderbook_flush_levels d)) \<subseteq> dom (map_of (orderbook_flush_levels d'))"

lemma db_grows_refl [simp]: "db_grows d d"
  by (simp add: db_grows_def)

text \<open>The database is left as it was, or the flush function ran on some of the rows.\<close>

definition db_moves :: "((nat \<Rightarrow> bool) \<Rightarrow> 'a list \<Rightarrow> database \<Rightarrow> database outcome) \<Rightarrow> 'a set \<Rightarrow> database \<Rightarrow> database \<Rightarrow> bool" where
  "db_moves fn rows d d' \<longleftrightarrow> d' = d \<or> (\<exists>e rs. set rs \<subseteq> rows \<and> fn e rs d = Done d')"

lemma db_moves_refl [simp]: "db_moves fn rows d d"
  by (simp add: db_moves_def)

lemma db_moves_mono: "db_moves fn rows d d' \<Longrightarrow> rows \<subseteq> rows' \<Longrightarrow> db_moves fn rows' d d'"
  unfolding db_moves_def by blast

lemma check_loop_valid: "check_loop invalid dlq xs v d m = (v', d', m', ok) \<Longrightarrow> set v' \<subseteq> set v \<union> set xs"
proof (induction xs arbitrary: v d m)
  case (Cons y ys)
  show ?case
  proof (cases "invalid (Item y)")
    case True
    with Cons.prems Cons.IH [of v "d @ [y]"] show ?thesis by (cases "dlq y") auto
  next
    case False
    with Cons.prems Cons.IH [of "v @ [y]" d m] show ?thesis by auto
  qed
qed simp

locale tx_writer =
  fixes fn :: "(nat \<Rightarrow> bool) \<Rightarrow> 'a list \<Rightarrow> database \<Rightarrow> database outcome"
    and stored :: "'a \<Rightarrow> database \<Rightarrow> bool"
  assumes fn_stores: "fn e rows d = Done d' \<Longrightarrow> x \<in> set rows \<Longrightarrow> stored x d'"
    and fn_grows: "fn e rows d = Done d' \<Longrightarrow> db_grows d d'"
    and fn_no_panic: "fn e rows d \<noteq> Panic"
    and stored_mono: "stored x d \<Longrightarrow> db_grows d d' \<Longrightarrow> stored x d'"
begin

lemma run_tx_stores:
  assumes "run_tx (\<lambda>e. fn e rows) io d = (r, d')"
  shows "db_grows d d'" and "r = Committed \<Longrightarrow> x \<in> set rows \<Longrightarrow> stored x d'" and "db_moves fn (set rows) d d'"
proof -
  show "db_grows d d'" and "r = Committed \<Longrightarrow> x \<in> set rows \<Longrightarrow> stored x d'"
    using assms fn_grows fn_stores by (auto simp: run_tx_def split: if_splits outcome.splits commit_result.splits)
  have "d' = d \<or> (\<exists>e. fn e rows d = Done d')"
    using assms by (auto simp: run_tx_def split: if_splits outcome.splits commit_result.splits)
  then show "db_moves fn (set rows) d d'" unfolding db_moves_def by blast
qed

lemma Flush_tx_refines:
  assumes "Flush_tx fn invalid pl io b d = (b', f, d')"
  shows "\<exists>r. Flush invalid (dlq_ok pl io) r b = (b', f)" and "db_grows d d'" and "x \<in> set (fl_rows f) \<Longrightarrow> stored (Item x) d'"
    and "db_moves fn (Item ` set (items b)) d d'"
proof -
  obtain v ds m ok where c: "check_loop invalid (dlq_ok pl io) (items b) [] [] [] = (v, ds, m, ok)"
    by (cases "check_loop invalid (dlq_ok pl io) (items b) [] [] []")
  obtain r where r: "(if ok \<and> v \<noteq> [] then run_tx (\<lambda>e. fn e (map Item v)) io d else (Committed, d)) = (r, d')"
    and f: "Flush invalid (dlq_ok pl io) r b = (b', f)"
    using assms by (auto simp: Flush_tx_def c split: prod.splits)
  from f show "\<exists>r. Flush invalid (dlq_ok pl io) r b = (b', f)" by blast
  show "db_grows d d'" using r run_tx_stores(1) by (auto split: if_splits)
  have "db_moves fn (set (map Item v)) d d'" using r run_tx_stores(3) [of "map Item v" io d r d'] by (auto split: if_splits)
  then show "db_moves fn (Item ` set (items b)) d d'" by (rule db_moves_mono) (use check_loop_valid [OF c] in auto)
  show "stored (Item x) d'" if "x \<in> set (fl_rows f)"
  proof -
    have "ok" "v \<noteq> []" "r = Committed" "x \<in> set v" using f that by (auto simp: Flush_def c split: if_splits)
    with run_tx_stores(2) [of "map Item v" io d r d' "Item x"] r show ?thesis by auto
  qed
qed

lemma HandleBatchAndFlush_tx_refines:
  assumes "HandleBatchAndFlush_tx fn invalid pl io y b d = (b', f, d')"
  shows "\<exists>r. HandleBatchAndFlush invalid (dlq_ok pl io) r y b = (b', f)" and "db_grows d d'"
    and "x \<in> set (fl_rows f) \<Longrightarrow> stored (Item x) d'" and "db_moves fn (Item ` insert y (set (items b))) d d'"
proof -
  let ?b = "armLinger (b\<lparr>items := items b @ [y]\<rparr>)"
  have "(\<exists>r. HandleBatchAndFlush invalid (dlq_ok pl io) r y b = (b', f)) \<and> db_grows d d' \<and> (\<forall>x \<in> set (fl_rows f). stored (Item x) d') \<and>
    db_moves fn (Item ` insert y (set (items b))) d d'"
  proof (cases "length (items ?b) \<ge> batchSize ?b")
    case True
    with assms have t: "Flush_tx fn invalid pl io ?b d = (b', f, d')" by (simp add: HandleBatchAndFlush_tx_def Let_def)
    have "set (items ?b) = insert y (set (items b))" by (simp add: armLinger_def)
    with Flush_tx_refines(4) [OF t] have "db_moves fn (Item ` insert y (set (items b))) d d'" by simp
    with True Flush_tx_refines(1-3) [OF t] show ?thesis by (auto simp: HandleBatchAndFlush_def Let_def)
  next
    case False
    with assms show ?thesis by (auto simp: HandleBatchAndFlush_tx_def HandleBatchAndFlush_def Let_def no_flush_def)
  qed
  then show "\<exists>r. HandleBatchAndFlush invalid (dlq_ok pl io) r y b = (b', f)" and "db_grows d d'"
    and "x \<in> set (fl_rows f) \<Longrightarrow> stored (Item x) d'" and "db_moves fn (Item ` insert y (set (items b))) d d'" by blast+
qed

lemma linger_fired_tx_refines:
  assumes "linger_fired_tx fn invalid pl io b d = (b', f, d')"
  shows "\<exists>r. linger_fired invalid (dlq_ok pl io) r b = (b', f)" and "db_grows d d'" and "x \<in> set (fl_rows f) \<Longrightarrow> stored (Item x) d'"
    and "db_moves fn (Item ` set (items b)) d d'"
proof -
  let ?b = "b\<lparr>linger := False, lingerArmed := False\<rparr>"
  have "(\<exists>r. linger_fired invalid (dlq_ok pl io) r b = (b', f)) \<and> db_grows d d' \<and> (\<forall>x \<in> set (fl_rows f). stored (Item x) d') \<and>
    db_moves fn (Item ` set (items b)) d d'"
  proof (cases "items ?b = []")
    case True
    with assms show ?thesis by (auto simp: linger_fired_tx_def linger_fired_def FlushIfNeeded_def no_flush_def)
  next
    case False
    then obtain b1 where t: "Flush_tx fn invalid pl io ?b d = (b1, f, d')" "b' = (if fl_ok f then b1 else armLinger b1)"
      using assms by (auto simp: linger_fired_tx_def split: prod.splits)
    obtain r where "Flush invalid (dlq_ok pl io) r ?b = (b1, f)" using Flush_tx_refines(1) [OF t(1)] by blast
    with False t(2) have "linger_fired invalid (dlq_ok pl io) r b = (b', f)" by (simp add: linger_fired_def FlushIfNeeded_def)
    with Flush_tx_refines(2,3,4) [OF t(1)] show ?thesis by auto
  qed
  then show "\<exists>r. linger_fired invalid (dlq_ok pl io) r b = (b', f)" and "db_grows d d'"
    and "x \<in> set (fl_rows f) \<Longrightarrow> stored (Item x) d'" and "db_moves fn (Item ` set (items b)) d d'" by blast+
qed

text \<open>
  A step of the batcher on a database is a step of the batcher, the rows it counts as written are stored, and only rows that
  were accepted go to the database.
\<close>

lemma received_refines:
  assumes "HandleBatchAndFlush_tx fn invalid pl io y ((bt p)\<lparr>batchCh := rest\<rparr>) d = (b, f, d')" and "batchCh (bt p) = y # rest"
    and "\<forall>x \<in> written p. stored (Item x) d" and "preach invalid n p"
  shows "pstep invalid p (effects (io_lost io) f (p\<lparr>bt := b\<rparr>)) \<and> db_grows d d' \<and>
    (\<forall>x \<in> written (effects (io_lost io) f (p\<lparr>bt := b\<rparr>)). stored (Item x) d') \<and> db_moves fn (Item ` set (accepted p)) d d'"
proof -
  note r = HandleBatchAndFlush_tx_refines [OF assms(1)]
  from r(1) pstep.received [OF assms(2)] have st: "pstep invalid p (effects (io_lost io) f (p\<lparr>bt := b\<rparr>))" by blast
  have "insert y (set (items (bt p))) \<subseteq> set (accepted p)" using preach_inv [OF assms(4)] assms(2) unfolding p_inv_def by auto
  then have "db_moves fn (Item ` set (accepted p)) d d'" using db_moves_mono [OF r(4)] by (simp add: image_mono)
  with st r(2,3) assms(3) stored_mono show ?thesis by (auto simp: effects_def)
qed

lemma fired_refines:
  assumes "linger_fired_tx fn invalid pl io (bt p) d = (b, f, d')" and "linger (bt p)" and "\<forall>x \<in> written p. stored (Item x) d"
    and "preach invalid n p"
  shows "pstep invalid p (effects (io_lost io) f (p\<lparr>bt := b\<rparr>)) \<and> db_grows d d' \<and>
    (\<forall>x \<in> written (effects (io_lost io) f (p\<lparr>bt := b\<rparr>)). stored (Item x) d') \<and> db_moves fn (Item ` set (accepted p)) d d'"
proof -
  note r = linger_fired_tx_refines [OF assms(1)]
  from r(1) pstep.fired [OF assms(2)] have st: "pstep invalid p (effects (io_lost io) f (p\<lparr>bt := b\<rparr>))" by blast
  have "set (items (bt p)) \<subseteq> set (accepted p)" using preach_inv [OF assms(4)] unfolding p_inv_def by auto
  then have "db_moves fn (Item ` set (accepted p)) d d'" using db_moves_mono [OF r(4)] by (simp add: image_mono)
  with st r(2,3) assms(3) stored_mono show ?thesis by (auto simp: effects_def)
qed

end

definition tick_present :: "TickRow \<Rightarrow> database \<Rightarrow> bool" where
  "tick_present t d \<longleftrightarrow> tick_pk t \<in> dom (map_of (aggregated_ticks d))"

definition book_present :: "book_flush \<Rightarrow> database \<Rightarrow> bool" where
  "book_present f d \<longleftrightarrow> flush_pk (FlushRow f) \<in> dom (map_of (orderbook_flushes d)) \<and>
     (\<forall>l \<in> set (LevelRows f). level_pk (level_row f l) \<in> dom (map_of (orderbook_flush_levels d)))"

interpretation tw: tx_writer FlushAggregateTicks tick_present
proof (unfold_locales, goal_cases)
  case (1 e rows d d' x)
  then show ?case unfolding FlushAggregateTicks_stores [OF 1(1)] by (simp add: tick_present_def insert_nothing_dom)
next
  case (2 e rows d d')
  then show ?case unfolding FlushAggregateTicks_stores [OF 2] by (simp add: db_grows_def insert_nothing_dom)
next
  case (3 e rows d)
  then show ?case by (auto simp: FlushAggregateTicks_def copied_rows)
next
  case (4 x d d')
  then show ?case by (auto simp: tick_present_def db_grows_def)
qed

interpretation bw: tx_writer FlushOrderbook book_present
proof (unfold_locales, goal_cases)
  case (1 e rows d d' x)
  have "level_pk (level_row x l) \<in> level_pk ` set (level_rows rows)" if "l \<in> set (LevelRows x)" for l
    using that 1(2) by (auto simp: level_rows_def)
  then show ?case unfolding FlushOrderbook_tables [OF 1(1)] book_present_def by (simp add: insert_nothing_dom 1(2))
next
  case (2 e rows d d')
  then show ?case unfolding db_grows_def FlushOrderbook_tables [OF 2] by (simp add: insert_nothing_dom)
next
  case (3 e rows d)
  then show ?case by (auto simp: FlushOrderbook_def copied_rows Let_def)
next
  case (4 x d d')
  then show ?case unfolding book_present_def db_grows_def by blast
qed

section \<open>Where the rows of a table come from\<close>

text \<open>
  A table that started as \<open>t0\<close> and to which only rows of \<open>rows\<close> were written: what was there is unchanged, and every other
  row is one of \<open>rows\<close>, under its own key.
\<close>

definition table_from :: "('r \<Rightarrow> 'k) \<Rightarrow> ('k \<times> 'r) list \<Rightarrow> 'r set \<Rightarrow> ('k \<times> 'r) list \<Rightarrow> bool" where
  "table_from pk t0 rows t \<longleftrightarrow>
     (\<forall>k r. map_of t0 k = Some r \<longrightarrow> map_of t k = Some r) \<and>
     (\<forall>k r. map_of t k = Some r \<longrightarrow> map_of t0 k = None \<longrightarrow> r \<in> rows \<and> pk r = k)"

lemma table_from_refl [simp]: "table_from pk t rows t"
  by (simp add: table_from_def)

lemma table_from_mono: "table_from pk t0 rows t \<Longrightarrow> rows \<subseteq> rows' \<Longrightarrow> table_from pk t0 rows' t"
  unfolding table_from_def by blast

lemma table_from_insert:
  assumes "table_from pk t0 rows t" "set rs \<subseteq> rows"
  shows "table_from pk t0 rows (insert_nothing pk rs t)"
proof -
  have new: "r \<in> rows \<and> pk r = k" if "map_of (map (\<lambda>r. (pk r, r)) rs) k = Some r" for k r
    using map_of_SomeD [OF that] assms(2) by auto
  have m: "map_of (insert_nothing pk rs t) k = (case map_of t k of None \<Rightarrow> map_of (map (\<lambda>r. (pk r, r)) rs) k | Some r \<Rightarrow> Some r)" for k
    by (simp add: map_of_insert_nothing map_add_def)
  have old: "map_of t0 k = Some r \<Longrightarrow> map_of t k = Some r" "map_of t k = Some r \<Longrightarrow> map_of t0 k = None \<Longrightarrow> r \<in> rows \<and> pk r = k" for k r
    using assms(1) unfolding table_from_def by blast+
  show ?thesis unfolding table_from_def
  proof (intro conjI allI impI)
    show "map_of (insert_nothing pk rs t) k = Some r" if "map_of t0 k = Some r" for k r using old(1) [OF that] by (simp add: m)
    show "r \<in> rows" "pk r = k" if "map_of (insert_nothing pk rs t) k = Some r" "map_of t0 k = None" for k r
      using that new [of k r] old(2) [of k r] by (cases "map_of t k"; simp add: m)+
  qed
qed

text \<open>
  The row that a table holds under the key of \<open>r\<close>: the one it started with, if there was one, and otherwise one of \<open>rows\<close> with
  this key.
\<close>

definition holds_row :: "('r \<Rightarrow> 'k) \<Rightarrow> ('k \<times> 'r) list \<Rightarrow> 'r set \<Rightarrow> 'r \<Rightarrow> ('k \<times> 'r) list \<Rightarrow> bool" where
  "holds_row pk t0 rows r t \<longleftrightarrow>
     (case map_of t0 (pk r) of
        Some r0 \<Rightarrow> map_of t (pk r) = Some r0
      | None \<Rightarrow> \<exists>r' \<in> rows. pk r' = pk r \<and> map_of t (pk r) = Some r')"

lemma holds_rowI: "table_from pk t0 rows t \<Longrightarrow> pk r \<in> dom (map_of t) \<Longrightarrow> holds_row pk t0 rows r t"
  unfolding holds_row_def table_from_def by (cases "map_of t0 (pk r)") auto

lemma holds_row_alone:
  "holds_row pk t0 rows r t \<Longrightarrow> map_of t0 (pk r) = None \<Longrightarrow> \<forall>r' \<in> rows. pk r' = pk r \<longrightarrow> r' = r \<Longrightarrow> map_of t (pk r) = Some r"
  by (auto simp: holds_row_def)

definition book_levels :: "book_flush set \<Rightarrow> level_values set" where
  "book_levels books = (\<Union>f \<in> books. level_row f ` set (LevelRows f))"

definition tick_stored :: "database \<Rightarrow> TickRow set \<Rightarrow> TickRow \<Rightarrow> database \<Rightarrow> bool" where
  "tick_stored d0 ticks t d \<longleftrightarrow> holds_row tick_pk (aggregated_ticks d0) ticks t (aggregated_ticks d)"

definition book_stored :: "database \<Rightarrow> book_flush set \<Rightarrow> book_flush \<Rightarrow> database \<Rightarrow> bool" where
  "book_stored d0 books f d \<longleftrightarrow>
     holds_row flush_pk (orderbook_flushes d0) (FlushRow ` books) (FlushRow f) (orderbook_flushes d) \<and>
     (\<forall>l \<in> set (LevelRows f).
        holds_row level_pk (orderbook_flush_levels d0) (book_levels books) (level_row f l) (orderbook_flush_levels d))"

definition db_from :: "database \<Rightarrow> TickRow set \<Rightarrow> book_flush set \<Rightarrow> database \<Rightarrow> bool" where
  "db_from d0 ticks books d \<longleftrightarrow>
     table_from tick_pk (aggregated_ticks d0) ticks (aggregated_ticks d) \<and>
     table_from flush_pk (orderbook_flushes d0) (FlushRow ` books) (orderbook_flushes d) \<and>
     table_from level_pk (orderbook_flush_levels d0) (book_levels books) (orderbook_flush_levels d)"

lemma db_from_mono: "db_from d0 ticks books d \<Longrightarrow> ticks \<subseteq> ticks' \<Longrightarrow> books \<subseteq> books' \<Longrightarrow> db_from d0 ticks' books' d"
  unfolding db_from_def book_levels_def by (meson table_from_mono image_mono UN_mono order_refl)

lemma db_from_ticks:
  assumes "db_from d0 ticks books d" "db_moves FlushAggregateTicks ticks d d'"
  shows "db_from d0 ticks books d'"
  using assms(2) unfolding db_moves_def
proof (elim disjE exE conjE)
  fix e rs assume rs: "set rs \<subseteq> ticks" "FlushAggregateTicks e rs d = Done d'"
  from assms(1) rs(1) show ?thesis unfolding FlushAggregateTicks_stores [OF rs(2)] db_from_def by (simp add: table_from_insert)
qed (use assms(1) in simp)

lemma db_from_books:
  assumes "db_from d0 ticks books d" "db_moves FlushOrderbook books d d'"
  shows "db_from d0 ticks books d'"
  using assms(2) unfolding db_moves_def
proof (elim disjE exE conjE)
  fix e rs assume rs: "set rs \<subseteq> books" "FlushOrderbook e rs d = Done d'"
  have "set (map FlushRow rs) \<subseteq> FlushRow ` books" "set (level_rows rs) \<subseteq> book_levels books"
    using rs(1) by (auto simp: level_rows_def book_levels_def)
  with assms(1) show ?thesis unfolding db_from_def FlushOrderbook_tables [OF rs(2)] by (blast intro: table_from_insert)
qed (use assms(1) in simp)

lemma stored_from:
  assumes "db_from d0 ticks books d"
  shows "tick_present t d \<Longrightarrow> tick_stored d0 ticks t d" and "book_present f d \<Longrightarrow> book_stored d0 books f d"
proof -
  have f: "table_from tick_pk (aggregated_ticks d0) ticks (aggregated_ticks d)"
    "table_from flush_pk (orderbook_flushes d0) (FlushRow ` books) (orderbook_flushes d)"
    "table_from level_pk (orderbook_flush_levels d0) (book_levels books) (orderbook_flush_levels d)"
    using assms by (simp_all add: db_from_def)
  show "tick_present t d \<Longrightarrow> tick_stored d0 ticks t d"
    unfolding tick_present_def tick_stored_def by (rule holds_rowI [OF f(1)])
  show "book_present f d \<Longrightarrow> book_stored d0 books f d"
    unfolding book_present_def book_stored_def using holds_rowI [OF f(2)] holds_rowI [OF f(3)] by blast
qed

section \<open>The service keeps what it commits\<close>

lemma feed_pipeline_cases:
  obtains (skipped) "feed_pipeline conv rec p = p" | (full) x where "\<not> length (batchCh (bt p)) < 3 * batchSize (bt p)" "feed_pipeline conv rec p = p\<lparr>bt := Add x (bt p)\<rparr>"
  | (taken) u where "conv (RValue rec) = Some u" "length (batchCh (bt p)) < 3 * batchSize (bt p)"
      "feed_pipeline conv rec p = p\<lparr>bt := Add \<lparr>Item = u, Record = rec\<rparr> (bt p), accepted := accepted p @ [\<lparr>Item = u, Record = rec\<rparr>]\<rparr>"
  by (cases "conv (RValue rec)"; cases "length (batchCh (bt p)) < 3 * batchSize (bt p)")
    (auto simp: feed_pipeline_def Process_def Add_def Let_def)

lemma preach_feed_pipeline:
  assumes "preach invalid n p" and "in_order rec p"
  shows "preach invalid n (feed_pipeline conv rec p)"
proof (cases rule: feed_pipeline_cases [of conv rec p])
  case skipped
  with assms(1) show ?thesis by simp
next
  case (full x)
  with preach_step [OF assms(1) pstep.dropped [OF full(1)]] show ?thesis by simp
next
  case (taken u)
  have "pstep invalid p (feed_pipeline conv rec p)" unfolding taken(3)
    by (rule pstep.added) (use taken(2) assms(2) in \<open>auto simp: in_order_def item_part_def item_off_def\<close>)
  with assms(1) show ?thesis by (rule preach_step)
qed

lemma check_loop_sent_invalid:
  "check_loop invalid dlq xs v d m = (v', d', m', ok) \<Longrightarrow> set d' \<subseteq> set d \<union> {x. invalid (Item x)}"
proof (induction xs arbitrary: v d m)
  case (Cons y ys)
  show ?case
  proof (cases "invalid (Item y) \<and> dlq y")
    case True
    with Cons.prems Cons.IH [of v "d @ [y]"] show ?thesis by (simp add: insert_absorb)
  next
    case False
    with Cons.prems Cons.IH [of "v @ [y]" d m] show ?thesis by (cases "invalid (Item y)") auto
  qed
qed simp

lemma Flush_dlq_invalid: "Flush invalid dlq sink b = (b', f) \<Longrightarrow> set (fl_dlq f) \<subseteq> {x. invalid (Item x)}"
proof -
  obtain v d m ok where c: "check_loop invalid dlq (items b) [] [] [] = (v, d, m, ok)" by (cases "check_loop invalid dlq (items b) [] [] []")
  assume "Flush invalid dlq sink b = (b', f)"
  then have "fl_dlq f = d" by (auto simp: Flush_def c split: if_splits)
  with check_loop_sent_invalid [OF c] show ?thesis by simp
qed

lemma handled_dlq_invalid:
  "HandleBatchAndFlush invalid dlq sink x b = (b', f) \<Longrightarrow> set (fl_dlq f) \<subseteq> {x. invalid (Item x)}"
  "linger_fired invalid dlq sink b = (b', f) \<Longrightarrow> set (fl_dlq f) \<subseteq> {x. invalid (Item x)}"
  using Flush_dlq_invalid [of invalid dlq sink]
  by (auto simp: HandleBatchAndFlush_def linger_fired_def FlushIfNeeded_def Let_def no_flush_def split: if_splits prod.splits)

lemma pstep_dead: "pstep invalid p p' \<Longrightarrow> dead p \<subseteq> {x. invalid (Item x)} \<Longrightarrow> dead p' \<subseteq> {x. invalid (Item x)}"
proof (induction rule: pstep.induct)
  case (received s x rest dlq sink b f lost)
  then show ?case using handled_dlq_invalid(1) [OF received(2)] by (simp add: effects_def)
next
  case (fired s dlq sink b f lost)
  then show ?case using handled_dlq_invalid(2) [OF fired(2)] by (simp add: effects_def)
qed simp_all

lemma preach_dead: "preach invalid n p \<Longrightarrow> dead p \<subseteq> {x. invalid (Item x)}"
proof (induction rule: preach.induct)
  case preach_init
  then show ?case by (simp add: PSys_init_def)
qed (use pstep_dead in blast)

definition converted :: "(bytes \<Rightarrow> 'a option) \<Rightarrow> 'a PSys \<Rightarrow> bool" where
  "converted conv p \<longleftrightarrow> (\<forall>x \<in> set (accepted p). conv (RValue (Record x)) = Some (Item x))"

lemma converted_feed_pipeline: "converted conv p \<Longrightarrow> converted conv (feed_pipeline conv rec p)"
  by (rule feed_pipeline_cases [of conv rec p]) (auto simp: converted_def)

lemma effects_sel [simp]: "accepted (effects lost f p) = accepted p" "written (effects lost f p) = written p \<union> set (fl_rows f)"
  by (simp_all add: effects_def)

lemma feed_pipeline_written [simp]: "written (feed_pipeline conv rec p) = written p"
  by (simp add: feed_pipeline_def Let_def)

definition lanes_ok :: "(bytes \<Rightarrow> pers_tick option) \<Rightarrow> (bytes \<Rightarrow> pers_flush option) \<Rightarrow> nat \<Rightarrow> nat \<Rightarrow> database \<Rightarrow> Service \<Rightarrow> bool" where
  "lanes_ok ut ub nt nb d0 s \<longleftrightarrow>
     preach IsInvalidTick nt (tickP s) \<and> preach IsInvalidBookFlush nb (bookP s) \<and>
     converted (TickConverter_Convert ut) (tickP s) \<and> converted (BookConverter_Convert ub) (bookP s) \<and>
     (\<forall>x \<in> written (tickP s). tick_present (Item x) (sdb s)) \<and> (\<forall>x \<in> written (bookP s). book_present (Item x) (sdb s)) \<and>
     db_from d0 (Item ` set (accepted (tickP s))) (Item ` set (accepted (bookP s))) (sdb s)"

lemma feed_pipeline_accepted: "set (accepted p) \<subseteq> set (accepted (feed_pipeline conv rec p))"
  by (simp add: feed_pipeline_def Let_def)

lemma lanes_ok_step:
  assumes "sstep ut ub s s'" and "lanes_ok ut ub nt nb d0 s"
  shows "lanes_ok ut ub nt nb d0 s'"
proof -
  note ok = assms(2) [unfolded lanes_ok_def]
  have t: "\<forall>x \<in> written (tickP s). tick_present (Item x) (sdb s)" and k: "\<forall>x \<in> written (bookP s). book_present (Item x) (sdb s)"
    and pt: "preach IsInvalidTick nt (tickP s)" and pk: "preach IsInvalidBookFlush nb (bookP s)"
    and df: "db_from d0 (Item ` set (accepted (tickP s))) (Item ` set (accepted (bookP s))) (sdb s)"
    using ok by blast+
  show ?thesis using assms(1)
  proof cases
    case (consumed rec)
    have "db_from d0 (Item ` set (accepted (tickP s'))) (Item ` set (accepted (bookP s'))) (sdb s)"
    proof (rule db_from_mono [OF df])
      show "Item ` set (accepted (tickP s)) \<subseteq> Item ` set (accepted (tickP s'))"
        by (rule image_mono) (simp add: consumed(1) consume_def feed_pipeline_accepted)
      show "Item ` set (accepted (bookP s)) \<subseteq> Item ` set (accepted (bookP s'))"
        by (rule image_mono) (simp add: consumed(1) consume_def feed_pipeline_accepted)
    qed
    moreover have "sdb s' = sdb s" by (simp add: consumed(1) consume_def)
    ultimately show ?thesis using ok consumed(2,3)
      unfolding consumed(1) by (auto simp: lanes_ok_def consume_def preach_feed_pipeline converted_feed_pipeline)
  next
    case (tick_received x rest io b f db)
    note r = tw.received_refines [OF tick_received(3,2) t pt]
    with ok preach_step [of IsInvalidTick nt "tickP s"] bw.stored_mono db_from_ticks [OF df] show ?thesis
      by (auto simp: lanes_ok_def tick_received(1) converted_def)
  next
    case (tick_fired io b f db)
    note r = tw.fired_refines [OF tick_fired(3,2) t pt]
    with ok preach_step [of IsInvalidTick nt "tickP s"] bw.stored_mono db_from_ticks [OF df] show ?thesis
      by (auto simp: lanes_ok_def tick_fired(1) converted_def)
  next
    case (book_received x rest io b f db)
    note r = bw.received_refines [OF book_received(3,2) k pk]
    with ok preach_step [of IsInvalidBookFlush nb "bookP s"] tw.stored_mono db_from_books [OF df] show ?thesis
      by (auto simp: lanes_ok_def book_received(1) converted_def)
  next
    case (book_fired io b f db)
    note r = bw.fired_refines [OF book_fired(3,2) k pk]
    with ok preach_step [of IsInvalidBookFlush nb "bookP s"] tw.stored_mono db_from_books [OF df] show ?thesis
      by (auto simp: lanes_ok_def book_fired(1) converted_def)
  qed
qed

lemma sreach_lanes_ok: "sreach ut ub nt nb db s \<Longrightarrow> lanes_ok ut ub nt nb db s"
proof (induction rule: sreach.induct)
  case sreach_init
  have "preach IsInvalidTick nt (PSys_init nt)" "preach IsInvalidBookFlush nb (PSys_init nb)" by (rule preach_init)+
  then show ?case by (simp add: lanes_ok_def Service_init_def converted_def PSys_init_def db_from_def)
qed (use lanes_ok_step in blast)

text \<open>
  C11. The persistence service over its database: a row that entered a pipeline and whose offset is below the committed
  offset of its partition is the conversion of its record, and its table holds a row under its key: the row that the database
  had under this key from the start, if there was one, and otherwise a row that entered the pipeline with this key, whole and
  unchanged, hence this very row when no other accepted row has the key. For a book the same holds of each of its
  levels. The only other end is the dead letter queue, for books without an event time. Failed transactions, unknown outcomes of a
  commit, failed dead letters and lost offset commits are all covered, in every order of the two pipelines and the consumer.
\<close>

theorem committed_rows_are_stored:
  assumes "sreach ut ub nt nb db s"
  shows "(\<forall>x \<in> set (accepted (tickP s)). \<forall>c. broker (tickP s) (item_part x) = Some c \<longrightarrow> item_off x < c \<longrightarrow>
      TickConverter_Convert ut (RValue (Record x)) = Some (Item x) \<and>
      tick_stored db (Item ` set (accepted (tickP s))) (Item x) (sdb s)) \<and>
    (\<forall>x \<in> set (accepted (bookP s)). \<forall>c. broker (bookP s) (item_part x) = Some c \<longrightarrow> item_off x < c \<longrightarrow>
      BookConverter_Convert ub (RValue (Record x)) = Some (Item x) \<and>
      (book_stored db (Item ` set (accepted (bookP s))) (Item x) (sdb s) \<or> IsInvalidBookFlush (Item x) \<and> x \<in> dead (bookP s)))"
proof -
  have ok: "preach IsInvalidTick nt (tickP s)" "preach IsInvalidBookFlush nb (bookP s)"
    "converted (TickConverter_Convert ut) (tickP s)" "converted (BookConverter_Convert ub) (bookP s)"
    "\<forall>x \<in> written (tickP s). tick_present (Item x) (sdb s)" "\<forall>x \<in> written (bookP s). book_present (Item x) (sdb s)"
    "db_from db (Item ` set (accepted (tickP s))) (Item ` set (accepted (bookP s))) (sdb s)"
    using sreach_lanes_ok [OF assms] unfolding lanes_ok_def by blast+
  have "x \<in> written (tickP s)" if "x \<in> set (accepted (tickP s))" "broker (tickP s) (item_part x) = Some c" "item_off x < c" for x c
    using batcher_commits_disposed [OF ok(1) that] preach_dead [OF ok(1)] by (auto simp: IsInvalidTick_def)
  then show ?thesis using batcher_commits_disposed [OF ok(2)] preach_dead [OF ok(2)] ok(3-6) stored_from [OF ok(7)]
    unfolding converted_def by blast
qed

definition demo_rec :: kgo_record where
  "demo_rec = \<lparr>RTopic = OrderbookFlushesTopic, RPartition = 0, ROffset = 7, RKey = [], RValue = [], RHeaders = [], RTimestamp = 0\<rparr>"

definition demo_item :: "book_flush BatchItem" where
  "demo_item = \<lparr>Item = demo_book (Fin 8) [], Record = demo_rec\<rparr>"

definition demo_io :: "'a flush_io" where
  "demo_io = \<lparr>io_begin = True, io_err = \<lambda>_. False, io_commit = CommitOk, io_marshal = \<lambda>_. None, io_client = True, io_produce = \<lambda>_. True,
     io_payload = \<lambda>_. [], io_error = \<lambda>_. [], io_now = 0, io_lost = False\<rparr>"

lemma demo_converts: "BookConverter_Convert (\<lambda>_. Some (demo_flush (Fin 8) [])) v = Some (demo_book (Fin 8) [])"
  by (simp add: demo_book_def BookConverter_Convert_def Let_def)

lemma demo_valid: "\<not> IsInvalidBookFlush (demo_book (Fin 8) [])"
  by (simp add: IsInvalidBookFlush_def demo_book_def demo_flush_def BookConverter_Convert_def Let_def)

lemma topics_differ [simp]: "OrderbookFlushesTopic \<noteq> AggregatedTicksTopic"
  by (simp add: OrderbookFlushesTopic_def AggregatedTicksTopic_def)

theorem committed_rows_are_stored_witness:
  "\<exists>s. sreach (\<lambda>_. None) (\<lambda>_. Some (demo_flush (Fin 8) [])) 1 1 empty_db s \<and> demo_item \<in> set (accepted (bookP s)) \<and>
     broker (bookP s) 0 = Some 8 \<and> map_of (orderbook_flushes (sdb s)) (''kraken'', ''A'', 5) = Some (FlushRow (demo_book (Fin 8) []))"
proof -
  let ?ub = "\<lambda>_ :: bytes. Some (demo_flush (Fin 8) [])" and ?ut = "\<lambda>_ :: bytes. None :: pers_tick option"
  let ?p = "(PSys_init 1)\<lparr>bt := \<lparr>batchCh = [demo_item], items = [], linger = False, lingerArmed = False, batchSize = 1\<rparr>, accepted := [demo_item]\<rparr>"
  let ?s1 = "(Service_init 1 1 empty_db)\<lparr>bookP := ?p\<rparr>"
  have "consume ?ut ?ub demo_rec (Service_init 1 1 empty_db) = ?s1"
    by (simp add: consume_def demo_rec_def feed_pipeline_def Process_def Add_def demo_converts Service_init_def PSys_init_def NewBatcher_def demo_item_def Let_def)
  moreover have "sstep ?ut ?ub (Service_init 1 1 empty_db) (consume ?ut ?ub demo_rec (Service_init 1 1 empty_db))"
    by (rule sstep.consumed) (simp_all add: in_order_def demo_rec_def Service_init_def PSys_init_def)
  ultimately have r1: "sreach ?ut ?ub 1 1 empty_db ?s1" using sreach_step [OF sreach_init] by metis
  obtain db where db: "FlushOrderbook (\<lambda>_. False) [demo_book (Fin 8) []] empty_db = Done db" by (simp add: demo_written)
  let ?b = "\<lparr>batchCh = [], items = [], linger = False, lingerArmed = False, batchSize = 1\<rparr>"
  let ?f = "\<lparr>fl_dlq = [], fl_rows = [demo_item], fl_marked = Some [(0, 7)], fl_ok = True\<rparr>"
  have h: "HandleBatchAndFlush_tx FlushOrderbook IsInvalidBookFlush BookPipelineName demo_io demo_item ((bt (bookP ?s1))\<lparr>batchCh := []\<rparr>) (sdb ?s1) = (?b, ?f, db)"
    using db demo_valid by (simp add: HandleBatchAndFlush_tx_def Flush_tx_def Flush_def run_tx_def demo_io_def armLinger_def stopLinger_def note_items_def
        off_max_def off_get_def demo_item_def demo_rec_def Service_init_def Let_def)
  define s2 where "s2 = ?s1\<lparr>bookP := effects False ?f (?p\<lparr>bt := ?b\<rparr>), sdb := db\<rparr>"
  have "sstep ?ut ?ub ?s1 s2"
    using sstep.book_received [OF _ h, of "?ut" "?ub"] by (simp add: s2_def demo_io_def letters_def Service_init_def)
  then have r2: "sreach ?ut ?ub 1 1 empty_db s2" by (rule sreach_step [OF r1])
  have a: "demo_item \<in> set (accepted (bookP s2))" and c: "broker (bookP s2) 0 = Some 8"
    by (simp_all add: s2_def effects_def buildOffsetCommitMap_def)
  have "item_part demo_item = 0" "item_off demo_item = 7" by (simp_all add: demo_item_def demo_rec_def item_part_def item_off_def)
  then have "book_stored empty_db (Item ` set (accepted (bookP s2))) (demo_book (Fin 8) []) (sdb s2)"
    using committed_rows_are_stored [OF r2] a c demo_valid by (auto simp: demo_item_def)
  moreover have "accepted (bookP s2) = [demo_item]" by (simp add: s2_def effects_def)
  moreover have "flush_pk (FlushRow (demo_book (Fin 8) [])) = (''kraken'', ''A'', 5)"
    by (simp add: demo_book_def demo_flush_def BookConverter_Convert_def flush_pk_def UnixMilli_def Let_def)
  ultimately have "map_of (orderbook_flushes (sdb s2)) (''kraken'', ''A'', 5) = Some (FlushRow (demo_book (Fin 8) []))"
    by (auto simp: book_stored_def holds_row_def empty_db_def demo_item_def)
  with r2 a c show ?thesis by blast
qed

section \<open>Dead letters, topics and the end of the process\<close>

lemma dlq_key_fixed: "dlq_key (dlqMessage pl payload e now) = pl @ '':0:0''"
proof -
  have "digit_char 0 = CHR ''0''" by (simp add: digit_char_def char_of_def bit_iff_odd)
  then show ?thesis by (simp add: dlq_key_def dlqMessage_def FormatInt_def FormatUint.simps)
qed

lemma letters_key: "r \<in> set (letters pl io f) \<Longrightarrow> RTopic r = DlqTopic \<and> RKey r = pl @ '':0:0''"
  by (auto simp: letters_def dead_letter_def PublishToDlq_def dlq_key_fixed Let_def split: outcome.splits option.splits if_splits)

text \<open>
  The batcher never sets the partition and the offset of a dead letter, so all dead letters of a pipeline have the same key:
  they cannot be traced back to their records, and a compacted topic would keep only the last.
\<close>

theorem dead_letters_share_a_key:
  assumes "sreach ut ub nt nb db s" and "r \<in> set (dlqOut s)"
  shows "RKey r = ''tickPipeline:0:0'' \<or> RKey r = ''bookPipeline:0:0''"
  using assms
proof (induction rule: sreach.induct)
  case sreach_init
  then show ?case by (simp add: Service_init_def)
next
  case (sreach_step s s')
  from sreach_step(2) have "set (dlqOut s') \<subseteq> set (dlqOut s) \<union> {r. RKey r = ''tickPipeline:0:0'' \<or> RKey r = ''bookPipeline:0:0''}"
    by cases (auto simp: consume_def dest!: letters_key simp: TickPipelineName_def BookPipelineName_def)
  with sreach_step show ?case by blast
qed

text \<open>
  The client subscribes to the topics of the configuration, but the loop and the commits use the names of the constants:
  a validated configuration with other topics makes a service that reads and stores nothing.
\<close>

theorem configured_topics_ignored:
  "\<exists>cfg k t. pers_Validate cfg = Done () \<and> cfg_Kafka cfg = Some k \<and> cfg_TopicConfig k = Some t \<and>
     (\<forall>rec s. RTopic rec = Tick t \<or> RTopic rec = Book t \<longrightarrow> consume ut ub rec s = s)"
proof -
  let ?p = "\<lparr>BatchSize = 10, MaxWaitMs = 1\<rparr>" and ?t = "\<lparr>Tick = ''ticks'', Book = ''books''\<rparr>"
  let ?bp = "\<lparr>QueueUsageHighThreshold = Fin 1, QueueUsageLowThreshold = Fin 0, ConfirmSeconds = 1, PollIntervalMs = 1\<rparr>"
  let ?k = "\<lparr>BootstrapServers = [''b''], cfg_TopicConfig = Some ?t, ConsumerGroup = ''g'', cfg_Backpressure = Some ?bp, MaxBufferRecords = 1\<rparr>"
  let ?c = "\<lparr>cfg_Batcher = Some \<lparr>TickBatchConfig = Some ?p, BookBatchConfig = Some ?p\<rparr>, cfg_Kafka = Some ?k\<rparr>"
  have "pers_Validate ?c = Done ()"
    by (simp add: pers_Validate_def deref_def check_pipeline_def check_kafka_def check_backpressure_def blank_def is_space_def f_le_def f_eq_def)
  moreover have "consume ut ub rec s = s" if "RTopic rec = ''ticks'' \<or> RTopic rec = ''books''" for rec s
    using that by (auto simp: consume_def AggregatedTicksTopic_def OrderbookFlushesTopic_def)
  ultimately show ?thesis by (intro exI [of _ ?c] exI [of _ ?k] exI [of _ ?t]) simp
qed

text \<open>What validation guarantees of the two pipelines and the backpressure thresholds; a threshold that is not a number passes.\<close>

lemma GetConfig_accepts:
  assumes "GetConfig file env = Done c"
  shows "\<exists>b t k kc bp. cfg_Batcher c = Some b \<and> TickBatchConfig b = Some t \<and> BookBatchConfig b = Some k \<and> cfg_Kafka c = Some kc \<and>
    cfg_Backpressure kc = Some bp \<and> 10 \<le> BatchSize t \<and> 10 \<le> BatchSize k \<and> 1 \<le> MaxWaitMs t \<and> 1 \<le> MaxWaitMs k \<and>
    BootstrapServers kc \<noteq> [] \<and> \<not> f_lt (Fin 1) (QueueUsageHighThreshold bp) \<and> \<not> f_lt (QueueUsageHighThreshold bp) (QueueUsageLowThreshold bp)"
proof -
  have v: "pers_Validate c = Done ()" using assms by (auto simp: GetConfig_def Let_def bind_out_Done split: option.splits if_splits)
  then obtain b t k kc where p: "cfg_Batcher c = Some b" "TickBatchConfig b = Some t" "BookBatchConfig b = Some k" "cfg_Kafka c = Some kc"
    "check_pipeline t = Done ()" "check_pipeline k = Done ()" "check_kafka kc = Done ()"
    by (auto simp: pers_Validate_def deref_def bind_out_Done split: option.splits)
  then obtain bp where "cfg_Backpressure kc = Some bp" "check_backpressure bp = Done ()" "BootstrapServers kc \<noteq> []"
    by (auto simp: check_kafka_def deref_def split: option.splits if_splits)
  with p show ?thesis by (auto simp: check_pipeline_def check_backpressure_def split: if_splits)
qed

text \<open>
  At the end of the process the last batch is flushed with the context that has just ended: no transaction begins, and a
  batch with a valid row stays as it is, to be read again after the restart.
\<close>

lemma last_batch_not_written:
  assumes "\<not> io_begin io" and "y \<in> set (items b)" and "\<not> invalid (Item y)"
    and "shut_down_tx fn invalid pl io b d = (b', f, d')"
  shows "d' = d \<and> items b' = items b \<and> fl_rows f = [] \<and> fl_marked f = None"
proof -
  obtain v ds m ok where c: "check_loop invalid (dlq_ok pl io) (items b) [] [] [] = (v, ds, m, ok)"
    by (cases "check_loop invalid (dlq_ok pl io) (items b) [] [] []")
  have "v \<noteq> []" if ok
  proof
    assume "v = []"
    with check_loop_facts(1) [OF c that] have "y \<in> set ds" using assms(2) by auto
    with check_loop_sent_invalid [OF c] assms(3) show False by auto
  qed
  with assms(1,2,4) c show ?thesis
    by (cases ok) (auto simp: shut_down_tx_def Flush_tx_def Flush_def run_tx_def stopLinger_def Let_def split: if_splits)
qed

text \<open>A commit answered without errors sets the gauge of each partition to the last offset that was processed.\<close>

lemma commit_parts_ok:
  "\<forall>x \<in> set ps. snd x = 0 \<Longrightarrow> commit_parts req t ps g = (\<lambda>(t', p). if t' = t \<and> p \<in> fst ` set ps then getCommittedOffset req p else g (t', p), True)"
  by (induction req t ps g rule: commit_parts.induct) (auto simp: fun_eq_iff)

lemma CommitOffsetsPostWrite_gauge:
  assumes "CommitOffsetsPostWrite topic m (Some [(topic, ps)]) g = (g', ok)" and "\<forall>x \<in> set ps. snd x = 0" and "p \<in> fst ` set ps"
    and "map_of m p = Some n"
  shows "ok \<and> g' (topic, p) = n"
proof -
  have "map_of (buildOffsetCommitMap m) p = Some (n + 1)"
    using assms(4) unfolding buildOffsetCommitMap_def by (induction m) (auto split: if_splits)
  then have "getCommittedOffset (Some [(topic, buildOffsetCommitMap m)]) p = n" by (simp add: getCommittedOffset_def)
  moreover have "(g', ok) = commit_parts (Some [(topic, buildOffsetCommitMap m)]) topic ps g"
    using assms(1) unfolding CommitOffsetsPostWrite_def by (simp add: commit_parts_ok [OF assms(2)])
  ultimately show ?thesis unfolding commit_parts_ok [OF assms(2)] by (simp add: assms(3))
qed

end
