(* ===== verification/Ui_Api.thy ===== *)
theory Ui_Api
  imports Ui_Backend Pers_Service
begin

text \<open>
  The interfaces of \<open>ui-backend\<close>: the HTTP endpoints with the queries behind them (\<open>controller/market_controller.go\<close>,
  \<open>service/market_service.go\<close>, \<open>repository/market_repository.go\<close>), the origins that may call them (\<open>main.go\<close>), the
  subscriptions of a websocket client (\<open>controller/ws_controller.go\<close>) and the consumer that feeds the streams
  (\<open>stream/kafka_consumer.go\<close>). Parsing of times, decoders and encoders are arguments.
\<close>

section \<open>Candles\<close>

record CandleDTO =
  cd_StartTs :: int
  cd_EndTs :: int
  cd_Open :: f64
  cd_Low :: f64
  cd_High :: f64
  cd_Close :: f64
  cd_Volume :: f64

text \<open>
  What the driver answers to a query: an error at once, or rows until a scan fails or the connection breaks. After a
  break \<open>Next\<close> is false, and the code does not ask \<open>Err\<close>.
\<close>

datatype query_answer = QueryError | ScanError | Broken nat | AllRows

definition read_rows :: "query_answer \<Rightarrow> 'r list \<Rightarrow> 'r list outcome" where
  "read_rows ans rows = (case ans of QueryError \<Rightarrow> Fail | ScanError \<Rightarrow> (if rows = [] then Done [] else Fail) | Broken n \<Rightarrow> Done (take n rows) | AllRows \<Rightarrow> Done rows)"

text \<open>\<open>WHERE ... start_ts >= from AND end_ts <= to ORDER BY start_ts\<close>.\<close>

definition candle_rows :: "database \<Rightarrow> string \<Rightarrow> string \<Rightarrow> string \<Rightarrow> int \<Rightarrow> int \<Rightarrow> TickRow list" where
  "candle_rows db exchange symbol windowID from to =
     sort_key tr_StartTs (filter (\<lambda>r. tr_Exchange r = exchange \<and> tr_Symbol r = symbol \<and> tr_WindowId r = windowID \<and> from \<le> tr_StartTs r \<and>
       tr_EndTs r \<le> to) (map snd (aggregated_ticks db)))"

definition repo_GetCandles :: "database \<Rightarrow> query_answer \<Rightarrow> string \<Rightarrow> string \<Rightarrow> string \<Rightarrow> int \<Rightarrow> int \<Rightarrow> TickRow list outcome" where
  "repo_GetCandles db ans exchange symbol windowID from to = read_rows ans (candle_rows db exchange symbol windowID from to)"

definition candle :: "TickRow \<Rightarrow> CandleDTO" where
  "candle r = \<lparr>cd_StartTs = tr_StartTs r, cd_EndTs = tr_EndTs r, cd_Open = tr_Open r, cd_Low = tr_Low r, cd_High = tr_High r,
     cd_Close = tr_Close r, cd_Volume = tr_Volume r\<rparr>"

definition svc_GetCandles :: "database \<Rightarrow> query_answer \<Rightarrow> string \<Rightarrow> string \<Rightarrow> string \<Rightarrow> int \<Rightarrow> int \<Rightarrow> CandleDTO list outcome" where
  "svc_GetCandles db ans exchange symbol windowID from to =
     bind_out (repo_GetCandles db ans exchange symbol windowID from to) (\<lambda>rows. Done (map candle rows))"

text \<open>
  A response: the status and, when it is 200, the data. JSON has no number for a value that is not finite: data with such a
  value cannot be encoded, and the status is sent without it (\<open>NotEncoded\<close>).
\<close>

datatype 'd response = BadRequest | InternalServerError | OK 'd | NotEncoded | Crashed

definition respond :: "('d \<Rightarrow> bool) \<Rightarrow> 'd outcome \<Rightarrow> 'd response" where
  "respond encodes r =
     (case r of Done d \<Rightarrow> if encodes d then OK d else NotEncoded | Fail \<Rightarrow> InternalServerError | Panic \<Rightarrow> Crashed)"

definition candle_encodes :: "CandleDTO \<Rightarrow> bool" where
  "candle_encodes c \<longleftrightarrow> list_all is_finite [cd_Open c, cd_Low c, cd_High c, cd_Close c, cd_Volume c]"

text \<open>\<open>q\<close> gives the query parameters, \<open>parse\<close> is \<open>time.Parse(time.RFC3339, s)\<close>.\<close>

definition ctl_GetCandles :: "(string \<Rightarrow> int option) \<Rightarrow> database \<Rightarrow> query_answer \<Rightarrow> (string \<Rightarrow> string) \<Rightarrow> CandleDTO list response" where
  "ctl_GetCandles parse db ans q =
     (case parse (q ''from'') of None \<Rightarrow> BadRequest | Some from \<Rightarrow>
      case parse (q ''to'') of None \<Rightarrow> BadRequest | Some to \<Rightarrow>
      respond (list_all candle_encodes) (svc_GetCandles db ans (q ''exchange'') (q ''symbol'') (q ''window'') from to))"

section \<open>Metrics and books\<close>

text \<open>
  \<open>ORDER BY (end_ts, start_ts)\<close>: sorted by the start, then stably by the end. The service leaves out metrics that are not
  finite, so that the result always encodes.
\<close>

definition repo_GetMetrics :: "database \<Rightarrow> query_answer \<Rightarrow> string \<Rightarrow> string \<Rightarrow> string list \<Rightarrow> int \<Rightarrow> int \<Rightarrow> TickRow list outcome" where
  "repo_GetMetrics db ans exchange symbol windows from to =
     read_rows ans (sort_key tr_EndTs (sort_key tr_StartTs (filter (\<lambda>r. tr_Exchange r = exchange \<and> tr_Symbol r = symbol \<and>
       tr_WindowId r \<in> set windows \<and> from \<le> tr_StartTs r \<and> tr_EndTs r \<le> to) (map snd (aggregated_ticks db)))))"

definition ctl_GetMetrics ::
    "(string \<Rightarrow> int option) \<Rightarrow> database \<Rightarrow> query_answer \<Rightarrow> (string \<Rightarrow> string) \<Rightarrow> string list \<Rightarrow> string list \<Rightarrow> (string \<times> MetricDTO list) list response" where
  "ctl_GetMetrics parse db ans q windows metrics =
     (case parse (q ''from'') of None \<Rightarrow> BadRequest | Some from \<Rightarrow>
      case parse (q ''to'') of None \<Rightarrow> BadRequest | Some to \<Rightarrow>
      respond (\<lambda>_. True) (bind_out (repo_GetMetrics db ans (q ''exchange'') (q ''symbol'') windows from to) (\<lambda>rows. GetMetrics rows metrics [])))"

text \<open>The depth is any integer; one below one selects no level. The levels have the sides \<open>B\<close> and \<open>A\<close>.\<close>

definition book_encodes :: "book_view \<Rightarrow> bool" where
  "book_encodes v \<longleftrightarrow>
     list_all is_finite [fr_BestBidPrice (bv_Row v), fr_BestBidVolume (bv_Row v), fr_BestAskPrice (bv_Row v), fr_BestAskVolume (bv_Row v),
       fr_Spread (bv_Row v)] \<and>
     list_all (\<lambda>l. is_finite (lr_Price l) \<and> is_finite (lr_Volume l)) (bv_Levels v ''B'' @ bv_Levels v ''A'')"

definition ctl_GetOrderbook :: "database \<Rightarrow> (string \<Rightarrow> string) \<Rightarrow> book_view response" where
  "ctl_GetOrderbook db q =
     (case Atoi (q ''depth'') of None \<Rightarrow> BadRequest | Some depth \<Rightarrow>
      respond book_encodes (GetLatestBook db (q ''exchange'') (q ''symbol'') (nat depth)))"

section \<open>Origins\<close>

definition TrimSpace :: "string \<Rightarrow> string" where
  "TrimSpace s = rev (dropWhile is_space (rev (dropWhile is_space s)))"

text \<open>The start-up part of \<open>corsMiddleware\<close>: whether all origins are allowed, and the list of those that are.\<close>

fun parse_origins :: "string list \<Rightarrow> bool \<times> string list \<Rightarrow> bool \<times> string list" where
  "parse_origins [] acc = acc"
| "parse_origins (org # orgs) (allowAll, allowed) =
     (let trimmed = TrimSpace org
      in if trimmed = [] then parse_origins orgs (allowAll, allowed)
         else if trimmed = ''*'' then parse_origins orgs (True, allowed)
         else parse_origins orgs (allowAll, List.insert trimmed allowed))"

definition cors_setup :: "string \<Rightarrow> bool \<times> string list" where
  "cors_setup env =
     parse_origins (split_commas (if blank env then ''http://localhost:3000,http://127.0.0.1:3000'' else env) []) (False, [])"

definition cors_allows :: "bool \<times> string list \<Rightarrow> string \<Rightarrow> bool" where
  "cors_allows cfg origin \<longleftrightarrow> fst cfg \<or> origin \<in> set (snd cfg)"

lemma parse_origins_spec:
  "parse_origins orgs (a, l) = (a', l') \<Longrightarrow>
     (a' \<longleftrightarrow> a \<or> ''*'' \<in> TrimSpace ` set orgs) \<and> set l' = set l \<union> (TrimSpace ` set orgs - {[], ''*''})"
proof (induction orgs arbitrary: a l)
  case (Cons org orgs)
  consider "TrimSpace org = []" | "TrimSpace org = ''*''" | "TrimSpace org \<noteq> []" "TrimSpace org \<noteq> ''*''" by blast
  then show ?case
  proof cases
    case 1
    with Cons show ?thesis by auto
  next
    case 2
    with Cons.prems Cons.IH [of True l] show ?thesis by auto
  next
    case 3
    with Cons.prems Cons.IH [of a "List.insert (TrimSpace org) l"] show ?thesis by auto
  qed
qed simp

text \<open>A configured origin is allowed, and no other unless a star is among them.\<close>

lemma cors_exact:
  assumes "\<not> blank env" and "origin \<noteq> []"
  shows "cors_allows (cors_setup env) origin \<longleftrightarrow>
    ''*'' \<in> TrimSpace ` set (split_commas env []) \<or> origin \<in> TrimSpace ` set (split_commas env [])"
proof -
  obtain a l where p: "parse_origins (split_commas env []) (False, []) = (a, l)" by (cases "parse_origins (split_commas env []) (False, [])")
  define orgs where "orgs = TrimSpace ` set (split_commas env [])"
  have "a \<longleftrightarrow> ''*'' \<in> orgs" "set l = orgs - {[], ''*''}" using parse_origins_spec [OF p] by (simp_all add: orgs_def)
  then show ?thesis unfolding orgs_def [symmetric] using assms by (auto simp: cors_allows_def cors_setup_def p)
qed

section \<open>Websocket clients\<close>

record SubscribeMessage =
  sb_Type :: string
  sb_Exchange :: string
  sb_Symbol :: string

text \<open>
  What \<open>ReadMessage\<close> does: it returns a message, the error of a normal close, or another error, or it panics.
\<close>

datatype ws_read = WsMessage bytes | WsClose | WsError | WsPanic

text \<open>
  The documented behaviour of the library: an error is permanent, every later read fails again, and after a number of
  failing reads in a row (\<open>limit\<close> more after the first) the next one panics. The list holds the reads that were made.
\<close>

fun after_error :: "nat \<Rightarrow> ws_read list \<Rightarrow> bool" where
  "after_error n [] = True"
| "after_error n (WsError # rs) = (n > 0 \<and> after_error (n - 1) rs)"
| "after_error n (WsPanic # rs) = (n = 0 \<and> rs = [])"
| "after_error n (_ # rs) = False"

fun ws_reads :: "nat \<Rightarrow> ws_read list \<Rightarrow> bool" where
  "ws_reads limit [] = True"
| "ws_reads limit (WsMessage m # rs) = ws_reads limit rs"
| "ws_reads limit (WsClose # rs) = (rs = [])"
| "ws_reads limit (WsError # rs) = after_error limit rs"
| "ws_reads limit (WsPanic # rs) = False"

text \<open>
  \<open>HandleSubscribe\<close> over the results of its reads; \<open>un\<close> is \<open>json.Unmarshal\<close>. The deferred \<open>Unregister\<close> runs when the
  loop ends: a normal close ends it, and so does the panic of a read. The result says whether it has ended.
\<close>

fun HandleSubscribe :: "(bytes \<Rightarrow> SubscribeMessage option) \<Rightarrow> nat \<Rightarrow> ws_read list \<Rightarrow> stream_clients \<Rightarrow> stream_clients \<times> bool" where
  "HandleSubscribe un cl [] clients = (clients, False)"
| "HandleSubscribe un cl (WsClose # rs) clients = (sm_Unregister cl clients, True)"
| "HandleSubscribe un cl (WsPanic # rs) clients = (sm_Unregister cl clients, True)"
| "HandleSubscribe un cl (WsError # rs) clients = HandleSubscribe un cl rs clients"
| "HandleSubscribe un cl (WsMessage m # rs) clients =
     (case un m of
        None \<Rightarrow> HandleSubscribe un cl rs clients
      | Some sub \<Rightarrow>
          if sb_Type sub \<noteq> ''tick'' \<and> sb_Type sub \<noteq> ''book'' then HandleSubscribe un cl rs clients
          else HandleSubscribe un cl rs (sm_Register (sb_Type sub) (sb_Exchange sub @ '':'' @ sb_Symbol sub) cl clients))"

fun ws_ops :: "(bytes \<Rightarrow> SubscribeMessage option) \<Rightarrow> nat \<Rightarrow> ws_read list \<Rightarrow> sm_op list" where
  "ws_ops un cl [] = []"
| "ws_ops un cl (WsClose # rs) = [SmUnregister cl]"
| "ws_ops un cl (WsPanic # rs) = [SmUnregister cl]"
| "ws_ops un cl (WsError # rs) = ws_ops un cl rs"
| "ws_ops un cl (WsMessage m # rs) =
     (case un m of
        None \<Rightarrow> ws_ops un cl rs
      | Some sub \<Rightarrow>
          if sb_Type sub \<noteq> ''tick'' \<and> sb_Type sub \<noteq> ''book'' then ws_ops un cl rs
          else SmRegister (sb_Type sub) (sb_Exchange sub @ '':'' @ sb_Symbol sub) cl # ws_ops un cl rs)"

lemma HandleSubscribe_ops: "fst (HandleSubscribe un cl rs clients) = fold sm_apply (ws_ops un cl rs) clients"
  by (induction un cl rs clients rule: HandleSubscribe.induct) (auto split: option.splits)

text \<open>
  The loop ends with a normal close or the panic of the library. Other errors do not end it: the code reads on from a
  connection that has failed, and the client stays registered until the library panics.
\<close>

lemma HandleSubscribe_ended: "snd (HandleSubscribe un cl rs clients) \<longleftrightarrow> WsClose \<in> set rs \<or> WsPanic \<in> set rs"
  by (induction un cl rs clients rule: HandleSubscribe.induct) (auto split: option.splits)

lemma failed_reads_repeat:
  assumes "ws_reads limit rs" and "WsError \<in> set rs" and "\<not> snd (HandleSubscribe un cl rs clients)"
  shows "ws_reads limit (rs @ [WsError]) \<or> ws_reads limit (rs @ [WsPanic])"
proof -
  have after: "after_error n (us @ [WsError]) \<or> after_error n (us @ [WsPanic])" if "after_error n us" "WsPanic \<notin> set us" for n us
    using that by (induction n us rule: after_error.induct) auto
  have "WsPanic \<notin> set rs" "WsClose \<notin> set rs" using assms(3) by (simp_all add: HandleSubscribe_ended)
  with assms(1,2) show ?thesis by (induction limit rs rule: ws_reads.induct) (auto simp: after)
qed

lemma failed_reads_bounded:
  assumes "ws_reads limit rs"
  shows "length (filter ((=) WsError) rs) \<le> Suc limit"
proof -
  have "length (filter ((=) WsError) us) \<le> n" if "after_error n us" for n us
    using that by (induction n us rule: after_error.induct) auto
  with assms show ?thesis by (induction limit rs rule: ws_reads.induct) (auto intro: order_trans)
qed

section \<open>The stream consumer\<close>

text \<open>
  \<open>parseTick\<close> and \<open>parseBook\<close>: \<open>um\<close> decodes, \<open>ex\<close> and \<open>sy\<close> are the getters, \<open>js\<close> is \<open>json.Marshal\<close> of the message with
  its type set.
\<close>

definition parse_message :: "(bytes \<Rightarrow> 't option) \<Rightarrow> ('t \<Rightarrow> string) \<Rightarrow> ('t \<Rightarrow> string) \<Rightarrow> ('t \<Rightarrow> 'm option) \<Rightarrow> bytes \<Rightarrow> (string \<times> 'm) outcome" where
  "parse_message um ex sy js v =
     (case um v of None \<Rightarrow> Fail | Some t \<Rightarrow>
        let k = ex t @ '':'' @ sy t
        in if k = '':'' then Fail else (case js t of None \<Rightarrow> Fail | Some m \<Rightarrow> Done (k, m)))"

definition parseTick :: "(bytes \<Rightarrow> pers_tick option) \<Rightarrow> (pers_tick \<Rightarrow> 'm option) \<Rightarrow> bytes \<Rightarrow> (string \<times> 'm) outcome" where
  "parseTick um js = parse_message um pt_Exchange pt_Symbol js"

definition parseBook :: "(bytes \<Rightarrow> pers_flush option) \<Rightarrow> (pers_flush \<Rightarrow> 'm option) \<Rightarrow> bytes \<Rightarrow> (string \<times> 'm) outcome" where
  "parseBook um js = parse_message um pf_Exchange pf_Symbol js"

record 'm ui_env =
  ui_TicksTopic :: string
  ui_BookTopic :: string
  ui_tick :: "bytes \<Rightarrow> pers_tick option"
  ui_book :: "bytes \<Rightarrow> pers_flush option"
  ui_json_tick :: "pers_tick \<Rightarrow> 'm option"
  ui_json_book :: "pers_flush \<Rightarrow> 'm option"

definition ui_consume :: "'m ui_env \<Rightarrow> stream_clients \<Rightarrow> kgo_record \<Rightarrow> (nat \<Rightarrow> 'm list) \<Rightarrow> nat \<Rightarrow> 'm list" where
  "ui_consume e clients rec chans =
     (if RTopic rec = ui_TicksTopic e then
        (case parseTick (ui_tick e) (ui_json_tick e) (RValue rec) of Done (k, m) \<Rightarrow> sm_Broadcast clients ''tick'' k m chans | _ \<Rightarrow> chans)
      else if RTopic rec = ui_BookTopic e then
        (case parseBook (ui_book e) (ui_json_book e) (RValue rec) of Done (k, m) \<Rightarrow> sm_Broadcast clients ''book'' k m chans | _ \<Rightarrow> chans)
      else chans)"

section \<open>What a client receives\<close>

lemma broadcast_subs:
  "sm_Broadcast (fold sm_apply ops []) mt k msg chans c =
     (if (mt, k, c) \<in> fold subs_apply ops {} \<and> length (chans c) < ClientBuffer then chans c @ [msg] else chans c)"
proof -
  define clients where "clients = fold sm_apply ops []"
  note run = clients_ok_run [of ops, folded clients_def]
  have "distinct (lookup_default [] (lookup_default [] clients mt) k)"
    using run by (auto intro: keys_ok_lookup clients_ok_lookup)
  moreover have "(mt, k, c) \<in> fold subs_apply ops {} \<longleftrightarrow> c \<in> set (lookup_default [] (lookup_default [] clients mt) k)"
    using run by (auto simp: subs_def simp flip: conjunct2 [OF run])
  ultimately show ?thesis unfolding clients_def [symmetric] by (simp add: sm_Broadcast_def fold_deliver)
qed

definition asked :: "(bytes \<Rightarrow> SubscribeMessage option) \<Rightarrow> ws_read list \<Rightarrow> string \<Rightarrow> string \<Rightarrow> bool" where
  "asked un rs mt k \<longleftrightarrow> (\<exists>msg sub. WsMessage msg \<in> set rs \<and> un msg = Some sub \<and> sb_Type sub = mt \<and> sb_Exchange sub @ '':'' @ sb_Symbol sub = k)"

lemma asked_simps [simp]:
  "\<not> asked un [] mt k"
  "asked un (WsError # rs) mt k = asked un rs mt k" "asked un (WsPanic # rs) mt k = asked un rs mt k"
  "un m = None \<Longrightarrow> asked un (WsMessage m # rs) mt k = asked un rs mt k"
  "un m = Some sub \<Longrightarrow> asked un (WsMessage m # rs) mt k \<longleftrightarrow> sb_Type sub = mt \<and> sb_Exchange sub @ '':'' @ sb_Symbol sub = k \<or> asked un rs mt k"
  unfolding asked_def by auto

lemma subs_ws_ops:
  assumes "mt = ''tick'' \<or> mt = ''book''"
  shows "(mt, k, cl) \<in> fold subs_apply (ws_ops un cl rs) S \<longleftrightarrow>
    WsClose \<notin> set rs \<and> WsPanic \<notin> set rs \<and> ((mt, k, cl) \<in> S \<or> asked un rs mt k)"
proof (induction rs arbitrary: S)
  case (Cons x rs)
  show ?case
  proof (cases x)
    case (WsMessage m)
    show ?thesis
    proof (cases "un m")
      case None
      then show ?thesis using Cons.IH WsMessage by simp
    next
      case (Some sub)
      show ?thesis
      proof (cases "sb_Type sub = ''tick'' \<or> sb_Type sub = ''book''")
        case True
        then have "ws_ops un cl (x # rs) = SmRegister (sb_Type sub) (sb_Exchange sub @ '':'' @ sb_Symbol sub) cl # ws_ops un cl rs"
          using Some WsMessage by auto
        then show ?thesis using Cons.IH Some WsMessage by auto
      next
        case False
        then have "sb_Type sub \<noteq> mt" using assms by blast
        then show ?thesis using Cons.IH Some WsMessage False by simp
      qed
    qed
  qed (use Cons.IH in simp_all)
qed simp

text \<open>
  C32. From the topic to the browser: a websocket client that joins a running backend, whoever else came and went before,
  gets a tick message if and only if it has asked for ticks of that exchange and symbol in a message the backend could
  read, and its handler has not ended; a client whose channel is full misses it. The handler ends, and the client is
  unregistered, exactly when the connection was closed normally or a read panicked, and a connection that failed
  otherwise is read again at most \<open>limit\<close> times before that.
\<close>

theorem subscription_served:
  assumes "HandleSubscribe un cl rs (fold sm_apply ops []) = (clients, ended)" and "ws_reads limit rs"
    and "\<forall>mt k. (mt, k, cl) \<notin> fold subs_apply ops {}"
    and "RTopic rec = ui_TicksTopic e" and "ui_tick e (RValue rec) = Some t" and "ui_json_tick e t = Some m"
    and "pt_Exchange t \<noteq> [] \<or> pt_Symbol t \<noteq> []"
  shows "ui_consume e clients rec chans cl =
    (if \<not> ended \<and> asked un rs ''tick'' (pt_Exchange t @ '':'' @ pt_Symbol t) \<and> length (chans cl) < ClientBuffer
     then chans cl @ [m] else chans cl) \<and>
    (ended \<longleftrightarrow> WsClose \<in> set rs \<or> WsPanic \<in> set rs) \<and> length (filter ((=) WsError) rs) \<le> Suc limit"
proof -
  let ?k = "pt_Exchange t @ '':'' @ pt_Symbol t"
  have c: "clients = fold sm_apply (ops @ ws_ops un cl rs) []" using HandleSubscribe_ops [of un cl rs "fold sm_apply ops []"] assms(1) by simp
  have ended: "ended \<longleftrightarrow> WsClose \<in> set rs \<or> WsPanic \<in> set rs"
    using HandleSubscribe_ended [of un cl rs "fold sm_apply ops []"] assms(1) by simp
  have "?k \<noteq> '':''" using assms(7) by (cases "pt_Exchange t") auto
  then have "parseTick (ui_tick e) (ui_json_tick e) (RValue rec) = Done (?k, m)"
    using assms(5,6) by (simp add: parseTick_def parse_message_def Let_def)
  then have "ui_consume e clients rec chans cl = sm_Broadcast clients ''tick'' ?k m chans cl" using assms(4) by (simp add: ui_consume_def)
  also have "\<dots> = (if (''tick'', ?k, cl) \<in> fold subs_apply (ops @ ws_ops un cl rs) {} \<and> length (chans cl) < ClientBuffer then chans cl @ [m] else chans cl)"
    unfolding c by (rule broadcast_subs)
  also have "(''tick'', ?k, cl) \<in> fold subs_apply (ops @ ws_ops un cl rs) {} \<longleftrightarrow> \<not> ended \<and> asked un rs ''tick'' ?k"
    using subs_ws_ops [of "''tick''" ?k cl un rs "fold subs_apply ops {}"] assms(3) ended by simp
  finally have "ui_consume e clients rec chans cl =
    (if (\<not> ended \<and> asked un rs ''tick'' ?k) \<and> length (chans cl) < ClientBuffer then chans cl @ [m] else chans cl)" .
  then show ?thesis using ended failed_reads_bounded [OF assms(2)] by simp
qed

definition demo_ui_tick :: pers_tick where
  "demo_ui_tick = \<lparr>pt_Exchange = ''kraken'', pt_Symbol = ''A'', pt_WindowId = ''5s'', pt_StartTsMs = 0, pt_EndTsMs = 5000, pt_Price = None,
     pt_Volume = None, pt_Volatility = None, pt_Trend = None\<rparr>"

definition demo_ui :: "string ui_env" where
  "demo_ui = \<lparr>ui_TicksTopic = ''aggregated.ticks'', ui_BookTopic = ''aggregated.book'', ui_tick = (\<lambda>_. Some demo_ui_tick), ui_book = (\<lambda>_. None),
     ui_json_tick = (\<lambda>_. Some ''json''), ui_json_book = (\<lambda>_. None)\<rparr>"

theorem subscription_served_witness:
  "ui_consume demo_ui (fst (HandleSubscribe (\<lambda>_. Some \<lparr>sb_Type = ''tick'', sb_Exchange = ''kraken'', sb_Symbol = ''A''\<rparr>) 3 [WsMessage [], WsError]
     (fold sm_apply [SmRegister ''book'' ''kraken:A'' 4] [])))
     \<lparr>RTopic = ''aggregated.ticks'', RPartition = 0, ROffset = 0, RKey = [], RValue = [], RHeaders = [], RTimestamp = 0\<rparr> (\<lambda>_. []) 3 = [''json'']"
proof -
  let ?un = "\<lambda>_ :: bytes. Some \<lparr>sb_Type = ''tick'', sb_Exchange = ''kraken'', sb_Symbol = ''A''\<rparr>"
  obtain clients ended where h: "HandleSubscribe ?un 3 [WsMessage [], WsError] (fold sm_apply [SmRegister ''book'' ''kraken:A'' 4] []) = (clients, ended)"
    by (cases "HandleSubscribe ?un 3 [WsMessage [], WsError] (fold sm_apply [SmRegister ''book'' ''kraken:A'' 4] [])")
  have "asked ?un [WsMessage [], WsError] ''tick'' ''kraken:A''" by (simp add: asked_def)
  then show ?thesis
    using subscription_served [OF h, of 998 "\<lparr>RTopic = ''aggregated.ticks'', RPartition = 0, ROffset = 0, RKey = [], RValue = [], RHeaders = [], RTimestamp = 0\<rparr>"
        demo_ui demo_ui_tick "''json''" "\<lambda>_. []"] h
    by (simp add: demo_ui_def demo_ui_tick_def ClientBuffer_def)
qed

section \<open>Candles are read back\<close>

lemma ticks_keyed: "db_reach db \<Longrightarrow> keyed tick_pk (aggregated_ticks db)"
proof (induction rule: db_reach.induct)
  case empty
  then show ?case by (simp add: empty_db_def keyed_def)
next
  case (book db err rows db')
  then show ?case by (simp add: FlushOrderbook_tables)
next
  case (tick db err ticks db')
  then show ?case using FlushAggregateTicks_stores [OF tick(2)] by (simp add: keyed_insert)
qed

lemma in_table:
  assumes "distinct (map fst t)"
  shows "x \<in> set (map snd t) \<longleftrightarrow> (\<exists>k. map_of t k = Some x)"
proof
  assume "x \<in> set (map snd t)"
  then obtain k where "(k, x) \<in> set t" by auto
  with assms show "\<exists>k. map_of t k = Some x" using map_of_is_SomeI by fastforce
next
  assume "\<exists>k. map_of t k = Some x"
  then obtain k where "(k, x) \<in> set t" using map_of_SomeD by fastforce
  then show "x \<in> set (map snd t)" using image_eqI [of x snd "(k, x)"] by simp
qed

lemma candle_rows_strict:
  assumes "keyed tick_pk (aggregated_ticks db)"
  shows "sorted_wrt (<) (map tr_StartTs (candle_rows db ex sy wid from to))"
proof -
  let ?P = "\<lambda>r. tr_Exchange r = ex \<and> tr_Symbol r = sy \<and> tr_WindowId r = wid \<and> from \<le> tr_StartTs r \<and> tr_EndTs r \<le> to"
  have keys: "map fst t = map (tick_pk \<circ> snd) t" if "keyed tick_pk t" for t
    using that by (auto simp: keyed_def)
  have "distinct (map tick_pk (map snd (aggregated_ticks db)))"
    using assms keys [OF assms] by (simp add: keyed_def)
  then have d: "distinct (map tick_pk (filter ?P (map snd (aggregated_ticks db))))" by (rule distinct_map_filter)
  have "inj_on tr_StartTs (set (filter ?P (map snd (aggregated_ticks db))))"
  proof (rule inj_onI)
    fix x y
    assume xy: "x \<in> set (filter ?P (map snd (aggregated_ticks db)))" "y \<in> set (filter ?P (map snd (aggregated_ticks db)))" "tr_StartTs x = tr_StartTs y"
    then have "tick_pk x = tick_pk y" by (simp add: tick_pk_def)
    with d xy(1,2) show "x = y" by (simp add: distinct_map inj_on_def)
  qed
  with d have "distinct (map tr_StartTs (filter ?P (map snd (aggregated_ticks db))))" by (simp add: distinct_map)
  then have "distinct (map tr_StartTs (candle_rows db ex sy wid from to))" by (simp add: candle_rows_def distinct_map)
  moreover have "sorted (map tr_StartTs (candle_rows db ex sy wid from to))" by (simp add: candle_rows_def)
  ultimately show ?thesis by (simp add: strict_sorted_iff)
qed

text \<open>
  C13. What the persistence service wrote is what the candle endpoint serves: the answer has, in strictly increasing order of
  their start, exactly the stored rows of the exchange, symbol and window that lie in the interval, and a row just written
  under a new key is among them; only if one of these rows has a value that is not finite is there no body.
\<close>

theorem candles_read_back:
  assumes "db_reach db" and "FlushAggregateTicks err rows db = Done db'" and "r \<in> set rows" and "tick_pk r \<notin> dom (map_of (aggregated_ticks db))"
    and "\<forall>r' \<in> set rows. tick_pk r' = tick_pk r \<longrightarrow> r' = r" and "parse (q ''from'') = Some from" and "parse (q ''to'') = Some to"
    and "q ''exchange'' = tr_Exchange r" and "q ''symbol'' = tr_Symbol r" and "q ''window'' = tr_WindowId r" and "from \<le> tr_StartTs r" and "tr_EndTs r \<le> to"
  shows "\<exists>cs. ctl_GetCandles parse db' AllRows q = (if list_all candle_encodes cs then OK cs else NotEncoded) \<and> candle r \<in> set cs \<and> sorted_wrt (<) (map cd_StartTs cs) \<and>
    set cs = candle ` {x. (\<exists>k. map_of (aggregated_ticks db') k = Some x) \<and> tr_Exchange x = tr_Exchange r \<and> tr_Symbol x = tr_Symbol r \<and>
      tr_WindowId x = tr_WindowId r \<and> from \<le> tr_StartTs x \<and> tr_EndTs x \<le> to}"
proof -
  let ?rows = "candle_rows db' (tr_Exchange r) (tr_Symbol r) (tr_WindowId r) from to"
  have k: "keyed tick_pk (aggregated_ticks db')" using ticks_keyed db_reach.tick [OF assms(1,2)] by blast
  have "map_of (aggregated_ticks db') (tick_pk r) = Some r"
  proof -
    have "map_of (map (\<lambda>r. (tick_pk r, r)) rows) (tick_pk r) = Some r" using assms(3,5) by (induction rows) auto
    then show ?thesis using assms(4) by (simp add: FlushAggregateTicks_stores [OF assms(2)] map_of_insert_nothing map_add_def domIff)
  qed
  moreover have m: "x \<in> set (map snd (aggregated_ticks db')) \<longleftrightarrow> (\<exists>k. map_of (aggregated_ticks db') k = Some x)" for x
  proof -
    have "distinct (map fst (aggregated_ticks db'))" using k by (simp add: keyed_def)
    then show ?thesis by (rule in_table)
  qed
  ultimately have "r \<in> set (map snd (aggregated_ticks db'))" by blast
  then have "r \<in> set ?rows" using assms(11,12) by (simp add: candle_rows_def)
  moreover have "ctl_GetCandles parse db' AllRows q =
      (if list_all candle_encodes (map candle ?rows) then OK (map candle ?rows) else NotEncoded)"
    using assms(6-10) by (simp add: ctl_GetCandles_def respond_def svc_GetCandles_def repo_GetCandles_def read_rows_def)
  moreover have "sorted_wrt (<) (map cd_StartTs (map candle ?rows))"
    using candle_rows_strict [OF k] by (simp add: candle_def comp_def)
  moreover have "set ?rows = {x. (\<exists>k. map_of (aggregated_ticks db') k = Some x) \<and> tr_Exchange x = tr_Exchange r \<and> tr_Symbol x = tr_Symbol r \<and>
      tr_WindowId x = tr_WindowId r \<and> from \<le> tr_StartTs x \<and> tr_EndTs x \<le> to}"
    unfolding candle_rows_def set_sort set_filter by (simp only: m)
  ultimately show ?thesis by (intro exI [of _ "map candle ?rows"]) simp
qed

text \<open>
  When the connection breaks while the rows are read, the endpoint answers with the rows so far and status 200: the loops do
  not ask for the error that ended them.
\<close>

theorem broken_query_looks_complete:
  assumes "parse (q ''from'') = Some from" and "parse (q ''to'') = Some to"
  shows "ctl_GetCandles parse db (Broken n) q =
    (let cs = map candle (take n (candle_rows db (q ''exchange'') (q ''symbol'') (q ''window'') from to))
     in if list_all candle_encodes cs then OK cs else NotEncoded)"
  using assms by (simp add: ctl_GetCandles_def respond_def svc_GetCandles_def repo_GetCandles_def read_rows_def Let_def)

definition demo_tick_row :: TickRow where
  "demo_tick_row = the (TickConverter_Convert (\<lambda>_. Some demo_ui_tick) [])"

theorem candles_read_back_witness:
  "\<exists>db' cs. FlushAggregateTicks (\<lambda>_. False) [demo_tick_row] empty_db = Done db' \<and>
     ctl_GetCandles (\<lambda>s. if s = ''0'' then Some 0 else Some 9000) db' AllRows
       (\<lambda>p. if p = ''exchange'' then ''kraken'' else if p = ''symbol'' then ''A'' else if p = ''window'' then ''5s'' else if p = ''from'' then ''0'' else ''9'') = OK cs \<and>
     candle demo_tick_row \<in> set cs"
proof -
  let ?q = "\<lambda>p :: string. if p = ''exchange'' then ''kraken'' else if p = ''symbol'' then ''A'' else if p = ''window'' then ''5s'' else if p = ''from'' then ''0'' else ''9''"
  let ?parse = "\<lambda>s :: string. if s = ''0'' then Some 0 else Some 9000 :: int option"
  obtain db' where w: "FlushAggregateTicks (\<lambda>_. False) [demo_tick_row] empty_db = Done db'" by (simp add: FlushAggregateTicks_def copied_rows)
  have row: "tr_Exchange demo_tick_row = ''kraken''" "tr_Symbol demo_tick_row = ''A''" "tr_WindowId demo_tick_row = ''5s''"
    "tr_StartTs demo_tick_row = 0" "tr_EndTs demo_tick_row = 5000"
    by (simp_all add: demo_tick_row_def TickConverter_Convert_def demo_ui_tick_def UnixMilli_def Let_def)
  from candles_read_back [OF db_reach.empty w, of demo_tick_row ?parse ?q 0 9000]
  obtain cs where cs: "ctl_GetCandles ?parse db' AllRows ?q = (if list_all candle_encodes cs then OK cs else NotEncoded)"
    "candle demo_tick_row \<in> set cs" "set cs \<subseteq> candle ` {x. \<exists>k. map_of (aggregated_ticks db') k = Some x}"
    by (fastforce simp: row empty_db_def)
  have "{x. \<exists>k. map_of (aggregated_ticks db') k = Some x} \<subseteq> {demo_tick_row}"
    by (auto simp: FlushAggregateTicks_stores [OF w] empty_db_def split: if_splits)
  with cs(3) have "set cs \<subseteq> {candle demo_tick_row}" by blast
  moreover have "candle_encodes (candle demo_tick_row)"
    by (simp add: candle_encodes_def candle_def demo_tick_row_def TickConverter_Convert_def demo_ui_tick_def or_new_def zero_pers_price_def
      zero_ohlc_def zero_volume_def Let_def)
  ultimately have "list_all candle_encodes cs" by (auto simp: list_all_iff)
  with cs w show ?thesis by (intro exI [of _ db'] exI [of _ cs]) simp
qed

end
